(* ===== verification/FTL_Prelude.thy ===== *)
theory FTL_Prelude
  imports Main "HOL-Library.Word"
begin

text \<open>
  Shared vocabulary of the development: machine integer types, the exceptions of the C++ code as
  values, the conversions between integer types the code performs implicitly, and the generic
  lemmas on words, lists and maps that the component theories use.
\<close>

unbundle bit_operations_syntax

section \<open>Machine integers\<close>

type_synonym u8 = "8 word"
type_synonym u16 = "16 word"
type_synonym u32 = "32 word"
type_synonym u64 = "64 word"

text \<open>
  Signed C++ integers are modelled by \<^typ>\<open>int\<close>: signed overflow is undefined in C++, so the
  code has a meaning only where no overflow happens. The conversions that do wrap (narrowing to
  \<^verbatim>\<open>int\<close>, \<^verbatim>\<open>int16_t\<close>) are written with the functions below.
\<close>

definition cast_i32 :: "int \<Rightarrow> int" where
  "cast_i32 x = signed_take_bit 31 x"

definition cast_i16 :: "int \<Rightarrow> int" where
  "cast_i16 x = signed_take_bit 15 x"

section \<open>Exceptions\<close>

text \<open>
  \<^verbatim>\<open>FTL_Error(msg)\<close> throws \<^verbatim>\<open>ftl::exception\<close>; the standard library throws its own
  exceptions; loguru's \<^verbatim>\<open>CHECK\<close> aborts the process; an operation C++ gives no meaning to (a shift
  by a negative amount, a read out of range) is \<^term>\<open>Undefined_behaviour\<close>. A computation that can
  fail returns a sum with the failure on the left.
\<close>

datatype exn = FTL_Error string | Std_exception string | Check_failed | Undefined_behaviour

type_synonym 'a res = "exn + 'a"

definition CHECK :: "bool \<Rightarrow> 'a \<Rightarrow> 'a res" where
  "CHECK b x = (if b then Inr x else Inl Check_failed)"

lemma CHECK_Inr [simp]: "CHECK b x = Inr y \<longleftrightarrow> b \<and> x = y"
  by (auto simp: CHECK_def)

fun res_bind :: "'a res \<Rightarrow> ('a \<Rightarrow> 'b res) \<Rightarrow> 'b res" where
  "res_bind (Inl e) f = Inl e"
| "res_bind (Inr x) f = f x"

lemma res_bind_Inr: "res_bind m f = Inr y \<longleftrightarrow> (\<exists>x. m = Inr x \<and> f x = Inr y)"
  by (cases m) auto

text \<open>A computation that may throw but does nothing without a meaning.\<close>

definition defined :: "'a res \<Rightarrow> bool" where
  "defined m \<longleftrightarrow> m \<noteq> Inl Undefined_behaviour"

lemma defined_simps [simp]:
  "defined (Inr x)" "defined (Inl (FTL_Error e))" "defined (Inl (Std_exception e))" "defined (Inl Check_failed)"
  "\<not> defined (Inl Undefined_behaviour)"
  by (simp_all add: defined_def)

lemma defined_bind: "defined m \<Longrightarrow> (\<And>x. m = Inr x \<Longrightarrow> defined (f x)) \<Longrightarrow> defined (res_bind m f)"
  by (cases m) (auto simp: defined_def)

text \<open>\<^verbatim>\<open>1ull << n\<close>: defined for shift amounts from 0 to 63.\<close>

definition shl64 :: "int \<Rightarrow> u64 res" where
  "shl64 n = (if 0 \<le> n \<and> n < 64 then Inr (push_bit (nat n) 1) else Inl Undefined_behaviour)"

section \<open>The msgpack unpacker\<close>

text \<open>
  The operations of \<^verbatim>\<open>msgpack::unpacker\<close> that the code calls: \<^verbatim>\<open>nonparsed_size\<close>, \<^verbatim>\<open>reserve_buffer\<close>,
  \<^verbatim>\<open>buffer_capacity\<close>, copying bytes to \<^verbatim>\<open>buffer\<close> followed by \<^verbatim>\<open>buffer_consumed\<close>, \<^verbatim>\<open>next\<close> and \<^verbatim>\<open>reset\<close>. A
  component that uses them states what it assumes.
\<close>

record ('u, 'o) unpacker =
  un_nonparsed :: "'u \<Rightarrow> nat"
  un_reserve :: "nat \<Rightarrow> 'u \<Rightarrow> 'u"
  un_capacity :: "'u \<Rightarrow> nat"
  un_feed :: "u8 list \<Rightarrow> 'u \<Rightarrow> 'u"
  un_next :: "'u \<Rightarrow> exn + ('o option \<times> 'u)"
  un_reset :: "'u \<Rightarrow> 'u"

section \<open>Decimal output\<close>

text \<open>\<^verbatim>\<open>std::to_string(int)\<close>.\<close>

definition digit_char :: "nat \<Rightarrow> char" where
  "digit_char d = char_of (48 + d)"

fun nat_to_string :: "nat \<Rightarrow> string" where
  "nat_to_string n = (if n < 10 then [digit_char n] else nat_to_string (n div 10) @ [digit_char (n mod 10)])"

declare nat_to_string.simps [simp del]

definition int_to_string :: "int \<Rightarrow> string" where
  "int_to_string i = (if i < 0 then CHR ''-'' # nat_to_string (nat (- i)) else nat_to_string (nat i))"

section \<open>Strings and bytes\<close>

text \<open>The bytes of a \<^verbatim>\<open>std::string\<close>.\<close>

definition str_bytes :: "string \<Rightarrow> u8 list" where
  "str_bytes s = map (\<lambda>c. of_nat (of_char c)) s"

definition bytes_str :: "u8 list \<Rightarrow> string" where
  "bytes_str bs = map (\<lambda>b. char_of (unat b)) bs"

lemma bytes_str_bytes [simp]: "bytes_str (str_bytes s) = s"
proof -
  have "unat (of_nat (of_char c) :: u8) = of_char c" for c
    by (simp add: unsigned_of_nat take_bit_eq_mod)
  then show ?thesis by (simp add: bytes_str_def str_bytes_def comp_def)
qed

section \<open>Collections of facts\<close>

named_theorems frameid_simps \<open>packing and unpacking of frame identifiers\<close>
named_theorems stream_simps \<open>field by field effect of the stream operations\<close>
named_theorems inv_intros \<open>preservation of the component invariants\<close>

section \<open>Words\<close>

lemma cast_i32_small: "0 \<le> i \<Longrightarrow> i < 2 ^ 31 \<Longrightarrow> cast_i32 i = i"
  by (simp add: cast_i32_def signed_take_bit_int_eq_self_iff)

lemma unat_and_mask_le: "unat (x AND y) \<le> unat (y :: 'a::len word)"
  using word_and_le1 [of x y] by (simp add: word_le_nat_alt)

lemma unat_u8_less [simp]: "unat (x :: u8) < 256"
  using unsigned_less [of x, where 'a = nat] by simp

lemma uint_u8_less [simp]: "uint (x :: u8) < 256"
  using uint_lt2p [of x] by simp

lemma bit_numeral_masks [simp]:
  "bit (255 :: int) n \<longleftrightarrow> n < 8"
  "bit (16777215 :: int) n \<longleftrightarrow> n < 24"
  using bit_mask_iff [of 8 n, where 'a = int] bit_mask_iff [of 24 n, where 'a = int]
  by (auto simp: mask_eq_exp_minus_1)

lemma u64_split_bytes:
  fixes n :: u64
  shows "n = (push_bit 56 (ucast (ucast (drop_bit 56 n) :: u8))
     OR push_bit 48 (ucast (ucast (drop_bit 48 n) :: u8))
     OR push_bit 40 (ucast (ucast (drop_bit 40 n) :: u8))
     OR push_bit 32 (ucast (ucast (drop_bit 32 n) :: u8))
     OR push_bit 24 (ucast (ucast (drop_bit 24 n) :: u8))
     OR push_bit 16 (ucast (ucast (drop_bit 16 n) :: u8))
     OR push_bit 8 (ucast (ucast (drop_bit 8 n) :: u8))
     OR ucast (ucast n :: u8))" (is "n = ?r")
proof (rule bit_word_eqI)
  fix i assume i: "i < LENGTH(64)"
  consider "i < 8" | "8 \<le> i" "i < 16" | "16 \<le> i" "i < 24" | "24 \<le> i" "i < 32"
    | "32 \<le> i" "i < 40" | "40 \<le> i" "i < 48" | "48 \<le> i" "i < 56" | "56 \<le> i" "i < 64"
    using i by fastforce
  then show "bit n i = bit ?r i"
    by cases (simp_all add: bit_simps less_diff_conv2)
qed

lemma u16_split_bytes:
  fixes n :: u64
  assumes "n < 65536"
  shows "n = push_bit 8 (ucast (ucast (drop_bit 8 n) :: u8)) OR ucast (ucast n :: u8)" (is "n = ?r")
proof (rule bit_word_eqI)
  fix i assume i: "i < LENGTH(64)"
  have "uint n < 65536"
    using assms by (simp add: word_less_def)
  then have "take_bit 16 n = n"
    by (simp add: word_uint_eq_iff unsigned_take_bit_eq take_bit_int_eq_self_iff)
  then have hi: "16 \<le> i \<Longrightarrow> \<not> bit n i"
    by (metis bit_take_bit_iff linorder_not_less)
  consider "i < 8" | "8 \<le> i" "i < 16" | "16 \<le> i" by linarith
  then show "bit n i = bit ?r i"
    using i hi by cases (auto simp: bit_simps)
qed

section \<open>Lists and maps\<close>

lemma fold_insert_filter:
  "fold (\<lambda>i r. if P i then insert i r else r) xs S = S \<union> {x \<in> set xs. P x}"
  by (induction xs arbitrary: S) auto

lemma inj_on_map_updI:
  assumes "inj_on m (dom m)" and "\<And>k'. m k' \<noteq> Some v"
  shows "inj_on (m(k \<mapsto> v)) (dom (m(k \<mapsto> v)))"
  using assms by (auto simp: inj_on_def dom_def)

lemma length_filter_less_iff:
  "length (filter P xs) < length xs \<longleftrightarrow> (\<exists>x \<in> set xs. \<not> P x)"
  by (induction xs) (auto simp: le_imp_less_Suc)

end
