(* ===== verification/FTL_Packet.thy ===== *)
theory FTL_Packet
  imports FTL_Prelude
begin

text \<open>
  The data of the protocol: frame identifiers (\<^verbatim>\<open>frameid.hpp\<close>), the flag and version
  constants, the stream packet and the data packet (\<^verbatim>\<open>packet.hpp\<close>), requests
  (\<^verbatim>\<open>streams.hpp\<close>), the codec and error enumerations.
\<close>

section \<open>Frame identifiers\<close>

text \<open>\<^verbatim>\<open>struct FrameID\<close> is one \<^verbatim>\<open>uint32_t\<close> with an implicit conversion to it.\<close>

type_synonym FrameID = u32

definition mk_FrameID :: "u32 \<Rightarrow> u32 \<Rightarrow> FrameID" where
  "mk_FrameID fs s = push_bit 8 fs + (s AND 0xff)"

definition frameset :: "FrameID \<Rightarrow> u32" where
  "frameset i = drop_bit 8 i"

definition source :: "FrameID \<Rightarrow> u32" where
  "source i = i AND 0xff"

section \<open>Constants\<close>

definition kFlagRequest :: u8 where "kFlagRequest = 0x01"
definition kFlagCompleted :: u8 where "kFlagCompleted = 0x02"
definition kFlagReset :: u8 where "kFlagReset = 0x04"
definition kFlagFull :: u8 where "kFlagFull = 0x04"
definition kFlagOutOfBand :: u8 where "kFlagOutOfBand = 0x08"
definition kFlagEphemeralChannel :: u8 where "kFlagEphemeralChannel = 0x10"
definition kAllFrames :: u8 where "kAllFrames = 255"
definition kAllFramesets :: u8 where "kAllFramesets = 255"
definition kCurrentFTLVersion :: u8 where "kCurrentFTLVersion = 5"

definition kStreamCap_Static :: u32 where "kStreamCap_Static = 0x01"
definition kStreamCap_Recorded :: u32 where "kStreamCap_Recorded = 0x02"
definition kStreamCap_NewConnection :: u32 where "kStreamCap_NewConnection = 0x04"

section \<open>Channels, codecs, errors\<close>

text \<open>
  \<^verbatim>\<open>enum struct Channel : int\<close>: any \<^verbatim>\<open>int\<close> is a value of the type (the code casts
  integers to it), several enumerators share a value, so a channel is its integer. The table of
  enumerators is in \<^verbatim>\<open>FTL_Channels\<close>.
\<close>

type_synonym Channel = int

definition kNone :: Channel where "kNone = -1"
definition kColour :: Channel where "kColour = 0"
definition kEndFrame :: Channel where "kEndFrame = 2048"

type_synonym Codec = u8

definition codec_kInvalid :: Codec where "codec_kInvalid = 254"
definition codec_kAny :: Codec where "codec_kAny = 255"

datatype Error = kNoError | kUnknown | kPacketFailure | kDispatchFailed | kMissingHandshake
  | kRPCResponse | kSocketError | kBufferSize | kReconnectionFailed | kBadHandshake
  | kConnectionFailed | kSelfConnect | kListen | kURIAlreadyExists | kURIDoesNotExist | kBadURI
  | kBadVersion | kBandwidth

section \<open>Packets\<close>

text \<open>The union of \<^verbatim>\<open>dataFlags\<close> and \<^verbatim>\<open>packet_count\<close> is one byte, read under either name.\<close>

record DataPacket =
  codec :: Codec
  reserved :: u8
  frame_count :: u8
  bitrate :: u8
  dataFlags :: u8
  data :: "u8 list"

abbreviation packet_count :: "'a DataPacket_scheme \<Rightarrow> u8" where
  "packet_count \<equiv> dataFlags"

record StreamPacket =
  version :: int
  timestamp :: int
  streamID :: u8
  frame_number :: u8
  channel :: Channel
  flags :: u8
  localTimestamp :: int
  hint_capability :: u32
  hint_source_total :: u64
  retry_count :: int
  hint_peerid :: u32

definition default_DataPacket :: DataPacket where
  "default_DataPacket = \<lparr>codec = codec_kInvalid, reserved = 0, frame_count = 1, bitrate = 0,
     dataFlags = 0, data = []\<rparr>"

definition frameNumber :: "StreamPacket \<Rightarrow> int" where
  "frameNumber p = (if version p \<ge> 4 then uint (frame_number p) else uint (streamID p))"

definition frameSetID :: "StreamPacket \<Rightarrow> u64" where
  "frameSetID p = (if version p \<ge> 4 then ucast (streamID p) else 0)"

type_synonym PacketPair = "StreamPacket \<times> DataPacket"

text \<open>\<^verbatim>\<open>FrameID(spkt.streamID, spkt.frame_number)\<close>, used by every stream implementation.\<close>

definition packet_FrameID :: "StreamPacket \<Rightarrow> FrameID" where
  "packet_FrameID p = mk_FrameID (ucast (streamID p)) (ucast (frame_number p))"

record Request =
  req_id :: FrameID
  req_channel :: Channel
  req_bitrate :: int
  req_count :: int
  req_codec :: Codec

section \<open>Properties of frame identifiers\<close>

lemma mk_FrameID_or: "mk_FrameID fs s = push_bit 8 fs OR (s AND 0xff)"
proof -
  have "push_bit 8 fs AND (s AND 0xff) = 0"
    by (rule bit_word_eqI) (auto simp: bit_simps)
  then show ?thesis
    by (simp add: mk_FrameID_def disjunctive_add_eq_or)
qed

lemma source_mk [frameid_simps]: "source (mk_FrameID fs s) = s AND 0xff"
  by (rule bit_word_eqI) (auto simp: source_def mk_FrameID_or bit_simps)

lemma frameset_mk [frameid_simps]: "frameset (mk_FrameID fs s) = fs AND 0xffffff"
  by (rule bit_word_eqI) (auto simp: frameset_def mk_FrameID_or bit_simps)

lemma mk_frameset_source [frameid_simps]: "mk_FrameID (frameset i) (source i) = i"
  by (rule bit_word_eqI) (auto simp: source_def frameset_def mk_FrameID_or bit_simps)

lemma FrameID_eqI: "frameset i = frameset j \<Longrightarrow> source i = source j \<Longrightarrow> i = j"
  by (metis mk_frameset_source)

text \<open>
  A frame id packs a 24 bit frameset number and an 8 bit source number. Unpacking what was packed
  gives the numbers back modulo those widths, exactly for numbers that fit, and packing what was
  unpacked gives the id back, so ids and (frameset, source) pairs correspond one to one.
\<close>

theorem frameid_pack_unpack:
  "uint (frameset (mk_FrameID fs s)) = uint fs mod 2 ^ 24 \<and> uint (source (mk_FrameID fs s)) = uint s mod 2 ^ 8
   \<and> mk_FrameID (frameset i) (source i) = i
   \<and> (frameset i = frameset j \<and> source i = source j \<longleftrightarrow> i = j)"
proof -
  have "uint (x AND mask n) = uint x mod 2 ^ n" for x :: u32 and n
    by (simp add: take_bit_eq_mask [symmetric] unsigned_take_bit_eq flip: take_bit_eq_mod)
  from this [of fs 24] this [of s 8] show ?thesis
    using FrameID_eqI [of i j] by (auto simp: frameid_simps mask_eq_exp_minus_1)
qed

end
