(* ===== verification/FTL_Channels.thy ===== *)
theory FTL_Channels
  imports FTL_Packet
begin

text \<open>
  Channels: the enumerators of \<^verbatim>\<open>channels.hpp\<close>, the name and type table of
  \<^verbatim>\<open>channelUtils.cpp\<close> with its lookups, the classification of \<^verbatim>\<open>channelUtils.hpp\<close>, and the
  set operators of \<^verbatim>\<open>channelSet.cpp\<close>. An \<^verbatim>\<open>unordered_map\<close> or \<^verbatim>\<open>unordered_set\<close> is iterated
  in an order the standard leaves open, so that order is an argument (a list) of the definitions
  that iterate.
\<close>

section \<open>The enumerators\<close>

definition channel_enum :: "(string \<times> Channel) list" where
  "channel_enum = [
    (''kMultiData'', -7),
    (''kChannelMeta'', -6),
    (''kFrameStart'', -5),
    (''kFrameEnd'', -4),
    (''kRequest'', -3),
    (''kStreamMeta'', -2),
    (''kNone'', -1),
    (''kColour'', 0),
    (''kLeft'', 0),
    (''kDepth'', 1),
    (''kRight'', 2),
    (''kColour2'', 2),
    (''kDepth2'', 3),
    (''kDeviation'', 4),
    (''kScreen'', 4),
    (''kNormals'', 5),
    (''kWeights'', 6),
    (''kConfidence'', 7),
    (''kContribution'', 7),
    (''kEnergyVector'', 8),
    (''kFlow'', 9),
    (''kFlow2'', 10),
    (''kEnergy'', 10),
    (''kMask'', 11),
    (''kDensity'', 12),
    (''kSupport1'', 13),
    (''kSupport2'', 14),
    (''kSegmentation'', 15),
    (''kNormals2'', 16),
    (''kUNUSED1'', 17),
    (''kDisparity'', 18),
    (''kSmoothing'', 19),
    (''kUNUSED2'', 20),
    (''kOverlay'', 21),
    (''kGroundTruth'', 22),
    (''kAudioMono'', 32),
    (''kAudioStereo'', 33),
    (''kAudio'', 33),
    (''kConfiguration'', 64),
    (''kSettings1'', 65),
    (''kCalibration'', 65),
    (''kPose'', 66),
    (''kSettings2'', 67),
    (''kCalibration2'', 67),
    (''kIndex'', 68),
    (''kControl'', 69),
    (''kSettings3'', 70),
    (''kMetaData'', 71),
    (''kCapabilities'', 72),
    (''kCalibrationData'', 73),
    (''kThumbnail'', 74),
    (''kOverlaySelect'', 75),
    (''kStartTime'', 76),
    (''kUser'', 77),
    (''kName'', 78),
    (''kTags'', 79),
    (''KDescription'', 80),
    (''kSelectPoint'', 81),
    (''kStereoPose'', 82),
    (''kAccelerometer'', 90),
    (''kGyroscope'', 91),
    (''kBrightness'', 100),
    (''kContrast'', 101),
    (''kExposure'', 102),
    (''kGain'', 103),
    (''kWhiteBalance'', 104),
    (''kAutoExposure'', 105),
    (''kAutoWhiteBalance'', 106),
    (''kCameraTemperature'', 107),
    (''kRS2_LaserPower'', 150),
    (''kRS2_MinDistance'', 151),
    (''kRS2_MaxDistance'', 152),
    (''kRS2_InterCamSync'', 153),
    (''kRS2_PostSharpening'', 154),
    (''kRenderer_CameraType'', 400),
    (''kRenderer_Visualisation'', 401),
    (''kRenderer_Engine'', 402),
    (''kRenderer_FPS'', 403),
    (''kRenderer_View'', 404),
    (''kRenderer_Channel'', 405),
    (''kRenderer_Opacity'', 406),
    (''kRenderer_Sources'', 407),
    (''kRenderer_Projection'', 408),
    (''kRenderer_Background'', 409),
    (''kRenderer_ShowBadColour'', 420),
    (''kRenderer_CoolEffect'', 421),
    (''kRenderer_EffectColour'', 422),
    (''kRenderer_ShowColourWeights'', 423),
    (''kRenderer_TriangleLimit'', 424),
    (''kRenderer_DisconDisparities'', 425),
    (''kRenderer_NormalWeightColour'', 426),
    (''kRenderer_ChannelWeights'', 427),
    (''kRenderer_AccumFunc'', 428),
    (''kRenderer_Lights'', 429),
    (''kRenderer_Debug'', 430),
    (''kOperators'', 500),
    (''kClip_Box'', 510),
    (''kClip_Enabled'', 511),
    (''kClip_Colour'', 512),
    (''kFusion_Smoothing'', 520),
    (''kFusion_Iterations'', 521),
    (''kFusion_Carving'', 522),
    (''kFusion_ShowChanges'', 523),
    (''kMLS_DisconPixels'', 540),
    (''kMLS_ColourSmoothing'', 541),
    (''kMLS_Iterations'', 542),
    (''kMLS_Radius'', 543),
    (''kMLS_WindowSize'', 544),
    (''kMLS_MergeCorresponding'', 545),
    (''kMLS_Merge'', 546),
    (''kMLS_ConfidenceCull'', 547),
    (''kMLS_ColourSmooth2'', 548),
    (''kMLS_SpatialSmooth'', 549),
    (''kMLS_SubPixel'', 550),
    (''kMLS_P1'', 551),
    (''kMLS_P2'', 552),
    (''kMLS_ShowConsistency'', 553),
    (''kMLS_ShowAdjustment'', 554),
    (''kMask_DisconPixels'', 560),
    (''kMask_DisconThreshold'', 561),
    (''kMask_NoiseThreshold'', 562),
    (''kMask_AreaMax'', 563),
    (''kMask_BorderRect'', 564),
    (''kMask_MaskID'', 565),
    (''kMask_Radius'', 566),
    (''kMask_Invert'', 570),
    (''kAruco_Dictionary'', 580),
    (''kAruco_EstimatePose'', 581),
    (''kAruco_MarkerSize'', 582),
    (''kPoser_Identity'', 590),
    (''kPoser_Locked'', 591),
    (''kPoser_Inverse'', 592),
    (''kSGMResolution'', 600),
    (''kStereoRectify'', 601),
    (''kStereoRightPose'', 602),
    (''kStereoRectifyCubic'', 603),
    (''kVideoOffsetZ'', 604),
    (''kVideoSize'', 605),
    (''kWeights_DisconPixels'', 610),
    (''kWeights_DisconThreshold'', 611),
    (''kWeights_NoiseThreshold'', 612),
    (''kWeights_AreaMax'', 613),
    (''kWeights_UseDepth'', 614),
    (''kWeights_UseColour'', 615),
    (''kWeights_UseNoise'', 616),
    (''kWeights_UseNormals'', 617),
    (''kCross_UseDiscontinuity'', 620),
    (''kCross_VMax'', 621),
    (''kCross_HMax'', 622),
    (''kCross_Symmetric'', 623),
    (''kCross_Tau'', 624),
    (''kData'', 2048),
    (''kEndFrame'', 2048),
    (''kFaces'', 2049),
    (''kTransforms'', 2050),
    (''kShapes3D'', 2051),
    (''kMessages'', 2052),
    (''kTouch'', 2053),
    (''kPipelines'', 2054),
    (''kReaction'', 2055)]"

section \<open>Classification\<close>

definition isVideo :: "Channel \<Rightarrow> bool" where
  "isVideo c \<longleftrightarrow> c < 32"

definition isAudio :: "Channel \<Rightarrow> bool" where
  "isAudio c \<longleftrightarrow> c \<ge> 32 \<and> c < 64"

definition isData :: "Channel \<Rightarrow> bool" where
  "isData c \<longleftrightarrow> c \<ge> 64"

definition isPersistent :: "Channel \<Rightarrow> bool" where
  "isPersistent c \<longleftrightarrow> c \<ge> 64"

definition isFloatChannel :: "Channel \<Rightarrow> bool" where
  "isFloatChannel c \<longleftrightarrow> c \<in> {22, 1, 7, 9, 12, 10}"

section \<open>Names and OpenCV types\<close>

definition CV_MAKETYPE :: "int \<Rightarrow> int \<Rightarrow> int" where
  "CV_MAKETYPE depth cn = (depth AND 7) + push_bit 3 (cn - 1)"

definition CV_8U :: int where "CV_8U = 0"
definition CV_16S :: int where "CV_16S = 3"
definition CV_32F :: int where "CV_32F = 5"
definition CV_8UC4 :: int where "CV_8UC4 = CV_MAKETYPE CV_8U 4"
definition CV_32FC4 :: int where "CV_32FC4 = CV_MAKETYPE CV_32F 4"

definition info :: "(Channel \<times> string \<times> int) list" where
  "info = [
    (0, ''Left'', CV_8UC4),
    (1, ''Depth'', CV_32F),
    (2, ''Right'', CV_8UC4),
    (3, ''Depth Right'', CV_32F),
    (4, ''Deviation'', CV_32F),
    (5, ''Normals'', CV_32FC4),
    (6, ''Weights'', CV_32F),
    (7, ''Confidence'', CV_32F),
    (8, ''Energy Vector'', CV_32FC4),
    (9, ''Flow'', CV_32F),
    (10, ''Energy'', CV_32F),
    (11, ''Mask'', CV_8U),
    (12, ''Density'', CV_32F),
    (13, ''Support1'', CV_8UC4),
    (14, ''Support2'', CV_8UC4),
    (15, ''Segmentation'', CV_8U),
    (16, ''Normals Right'', CV_32FC4),
    (17, ''Unused'', CV_8UC4),
    (18, ''Disparity'', CV_16S),
    (19, ''Smoothing'', CV_32F),
    (20, ''Unused'', CV_8UC4),
    (21, ''Overlay'', CV_8UC4),
    (22, ''Ground Truth'', CV_32F),
    (32, ''Audio (Mono)'', -1),
    (33, ''Audio (Stereo)'', -1),
    (64, ''Configuration'', -1),
    (65, ''Calibration'', -1),
    (66, ''Pose'', -1),
    (67, ''CalibrationHR'', -1),
    (71, ''Meta Data'', -1),
    (72, ''Capabilities'', -1),
    (73, ''CalibrationData'', -1),
    (74, ''Thumbnail'', -1),
    (75, ''OverlaySelect'', -1),
    (76, ''StartTime'', -1),
    (77, ''User'', -1),
    (78, ''Name'', -1),
    (79, ''Tags'', -1),
    (80, ''Decription'', -1),
    (81, ''SelectPoint'', -1),
    (82, ''StereoPose'', -1),
    (90, ''Accelerometer'', -1),
    (91, ''Gyroscope'', -1),
    (100, ''Brightness'', -1),
    (101, ''Contrast'', -1),
    (102, ''Exposure'', -1),
    (103, ''Gain'', -1),
    (104, ''WhiteBalance'', -1),
    (105, ''AutoExposure'', -1),
    (106, ''AutoWhiteBalance'', -1),
    (107, ''CameraTemperature'', -1),
    (150, ''RS2LaserPower'', -1),
    (151, ''RS2MinDistance'', -1),
    (152, ''RS2MaxDistance'', -1),
    (153, ''RS2InterCamSync'', -1),
    (154, ''RS2PostSharpening'', -1),
    (400, ''RenderCameraType'', -1),
    (401, ''RenderVisualisation'', -1),
    (402, ''RenderEngine'', -1),
    (403, ''RenderFPS'', -1),
    (404, ''RenderView'', -1),
    (405, ''RenderChannel'', -1),
    (406, ''RenderOpacity'', -1),
    (407, ''RenderSources'', -1),
    (408, ''RenderProjection'', -1),
    (409, ''RenderBackground'', -1),
    (420, ''RenderShowBadColour'', -1),
    (421, ''RenderCoolEffect'', -1),
    (422, ''RenderEffectColour'', -1),
    (423, ''RenderShowColourWeights'', -1),
    (424, ''RenderTriangleLimit'', -1),
    (425, ''RenderDisconDisparities'', -1),
    (426, ''RenderNormalWeightColour'', -1),
    (427, ''RenderChannelWeights'', -1),
    (428, ''RenderAccumFunc'', -1),
    (429, ''RenderLights'', -1),
    (430, ''RenderDebug'', -1),
    (500, ''Operators'', -1),
    (510, ''ClipBox'', -1),
    (511, ''ClipEnabled'', -1),
    (512, ''ClipColour'', -1),
    (520, ''FusionSmoothing'', -1),
    (521, ''FusionIterations'', -1),
    (522, ''FusionCarving'', -1),
    (523, ''FusionShowChanges'', -1),
    (540, ''MLSDisconPixels'', -1),
    (541, ''MLSColourSmoothing'', -1),
    (542, ''MLSIterations'', -1),
    (543, ''MLSRadius'', -1),
    (544, ''MLSWindowSize'', -1),
    (545, ''MLSMergeCorresponding'', -1),
    (546, ''MLSMerge'', -1),
    (547, ''MLSConfidenceCull'', -1),
    (548, ''MLSColourSmooth2'', -1),
    (549, ''MLSSpatialSmooth'', -1),
    (550, ''MLSSubPixel'', -1),
    (551, ''MLSP1'', -1),
    (552, ''MLSP2'', -1),
    (553, ''MLSShowConsistency'', -1),
    (554, ''MLSShowAdjustment'', -1),
    (560, ''MaskDisconPixels'', -1),
    (561, ''MaskDisconThreshold'', -1),
    (562, ''MaskNoiseThreshold'', -1),
    (563, ''MaskAreaMax'', -1),
    (564, ''MaskBorderRectangle'', -1),
    (565, ''MaskID'', -1),
    (566, ''MaskRadius'', -1),
    (570, ''MaskInvert'', -1),
    (580, ''ArucoDictionary'', -1),
    (581, ''ArucoEstimatePose'', -1),
    (582, ''ArucoMarkerSize'', -1),
    (590, ''PoserIdentity'', -1),
    (591, ''PoserLocked'', -1),
    (592, ''PoserInverse'', -1),
    (600, ''SGMResolution'', -1),
    (601, ''StereoRectify'', -1),
    (602, ''StereoRightPose'', -1),
    (603, ''StereoRectifyCubic'', -1),
    (604, ''VideoOffsetZ'', -1),
    (605, ''VideoSize'', -1),
    (610, ''WeightsDisconPixels'', -1),
    (611, ''WeightsDisconThreshold'', -1),
    (612, ''WeightsNoiseThreshold'', -1),
    (613, ''WeightsAreaMax'', -1),
    (614, ''WeightsUseDepth'', -1),
    (615, ''WeightsUseColour'', -1),
    (616, ''WeightsUseNoise'', -1),
    (617, ''WeightsUseNormals'', -1),
    (620, ''CrossUseDiscontinuity'', -1),
    (621, ''CrossVMax'', -1),
    (622, ''CrossHMax'', -1),
    (623, ''CrossSymmetric'', -1),
    (624, ''CrossTau'', -1),
    (2048, ''Generic Data'', -1),
    (2049, ''Faces'', -1),
    (2051, ''Shapes 3D'', -1),
    (2052, ''Messages'', -1),
    (2053, ''Touch'', -1)]"

text \<open>\<^verbatim>\<open>indexNames\<close> assigns \<^verbatim>\<open>result[name] = channel\<close> for every entry, in iteration order.\<close>

fun indexNames :: "(Channel \<times> string \<times> int) list \<Rightarrow> string \<rightharpoonup> Channel" where
  "indexNames [] = Map.empty"
| "indexNames ((c, n, t) # es) = indexNames es ++ [n \<mapsto> c]"

text \<open>
  The equation above has the first entry overwrite the others; applied to the reversed iteration
  sequence it is the loop, where the last assignment stands.
\<close>

definition nameIndex :: "(Channel \<times> string \<times> int) list \<Rightarrow> string \<rightharpoonup> Channel" where
  "nameIndex iter = indexNames (rev iter)"

definition name :: "Channel \<Rightarrow> string" where
  "name c = (if c = kNone then ''None''
     else case map_of info c of
       Some (n, t) \<Rightarrow> n
     | None \<Rightarrow> ''Unknown('' @ int_to_string c @ '')'')"

definition fromName :: "(Channel \<times> string \<times> int) list \<Rightarrow> string \<Rightarrow> Channel" where
  "fromName iter n = (case nameIndex iter n of Some c \<Rightarrow> c | None \<Rightarrow> kNone)"

definition channel_type :: "Channel \<Rightarrow> int" where
  "channel_type c = (if c = kNone then -1
     else case map_of info c of Some (n, t) \<Rightarrow> t | None \<Rightarrow> -1)"

section \<open>Channel sets\<close>

definition cs_and :: "Channel list \<Rightarrow> Channel set \<Rightarrow> Channel set" where
  "cs_and a b = fold (\<lambda>i r. if i \<in> b then insert i r else r) a {}"

definition cs_or :: "Channel list \<Rightarrow> Channel list \<Rightarrow> Channel set" where
  "cs_or a b = fold insert b (fold insert a {})"

definition cs_minus :: "Channel list \<Rightarrow> Channel set \<Rightarrow> Channel set" where
  "cs_minus a b = fold (\<lambda>i r. if i \<notin> b then insert i r else r) a {}"

fun cs_any_missing :: "Channel list \<Rightarrow> Channel set \<Rightarrow> bool" where
  "cs_any_missing [] b = False"
| "cs_any_missing (i # is) b = (if i \<notin> b then True else cs_any_missing is b)"

definition cs_neq :: "Channel list \<Rightarrow> Channel list \<Rightarrow> bool" where
  "cs_neq a b = (if length a \<noteq> length b then True else cs_any_missing a (set b))"

section \<open>The table is a function of the channel, and of the name but for one\<close>

text \<open>
  Distinctness of 136 strings is checked through a hash that happens to separate them: sorting the
  hash values and comparing neighbours is linear where comparing all pairs of strings is not.
\<close>

fun increasing :: "int list \<Rightarrow> bool" where
  "increasing (x # y # ys) = (x < y \<and> increasing (y # ys))"
| "increasing _ = True"

definition name_hash :: "string \<Rightarrow> int" where
  "name_hash s = foldl (\<lambda>a c. (a * 31 + of_char c) mod 9973) 0 s"

definition unique_entries :: "(Channel \<times> string \<times> int) list" where
  "unique_entries = filter (\<lambda>e. fst (snd e) \<noteq> ''Unused'') info"

lemma increasing_less: "increasing (x # xs) \<Longrightarrow> y \<in> set xs \<Longrightarrow> x < y"
  by (induction xs arbitrary: x) fastforce+

lemma increasing_Cons: "increasing (x # xs) \<Longrightarrow> increasing xs"
  by (cases xs) auto

lemma increasing_distinct: "increasing xs \<Longrightarrow> distinct xs"
proof (induction xs)
  case (Cons x xs)
  then show ?case
    using increasing_less [of x xs x] increasing_Cons [of x xs] by auto
qed simp

lemma info_keys_distinct: "distinct (map fst info)"
  by (rule increasing_distinct) code_simp

lemma unique_names_distinct: "distinct (map (\<lambda>e. name_hash (fst (snd e))) unique_entries)"
proof -
  have "increasing (sort (map (\<lambda>e. name_hash (fst (snd e))) unique_entries))"
    by code_simp
  then have "distinct (sort (map (\<lambda>e. name_hash (fst (snd e))) unique_entries))"
    by (rule increasing_distinct)
  then show ?thesis by simp
qed

lemma unused_channels: "(c, ''Unused'', t) \<in> set info \<Longrightarrow> c \<in> {17, 20}"
  by (auto simp: info_def)

lemma used_names: "(c, n, t) \<in> set info \<Longrightarrow> c \<notin> {17, 20} \<Longrightarrow> n \<noteq> ''Unused''"
  using unused_channels by blast

lemma info_name_unique:
  assumes "(c, n, t) \<in> set info" "(c', n, t') \<in> set info" "n \<noteq> ''Unused''"
  shows "c = c'"
proof -
  have mem: "(c, n, t) \<in> set unique_entries" "(c', n, t') \<in> set unique_entries"
    using assms by (simp_all add: unique_entries_def)
  have "inj_on (\<lambda>e. name_hash (fst (snd e))) (set unique_entries)"
    using unique_names_distinct by (simp add: distinct_map)
  then have "(c, n, t) = (c', n, t')"
    by (rule inj_onD) (use mem in simp_all)
  then show ?thesis by simp
qed

lemma info_lookup: "(c, n, t) \<in> set info \<Longrightarrow> map_of info c = Some (n, t)"
  using info_keys_distinct by (simp add: map_of_is_SomeI)

lemma info_not_None: "(c, n, t) \<in> set info \<Longrightarrow> c \<noteq> kNone"
  by (auto simp: info_def kNone_def)

lemma indexNames_SomeD: "indexNames es n = Some c \<Longrightarrow> \<exists>t. (c, n, t) \<in> set es"
  by (induction es rule: indexNames.induct) (auto simp: map_add_def split: if_splits)

lemma indexNames_SomeI: "(c, n, t) \<in> set es \<Longrightarrow> \<exists>c'. indexNames es n = Some c'"
  by (induction es rule: indexNames.induct) (auto simp: map_add_def)

text \<open>
  Looking a channel up by its own name gives the channel back. For every entry
  \<open>(c, n, t)\<close> of the channel table other than the two entries that share the name
  \<^verbatim>\<open>Unused\<close> (channels 17 and 20), \<^verbatim>\<open>name(c)\<close> is \<open>n\<close>, \<^verbatim>\<open>type(c)\<close> is \<open>t\<close> and
  \<^verbatim>\<open>fromName(n)\<close> is \<open>c\<close>, whatever order the standard library iterates the table in when
  the name index is built.
\<close>

theorem fromName_name:
  assumes "set iter = set info" and "(c, n, t) \<in> set info" and "c \<notin> {17, 20}"
  shows "name c = n \<and> channel_type c = t \<and> fromName iter (name c) = c"
proof -
  have lk: "name c = n" "channel_type c = t"
    using info_lookup [OF assms(2)] info_not_None [OF assms(2)]
    by (simp_all add: name_def channel_type_def)
  obtain c' where c': "nameIndex iter n = Some c'"
    using indexNames_SomeI [of c n t "rev iter"] assms(1,2) by (auto simp: nameIndex_def)
  then obtain t' where "(c', n, t') \<in> set info"
    using indexNames_SomeD [of "rev iter" n c'] assms(1) by (auto simp: nameIndex_def)
  then have "c' = c"
    using info_name_unique [OF _ assms(2)] used_names [OF assms(2,3)] by simp
  then show ?thesis
    using lk c' by (simp add: fromName_def)
qed

theorem fromName_name_witness:
  "name 2048 = ''Generic Data'' \<and> channel_type 2048 = -1 \<and> fromName (rev info) (name 2048) = 2048"
proof (rule fromName_name)
  show "set (rev info) = set info" by simp
qed (simp_all add: info_def)

lemma cs_and_eq: "cs_and a b = set a \<inter> b"
  by (auto simp: cs_and_def fold_insert_filter)

lemma fold_insert_eq: "fold insert xs S = set xs \<union> S"
  by (induction xs arbitrary: S) auto

lemma cs_or_eq: "cs_or a b = set a \<union> set b"
  by (auto simp: cs_or_def fold_insert_eq)

lemma cs_minus_eq: "cs_minus a b = set a - b"
  by (auto simp: cs_minus_def fold_insert_filter)

lemma cs_any_missing_iff: "cs_any_missing a b \<longleftrightarrow> \<not> set a \<subseteq> b"
  by (induction a) auto

text \<open>
  The channel set operators are the mathematical ones: for any iteration sequences \<open>a\<close>
  and \<open>b\<close> of two sets (no element twice), \<^verbatim>\<open>&\<close>, \<^verbatim>\<open>|\<close> and \<^verbatim>\<open>-\<close> are intersection, union
  and difference, and \<^verbatim>\<open>!=\<close>, which compares sizes and then looks for one missing element, is
  exactly inequality of the sets.
\<close>

theorem channel_set_operators:
  assumes "distinct a" and "distinct b"
  shows "cs_and a (set b) = set a \<inter> set b \<and> cs_or a b = set a \<union> set b
    \<and> cs_minus a (set b) = set a - set b \<and> (cs_neq a b \<longleftrightarrow> set a \<noteq> set b)"
proof -
  have "cs_neq a b \<longleftrightarrow> set a \<noteq> set b"
  proof (cases "length a = length b")
    case True
    then have "card (set a) = card (set b)"
      using assms by (simp add: distinct_card)
    then show ?thesis
      using True card_subset_eq [of "set b" "set a"] by (auto simp: cs_neq_def cs_any_missing_iff)
  next
    case False
    then have "set a \<noteq> set b"
      using assms by (metis distinct_card)
    then show ?thesis
      using False by (simp add: cs_neq_def)
  qed
  then show ?thesis
    by (simp add: cs_and_eq cs_or_eq cs_minus_eq)
qed

theorem channel_set_operators_witness:
  "cs_and [0, 1] (set [1, 64]) = set [0, 1] \<inter> set [1, 64] \<and> cs_or [0, 1] [1, 64] = set [0, 1] \<union> set [1, 64]
    \<and> cs_minus [0, 1] (set [1, 64]) = set [0, 1] - set [1, 64]
    \<and> (cs_neq [0, 1] [1, 64] \<longleftrightarrow> set [0, 1] \<noteq> set [1, 64 :: int])"
  by (rule channel_set_operators) simp_all

end
