(* ===== verification/FTL_Handler.thy ===== *)
theory FTL_Handler
  imports FTL_Prelude
begin

text \<open>
  Callback registration (\<^verbatim>\<open>handle.hpp\<close>): \<^verbatim>\<open>Handler\<close>, which keeps any number of callbacks under
  increasing integer ids, \<^verbatim>\<open>SingletonHandler\<close>, which keeps one, and \<^verbatim>\<open>Handle\<close>, the owner
  object that unregisters its callback when it is cancelled, overwritten or destroyed.

  A callback is a function of its argument and of the state of the world it may change; it returns
  the new world and either the message of the exception it threw or its boolean result. The
  iteration order of the \<^verbatim>\<open>unordered_map\<close> of callbacks is an argument. The wait for thread pool
  jobs in \<^verbatim>\<open>remove\<close> changes no state of the handler and is left out.
\<close>

section \<open>State\<close>

type_synonym ('a, 'w) callback = "'a \<Rightarrow> 'w \<Rightarrow> 'w \<times> (string + bool)"

record 'cb Handler =
  hid :: int
  callbacks :: "int \<rightharpoonup> 'cb"

text \<open>\<^verbatim>\<open>handler_\<close> is null or points to the handler the handle was made by.\<close>

record Handle =
  handler_set :: bool
  handle_id :: int

definition empty_handler :: "'cb Handler" where
  "empty_handler = \<lparr>hid = 0, callbacks = Map.empty\<rparr>"

definition null_handle :: Handle where
  "null_handle = \<lparr>handler_set = False, handle_id = 0\<rparr>"

section \<open>Handler\<close>

definition handler_on :: "'cb \<Rightarrow> 'cb Handler \<Rightarrow> Handle \<times> 'cb Handler" where
  "handler_on f h = (let i = hid h in
     (\<lparr>handler_set = True, handle_id = i\<rparr>,
      h\<lparr>hid := i + 1, callbacks := (callbacks h)(i \<mapsto> f)\<rparr>))"

definition handler_remove :: "Handle \<Rightarrow> 'cb Handler \<Rightarrow> 'cb Handler" where
  "handler_remove x h = h\<lparr>callbacks := (callbacks h)(handle_id x := None)\<rparr>"

definition handler_clear :: "'cb Handler \<Rightarrow> 'cb Handler" where
  "handler_clear h = h\<lparr>callbacks := Map.empty\<rparr>"

text \<open>The loop of \<^verbatim>\<open>trigger\<close>: a fault is remembered, a callback that returns false stops it.\<close>

fun trigger_loop :: "(int \<rightharpoonup> ('a, 'w) callback) \<Rightarrow> int list \<Rightarrow> 'a \<Rightarrow> string option \<Rightarrow> 'w
    \<Rightarrow> 'w \<times> (string option) res" where
  "trigger_loop cbs [] a fault w = (w, Inr fault)"
| "trigger_loop cbs (i # is) a fault w =
     (case cbs i of
        None \<Rightarrow> trigger_loop cbs is a fault w
      | Some f \<Rightarrow>
         (case f a w of
            (w', Inl msg) \<Rightarrow> trigger_loop cbs is a (Some msg) w'
          | (w', Inr True) \<Rightarrow> trigger_loop cbs is a fault w'
          | (w', Inr False) \<Rightarrow> (w', Inl (FTL_Error ''Return value callback removal not implemented''))))"

definition handler_trigger ::
    "int list \<Rightarrow> 'a \<Rightarrow> (('a, 'w) callback) Handler \<Rightarrow> 'w \<Rightarrow> 'w \<times> unit res" where
  "handler_trigger iter a h w =
     (case trigger_loop (callbacks h) iter a None w of
        (w', Inl e) \<Rightarrow> (w', Inl e)
      | (w', Inr (Some msg)) \<Rightarrow> (w', Inl (FTL_Error (''Callback exception: '' @ msg)))
      | (w', Inr None) \<Rightarrow> (w', Inr ()))"

text \<open>The job of \<^verbatim>\<open>triggerAsync\<close>: here a callback that returns false is erased.\<close>

fun trigger_async_loop :: "int list \<Rightarrow> 'a \<Rightarrow> string option \<Rightarrow> (('a, 'w) callback) Handler \<Rightarrow> 'w
    \<Rightarrow> (('a, 'w) callback) Handler \<times> 'w \<times> string option" where
  "trigger_async_loop [] a fault h w = (h, w, fault)"
| "trigger_async_loop (i # is) a fault h w =
     (case callbacks h i of
        None \<Rightarrow> trigger_async_loop is a fault h w
      | Some f \<Rightarrow>
         (case f a w of
            (w', Inl msg) \<Rightarrow> trigger_async_loop is a (Some msg) h w'
          | (w', Inr True) \<Rightarrow> trigger_async_loop is a fault h w'
          | (w', Inr False) \<Rightarrow>
              trigger_async_loop is a fault (h\<lparr>callbacks := (callbacks h)(i := None)\<rparr>) w'))"

definition handler_triggerAsync ::
    "int list \<Rightarrow> 'a \<Rightarrow> (('a, 'w) callback) Handler \<Rightarrow> 'w
     \<Rightarrow> (('a, 'w) callback) Handler \<times> 'w \<times> unit res" where
  "handler_triggerAsync iter a h w =
     (case trigger_async_loop iter a None h w of
        (h', w', Some msg) \<Rightarrow> (h', w', Inl (FTL_Error (''Callback exception: '' @ msg)))
      | (h', w', None) \<Rightarrow> (h', w', Inr ()))"

text \<open>\<^verbatim>\<open>triggerParallel\<close> hands one job per callback to the thread pool: the jobs it pushes.\<close>

definition handler_triggerParallel ::
    "int list \<Rightarrow> 'a \<Rightarrow> (('a, 'w) callback) Handler \<Rightarrow> ('w \<Rightarrow> 'w \<times> (string + bool)) list" where
  "handler_triggerParallel iter a h = List.map_filter (\<lambda>i. map_option (\<lambda>f. f a) (callbacks h i)) iter"

section \<open>Handle\<close>

text \<open>\<^verbatim>\<open>cancel\<close>, and the destructor, which does the same removal.\<close>

definition handle_cancel :: "Handle \<Rightarrow> 'cb Handler \<Rightarrow> Handle \<times> 'cb Handler" where
  "handle_cancel x h = (x\<lparr>handler_set := False\<rparr>,
     if handler_set x then handler_remove x h else h)"

text \<open>Move assignment \<^verbatim>\<open>x = std::move(y)\<close>: returns the new \<open>x\<close>, the emptied \<open>y\<close>, the handler.\<close>

definition handle_move :: "Handle \<Rightarrow> Handle \<Rightarrow> 'cb Handler \<Rightarrow> Handle \<times> Handle \<times> 'cb Handler" where
  "handle_move x y h = (\<lparr>handler_set = handler_set y, handle_id = handle_id y\<rparr>,
     y\<lparr>handler_set := False\<rparr>,
     if handler_set x then handler_remove x h else h)"

section \<open>SingletonHandler\<close>

record 'cb SingletonHandler =
  sid :: int
  scallback :: "'cb option"

definition singleton_on :: "'cb \<Rightarrow> 'cb SingletonHandler \<Rightarrow> (Handle \<times> 'cb SingletonHandler) res" where
  "singleton_on f h = (if scallback h \<noteq> None then Inl (FTL_Error ''Callback already bound'')
     else Inr (\<lparr>handler_set = True, handle_id = sid h\<rparr>, h\<lparr>sid := sid h + 1, scallback := Some f\<rparr>))"

definition singleton_trigger ::
    "'a \<Rightarrow> (('a, 'w) callback) SingletonHandler \<Rightarrow> 'w
     \<Rightarrow> (('a, 'w) callback) SingletonHandler \<times> 'w \<times> (string + bool)" where
  "singleton_trigger a h w =
     (case scallback h of
        None \<Rightarrow> (h, w, Inr False)
      | Some f \<Rightarrow>
         (case f a w of
            (w', Inl msg) \<Rightarrow> (h, w', Inl msg)
          | (w', Inr keep) \<Rightarrow> (if keep then h else h\<lparr>scallback := None\<rparr>, w', Inr keep)))"

definition singleton_remove :: "Handle \<Rightarrow> 'cb SingletonHandler \<Rightarrow> 'cb SingletonHandler" where
  "singleton_remove x h = (if handle_id x = sid h - 1 then h\<lparr>scallback := None\<rparr> else h)"

definition singleton_reset :: "'cb SingletonHandler \<Rightarrow> 'cb SingletonHandler" where
  "singleton_reset h = h\<lparr>scallback := None\<rparr>"

section \<open>Invariant\<close>

text \<open>Every key is an id that was handed out: below the counter.\<close>

definition handler_wf :: "'cb Handler \<Rightarrow> bool" where
  "handler_wf h \<longleftrightarrow> 0 \<le> hid h \<and> (\<forall>k \<in> dom (callbacks h). 0 \<le> k \<and> k < hid h)"

lemma handler_wf_empty [inv_intros]: "handler_wf empty_handler"
  by (simp add: handler_wf_def empty_handler_def)

lemma handler_wf_on [inv_intros]: "handler_wf h \<Longrightarrow> handler_wf (snd (handler_on f h))"
  by (auto simp: handler_wf_def handler_on_def Let_def) (meson domI order_less_imp_le)

lemma handler_wf_remove [inv_intros]: "handler_wf h \<Longrightarrow> handler_wf (handler_remove x h)"
  by (auto simp: handler_wf_def handler_remove_def)

lemma handler_wf_clear [inv_intros]: "handler_wf h \<Longrightarrow> handler_wf (handler_clear h)"
  by (simp add: handler_wf_def handler_clear_def)

text \<open>What the job of \<^verbatim>\<open>triggerAsync\<close> does to the callbacks: it only erases, and only those that return false.\<close>

definition async_result :: "int \<Rightarrow> ('a, 'w) callback \<Rightarrow> 'a \<Rightarrow> 'w \<Rightarrow> (('a, 'w) callback) Handler \<Rightarrow> (('a, 'w) callback) Handler" where
  "async_result i f a w h = (if snd (f a w) = Inr False then h\<lparr>callbacks := (callbacks h)(i := None)\<rparr> else h)"

lemma trigger_async_step:
  assumes "callbacks h i = Some f"
  shows "\<exists>fault2. trigger_async_loop (i # iter) a fault h w = trigger_async_loop iter a fault2 (async_result i f a w h) (fst (f a w))"
proof -
  obtain w1 r where "f a w = (w1, r)" by fastforce
  then show ?thesis using assms by (cases r; cases "projr r") (auto simp: async_result_def split: bool.splits)
qed

lemma trigger_async_erases:
  assumes "trigger_async_loop iter a fault h w = (h', w', fault')"
  shows "hid h' = hid h \<and> (callbacks h' k = None \<or> callbacks h' k = callbacks h k)
    \<and> (\<forall>f. callbacks h k = Some f \<and> (\<forall>a w. snd (f a w) \<noteq> Inr False) \<longrightarrow> callbacks h' k = Some f)"
  using assms
proof (induction iter arbitrary: fault h w)
  case (Cons i iter)
  show ?case
  proof (cases "callbacks h i")
    case None
    then show ?thesis using Cons by simp
  next
    case (Some f)
    obtain fault2 where "trigger_async_loop iter a fault2 (async_result i f a w h) (fst (f a w)) = (h', w', fault')"
      using trigger_async_step [OF Some, of iter a fault w] Cons.prems by metis
    from Cons.IH [OF this] show ?thesis using Some by (auto simp: async_result_def split: if_splits)
  qed
qed simp

lemma trigger_async_false:
  assumes "trigger_async_loop iter a fault h w = (h', w', fault')" "k \<in> set iter" "callbacks h k = Some f" "\<forall>a w. snd (f a w) = Inr False"
  shows "callbacks h' k = None"
  using assms
proof (induction iter arbitrary: fault h w)
  case (Cons i iter)
  show ?case
  proof (cases "callbacks h i")
    case None
    then show ?thesis using Cons by auto
  next
    case (Some g)
    obtain fault2 where l: "trigger_async_loop iter a fault2 (async_result i g a w h) (fst (g a w)) = (h', w', fault')"
      using trigger_async_step [OF Some, of iter a fault w] Cons.prems(1) by metis
    show ?thesis
    proof (cases "k = i")
      case True
      then have "callbacks (async_result i g a w h) k = None" using Some Cons.prems(3,4) by (simp add: async_result_def)
      then show ?thesis using trigger_async_erases [OF l, of k] by simp
    next
      case False
      then show ?thesis using Cons.IH [OF l] Cons.prems by (simp add: async_result_def)
    qed
  qed
qed simp

section \<open>The contract of a callback registry\<close>

text \<open>
  What the owner of a handle relies on: whatever is done, an id that was handed out refers to its own callback
  or to none.
\<close>

locale callback_registry =
  fixes wf :: "'s \<Rightarrow> bool"
    and lookup :: "'s \<Rightarrow> int \<rightharpoonup> 'cb"
    and next_id :: "'s \<Rightarrow> int"
    and perform :: "'op \<Rightarrow> 's \<Rightarrow> 's"
  assumes wf_perform: "wf s \<Longrightarrow> wf (perform op s)"
    and next_perform: "wf s \<Longrightarrow> next_id s \<le> next_id (perform op s)"
    and lookup_perform: "wf s \<Longrightarrow> k < next_id s \<Longrightarrow> lookup (perform op s) k = None \<or> lookup (perform op s) k = lookup s k"
begin

definition run :: "'op list \<Rightarrow> 's \<Rightarrow> 's" where
  "run = fold perform"

lemma run_simps [simp]: "run [] s = s" "run (op # ops) s = run ops (perform op s)" "run (ops @ qs) s = run qs (run ops s)"
  by (simp_all add: run_def)

lemma run_wf: "wf s \<Longrightarrow> k < next_id s \<Longrightarrow> wf (run ops s) \<and> k < next_id (run ops s)"
  by (induction ops arbitrary: s) (auto intro: wf_perform order_less_le_trans [OF _ next_perform])

lemma run_same_or_none: "wf s \<Longrightarrow> k < next_id s \<Longrightarrow> lookup (run ops s) k = None \<or> lookup (run ops s) k = lookup s k"
proof (induction ops arbitrary: s)
  case (Cons op ops)
  have "k < next_id (perform op s)" using next_perform [OF Cons.prems(1), of op] Cons.prems(2) by simp
  then show ?case using Cons.IH [OF wf_perform [OF Cons.prems(1)]] lookup_perform [OF Cons.prems, of op] by fastforce
qed simp

text \<open>A callback stays as long as every operation keeps it.\<close>

lemma run_keeps:
  assumes "\<And>op s. op \<in> set ops \<Longrightarrow> wf s \<Longrightarrow> lookup s k = Some f \<Longrightarrow> lookup (perform op s) k = Some f" "wf s" "lookup s k = Some f"
  shows "lookup (run ops s) k = Some f"
  using assms by (induction ops arbitrary: s) (auto intro: wf_perform)

end

text \<open>The operations on a handler, with the state of the world that callbacks may change.\<close>

datatype ('a, 'w) handler_op = Op_on "('a, 'w) callback" | Op_remove Handle | Op_clear | Op_trigger "int list" 'a | Op_triggerAsync "int list" 'a

definition handler_do :: "('a, 'w) handler_op \<Rightarrow> (('a, 'w) callback) Handler \<times> 'w \<Rightarrow> (('a, 'w) callback) Handler \<times> 'w" where
  "handler_do op = (\<lambda>(h, w).
     case op of
       Op_on f \<Rightarrow> (snd (handler_on f h), w)
     | Op_remove x \<Rightarrow> (handler_remove x h, w)
     | Op_clear \<Rightarrow> (handler_clear h, w)
     | Op_trigger iter a \<Rightarrow> (h, fst (handler_trigger iter a h w))
     | Op_triggerAsync iter a \<Rightarrow> (case handler_triggerAsync iter a h w of (h', w', _) \<Rightarrow> (h', w')))"

definition handler_run :: "('a, 'w) handler_op list \<Rightarrow> (('a, 'w) callback) Handler \<times> 'w \<Rightarrow> (('a, 'w) callback) Handler \<times> 'w" where
  "handler_run = fold handler_do"

text \<open>One operation on the callback of an id that was handed out.\<close>

lemma triggerAsync_erases:
  assumes "handler_triggerAsync iter a h w = (h', w', r)"
  shows "hid h' = hid h \<and> (callbacks h' k = None \<or> callbacks h' k = callbacks h k)
    \<and> (\<forall>f. callbacks h k = Some f \<and> (\<forall>a w. snd (f a w) \<noteq> Inr False) \<longrightarrow> callbacks h' k = Some f)"
proof -
  obtain h1 w1 fault where "trigger_async_loop iter a None h w = (h1, w1, fault)" by (metis prod_cases3)
  moreover from this have "h1 = h'" using assms by (auto simp: handler_triggerAsync_def split: option.splits)
  ultimately show ?thesis using trigger_async_erases [of iter a None h w h' w1 fault k] by simp
qed

lemma handler_do_lookup:
  assumes "k < hid (fst s)"
  shows "hid (fst s) \<le> hid (fst (handler_do op s)) \<and> (callbacks (fst (handler_do op s)) k = None \<or> callbacks (fst (handler_do op s)) k = callbacks (fst s) k)"
proof (cases op)
  case (Op_triggerAsync iter a)
  obtain h' w' r where "handler_triggerAsync iter a (fst s) (snd s) = (h', w', r)" by (metis prod_cases3)
  then show ?thesis using triggerAsync_erases [of iter a "fst s" "snd s" h' w' r k] Op_triggerAsync
    by (auto simp: handler_do_def split: prod.splits)
qed (use assms in \<open>auto simp: handler_do_def handler_on_def handler_remove_def handler_clear_def Let_def split: prod.splits\<close>)

lemma handler_wf_do: "handler_wf (fst s) \<Longrightarrow> handler_wf (fst (handler_do op s))"
proof (cases op)
  case (Op_triggerAsync iter a)
  assume wf: "handler_wf (fst s)"
  obtain h' w' r where t: "handler_triggerAsync iter a (fst s) (snd s) = (h', w', r)" by (metis prod_cases3)
  have "hid h' = hid (fst s)" "dom (callbacks h') \<subseteq> dom (callbacks (fst s))"
    using triggerAsync_erases [OF t] by (simp_all add: dom_def subset_iff) (metis option.distinct(1))
  then have "handler_wf h'" using wf by (auto simp: handler_wf_def)
  then show ?thesis using t Op_triggerAsync by (simp add: handler_do_def split_beta)
qed (auto simp: handler_do_def split_beta intro: inv_intros)

interpretation handler: callback_registry "\<lambda>s. handler_wf (fst s)" "\<lambda>s. callbacks (fst s)" "\<lambda>s. hid (fst s)" handler_do
proof
  fix s :: "(('a, 'w) callback) Handler \<times> 'w" and op and k :: int
  assume wf: "handler_wf (fst s)"
  show "handler_wf (fst (handler_do op s))" using wf by (rule handler_wf_do)
  show "hid (fst s) \<le> hid (fst (handler_do op s))" using handler_do_lookup [of "hid (fst s) - 1" s op] by simp
  show "k < hid (fst s) \<Longrightarrow> callbacks (fst (handler_do op s)) k = None \<or> callbacks (fst (handler_do op s)) k = callbacks (fst s) k"
    using handler_do_lookup by blast
qed

lemma handler_run_eq: "handler.run = handler_run"
  by (simp add: handler.run_def handler_run_def)

lemmas handler_run_same_or_none = handler.run_same_or_none [unfolded handler_run_eq]
lemmas handler_run_keeps = handler.run_keeps [unfolded handler_run_eq]
lemmas handler_run_wf = handler.run_wf [unfolded handler_run_eq]

lemma handler_run_append [simp]: "handler_run (ops @ qs) s = handler_run qs (handler_run ops s)"
  by (simp add: handler_run_def)

lemma handler_do_keeps:
  assumes "callbacks (fst s) k = Some f" "k < hid (fst s)" "op \<noteq> Op_clear" "\<And>x. op = Op_remove x \<Longrightarrow> handle_id x \<noteq> k" "\<forall>a w. snd (f a w) \<noteq> Inr False"
  shows "callbacks (fst (handler_do op s)) k = Some f"
proof (cases op)
  case (Op_triggerAsync iter a)
  obtain h' w' r where "handler_triggerAsync iter a (fst s) (snd s) = (h', w', r)" by (metis prod_cases3)
  then show ?thesis using triggerAsync_erases [of iter a "fst s" "snd s" h' w' r k] Op_triggerAsync assms(1,5) by (simp add: handler_do_def split_beta)
qed (use assms in \<open>auto simp: handler_do_def handler_on_def handler_remove_def Let_def split_beta\<close>)

section \<open>What trigger calls\<close>

text \<open>
  To observe the calls, the world is the list of ids called so far and callback \<open>k\<close> appends its
  own id and answers \<open>r k\<close>.
\<close>

definition logging :: "(int \<Rightarrow> string + bool) \<Rightarrow> int \<Rightarrow> ('a, int list) callback" where
  "logging r k = (\<lambda>a w. (w @ [k], r k))"

definition faults :: "(int \<Rightarrow> string + bool) \<Rightarrow> int list \<Rightarrow> string list" where
  "faults r ks = List.map_filter (\<lambda>k. case r k of Inl m \<Rightarrow> Some m | Inr _ \<Rightarrow> None) ks"

lemma faults_simps [simp]:
  "faults r [] = []"
  "faults r (k # ks) = (case r k of Inl m \<Rightarrow> m # faults r ks | Inr _ \<Rightarrow> faults r ks)"
  by (simp_all add: faults_def map_filter_simps split: sum.splits)

lemma trigger_loop_log:
  assumes "\<forall>k \<in> set iter. cbs k = Some (logging r k) \<and> r k \<noteq> Inr False"
  shows "trigger_loop cbs (iter @ rest) a fault w =
    trigger_loop cbs rest a (if faults r iter = [] then fault else Some (last (faults r iter))) (w @ iter)"
  using assms
  by (induction iter arbitrary: fault w) (auto simp: logging_def split: sum.splits bool.splits)

section \<open>Properties\<close>

text \<open>
  C28: Ids are never reused: after a registration, whatever is registered, removed, cleared and triggered later, the
  handle refers to its own callback or to none, and once to none, for ever. The callback stays as long as nobody
  removes its id or clears the handler and it does not return false; \<^verbatim>\<open>remove\<close>, \<^verbatim>\<open>clear\<close> and a \<^verbatim>\<open>triggerAsync\<close> in which it
  returns false take it away.
\<close>

theorem handle_ids_not_reused:
  assumes "handler_wf h" "handler_on f h = (x, h1)"
  shows "callbacks (fst (handler_run ops (h1, w))) (handle_id x) \<in> {None, Some f}
    \<and> (callbacks (fst (handler_run ops (h1, w))) (handle_id x) = None \<longrightarrow> callbacks (fst (handler_run (ops @ later) (h1, w))) (handle_id x) = None)
    \<and> ((\<forall>y. Op_remove y \<in> set ops \<longrightarrow> handle_id y \<noteq> handle_id x) \<and> Op_clear \<notin> set ops \<and> (\<forall>a w. snd (f a w) \<noteq> Inr False)
        \<longrightarrow> callbacks (fst (handler_run ops (h1, w))) (handle_id x) = Some f)
    \<and> callbacks (handler_remove x h1) (handle_id x) = None \<and> callbacks (handler_clear h1) (handle_id x) = None
    \<and> (handle_id x \<in> set iter \<and> (\<forall>a w. snd (f a w) = Inr False) \<longrightarrow> callbacks (fst (handler_triggerAsync iter a h1 w)) (handle_id x) = None)"
proof (intro conjI impI)
  have wf: "handler_wf (fst (h1, w))" and x: "handle_id x < hid (fst (h1, w))" "callbacks (fst (h1, w)) (handle_id x) = Some f"
    using handler_wf_on [OF assms(1), of f] assms(2) by (auto simp: handler_on_def Let_def)
  note r = handler_run_wf [OF wf x(1), of ops]
  show "callbacks (fst (handler_run ops (h1, w))) (handle_id x) \<in> {None, Some f}"
    using handler_run_same_or_none [OF wf x(1), of ops] x(2) by auto
  show "callbacks (fst (handler_run (ops @ later) (h1, w))) (handle_id x) = None" if "callbacks (fst (handler_run ops (h1, w))) (handle_id x) = None"
    using handler_run_same_or_none [of "handler_run ops (h1, w)" "handle_id x" later] r that by auto
  show "callbacks (handler_remove x h1) (handle_id x) = None" "callbacks (handler_clear h1) (handle_id x) = None"
    by (simp_all add: handler_remove_def handler_clear_def)
  show "callbacks (fst (handler_run ops (h1, w))) (handle_id x) = Some f"
    if k: "(\<forall>y. Op_remove y \<in> set ops \<longrightarrow> handle_id y \<noteq> handle_id x) \<and> Op_clear \<notin> set ops \<and> (\<forall>a w. snd (f a w) \<noteq> Inr False)"
  proof (rule handler_run_keeps [OF _ wf x(2)])
    fix op and s :: "(('a, 'b) callback) Handler \<times> 'b"
    assume s: "op \<in> set ops" "handler_wf (fst s)" "callbacks (fst s) (handle_id x) = Some f"
    then have "handle_id x < hid (fst s)" by (auto simp: handler_wf_def)
    then show "callbacks (fst (handler_do op s)) (handle_id x) = Some f" using handler_do_keeps [OF s(3), of op] s(1) k by auto
  qed
  show "callbacks (fst (handler_triggerAsync iter a h1 w)) (handle_id x) = None" if "handle_id x \<in> set iter \<and> (\<forall>a w. snd (f a w) = Inr False)"
  proof -
    obtain h' w' fault where l: "trigger_async_loop iter a None h1 w = (h', w', fault)" by (metis prod_cases3)
    then have "callbacks h' (handle_id x) = None" using trigger_async_false [OF l, of "handle_id x" f] that x(2) by auto
    then show ?thesis using l by (simp add: handler_triggerAsync_def split: option.splits)
  qed
qed

definition ex_callback :: "(nat, nat) callback" where
  "ex_callback a w = (a + w, Inr True)"

theorem handle_ids_not_reused_witness:
  "callbacks (fst (handler_run [Op_on (\<lambda>a w. (w, Inr False)), Op_remove \<lparr>handler_set = True, handle_id = 5\<rparr>, Op_triggerAsync [1, 0] 3]
      (snd (handler_on ex_callback empty_handler), 4))) 0 = Some ex_callback"
proof -
  have "handler_on ex_callback empty_handler = (\<lparr>handler_set = True, handle_id = 0\<rparr>, snd (handler_on ex_callback empty_handler))"
    by (simp add: handler_on_def empty_handler_def)
  from handle_ids_not_reused [OF handler_wf_empty this] show ?thesis by (auto simp: ex_callback_def)
qed

text \<open>
  \<^verbatim>\<open>Handler::trigger\<close> calls every registered callback exactly once, in iteration order,
  even when some of them throw, and afterwards throws the message of the last one that threw. The
  first callback that returns false stops the loop at once with the error "Return value callback
  removal not implemented", and the callbacks after it are not called.
\<close>

theorem handler_trigger_calls:
  assumes "\<forall>k \<in> set iter. callbacks h k = Some (logging r k) \<and> r k \<noteq> Inr False"
  shows "handler_trigger iter a h [] = (iter,
      if faults r iter = [] then Inr ()
      else Inl (FTL_Error (''Callback exception: '' @ last (faults r iter))))
    \<and> (\<forall>k rest. callbacks h k = Some (logging r k) \<and> r k = Inr False \<longrightarrow>
        handler_trigger (iter @ k # rest) a h [] =
          (iter @ [k], Inl (FTL_Error ''Return value callback removal not implemented'')))"
  using trigger_loop_log [OF assms, of "[]" a None "[]"] trigger_loop_log [OF assms, of _ a None "[]"]
  by (auto simp: handler_trigger_def logging_def)

theorem handler_trigger_calls_witness:
  "handler_trigger [1, 0] () \<lparr>hid = 2, callbacks = [0 \<mapsto> logging (\<lambda>k. if k = 0 then Inl ''x'' else Inr True) 0,
      1 \<mapsto> logging (\<lambda>k. if k = 0 then Inl ''x'' else Inr True) 1]\<rparr> []
    = ([1, 0], Inl (FTL_Error ''Callback exception: x''))"
  using handler_trigger_calls [of "[1, 0]" "\<lparr>hid = 2,
      callbacks = [0 \<mapsto> logging (\<lambda>k. if k = 0 then Inl ''x'' else Inr True) 0,
      1 \<mapsto> logging (\<lambda>k. if k = 0 then Inl ''x'' else Inr True) 1]\<rparr>"
      "\<lambda>k. if k = 0 then Inl ''x'' else Inr True" "()"]
  by simp

end
