(* ===== verification/FTL_Stream.thy ===== *)
theory FTL_Stream
  imports FTL_Packet FTL_Channels
begin

text \<open>
  The base class of every stream (\<^verbatim>\<open>streams.cpp\<close>, \<^verbatim>\<open>streams.hpp\<close>): for each frame, which
  channels a consumer has selected and which channels the source offers. Availability of a
  persistent channel is remembered for ever; the other 64 channels live in two bit sets, the one
  being collected and the one of the last completed frame, which an \<^verbatim>\<open>kEndFrame\<close> swaps.

  The mutex and the atomics guard single operations, so an operation is one step. A call of the
  availability callback is an output of the operation. A \<^verbatim>\<open>ChannelSet\<close> that is iterated is given
  as the list of its elements in iteration order.
\<close>

section \<open>State\<close>

record FSState =
  enabled_flag :: bool
  selected :: "Channel set"
  availablePersistent :: "Channel set"
  availableLast :: u64
  availableNext :: u64

definition default_FSState :: FSState where
  "default_FSState = \<lparr>enabled_flag = False, selected = {}, availablePersistent = {},
     availableLast = 0, availableNext = 0\<rparr>"

type_synonym stream_state = "FrameID \<rightharpoonup> FSState"

definition getState :: "FrameID \<Rightarrow> stream_state \<Rightarrow> FSState" where
  "getState i s = (case s i of Some p \<Rightarrow> p | None \<Rightarrow> default_FSState)"

lemma getState_upd [simp]: "getState i (s(j \<mapsto> p)) = (if i = j then p else getState i s)"
  by (simp add: getState_def)

section \<open>Queries\<close>

definition available :: "FrameID \<Rightarrow> stream_state \<Rightarrow> bool" where
  "available i s \<longleftrightarrow> s i \<noteq> None"

text \<open>\<^verbatim>\<open>mask & (1ull << channel)\<close>\<close>

definition test_channel :: "u64 \<Rightarrow> Channel \<Rightarrow> bool res" where
  "test_channel m c = res_bind (shl64 c) (\<lambda>b. Inr (m AND b \<noteq> 0))"

definition state_available :: "FSState \<Rightarrow> Channel \<Rightarrow> bool res" where
  "state_available p c =
     (if isPersistent c then Inr (c \<in> availablePersistent p) else test_channel (availableLast p) c)"

definition available_channel :: "FrameID \<Rightarrow> Channel \<Rightarrow> stream_state \<Rightarrow> bool res" where
  "available_channel i c s = (case s i of None \<Rightarrow> Inr False | Some p \<Rightarrow> state_available p c)"

fun available_loop :: "FSState \<Rightarrow> Channel list \<Rightarrow> bool res" where
  "available_loop p [] = Inr True"
| "available_loop p (c # cs) =
     res_bind (state_available p c) (\<lambda>b. if b then available_loop p cs else Inr False)"

definition available_channels :: "FrameID \<Rightarrow> Channel list \<Rightarrow> stream_state \<Rightarrow> bool res" where
  "available_channels i cs s = (case s i of None \<Rightarrow> Inr False | Some p \<Rightarrow> available_loop p cs)"

definition channels :: "FrameID \<Rightarrow> stream_state \<Rightarrow> Channel set" where
  "channels i s = (case s i of None \<Rightarrow> {} | Some p \<Rightarrow>
     fold (\<lambda>k r. if push_bit (nat k) 1 AND availableLast p \<noteq> 0 then insert k r else r)
       [0..63] (availablePersistent p))"

definition frames :: "stream_state \<Rightarrow> FrameID set" where
  "frames s = dom s"

definition enabled_frames :: "stream_state \<Rightarrow> FrameID set" where
  "enabled_frames s = {i \<in> dom s. enabled_flag (the (s i))}"

definition enabled_frames_of :: "u32 \<Rightarrow> stream_state \<Rightarrow> FrameID set" where
  "enabled_frames_of fs s = {i \<in> dom s. enabled_flag (the (s i)) \<and> frameset i = fs}"

definition enabled :: "FrameID \<Rightarrow> stream_state \<Rightarrow> bool" where
  "enabled i s = (case s i of None \<Rightarrow> False | Some p \<Rightarrow> enabled_flag p)"

definition enabled_channel :: "FrameID \<Rightarrow> Channel \<Rightarrow> stream_state \<Rightarrow> bool" where
  "enabled_channel i c s = (case s i of None \<Rightarrow> False | Some p \<Rightarrow> c \<in> selected p)"

definition enabledChannels :: "FrameID \<Rightarrow> stream_state \<Rightarrow> Channel set" where
  "enabledChannels i s = (case s i of None \<Rightarrow> {} | Some p \<Rightarrow> selected p)"

section \<open>Selection\<close>

text \<open>The \<^verbatim>\<open>bool\<close> result of the \<^verbatim>\<open>enable\<close> overloads is always true here.\<close>

definition enable :: "FrameID \<Rightarrow> stream_state \<Rightarrow> bool \<times> stream_state" where
  "enable i s = (True, s(i \<mapsto> (getState i s)\<lparr>enabled_flag := True\<rparr>))"

definition enable_channel :: "FrameID \<Rightarrow> Channel \<Rightarrow> stream_state \<Rightarrow> bool \<times> stream_state" where
  "enable_channel i c s = (True, s(i \<mapsto> (getState i s)
     \<lparr>enabled_flag := True, selected := insert c (selected (getState i s))\<rparr>))"

definition enable_channels :: "FrameID \<Rightarrow> Channel set \<Rightarrow> stream_state \<Rightarrow> bool \<times> stream_state" where
  "enable_channels i cs s = (True, s(i \<mapsto> (getState i s)
     \<lparr>enabled_flag := True, selected := selected (getState i s) \<union> cs\<rparr>))"

definition disable :: "FrameID \<Rightarrow> stream_state \<Rightarrow> stream_state" where
  "disable i s = s(i \<mapsto> (getState i s)\<lparr>enabled_flag := False\<rparr>)"

definition unselect :: "Channel set \<Rightarrow> FSState \<Rightarrow> FSState" where
  "unselect cs p = (let p' = p\<lparr>selected := selected p - cs\<rparr> in
     if selected p' = {} then p'\<lparr>enabled_flag := False\<rparr> else p')"

definition disable_channel :: "FrameID \<Rightarrow> Channel \<Rightarrow> stream_state \<Rightarrow> stream_state" where
  "disable_channel i c s = s(i \<mapsto> unselect {c} (getState i s))"

definition disable_channels :: "FrameID \<Rightarrow> Channel set \<Rightarrow> stream_state \<Rightarrow> stream_state" where
  "disable_channels i cs s = s(i \<mapsto> unselect cs (getState i s))"

definition reset_state :: "stream_state \<Rightarrow> stream_state" where
  "reset_state s = Map.empty"

section \<open>Availability\<close>

text \<open>
  \<^verbatim>\<open>seen\<close> of one frame: the new frame state and whether the availability callback is triggered.
\<close>

definition seen_frame :: "Channel \<Rightarrow> FSState \<Rightarrow> (FSState \<times> bool) res" where
  "seen_frame c p =
     (if c = kEndFrame then
        Inr (p\<lparr>availableLast := availableNext p, availableNext := 0\<rparr>, True)
      else if isPersistent c then
        (if c \<in> availablePersistent p then Inr (p, False)
         else Inr (p\<lparr>availablePersistent := insert c (availablePersistent p)\<rparr>, True))
      else
        res_bind (shl64 c) (\<lambda>b.
          let p' = p\<lparr>availableNext := availableNext p OR b\<rparr> in
          Inr (p', availableLast p' AND b = 0)))"

definition seen :: "FrameID \<Rightarrow> Channel \<Rightarrow> stream_state \<Rightarrow> (stream_state \<times> bool) res" where
  "seen i c s = res_bind (seen_frame c (getState i s)) (\<lambda>(p, t). Inr (s(i \<mapsto> p), t))"

text \<open>A history of calls of \<^verbatim>\<open>seen\<close>: the final state and the callbacks triggered, in order.\<close>

fun seen_all :: "(FrameID \<times> Channel) list \<Rightarrow> stream_state
    \<Rightarrow> (stream_state \<times> (FrameID \<times> Channel) list) res" where
  "seen_all [] s = Inr (s, [])"
| "seen_all ((i, c) # es) s = res_bind (seen i c s) (\<lambda>(s', t).
     res_bind (seen_all es s') (\<lambda>(s'', l). Inr (s'', if t then (i, c) # l else l)))"

section \<open>Availability refines the history of the frame\<close>

text \<open>
  The abstract view: what a frame offers is a function of the channels seen for it so far. The
  persistent ones count for ever, the others only when they were seen in the last frame that an
  \<^verbatim>\<open>kEndFrame\<close> completed.
\<close>

definition current_frame :: "Channel list \<Rightarrow> Channel list" where
  "current_frame cs = takeWhile (\<lambda>c. c \<noteq> kEndFrame) (rev cs)"

definition last_completed :: "Channel list \<Rightarrow> Channel list" where
  "last_completed cs = takeWhile (\<lambda>c. c \<noteq> kEndFrame) (drop 1 (dropWhile (\<lambda>c. c \<noteq> kEndFrame) (rev cs)))"

definition offered :: "Channel list \<Rightarrow> Channel set" where
  "offered cs = {c \<in> set cs. isPersistent c \<and> c \<noteq> kEndFrame} \<union> {c \<in> set (last_completed cs). \<not> isPersistent c}"

definition history_of :: "FrameID \<Rightarrow> (FrameID \<times> Channel) list \<Rightarrow> Channel list" where
  "history_of i es = map snd (filter (\<lambda>e. fst e = i) es)"

definition frame_rel :: "FSState \<Rightarrow> Channel list \<Rightarrow> bool" where
  "frame_rel p cs \<longleftrightarrow> availablePersistent p = {c \<in> set cs. isPersistent c \<and> c \<noteq> kEndFrame}
     \<and> (\<forall>n < 64. bit (availableLast p) n \<longleftrightarrow> int n \<in> set (last_completed cs))
     \<and> (\<forall>n < 64. bit (availableNext p) n \<longleftrightarrow> int n \<in> set (current_frame cs))"

lemma current_frame_snoc [simp]:
  "current_frame (cs @ [c]) = (if c = kEndFrame then [] else c # current_frame cs)"
  by (simp add: current_frame_def)

lemma last_completed_snoc [simp]:
  "last_completed (cs @ [c]) = (if c = kEndFrame then current_frame cs else last_completed cs)"
  by (simp add: last_completed_def current_frame_def)

lemma history_of_snoc [simp]:
  "history_of i (es @ [(j, c)]) = (if j = i then history_of i es @ [c] else history_of i es)"
  by (simp add: history_of_def)

lemma exp_and_eq_0: "2 ^ n AND a = 0 \<longleftrightarrow> \<not> bit (a :: u64) n"
  by (simp add: and.commute and_exp_eq_0_iff_not_bit)

lemma channels_Some:
  "s i = Some p \<Longrightarrow> channels i s = availablePersistent p \<union> {c. 0 \<le> c \<and> c < 64 \<and> bit (availableLast p) (nat c)}"
  by (auto simp: channels_def fold_insert_filter exp_and_eq_0 simp del: upto_rec_numeral)

lemma frame_rel_default: "frame_rel default_FSState []"
  by (simp add: frame_rel_def default_FSState_def last_completed_def current_frame_def)

lemma set_last_completed_subset: "set (last_completed cs) \<subseteq> set cs"
proof
  fix x assume "x \<in> set (last_completed cs)"
  then have "x \<in> set (dropWhile (\<lambda>c. c \<noteq> kEndFrame) (rev cs))"
    unfolding last_completed_def by (meson in_set_dropD set_takeWhileD)
  then show "x \<in> set cs"
    using set_dropWhileD by fastforce
qed

lemma offered_rel:
  assumes "frame_rel p cs" and "s i = Some p" and "\<forall>c \<in> set cs. 0 \<le> c"
  shows "channels i s = offered cs"
proof -
  have "{c. 0 \<le> c \<and> c < 64 \<and> bit (availableLast p) (nat c)} = {c \<in> set (last_completed cs). \<not> isPersistent c}"
  proof (intro set_eqI iffI CollectI)
    fix c assume "c \<in> {c. 0 \<le> c \<and> c < 64 \<and> bit (availableLast p) (nat c)}"
    then show "c \<in> set (last_completed cs) \<and> \<not> isPersistent c"
      using assms(1) by (auto simp: frame_rel_def isPersistent_def)
  next
    fix c assume "c \<in> {c \<in> set (last_completed cs). \<not> isPersistent c}"
    moreover from this have "0 \<le> c"
      using assms(3) set_last_completed_subset by auto
    ultimately show "0 \<le> c \<and> c < 64 \<and> bit (availableLast p) (nat c)"
      using assms(1) unfolding frame_rel_def isPersistent_def by auto
  qed
  then show ?thesis
    using assms(1) by (auto simp: channels_Some [of s i p, OF assms(2)] offered_def frame_rel_def)
qed

lemma seen_frame_ok: "0 \<le> c \<Longrightarrow> \<exists>p' t. seen_frame c p = Inr (p', t)"
  by (auto simp: seen_frame_def shl64_def isPersistent_def Let_def)

lemma seen_frame_fault: "c < 0 \<Longrightarrow> seen_frame c p = Inl Undefined_behaviour"
  by (auto simp: seen_frame_def shl64_def isPersistent_def kEndFrame_def)

lemma seen_frame_rel:
  assumes "frame_rel p cs" and "0 \<le> c" and "seen_frame c p = Inr (p', t)"
  shows "frame_rel p' (cs @ [c])"
proof (cases "c = kEndFrame \<or> isPersistent c")
  case True
  then show ?thesis
    using assms by (auto simp: frame_rel_def seen_frame_def isPersistent_def split: if_splits)
next
  case False
  then have "c < 64" and p': "p' = p\<lparr>availableNext := availableNext p OR push_bit (nat c) 1\<rparr>"
    using assms(2,3) by (auto simp: seen_frame_def shl64_def isPersistent_def Let_def)
  moreover have "bit (availableNext p OR push_bit (nat c) 1) n \<longleftrightarrow> n = nat c \<or> bit (availableNext p) n"
    if "n < 64" for n
    using that \<open>c < 64\<close> by (auto simp: bit_simps)
  ultimately show ?thesis
    using assms(1,2) False unfolding frame_rel_def by (auto simp: isPersistent_def)
qed

text \<open>The callback is triggered by an \<^verbatim>\<open>kEndFrame\<close> and by a channel that is not offered yet.\<close>

lemma seen_frame_trigger:
  assumes "frame_rel p cs" and "seen_frame c p = Inr (p', t)"
  shows "t \<longleftrightarrow> c = kEndFrame \<or> c \<notin> availablePersistent p \<union> {c. 0 \<le> c \<and> c < 64 \<and> bit (availableLast p) (nat c)}"
  using assms
  by (auto simp: seen_frame_def shl64_def isPersistent_def Let_def and_exp_eq_0_iff_not_bit frame_rel_def
      split: if_splits)

lemma seen_all_snoc:
  "seen_all (es @ [(i, c)]) s = res_bind (seen_all es s) (\<lambda>(s', l).
     res_bind (seen i c s') (\<lambda>(s'', t). Inr (s'', l @ (if t then [(i, c)] else []))))"
proof (induction es arbitrary: s)
  case Nil
  then show ?case by (cases "seen i c s") auto
next
  case (Cons e es)
  obtain j d where "e = (j, d)" by fastforce
  then show ?case
    using Cons.IH
  proof (cases "seen j d s")
    case (Inr a)
    obtain s' t where a: "a = (s', t)" by fastforce
    show ?thesis
    proof (cases "seen_all es s'")
      case (Inr b)
      then show ?thesis
        using \<open>e = (j, d)\<close> \<open>seen j d s = Inr a\<close> a Cons.IH
        by (cases "seen i c (fst b)") (auto split: prod.splits)
    qed (use \<open>e = (j, d)\<close> \<open>seen j d s = Inr a\<close> a Cons.IH in simp)
  qed simp
qed

definition history_rel :: "stream_state \<Rightarrow> (FrameID \<times> Channel) list \<Rightarrow> bool" where
  "history_rel s es \<longleftrightarrow> (\<forall>i. frame_rel (getState i s) (history_of i es)
     \<and> (s i = None \<longrightarrow> history_of i es = []))"

lemma seen_all_rel:
  "\<forall>e \<in> set es. 0 \<le> snd e \<Longrightarrow> \<exists>s l. seen_all es Map.empty = Inr (s, l) \<and> history_rel s es"
proof (induction es rule: rev_induct)
  case Nil
  then show ?case
    by (simp add: history_rel_def history_of_def getState_def frame_rel_default)
next
  case (snoc e es)
  obtain j d where e: "e = (j, d)" by fastforce
  with snoc obtain s l where 1: "seen_all es Map.empty = Inr (s, l)" "history_rel s es" "0 \<le> d"
    by auto
  obtain p t where 2: "seen_frame d (getState j s) = Inr (p, t)"
    using seen_frame_ok [OF 1(3)] by blast
  have "frame_rel p (history_of j es @ [d])"
    using seen_frame_rel [OF _ 1(3) 2] 1(2) by (simp add: history_rel_def)
  then have "history_rel (s(j \<mapsto> p)) (es @ [e])"
    using 1(2) e by (auto simp: history_rel_def getState_def)
  then show ?case
    using 1 2 e by (simp add: seen_all_snoc seen_def)
qed

lemma history_nonneg: "\<forall>e \<in> set es. 0 \<le> snd e \<Longrightarrow> \<forall>c \<in> set (history_of i es). 0 \<le> c"
  by (auto simp: history_of_def)

lemma history_rel_channels:
  assumes "history_rel s es" and "\<forall>e \<in> set es. 0 \<le> snd e"
  shows "channels i s = offered (history_of i es)"
proof (cases "s i")
  case None
  then show ?thesis
    using assms(1) by (auto simp: history_rel_def channels_def offered_def last_completed_def)
next
  case (Some p)
  then show ?thesis
    using assms(1) offered_rel [of p "history_of i es" s i] history_nonneg [OF assms(2)]
    by (auto simp: history_rel_def getState_def dest: spec [of _ i])
qed

lemma seen_all_fault: "e \<in> set es \<Longrightarrow> snd e < 0 \<Longrightarrow> seen_all es s = Inl Undefined_behaviour"
proof (induction es arbitrary: s)
  case (Cons x es)
  obtain j d where x: "x = (j, d)" by fastforce
  show ?case
  proof (cases "0 \<le> d")
    case True
    then show ?thesis
      using Cons seen_frame_ok [of d "getState j s"] x by (auto simp: seen_def)
  qed (use x seen_frame_fault in \<open>simp add: seen_def\<close>)
qed simp

section \<open>Properties\<close>

text \<open>
  C27: The two bit sets and the persistent set implement the frame history: after any calls of
  \<^verbatim>\<open>Stream::seen\<close> on a fresh stream, \<^verbatim>\<open>channels(id)\<close> is the set of persistent channels ever seen
  for that frame and of the other channels seen in its last completed frame, whatever was seen for
  other frames in between. The calls have a defined result exactly when no channel is negative (a
  negative channel, such as \<^verbatim>\<open>kNone\<close>, is a shift by a negative amount).
\<close>

theorem seen_refines_history:
  "(if \<forall>e \<in> set es. 0 \<le> snd e
    then \<exists>s l. seen_all es Map.empty = Inr (s, l) \<and> (\<forall>i. channels i s = offered (history_of i es))
    else seen_all es Map.empty = Inl Undefined_behaviour)"
proof (cases "\<forall>e \<in> set es. 0 \<le> snd e")
  case True
  then show ?thesis
    using seen_all_rel [OF True] history_rel_channels [OF _ True] by auto
next
  case False
  then show ?thesis
    using seen_all_fault [of _ es] by (auto simp: not_le)
qed

theorem seen_refines_history_witness:
  "\<exists>s l. seen_all [(1, 0), (1, 70), (2, 5), (1, kEndFrame), (1, 3)] Map.empty = Inr (s, l)
      \<and> channels 1 s = {70, 0}"
  using seen_refines_history [of "[(1, 0), (1, 70), (2, 5), (1, kEndFrame), (1, 3)]"]
  by (auto simp: offered_def history_of_def last_completed_def isPersistent_def kEndFrame_def)

text \<open>
  The availability callback is triggered exactly when it tells something new: each call of
  \<^verbatim>\<open>seen\<close> after any history triggers it if the channel is \<^verbatim>\<open>kEndFrame\<close> or is not in
  \<^verbatim>\<open>channels(id)\<close> at that moment, and not otherwise.
\<close>

theorem seen_triggers_new_only:
  assumes "seen_all es Map.empty = Inr (s, l)" and "0 \<le> c"
  shows "\<exists>s'. seen_all (es @ [(i, c)]) Map.empty
    = Inr (s', l @ (if c = kEndFrame \<or> c \<notin> channels i s then [(i, c)] else []))"
proof -
  have nonneg: "\<forall>e \<in> set es. 0 \<le> snd e"
    using assms(1) seen_all_fault [of _ es Map.empty] by (metis Inl_Inr_False not_le)
  then have rel: "frame_rel (getState i s) (history_of i es)"
    using seen_all_rel [OF nonneg] assms(1) by (auto simp: history_rel_def)
  obtain p t where 1: "seen_frame c (getState i s) = Inr (p, t)"
    using seen_frame_ok [OF assms(2)] by blast
  have "channels i s = availablePersistent (getState i s)
      \<union> {c. 0 \<le> c \<and> c < 64 \<and> bit (availableLast (getState i s)) (nat c)}"
    using channels_Some [of s i] by (cases "s i") (simp_all add: getState_def channels_def default_FSState_def)
  then show ?thesis
    using 1 seen_frame_trigger [OF rel 1] assms(1) by (auto simp: seen_all_snoc seen_def)
qed

theorem seen_triggers_new_only_witness:
  "\<exists>s'. seen_all ([(1, 70)] @ [(1, 70)]) Map.empty = Inr (s', [(1 :: FrameID, 70)])"
proof -
  have 1: "seen_all [(1, 70)] Map.empty
    = Inr ([1 \<mapsto> default_FSState\<lparr>availablePersistent := {70}\<rparr>], [(1 :: FrameID, 70)])"
    by (simp add: seen_def seen_frame_def getState_def isPersistent_def kEndFrame_def default_FSState_def)
  show ?thesis
    using seen_triggers_new_only [OF 1, of 70 1]
    by (simp add: channels_def fold_insert_filter kEndFrame_def del: upto_rec_numeral)
qed

section \<open>Selection and availability do not interfere\<close>

text \<open>
  A consumer selects channels while the source reports them. The contract both rely on: a part of
  the state (a view) changes only by the operations that concern it. Under that contract the other
  operations can be dropped from any sequence without changing the view.
\<close>

locale projected_steps =
  fixes step :: "'e \<Rightarrow> 's \<Rightarrow> 's res"
    and valid :: "'e \<Rightarrow> bool"
    and relevant :: "'e \<Rightarrow> bool"
    and view :: "'s \<Rightarrow> 'v"
    and vstep :: "'e \<Rightarrow> 'v \<Rightarrow> 'v"
  assumes step_view: "valid e \<Longrightarrow> \<exists>s'. step e s = Inr s'
    \<and> view s' = (if relevant e then vstep e (view s) else view s)"
begin

lemma steps_view:
  "\<forall>e \<in> set es. valid e \<Longrightarrow> \<exists>s'. fold (\<lambda>e r. res_bind r (step e)) es (Inr s) = Inr s'
     \<and> view s' = fold vstep (filter relevant es) (view s)"
proof (induction es arbitrary: s)
  case (Cons e es)
  then obtain s1 where 1: "step e s = Inr s1"
      "view s1 = (if relevant e then vstep e (view s) else view s)"
    using step_view [of e s] by auto
  obtain s2 where "fold (\<lambda>e r. res_bind r (step e)) es (Inr s1) = Inr s2
      \<and> view s2 = fold vstep (filter relevant es) (view s1)"
    using Cons by force
  with 1 show ?case by auto
qed simp

lemma steps_filter:
  assumes "\<forall>e \<in> set es. valid e"
  shows "\<exists>s1 s2. fold (\<lambda>e r. res_bind r (step e)) es (Inr s) = Inr s1
    \<and> fold (\<lambda>e r. res_bind r (step e)) (filter relevant es) (Inr s) = Inr s2 \<and> view s1 = view s2"
  using steps_view [OF assms, of s] steps_view [of "filter relevant es" s] assms by auto

end

datatype stream_op = Op_seen FrameID Channel | Op_enable FrameID | Op_enable_channels FrameID "Channel set"
  | Op_enable_channel FrameID Channel | Op_disable FrameID | Op_disable_channel FrameID Channel
  | Op_disable_channels FrameID "Channel set"

fun stream_step :: "stream_op \<Rightarrow> stream_state \<Rightarrow> stream_state res" where
  "stream_step (Op_seen i c) s = res_bind (seen i c s) (\<lambda>(s', _). Inr s')"
| "stream_step (Op_enable i) s = Inr (snd (enable i s))"
| "stream_step (Op_enable_channel i c) s = Inr (snd (enable_channel i c s))"
| "stream_step (Op_enable_channels i cs) s = Inr (snd (enable_channels i cs s))"
| "stream_step (Op_disable i) s = Inr (disable i s)"
| "stream_step (Op_disable_channel i c) s = Inr (disable_channel i c s)"
| "stream_step (Op_disable_channels i cs) s = Inr (disable_channels i cs s)"

definition stream_steps :: "stream_op list \<Rightarrow> stream_state \<Rightarrow> stream_state res" where
  "stream_steps es s = fold (\<lambda>e r. res_bind r (stream_step e)) es (Inr s)"

fun op_valid :: "stream_op \<Rightarrow> bool" where
  "op_valid (Op_seen i c) = (0 \<le> c)"
| "op_valid _ = True"

fun selects :: "FrameID \<Rightarrow> stream_op \<Rightarrow> bool" where
  "selects i (Op_seen j c) = False"
| "selects i (Op_enable j) = (i = j)"
| "selects i (Op_enable_channel j c) = (i = j)"
| "selects i (Op_enable_channels j cs) = (i = j)"
| "selects i (Op_disable j) = (i = j)"
| "selects i (Op_disable_channel j c) = (i = j)"
| "selects i (Op_disable_channels j cs) = (i = j)"

fun reports :: "FrameID \<Rightarrow> stream_op \<Rightarrow> bool" where
  "reports i (Op_seen j c) = (i = j)"
| "reports i _ = False"

text \<open>What a consumer sees of its selection, and how an operation changes it.\<close>

definition selection :: "FrameID \<Rightarrow> stream_state \<Rightarrow> bool \<times> Channel set" where
  "selection i s = (enabled i s, enabledChannels i s)"

fun select_step :: "stream_op \<Rightarrow> bool \<times> Channel set \<Rightarrow> bool \<times> Channel set" where
  "select_step (Op_enable i) (e, cs) = (True, cs)"
| "select_step (Op_enable_channel i c) (e, cs) = (True, insert c cs)"
| "select_step (Op_enable_channels i ds) (e, cs) = (True, cs \<union> ds)"
| "select_step (Op_disable i) (e, cs) = (False, cs)"
| "select_step (Op_disable_channel i c) (e, cs) = (e \<and> cs - {c} \<noteq> {}, cs - {c})"
| "select_step (Op_disable_channels i ds) (e, cs) = (e \<and> cs - ds \<noteq> {}, cs - ds)"
| "select_step (Op_seen i c) v = v"

definition availability :: "FrameID \<Rightarrow> stream_state \<Rightarrow> Channel set \<times> u64 \<times> u64" where
  "availability i s = (let p = getState i s in (availablePersistent p, availableLast p, availableNext p))"

fun report_step :: "stream_op \<Rightarrow> Channel set \<times> u64 \<times> u64 \<Rightarrow> Channel set \<times> u64 \<times> u64" where
  "report_step (Op_seen i c) (p, l, n) =
     (case seen_frame c \<lparr>enabled_flag = False, selected = {}, availablePersistent = p,
             availableLast = l, availableNext = n\<rparr> of
        Inr (q, _) \<Rightarrow> (availablePersistent q, availableLast q, availableNext q)
      | Inl _ \<Rightarrow> (p, l, n))"
| "report_step _ v = v"

lemma seen_frame_selection:
  "seen_frame c p = Inr (p', t) \<Longrightarrow> enabled_flag p' = enabled_flag p \<and> selected p' = selected p"
  by (auto simp: seen_frame_def Let_def res_bind_Inr split: if_splits)

lemma op_seen_step:
  assumes "0 \<le> c"
  obtains p t where "seen_frame c (getState j s) = Inr (p, t)"
    and "stream_step (Op_seen j c) s = Inr (s(j \<mapsto> p))"
  using seen_frame_ok [OF assms, of "getState j s"] by (auto simp: seen_def)

interpretation selection: projected_steps stream_step op_valid "selects i" "selection i" select_step
  for i
proof
  fix e s assume v: "op_valid e"
  show "\<exists>s'. stream_step e s = Inr s'
    \<and> selection i s' = (if selects i e then select_step e (selection i s) else selection i s)"
  proof (cases e)
    case (Op_seen j c)
    with v obtain p t where 1: "seen_frame c (getState j s) = Inr (p, t)"
        "stream_step (Op_seen j c) s = Inr (s(j \<mapsto> p))"
      using op_seen_step [of c j s] by auto
    then show ?thesis
      using Op_seen seen_frame_selection [OF 1(1)]
      by (auto simp: selection_def enabled_def enabledChannels_def getState_def default_FSState_def
          split: option.splits)
  qed (auto simp: selection_def enabled_def enabledChannels_def getState_def default_FSState_def
      enable_def enable_channel_def enable_channels_def disable_def disable_channel_def
      disable_channels_def unselect_def Let_def split: option.splits)
qed

lemma seen_frame_ignores_selection:
  "seen_frame c (p\<lparr>enabled_flag := e, selected := cs\<rparr>)
   = (case seen_frame c p of Inl x \<Rightarrow> Inl x | Inr (q, t) \<Rightarrow> Inr (q\<lparr>enabled_flag := e, selected := cs\<rparr>, t))"
  by (cases "shl64 c") (auto simp: seen_frame_def Let_def)

interpretation availability: projected_steps stream_step op_valid "reports i" "availability i" report_step
  for i
proof
  fix e s assume v: "op_valid e"
  show "\<exists>s'. stream_step e s = Inr s'
    \<and> availability i s' = (if reports i e then report_step e (availability i s) else availability i s)"
  proof (cases e)
    case (Op_seen j c)
    with v obtain p t where 1: "seen_frame c (getState j s) = Inr (p, t)"
        "stream_step (Op_seen j c) s = Inr (s(j \<mapsto> p))"
      using op_seen_step [of c j s] by auto
    have "seen_frame c ((getState j s)\<lparr>enabled_flag := False, selected := {}\<rparr>)
        = Inr (p\<lparr>enabled_flag := False, selected := {}\<rparr>, t)"
      using 1(1) by (simp add: seen_frame_ignores_selection)
    moreover have "(getState j s)\<lparr>enabled_flag := False, selected := {}\<rparr> =
        \<lparr>enabled_flag = False, selected = {}, availablePersistent = availablePersistent (getState j s),
         availableLast = availableLast (getState j s), availableNext = availableNext (getState j s)\<rparr>"
      by (cases "getState j s") simp
    ultimately show ?thesis
      using Op_seen 1(2) by (simp add: availability_def Let_def)
  qed (auto simp: availability_def getState_def enable_def enable_channel_def enable_channels_def
      disable_def disable_channel_def disable_channels_def unselect_def Let_def default_FSState_def
      split: option.splits)
qed

lemma channels_availability: "availability i s1 = availability i s2 \<Longrightarrow> channels i s1 = channels i s2"
proof -
  have "channels i s = (case availability i s of (p, l, n) \<Rightarrow>
      p \<union> {c. 0 \<le> c \<and> c < 64 \<and> bit l (nat c)})" for s
    using channels_Some [of s i]
    by (cases "s i") (simp_all add: channels_def availability_def getState_def default_FSState_def)
  then show "availability i s1 = availability i s2 \<Longrightarrow> channels i s1 = channels i s2"
    by simp
qed

text \<open>
  C35: Selection and availability do not interfere, and frames do not interfere with each other. In
  any sequence of \<^verbatim>\<open>enable\<close>, \<^verbatim>\<open>disable\<close> and \<^verbatim>\<open>seen\<close> calls (with non-negative channels) the
  enabled flag and the selected channels of a frame are the result of folding the abstract
  selection operations of that frame alone, and the channels it offers are those after its own
  \<^verbatim>\<open>seen\<close> calls alone.
\<close>

theorem stream_noninterference:
  assumes "\<forall>e \<in> set es. op_valid e"
  shows "\<exists>s1 s2. stream_steps es s = Inr s1 \<and> stream_steps (filter (reports i) es) s = Inr s2
    \<and> channels i s1 = channels i s2
    \<and> (enabled i s1, enabledChannels i s1)
        = fold select_step (filter (selects i) es) (enabled i s, enabledChannels i s)"
proof -
  obtain s1 where 1: "stream_steps es s = Inr s1"
      "selection i s1 = fold select_step (filter (selects i) es) (selection i s)"
    using selection.steps_view [OF assms, of s i] by (auto simp: stream_steps_def)
  obtain s2 where "stream_steps (filter (reports i) es) s = Inr s2" "availability i s1 = availability i s2"
    using availability.steps_filter [OF assms, of s i] 1(1) by (auto simp: stream_steps_def)
  then show ?thesis
    using 1 channels_availability [of i s1 s2] by (auto simp: selection_def)
qed

theorem stream_noninterference_witness:
  "\<exists>s1. stream_steps [Op_enable_channel 1 5, Op_seen 1 70, Op_enable 2, Op_disable_channel 1 5] Map.empty = Inr s1
    \<and> (enabled 1 s1, enabledChannels 1 s1) = (False, {})"
proof -
  have v: "\<forall>e \<in> set [Op_enable_channel 1 5, Op_seen 1 70, Op_enable 2, Op_disable_channel 1 5]. op_valid e"
    by simp
  have f: "fold select_step (filter (selects 1)
      [Op_enable_channel 1 5, Op_seen 1 70, Op_enable 2, Op_disable_channel 1 5])
      (enabled 1 Map.empty, enabledChannels 1 Map.empty) = (False, {})"
    by (simp add: enabled_def enabledChannels_def)
  show ?thesis
    using stream_noninterference [OF v, of Map.empty 1] unfolding f by blast
qed

end
