(* ===== verification/FTL_Iface.thy ===== *)
theory FTL_Iface
  imports FTL_Stream
begin

text \<open>
  The virtual functions a composite stream (broadcaster, muxer) calls on the streams it contains.
  A contained stream is a \<^verbatim>\<open>shared_ptr<Stream>\<close> of type \<open>'p\<close>; what its functions do is a field of
  the record \<open>stream_vtable\<close>, a function of the pointer and of the state \<open>'w\<close> of everything behind
  it. Nothing is assumed of these functions.
\<close>

section \<open>Properties and types of streams\<close>

datatype StreamProperty = kInvalid | kLooping | kSpeed | kBitrate | kMaxBitrate | kAdaptiveBitrate
  | kObservers | kURI | kPaused | kBytesSent | kBytesReceived | kLatency | kFrameRate | kName
  | kDescription | kTags | kUser | kRequestSize | kBuffering | kUnderunCount | kDropCount
  | kAutoBufferAdjust | kDisableBuffering

datatype StreamType = kMixed | kUnknownType | kLive | kRecorded

text \<open>\<^verbatim>\<open>std::any\<close> with the types the streams store in it; a wrong \<^verbatim>\<open>any_cast\<close> throws.\<close>

datatype any = Any_empty | Any_bool bool | Any_int int | Any_float int | Any_string string
  | Any_size int | Any_channel Channel

fun any_cast_string :: "any \<Rightarrow> string res" where
  "any_cast_string (Any_string s) = Inr s"
| "any_cast_string _ = Inl (Std_exception ''bad any_cast'')"

fun any_cast_bool :: "any \<Rightarrow> bool res" where
  "any_cast_bool (Any_bool b) = Inr b"
| "any_cast_bool _ = Inl (Std_exception ''bad any_cast'')"

fun any_cast_int :: "any \<Rightarrow> int res" where
  "any_cast_int (Any_int i) = Inr i"
| "any_cast_int _ = Inl (Std_exception ''bad any_cast'')"

section \<open>The virtual functions\<close>

record ('p, 'w) stream_vtable =
  v_post :: "'p \<Rightarrow> StreamPacket \<Rightarrow> DataPacket \<Rightarrow> 'w \<Rightarrow> bool \<times> 'w"
  v_begin :: "'p \<Rightarrow> 'w \<Rightarrow> bool \<times> 'w"
  v_end :: "'p \<Rightarrow> 'w \<Rightarrow> bool \<times> 'w"
  v_active :: "'p \<Rightarrow> 'w \<Rightarrow> bool \<times> 'w"
  v_active_frame :: "'p \<Rightarrow> FrameID \<Rightarrow> 'w \<Rightarrow> bool \<times> 'w"
  v_reset :: "'p \<Rightarrow> 'w \<Rightarrow> 'w"
  v_enable :: "'p \<Rightarrow> FrameID \<Rightarrow> 'w \<Rightarrow> bool \<times> 'w"
  v_enable_channel :: "'p \<Rightarrow> Channel \<Rightarrow> FrameID \<Rightarrow> 'w \<Rightarrow> bool \<times> 'w"
  v_enable_channels :: "'p \<Rightarrow> Channel set \<Rightarrow> FrameID \<Rightarrow> 'w \<Rightarrow> bool \<times> 'w"
  v_disable :: "'p \<Rightarrow> FrameID \<Rightarrow> 'w \<Rightarrow> 'w"
  v_disable_channel :: "'p \<Rightarrow> Channel \<Rightarrow> FrameID \<Rightarrow> 'w \<Rightarrow> 'w"
  v_disable_channels :: "'p \<Rightarrow> Channel set \<Rightarrow> FrameID \<Rightarrow> 'w \<Rightarrow> 'w"
  v_setProperty :: "'p \<Rightarrow> StreamProperty \<Rightarrow> any \<Rightarrow> 'w \<Rightarrow> 'w"
  v_getProperty :: "'p \<Rightarrow> StreamProperty \<Rightarrow> 'w \<Rightarrow> any"
  v_supportsProperty :: "'p \<Rightarrow> StreamProperty \<Rightarrow> 'w \<Rightarrow> bool"
  v_type :: "'p \<Rightarrow> 'w \<Rightarrow> StreamType"

text \<open>What a composite reports to its own listeners.\<close>

datatype stream_out = Out_packet StreamPacket DataPacket | Out_available FrameID Channel
  | Out_request Request | Out_error Error string

text \<open>\<^verbatim>\<open>Stream::seen\<close> of the composite itself, with its availability callback as an output.\<close>

definition seen_out :: "FrameID \<Rightarrow> Channel \<Rightarrow> stream_state \<Rightarrow> (stream_state \<times> stream_out list) res" where
  "seen_out i c s = res_bind (seen i c s) (\<lambda>(s', t). Inr (s', if t then [Out_available i c] else []))"

section \<open>The loops over contained streams\<close>

text \<open>\<^verbatim>\<open>r = r && s.stream->f()\<close>: once false, no further call.\<close>

fun and_loop :: "('p \<Rightarrow> 'w \<Rightarrow> bool \<times> 'w) \<Rightarrow> 'p list \<Rightarrow> bool \<Rightarrow> 'w \<Rightarrow> bool \<times> 'w" where
  "and_loop f [] r w = (r, w)"
| "and_loop f (p # ps) r w =
     (if r then (case f p w of (b, w') \<Rightarrow> and_loop f ps b w') else and_loop f ps False w)"

text \<open>\<^verbatim>\<open>r = s.stream->f() && r\<close> and \<^verbatim>\<open>r = s.stream->f() || r\<close>: every stream is called.\<close>

fun call_loop :: "(bool \<Rightarrow> bool \<Rightarrow> bool) \<Rightarrow> ('p \<Rightarrow> 'w \<Rightarrow> bool \<times> 'w) \<Rightarrow> 'p list \<Rightarrow> bool \<Rightarrow> 'w \<Rightarrow> bool \<times> 'w" where
  "call_loop comb f [] r w = (r, w)"
| "call_loop comb f (p # ps) r w = (case f p w of (b, w') \<Rightarrow> call_loop comb f ps (comb b r) w')"

text \<open>\<^verbatim>\<open>if (s.stream->f()) return true;\<close>: stops at the first true.\<close>

fun or_loop :: "('p \<Rightarrow> 'w \<Rightarrow> bool \<times> 'w) \<Rightarrow> 'p list \<Rightarrow> 'w \<Rightarrow> bool \<times> 'w" where
  "or_loop f [] w = (False, w)"
| "or_loop f (p # ps) w = (case f p w of (b, w') \<Rightarrow> if b then (True, w') else or_loop f ps w')"

section \<open>Observing the calls\<close>

text \<open>
  To speak about the calls a composite makes, the world is the list of the calls made so far and
  the answer of a stream is a function of the stream and of the call.
\<close>

datatype vcall = Call_post StreamPacket DataPacket | Call_begin | Call_end | Call_active
  | Call_active_frame FrameID | Call_reset | Call_enable FrameID | Call_enable_channel Channel FrameID
  | Call_enable_channels "Channel set" FrameID | Call_disable FrameID | Call_disable_channel Channel FrameID
  | Call_disable_channels "Channel set" FrameID | Call_setProperty StreamProperty any

definition answering :: "('p \<Rightarrow> vcall \<Rightarrow> bool) \<Rightarrow> vcall \<Rightarrow> 'p \<Rightarrow> ('p \<times> vcall) list \<Rightarrow> bool \<times> ('p \<times> vcall) list" where
  "answering ok c p w = (ok p c, w @ [(p, c)])"

definition logging_vtable :: "('p \<Rightarrow> vcall \<Rightarrow> bool) \<Rightarrow> ('p, ('p \<times> vcall) list) stream_vtable" where
  "logging_vtable ok = \<lparr>
     v_post = (\<lambda>p spkt pkt. answering ok (Call_post spkt pkt) p),
     v_begin = answering ok Call_begin,
     v_end = answering ok Call_end,
     v_active = answering ok Call_active,
     v_active_frame = (\<lambda>p i. answering ok (Call_active_frame i) p),
     v_reset = (\<lambda>p w. w @ [(p, Call_reset)]),
     v_enable = (\<lambda>p i. answering ok (Call_enable i) p),
     v_enable_channel = (\<lambda>p c i. answering ok (Call_enable_channel c i) p),
     v_enable_channels = (\<lambda>p cs i. answering ok (Call_enable_channels cs i) p),
     v_disable = (\<lambda>p i w. w @ [(p, Call_disable i)]),
     v_disable_channel = (\<lambda>p c i w. w @ [(p, Call_disable_channel c i)]),
     v_disable_channels = (\<lambda>p cs i w. w @ [(p, Call_disable_channels cs i)]),
     v_setProperty = (\<lambda>p opt x w. w @ [(p, Call_setProperty opt x)]),
     v_getProperty = (\<lambda>p opt w. Any_empty),
     v_supportsProperty = (\<lambda>p opt w. False),
     v_type = (\<lambda>p w. kUnknownType)\<rparr>"

lemma and_loop_answering:
  "and_loop (answering ok c) ps True w =
    (list_all (\<lambda>p. ok p c) ps,
     w @ map (\<lambda>p. (p, c)) (takeWhile (\<lambda>p. ok p c) ps @ take 1 (dropWhile (\<lambda>p. ok p c) ps)))"
proof -
  have stop: "and_loop f qs False v = (False, v)" for f :: "'p \<Rightarrow> 'w \<Rightarrow> bool \<times> 'w" and qs v
    by (induction qs) auto
  show ?thesis
    by (induction ps arbitrary: w) (auto simp: answering_def stop)
qed

lemma call_loop_and_answering:
  "call_loop (\<and>) (answering ok c) ps r w = (r \<and> list_all (\<lambda>p. ok p c) ps, w @ map (\<lambda>p. (p, c)) ps)"
  by (induction ps arbitrary: r w) (auto simp: answering_def)

lemma call_loop_or_answering:
  "call_loop (\<or>) (answering ok c) ps r w = (r \<or> list_ex (\<lambda>p. ok p c) ps, w @ map (\<lambda>p. (p, c)) ps)"
  by (induction ps arbitrary: r w) (auto simp: answering_def)

lemma fold_logging: "fold (\<lambda>p w. w @ [(p, c)]) ps w = w @ map (\<lambda>p. (p, c)) ps"
  by (induction ps arbitrary: w) auto

end
