(* ===== verification/FTL_Broadcast.thy ===== *)
theory FTL_Broadcast
  imports FTL_Iface
begin

text \<open>
  The broadcaster (\<^verbatim>\<open>broadcaster.cpp\<close>): one stream in front of several. What is posted goes to
  all of them, what any of them receives is passed on unchanged.
\<close>

section \<open>State and operations\<close>

text \<open>
  An entry of \<^verbatim>\<open>streams_\<close> is its stream; its three handles keep the callbacks below registered
  as long as the entry exists.
\<close>

record 'p Broadcast =
  bstreams :: "'p list"
  bbase :: stream_state

definition broadcast_add :: "'p \<Rightarrow> 'p Broadcast \<Rightarrow> 'p Broadcast" where
  "broadcast_add p b = b\<lparr>bstreams := bstreams b @ [p]\<rparr>"

definition broadcast_onPacket :: "StreamPacket \<Rightarrow> DataPacket \<Rightarrow> 'p Broadcast \<Rightarrow> 'p Broadcast \<times> stream_out list" where
  "broadcast_onPacket spkt pkt b = (b, [Out_packet spkt pkt])"

definition broadcast_onAvailable :: "FrameID \<Rightarrow> Channel \<Rightarrow> 'p Broadcast \<Rightarrow> ('p Broadcast \<times> stream_out list) res" where
  "broadcast_onAvailable i c b = res_bind (seen_out i c (bbase b)) (\<lambda>(s, out). Inr (b\<lparr>bbase := s\<rparr>, out))"

definition broadcast_onRequest :: "Request \<Rightarrow> 'p Broadcast \<Rightarrow> 'p Broadcast \<times> stream_out list" where
  "broadcast_onRequest req b = (b, [Out_request req])"

definition broadcast_remove :: "'p \<Rightarrow> 'p Broadcast \<Rightarrow> 'p Broadcast" where
  "broadcast_remove p b = b\<lparr>bstreams := remove1 p (bstreams b)\<rparr>"

definition broadcast_clear :: "'p Broadcast \<Rightarrow> 'p Broadcast" where
  "broadcast_clear b = b\<lparr>bstreams := []\<rparr>"

definition broadcast_post :: "('p, 'w) stream_vtable \<Rightarrow> StreamPacket \<Rightarrow> DataPacket \<Rightarrow> 'p Broadcast \<Rightarrow> 'w \<Rightarrow> bool \<times> 'w" where
  "broadcast_post v spkt pkt b w = call_loop (\<and>) (\<lambda>p. v_post v p spkt pkt) (bstreams b) True w"

definition broadcast_begin :: "('p, 'w) stream_vtable \<Rightarrow> 'p Broadcast \<Rightarrow> 'w \<Rightarrow> bool \<times> 'w" where
  "broadcast_begin v b w = and_loop (v_begin v) (bstreams b) True w"

definition broadcast_end :: "('p, 'w) stream_vtable \<Rightarrow> 'p Broadcast \<Rightarrow> 'w \<Rightarrow> bool \<times> 'w" where
  "broadcast_end v b w = and_loop (v_end v) (bstreams b) True w"

definition broadcast_active :: "('p, 'w) stream_vtable \<Rightarrow> 'p Broadcast \<Rightarrow> 'w \<Rightarrow> bool \<times> 'w" where
  "broadcast_active v b w =
     (if length (bstreams b) = 0 then (False, w) else and_loop (v_active v) (bstreams b) True w)"

definition broadcast_active_frame :: "('p, 'w) stream_vtable \<Rightarrow> FrameID \<Rightarrow> 'p Broadcast \<Rightarrow> 'w \<Rightarrow> bool \<times> 'w" where
  "broadcast_active_frame v i b w =
     (if length (bstreams b) = 0 then (False, w) else or_loop (\<lambda>p. v_active_frame v p i) (bstreams b) w)"

definition broadcast_reset :: "('p, 'w) stream_vtable \<Rightarrow> 'p Broadcast \<Rightarrow> 'w \<Rightarrow> 'w" where
  "broadcast_reset v b w = fold (v_reset v) (bstreams b) w"

text \<open>The three overloads of \<^verbatim>\<open>enable\<close> and of \<^verbatim>\<open>disable\<close>.\<close>

definition broadcast_enable_with :: "('p \<Rightarrow> 'w \<Rightarrow> bool \<times> 'w) \<Rightarrow> (stream_state \<Rightarrow> bool \<times> stream_state)
    \<Rightarrow> 'p Broadcast \<Rightarrow> 'w \<Rightarrow> bool \<times> 'p Broadcast \<times> 'w" where
  "broadcast_enable_with f base b w =
     (case call_loop (\<or>) f (bstreams b) False w of
        (r, w') \<Rightarrow> (r, if r then b\<lparr>bbase := snd (base (bbase b))\<rparr> else b, w'))"

definition broadcast_enable :: "('p, 'w) stream_vtable \<Rightarrow> FrameID \<Rightarrow> 'p Broadcast \<Rightarrow> 'w \<Rightarrow> bool \<times> 'p Broadcast \<times> 'w" where
  "broadcast_enable v i = broadcast_enable_with (\<lambda>p. v_enable v p i) (enable i)"

definition broadcast_enable_channel :: "('p, 'w) stream_vtable \<Rightarrow> FrameID \<Rightarrow> Channel \<Rightarrow> 'p Broadcast \<Rightarrow> 'w \<Rightarrow> bool \<times> 'p Broadcast \<times> 'w" where
  "broadcast_enable_channel v i c = broadcast_enable_with (\<lambda>p. v_enable_channel v p c i) (enable_channel i c)"

definition broadcast_enable_channels :: "('p, 'w) stream_vtable \<Rightarrow> FrameID \<Rightarrow> Channel set \<Rightarrow> 'p Broadcast \<Rightarrow> 'w \<Rightarrow> bool \<times> 'p Broadcast \<times> 'w" where
  "broadcast_enable_channels v i cs = broadcast_enable_with (\<lambda>p. v_enable_channels v p cs i) (enable_channels i cs)"

definition broadcast_disable :: "('p, 'w) stream_vtable \<Rightarrow> FrameID \<Rightarrow> 'p Broadcast \<Rightarrow> 'w \<Rightarrow> 'p Broadcast \<times> 'w" where
  "broadcast_disable v i b w =
     (b\<lparr>bbase := disable i (bbase b)\<rparr>, fold (\<lambda>p. v_disable v p i) (bstreams b) w)"

definition broadcast_disable_channel :: "('p, 'w) stream_vtable \<Rightarrow> FrameID \<Rightarrow> Channel \<Rightarrow> 'p Broadcast \<Rightarrow> 'w \<Rightarrow> 'p Broadcast \<times> 'w" where
  "broadcast_disable_channel v i c b w =
     (b\<lparr>bbase := disable_channel i c (bbase b)\<rparr>, fold (\<lambda>p. v_disable_channel v p c i) (bstreams b) w)"

definition broadcast_disable_channels :: "('p, 'w) stream_vtable \<Rightarrow> FrameID \<Rightarrow> Channel set \<Rightarrow> 'p Broadcast \<Rightarrow> 'w \<Rightarrow> 'p Broadcast \<times> 'w" where
  "broadcast_disable_channels v i cs b w =
     (b\<lparr>bbase := disable_channels i cs (bbase b)\<rparr>, fold (\<lambda>p. v_disable_channels v p cs i) (bstreams b) w)"

definition broadcast_setProperty :: "StreamProperty \<Rightarrow> any \<Rightarrow> 'p Broadcast \<Rightarrow> 'p Broadcast" where
  "broadcast_setProperty opt x b = b"

definition broadcast_getProperty :: "StreamProperty \<Rightarrow> 'p Broadcast \<Rightarrow> any" where
  "broadcast_getProperty opt b = Any_int 0"

definition broadcast_supportsProperty :: "StreamProperty \<Rightarrow> 'p Broadcast \<Rightarrow> bool" where
  "broadcast_supportsProperty opt b = False"

definition broadcast_type :: "'p Broadcast \<Rightarrow> StreamType" where
  "broadcast_type b = kUnknownType"

section \<open>Properties\<close>

text \<open>
  Delivery by the broadcaster. Posting hands the packet to every stream exactly once and in
  order, also after one has refused it, and returns true when all accepted it. Enabling a channel
  asks every stream, succeeds when at least one accepts, and is recorded in the broadcaster exactly
  then; disabling reaches every stream. Starting, in contrast, stops at the first stream that fails: the later ones are not
  started.
\<close>

theorem broadcast_calls:
  "broadcast_post (logging_vtable ok) spkt pkt b [] =
     (list_all (\<lambda>p. ok p (Call_post spkt pkt)) (bstreams b),
      map (\<lambda>p. (p, Call_post spkt pkt)) (bstreams b))
   \<and> broadcast_enable_channel (logging_vtable ok) i c b [] =
     (let r = list_ex (\<lambda>p. ok p (Call_enable_channel c i)) (bstreams b) in
      (r, if r then b\<lparr>bbase := snd (enable_channel i c (bbase b))\<rparr> else b,
       map (\<lambda>p. (p, Call_enable_channel c i)) (bstreams b)))
   \<and> broadcast_disable_channel (logging_vtable ok) i c b [] =
     (b\<lparr>bbase := disable_channel i c (bbase b)\<rparr>, map (\<lambda>p. (p, Call_disable_channel c i)) (bstreams b))
   \<and> broadcast_begin (logging_vtable ok) b [] =
     (list_all (\<lambda>p. ok p Call_begin) (bstreams b),
      map (\<lambda>p. (p, Call_begin)) (takeWhile (\<lambda>p. ok p Call_begin) (bstreams b)
        @ take 1 (dropWhile (\<lambda>p. ok p Call_begin) (bstreams b))))"
  by (simp add: broadcast_post_def call_loop_and_answering broadcast_enable_channel_def
      broadcast_enable_with_def call_loop_or_answering broadcast_begin_def and_loop_answering
      broadcast_disable_channel_def logging_vtable_def fold_logging Let_def)

end
