(* ===== verification/FTL_Muxer.thy ===== *)
theory FTL_Muxer
  imports FTL_Iface
begin

text \<open>
  The muxer (\<^verbatim>\<open>muxer.cpp\<close>, \<^verbatim>\<open>muxer.hpp\<close>): several streams behind one, with frame ids translated
  both ways. An id of a contained stream gets a local id the first time it is seen; \<^verbatim>\<open>imap_\<close> maps
  (stream, remote id) to local id and \<^verbatim>\<open>omap_\<close> maps local id back.

  A \<^verbatim>\<open>StreamEntry*\<close> is the \<^verbatim>\<open>id\<close> of the entry (ids are never reused, and every pointer into an
  erased entry is erased with it). Iteration orders of unordered containers are list arguments.
  The four handles of an entry keep the callbacks \<open>muxer_onPacket\<close>, \<open>muxer_onAvailable\<close>,
  \<open>muxer_onRequest\<close> and \<open>muxer_onError\<close> registered while the entry exists.
\<close>

section \<open>State\<close>

record 'p StreamEntry =
  entry_stream :: 'p
  entry_id :: int
  fixed_fs :: int

record 'p Muxer =
  fsmap :: "int \<rightharpoonup> int"
  sourcecount :: "int \<rightharpoonup> int"
  imap :: "int \<rightharpoonup> FrameID"
  omap :: "FrameID \<rightharpoonup> FrameID \<times> int"
  mstreams :: "'p StreamEntry list"
  stream_ids :: int
  framesets :: int
  mbase :: stream_state

definition empty_muxer :: "'p Muxer" where
  "empty_muxer = \<lparr>fsmap = Map.empty, sourcecount = Map.empty, imap = Map.empty, omap = Map.empty,
     mstreams = [], stream_ids = 0, framesets = 0, mbase = Map.empty\<rparr>"

section \<open>Mapping of ids\<close>

text \<open>\<^verbatim>\<open>(int64_t(s->id) << 32) | id.id\<close> and \<^verbatim>\<open>(s->id << 16) | id.frameset()\<close>\<close>

definition iid_key :: "int \<Rightarrow> FrameID \<Rightarrow> int" where
  "iid_key e i = push_bit 32 e OR uint i"

definition fsiid_key :: "int \<Rightarrow> FrameID \<Rightarrow> int" where
  "fsiid_key e i = cast_i32 (push_bit 16 e OR uint (frameset i))"

text \<open>\<^verbatim>\<open>FrameID(unsigned int, unsigned int)\<close> called with two \<^verbatim>\<open>int\<close>s.\<close>

definition FrameID_of_ints :: "int \<Rightarrow> int \<Rightarrow> FrameID" where
  "FrameID_of_ints fs s = mk_FrameID (word_of_int fs) (word_of_int s)"

definition count_of :: "(int \<rightharpoonup> int) \<Rightarrow> int \<Rightarrow> int" where
  "count_of m k = (case m k of Some n \<Rightarrow> n | None \<Rightarrow> 0)"

text \<open>The allocation of a local id.\<close>

definition allocate :: "'p StreamEntry \<Rightarrow> FrameID \<Rightarrow> 'p Muxer \<Rightarrow> FrameID \<times> 'p Muxer" where
  "allocate e i m =
     (if fixed_fs e \<ge> 0 then
        let src = count_of (sourcecount m) (fixed_fs e) in
        (FrameID_of_ints (fixed_fs e) src, m\<lparr>sourcecount := (sourcecount m)(fixed_fs e \<mapsto> src + 1)\<rparr>)
      else
        let k = fsiid_key (entry_id e) i;
            m' = (if fsmap m k = None
                  then m\<lparr>fsmap := (fsmap m)(k \<mapsto> framesets m), framesets := framesets m + 1\<rparr> else m) in
        (FrameID_of_ints (the (fsmap m' k)) (uint (source i)), m'))"

definition mapFromInput :: "'p StreamEntry \<Rightarrow> FrameID \<Rightarrow> 'p Muxer \<Rightarrow> FrameID \<times> 'p Muxer" where
  "mapFromInput e i m =
     (let k = iid_key (entry_id e) i in
      case imap m k of
        Some l \<Rightarrow> (l, m)
      | None \<Rightarrow>
         (case allocate e i m of (l, m') \<Rightarrow>
           (l, m'\<lparr>imap := (imap m')(k \<mapsto> l), omap := (omap m')(l \<mapsto> (i, entry_id e))\<rparr>)))"

definition mapFromInput_const :: "'p StreamEntry \<Rightarrow> FrameID \<Rightarrow> 'p Muxer \<Rightarrow> FrameID res" where
  "mapFromInput_const e i m =
     (case imap m (iid_key (entry_id e) i) of Some l \<Rightarrow> Inr l | None \<Rightarrow> Inl (FTL_Error ''No mapping''))"

definition mapToOutput :: "FrameID \<Rightarrow> 'p Muxer \<Rightarrow> FrameID \<times> int option" where
  "mapToOutput i m = (case omap m i of Some (r, e) \<Rightarrow> (r, Some e) | None \<Rightarrow> (i, None))"

text \<open>The stream behind an entry pointer.\<close>

definition entry_of :: "int \<Rightarrow> 'p Muxer \<Rightarrow> 'p StreamEntry option" where
  "entry_of e m = List.find (\<lambda>x. entry_id x = e) (mstreams m)"

definition route :: "FrameID \<Rightarrow> 'p Muxer \<Rightarrow> (FrameID \<times> 'p) option" where
  "route i m = (case mapToOutput i m of
     (r, Some e) \<Rightarrow> map_option (\<lambda>x. (r, entry_stream x)) (entry_of e m)
   | (r, None) \<Rightarrow> None)"

section \<open>Look-ups\<close>

text \<open>The loop over the entries that compares the URI property of each stream.\<close>

fun find_uri :: "('p \<Rightarrow> any) \<Rightarrow> string \<Rightarrow> 'p StreamEntry list \<Rightarrow> ('p StreamEntry option) res" where
  "find_uri prop u [] = Inr None"
| "find_uri prop u (e # es) = res_bind (any_cast_string (prop (entry_stream e))) (\<lambda>s.
     if s = u then Inr (Some e) else find_uri prop u es)"

definition findStream :: "('p, 'w) stream_vtable \<Rightarrow> string \<Rightarrow> 'w \<Rightarrow> 'p Muxer \<Rightarrow> ('p option) res" where
  "findStream v u w m = res_bind (find_uri (\<lambda>p. v_getProperty v p kURI w) u (mstreams m))
     (\<lambda>e. Inr (map_option entry_stream e))"

definition local_of :: "'p StreamEntry option \<Rightarrow> FrameID \<Rightarrow> 'p Muxer \<Rightarrow> FrameID res" where
  "local_of e r m = (case e of Some e' \<Rightarrow> mapFromInput_const e' r m | None \<Rightarrow> Inl (FTL_Error ''No stream''))"

text \<open>\<open>attr\<close> gives the integer value of a query attribute of the URI, if it has one.\<close>

definition findLocal_uri :: "('p, 'w) stream_vtable \<Rightarrow> (string \<Rightarrow> int option) \<Rightarrow> string \<Rightarrow> 'w \<Rightarrow> 'p Muxer \<Rightarrow> FrameID res" where
  "findLocal_uri v attr u w m =
     (let fsid = (case attr ''set'' of Some x \<Rightarrow> x | None \<Rightarrow> 0);
          fid = (case attr ''frame'' of Some x \<Rightarrow> x | None \<Rightarrow> 0) in
      res_bind (find_uri (\<lambda>p. v_getProperty v p kURI w) u (mstreams m))
        (\<lambda>e. local_of e (FrameID_of_ints fsid fid) m))"

definition findLocal_uri_id :: "('p, 'w) stream_vtable \<Rightarrow> string \<Rightarrow> FrameID \<Rightarrow> 'w \<Rightarrow> 'p Muxer \<Rightarrow> FrameID res" where
  "findLocal_uri_id v u r w m =
     res_bind (find_uri (\<lambda>p. v_getProperty v p kURI w) u (mstreams m)) (\<lambda>e. local_of e r m)"

definition find_entry :: "'p \<Rightarrow> 'p Muxer \<Rightarrow> 'p StreamEntry option" where
  "find_entry p m = List.find (\<lambda>e. entry_stream e = p) (mstreams m)"

definition findLocal :: "'p \<Rightarrow> FrameID \<Rightarrow> 'p Muxer \<Rightarrow> FrameID res" where
  "findLocal p r m = local_of (find_entry p m) r m"

definition findOrCreateLocal :: "'p \<Rightarrow> FrameID \<Rightarrow> 'p Muxer \<Rightarrow> (FrameID \<times> 'p Muxer) res" where
  "findOrCreateLocal p r m = (case find_entry p m of
     Some e \<Rightarrow> Inr (mapFromInput e r m) | None \<Rightarrow> Inl (FTL_Error ''No stream''))"

definition findRemote :: "FrameID \<Rightarrow> 'p Muxer \<Rightarrow> FrameID res" where
  "findRemote l m = (case mapToOutput l m of (r, None) \<Rightarrow> Inl (FTL_Error ''No mapping'') | (r, Some e) \<Rightarrow> Inr r)"

definition muxer_streams :: "'p Muxer \<Rightarrow> 'p list" where
  "muxer_streams m = map entry_stream (mstreams m)"

definition originStream :: "FrameID \<Rightarrow> 'p Muxer \<Rightarrow> 'p option" where
  "originStream i m = map_option snd (route i m)"

section \<open>Adding and removing streams\<close>

definition muxer_add :: "'p \<Rightarrow> int \<Rightarrow> 'p Muxer \<Rightarrow> 'p Muxer" where
  "muxer_add p fsid m = m\<lparr>stream_ids := stream_ids m + 1,
     mstreams := mstreams m @ [\<lparr>entry_stream = p, entry_id = stream_ids m, fixed_fs = fsid\<rparr>]\<rparr>"

definition muxer_remove :: "'p \<Rightarrow> 'p Muxer \<Rightarrow> 'p Muxer" where
  "muxer_remove p m =
     (case find_entry p m of
        None \<Rightarrow> m
      | Some e \<Rightarrow> m\<lparr>
          imap := (\<lambda>k. if drop_bit 32 k = entry_id e then None else imap m k),
          omap := (\<lambda>l. case omap m l of Some (r, x) \<Rightarrow> if x = entry_id e then None else Some (r, x) | None \<Rightarrow> None),
          mstreams := remove1 e (mstreams m)\<rparr>)"

text \<open>The callbacks \<^verbatim>\<open>add\<close> registers on the stream of an entry.\<close>

definition muxer_onPacket :: "'p StreamEntry \<Rightarrow> StreamPacket \<Rightarrow> DataPacket \<Rightarrow> 'p Muxer \<Rightarrow> 'p Muxer \<times> stream_out list" where
  "muxer_onPacket e spkt pkt m =
     (case mapFromInput e (packet_FrameID spkt) m of (l, m') \<Rightarrow>
       (m', [Out_packet (spkt\<lparr>streamID := ucast (frameset l), frame_number := ucast (source l)\<rparr>) pkt]))"

definition muxer_onAvailable :: "'p StreamEntry \<Rightarrow> FrameID \<Rightarrow> Channel \<Rightarrow> 'p Muxer \<Rightarrow> ('p Muxer \<times> stream_out list) res" where
  "muxer_onAvailable e i c m =
     (case mapFromInput e i m of (l, m') \<Rightarrow>
       res_bind (seen_out l c (mbase m')) (\<lambda>(s, out). Inr (m'\<lparr>mbase := s\<rparr>, out)))"

definition wildcard :: "FrameID \<Rightarrow> bool" where
  "wildcard i \<longleftrightarrow> frameset i = 255 \<or> source i = 255"

definition wildcard_match :: "FrameID \<Rightarrow> FrameID \<Rightarrow> bool" where
  "wildcard_match i j \<longleftrightarrow> \<not> (frameset i \<noteq> 255 \<and> frameset i \<noteq> frameset j) \<and> \<not> (source i \<noteq> 255 \<and> source i \<noteq> source j)"

fun request_loop :: "'p StreamEntry \<Rightarrow> Request \<Rightarrow> FrameID list \<Rightarrow> 'p Muxer \<Rightarrow> 'p Muxer \<times> stream_out list" where
  "request_loop e req [] m = (m, [])"
| "request_loop e req (i # is) m =
     (if wildcard_match (req_id req) i then
        (case mapFromInput e i m of (l, m') \<Rightarrow>
           case request_loop e req is m' of (m'', out) \<Rightarrow> (m'', Out_request (req\<lparr>req_id := l\<rparr>) # out))
      else request_loop e req is m)"

text \<open>\<open>iter\<close>: the frames of the entry's stream in iteration order.\<close>

definition muxer_onRequest :: "FrameID list \<Rightarrow> 'p StreamEntry \<Rightarrow> Request \<Rightarrow> 'p Muxer \<Rightarrow> 'p Muxer \<times> stream_out list" where
  "muxer_onRequest iter e req m =
     (if wildcard (req_id req) then request_loop e req iter m
      else (case mapFromInput e (req_id req) m of (l, m') \<Rightarrow> (m', [Out_request (req\<lparr>req_id := l\<rparr>)])))"

definition muxer_onError :: "Error \<Rightarrow> string \<Rightarrow> 'p Muxer \<Rightarrow> 'p Muxer \<times> stream_out list" where
  "muxer_onError err str m = (m, [Out_error err str])"

section \<open>Stream operations\<close>


definition muxer_begin :: "('p, 'w) stream_vtable \<Rightarrow> 'p Muxer \<Rightarrow> 'w \<Rightarrow> bool \<times> 'w" where
  "muxer_begin v m w = and_loop (v_begin v) (muxer_streams m) True w"

definition muxer_end :: "('p, 'w) stream_vtable \<Rightarrow> 'p Muxer \<Rightarrow> 'w \<Rightarrow> bool \<times> 'w" where
  "muxer_end v m w = and_loop (v_end v) (muxer_streams m) True w"

definition muxer_active :: "('p, 'w) stream_vtable \<Rightarrow> 'p Muxer \<Rightarrow> 'w \<Rightarrow> bool \<times> 'w" where
  "muxer_active v m w = and_loop (v_active v) (muxer_streams m) True w"

definition muxer_active_frame :: "('p, 'w) stream_vtable \<Rightarrow> FrameID \<Rightarrow> 'p Muxer \<Rightarrow> 'w \<Rightarrow> bool \<times> 'w" where
  "muxer_active_frame v i m w =
     (case route i m of None \<Rightarrow> (False, w) | Some (r, p) \<Rightarrow> v_active_frame v p r w)"

definition muxer_reset :: "('p, 'w) stream_vtable \<Rightarrow> 'p Muxer \<Rightarrow> 'w \<Rightarrow> 'w" where
  "muxer_reset v m w = fold (v_reset v) (muxer_streams m) w"

text \<open>
  The three overloads of \<^verbatim>\<open>enable\<close> differ only in the function called on the contained stream and
  on the muxer itself. \<open>iter\<close>: the frames of the muxer in iteration order.
\<close>

fun enable_loop :: "('p \<Rightarrow> FrameID \<Rightarrow> 'w \<Rightarrow> bool \<times> 'w) \<Rightarrow> (FrameID \<Rightarrow> stream_state \<Rightarrow> bool \<times> stream_state)
    \<Rightarrow> FrameID \<Rightarrow> FrameID list \<Rightarrow> bool \<Rightarrow> 'p Muxer \<Rightarrow> 'w \<Rightarrow> bool \<times> 'p Muxer \<times> 'w" where
  "enable_loop f base i [] r m w = (r, m, w)"
| "enable_loop f base i (j # js) r m w =
     (if wildcard_match i j then
        (case route j m of
           None \<Rightarrow> (False, m, w)
         | Some (q, p) \<Rightarrow>
            (case f p q w of (rr, w') \<Rightarrow>
               enable_loop f base i js (r \<and> rr)
                 (if rr then m\<lparr>mbase := snd (base j (mbase m))\<rparr> else m) w'))
      else enable_loop f base i js r m w)"

definition muxer_enable_with :: "('p \<Rightarrow> FrameID \<Rightarrow> 'w \<Rightarrow> bool \<times> 'w) \<Rightarrow> (FrameID \<Rightarrow> stream_state \<Rightarrow> bool \<times> stream_state)
    \<Rightarrow> FrameID list \<Rightarrow> FrameID \<Rightarrow> 'p Muxer \<Rightarrow> 'w \<Rightarrow> bool \<times> 'p Muxer \<times> 'w" where
  "muxer_enable_with f base iter i m w =
     (if wildcard i then enable_loop f base i iter True m w
      else
        (case route i m of
           None \<Rightarrow> (False, m, w)
         | Some (q, p) \<Rightarrow>
            (case f p q w of (r, w') \<Rightarrow> (r, if r then m\<lparr>mbase := snd (base i (mbase m))\<rparr> else m, w'))))"

definition muxer_enable :: "('p, 'w) stream_vtable \<Rightarrow> FrameID list \<Rightarrow> FrameID \<Rightarrow> 'p Muxer \<Rightarrow> 'w \<Rightarrow> bool \<times> 'p Muxer \<times> 'w" where
  "muxer_enable v = muxer_enable_with (v_enable v) enable"

definition muxer_enable_channel :: "('p, 'w) stream_vtable \<Rightarrow> Channel \<Rightarrow> FrameID list \<Rightarrow> FrameID \<Rightarrow> 'p Muxer \<Rightarrow> 'w \<Rightarrow> bool \<times> 'p Muxer \<times> 'w" where
  "muxer_enable_channel v c = muxer_enable_with (\<lambda>p. v_enable_channel v p c) (\<lambda>i. enable_channel i c)"

definition muxer_enable_channels :: "('p, 'w) stream_vtable \<Rightarrow> Channel set \<Rightarrow> FrameID list \<Rightarrow> FrameID \<Rightarrow> 'p Muxer \<Rightarrow> 'w \<Rightarrow> bool \<times> 'p Muxer \<times> 'w" where
  "muxer_enable_channels v cs = muxer_enable_with (\<lambda>p. v_enable_channels v p cs) (\<lambda>i. enable_channels i cs)"

definition muxer_disable_with :: "('p \<Rightarrow> FrameID \<Rightarrow> 'w \<Rightarrow> 'w) \<Rightarrow> (FrameID \<Rightarrow> stream_state \<Rightarrow> stream_state)
    \<Rightarrow> FrameID \<Rightarrow> 'p Muxer \<Rightarrow> 'w \<Rightarrow> 'p Muxer \<times> 'w" where
  "muxer_disable_with f base i m w =
     (case route i m of
        None \<Rightarrow> (m, w)
      | Some (q, p) \<Rightarrow> (m\<lparr>mbase := base i (mbase m)\<rparr>, f p q w))"

definition muxer_disable :: "('p, 'w) stream_vtable \<Rightarrow> FrameID \<Rightarrow> 'p Muxer \<Rightarrow> 'w \<Rightarrow> 'p Muxer \<times> 'w" where
  "muxer_disable v = muxer_disable_with (v_disable v) disable"

definition muxer_disable_channel :: "('p, 'w) stream_vtable \<Rightarrow> Channel \<Rightarrow> FrameID \<Rightarrow> 'p Muxer \<Rightarrow> 'w \<Rightarrow> 'p Muxer \<times> 'w" where
  "muxer_disable_channel v c = muxer_disable_with (\<lambda>p. v_disable_channel v p c) (\<lambda>i. disable_channel i c)"

definition muxer_disable_channels :: "('p, 'w) stream_vtable \<Rightarrow> Channel set \<Rightarrow> FrameID \<Rightarrow> 'p Muxer \<Rightarrow> 'w \<Rightarrow> 'p Muxer \<times> 'w" where
  "muxer_disable_channels v cs = muxer_disable_with (\<lambda>p. v_disable_channels v p cs) (\<lambda>i. disable_channels i cs)"

definition muxer_setProperty :: "('p, 'w) stream_vtable \<Rightarrow> StreamProperty \<Rightarrow> any \<Rightarrow> 'p Muxer \<Rightarrow> 'w \<Rightarrow> 'w" where
  "muxer_setProperty v opt x m w = fold (\<lambda>p. v_setProperty v p opt x) (muxer_streams m) w"

definition muxer_getProperty :: "('p, 'w) stream_vtable \<Rightarrow> StreamProperty \<Rightarrow> 'p Muxer \<Rightarrow> 'w \<Rightarrow> any" where
  "muxer_getProperty v opt m w =
     (case List.find (\<lambda>p. v_supportsProperty v p opt w) (muxer_streams m) of
        Some p \<Rightarrow> v_getProperty v p opt w | None \<Rightarrow> Any_int 0)"

definition muxer_supportsProperty :: "('p, 'w) stream_vtable \<Rightarrow> StreamProperty \<Rightarrow> 'p Muxer \<Rightarrow> 'w \<Rightarrow> bool" where
  "muxer_supportsProperty v opt m w = list_ex (\<lambda>p. v_supportsProperty v p opt w) (muxer_streams m)"

definition muxer_type :: "('p, 'w) stream_vtable \<Rightarrow> 'p Muxer \<Rightarrow> 'w \<Rightarrow> StreamType" where
  "muxer_type v m w = fold (\<lambda>p t. let tt = v_type v p w in
     if t = kUnknownType then tt else if t \<noteq> tt then kMixed else t) (muxer_streams m) kUnknownType"

section \<open>Keys\<close>

lemma iid_key_stream [simp]: "drop_bit 32 (iid_key e i) = e"
  by (rule bit_eqI) (auto simp: iid_key_def bit_simps dest: bit_imp_le_length)

lemma iid_key_frame: "take_bit 32 (iid_key e i) = uint i"
  by (rule bit_eqI) (auto simp: iid_key_def bit_simps dest: bit_imp_le_length)

lemma iid_key_inj [simp]: "iid_key e i = iid_key e' i' \<longleftrightarrow> e = e' \<and> i = i'"
  by (metis iid_key_frame iid_key_stream word_uint_eqI)

lemma base_65536_inj:
  fixes a b e e' :: int
  assumes "e * 65536 + a = e' * 65536 + b" "0 \<le> a" "a < 65536" "0 \<le> b" "b < 65536"
  shows "e = e' \<and> a = b"
proof -
  have "e = e'"
    by (rule linorder_cases [of e e']) (use assms in linarith)+
  then show ?thesis using assms(1) by simp
qed

lemma fsiid_key_inj:
  assumes "0 \<le> e" "e < 2 ^ 15" "0 \<le> e'" "e' < 2 ^ 15"
    and "uint (frameset i) < 2 ^ 16" "uint (frameset i') < 2 ^ 16"
    and eq: "fsiid_key e i = fsiid_key e' i'"
  shows "e = e' \<and> frameset i = frameset i'"
proof -
  have key: "fsiid_key x j = x * 2 ^ 16 + uint (frameset j)"
    if "0 \<le> x" "x < 2 ^ 15" "uint (frameset j) < 2 ^ 16" for x j
  proof -
    have "push_bit 16 x AND uint (frameset j) = 0"
    proof (rule bit_eqI)
      fix n
      have "take_bit 16 (uint (frameset j)) = uint (frameset j)"
        using that by (simp add: take_bit_int_eq_self_iff)
      then have "bit (uint (frameset j)) n \<Longrightarrow> n < 16"
        by (metis bit_take_bit_iff)
      then show "bit (push_bit 16 x AND uint (frameset j)) n = bit (0 :: int) n"
        by (auto simp: bit_simps)
    qed
    then have "push_bit 16 x OR uint (frameset j) = x * 2 ^ 16 + uint (frameset j)"
      by (simp add: disjunctive_add_eq_or [symmetric] push_bit_eq_mult)
    moreover have "x * 2 ^ 16 + uint (frameset j) < 2 ^ 31"
      using that by simp
    moreover have "- 2147483648 \<le> x * 65536 + uint (frameset j)"
      using that uint_nonnegative [of "frameset j"] by linarith
    ultimately show ?thesis
      using that by (simp add: fsiid_key_def cast_i32_def signed_take_bit_int_eq_self_iff)
  qed
  have "e * 2 ^ 16 + uint (frameset i) = e' * 2 ^ 16 + uint (frameset i')"
    using eq key assms by simp
  then show ?thesis
    using base_65536_inj [of e "uint (frameset i)" e' "uint (frameset i')"] assms(5,6)
    by (simp add: word_uint_eq_iff)
qed

lemma small_u32:
  assumes "0 \<le> x" "x < 256"
  shows "word_of_int x AND (0xff :: u32) = word_of_int x"
    and "word_of_int x AND (0xffffff :: u32) = word_of_int x" and "uint (word_of_int x :: u32) = x"
proof -
  have tb: "take_bit 8 x = x" "take_bit 24 x = x" "take_bit 32 x = x"
    using assms by (simp_all add: take_bit_int_eq_self_iff)
  then have "bit x n \<Longrightarrow> n < 8" "bit x n \<Longrightarrow> n < 24" for n
    by (metis bit_take_bit_iff)+
  then show "word_of_int x AND (0xff :: u32) = word_of_int x"
    "word_of_int x AND (0xffffff :: u32) = word_of_int x"
    by (auto intro!: bit_word_eqI simp: bit_simps)
  show "uint (word_of_int x :: u32) = x"
    using tb assms by (simp add: unsigned_of_int)
qed

lemma FrameID_of_ints_parts:
  assumes "0 \<le> f" "f < 256" "0 \<le> s" "s < 256"
  shows "uint (frameset (FrameID_of_ints f s)) = f" and "uint (source (FrameID_of_ints f s)) = s"
  using assms by (simp_all add: FrameID_of_ints_def frameset_mk source_mk small_u32)

lemma FrameID_of_ints_inj:
  assumes "0 \<le> a" "a < 256" "0 \<le> a'" "a' < 256" "0 \<le> s" "s < 256" "0 \<le> s'" "s' < 256"
    and "FrameID_of_ints a s = FrameID_of_ints a' s'"
  shows "a = a' \<and> s = s'"
  using assms FrameID_of_ints_parts by metis

section \<open>The invariant of the two maps\<close>

text \<open>
  Where the local id of a mapped frame comes from: the source counter of the fixed frameset, or
  the frameset number allocated for the (stream, remote frameset) pair.
\<close>

definition allocated :: "'p Muxer \<Rightarrow> 'p StreamEntry \<Rightarrow> FrameID \<Rightarrow> FrameID \<Rightarrow> bool" where
  "allocated m x i l \<longleftrightarrow>
     (if fixed_fs x \<ge> 0
      then \<exists>s. 0 \<le> s \<and> s < count_of (sourcecount m) (fixed_fs x) \<and> s < 256 \<and> l = FrameID_of_ints (fixed_fs x) s
      else uint (frameset i) < 2 ^ 16 \<and> (\<exists>f. fsmap m (fsiid_key (entry_id x) i) = Some f
        \<and> l = FrameID_of_ints f (uint (source i))))"

definition entries_ok :: "'p Muxer \<Rightarrow> bool" where
  "entries_ok m \<longleftrightarrow> distinct (map entry_id (mstreams m)) \<and> stream_ids m \<le> 2 ^ 15
     \<and> (\<forall>x \<in> set (mstreams m). 0 \<le> entry_id x \<and> entry_id x < stream_ids m
          \<and> (fixed_fs x \<ge> 0 \<longrightarrow> framesets m \<le> fixed_fs x \<and> fixed_fs x < 256))"

definition counters_ok :: "'p Muxer \<Rightarrow> bool" where
  "counters_ok m \<longleftrightarrow> inj_on (fsmap m) (dom (fsmap m)) \<and> framesets m \<le> 256 \<and> 0 \<le> framesets m
     \<and> (\<forall>k f. fsmap m k = Some f \<longrightarrow> 0 \<le> f \<and> f < framesets m)
     \<and> (\<forall>k c. sourcecount m k = Some c \<longrightarrow> 0 \<le> c) \<and> 0 \<le> stream_ids m"

definition maps_ok :: "'p Muxer \<Rightarrow> bool" where
  "maps_ok m \<longleftrightarrow> (\<forall>k l. imap m k = Some l \<longleftrightarrow> (\<exists>i e. k = iid_key e i \<and> omap m l = Some (i, e)))
     \<and> (\<forall>l i e. omap m l = Some (i, e) \<longrightarrow> (\<exists>x \<in> set (mstreams m). entry_id x = e \<and> allocated m x i l))"

lemma maps_ok_inverse: "maps_ok m \<Longrightarrow> imap m k = Some l \<longleftrightarrow> (\<exists>i e. k = iid_key e i \<and> omap m l = Some (i, e))"
  by (simp add: maps_ok_def)

lemma maps_ok_entry:
  "maps_ok m \<Longrightarrow> omap m l = Some (i, e) \<Longrightarrow> \<exists>x \<in> set (mstreams m). entry_id x = e \<and> allocated m x i l"
  by (simp add: maps_ok_def)

definition muxer_inv :: "'p Muxer \<Rightarrow> bool" where
  "muxer_inv m \<longleftrightarrow> entries_ok m \<and> counters_ok m \<and> maps_ok m"

text \<open>
  When there is room for one more allocation: a fixed frameset has 256 sources, an automatic
  frameset number must not reach a fixed one, and the key of an automatic one has 16 bits for the
  remote frameset.
\<close>

definition room :: "'p StreamEntry \<Rightarrow> FrameID \<Rightarrow> 'p Muxer \<Rightarrow> bool" where
  "room e i m \<longleftrightarrow> imap m (iid_key (entry_id e) i) = None \<longrightarrow>
     (if fixed_fs e \<ge> 0 then count_of (sourcecount m) (fixed_fs e) < 256
      else uint (frameset i) < 2 ^ 16
        \<and> (fsmap m (fsiid_key (entry_id e) i) = None \<longrightarrow> framesets m < 256
           \<and> (\<forall>x \<in> set (mstreams m). fixed_fs x \<ge> 0 \<longrightarrow> framesets m < fixed_fs x)))"

definition room_add :: "int \<Rightarrow> 'p Muxer \<Rightarrow> bool" where
  "room_add fsid m \<longleftrightarrow> stream_ids m < 2 ^ 15 \<and> (fsid \<ge> 0 \<longrightarrow> framesets m \<le> fsid \<and> fsid < 256)"


section \<open>Allocation keeps the invariant\<close>

lemma muxer_inv_empty [inv_intros]: "muxer_inv empty_muxer"
  by (simp add: muxer_inv_def entries_ok_def counters_ok_def maps_ok_def empty_muxer_def)

lemma entry_unique:
  assumes "entries_ok m" "x \<in> set (mstreams m)" "y \<in> set (mstreams m)" "entry_id x = entry_id y"
  shows "x = y"
  using assms by (auto simp: entries_ok_def distinct_map dest: inj_onD)

text \<open>
  The step \<open>m \<mapsto> m'\<close> of an allocation, apart from the two id maps: the entries stay, the counters
  grow, what was allocated stays allocated, and the new id is allocated now but was not before.
\<close>

lemma uint_source: "0 \<le> uint (source i) \<and> uint (source i) < 256"
proof -
  have "source i \<le> 0xff" unfolding source_def by (rule word_and_le1)
  then show ?thesis by (simp add: word_le_def)
qed

lemma count_of_nonneg: "counters_ok m \<Longrightarrow> 0 \<le> count_of (sourcecount m) k"
  by (auto simp: counters_ok_def count_of_def split: option.splits)

lemma allocated_mono:
  assumes "\<And>k f. fsmap m k = Some f \<Longrightarrow> fsmap m' k = Some f"
    and "\<And>k. count_of (sourcecount m) k \<le> count_of (sourcecount m') k"
    and "allocated m x j l"
  shows "allocated m' x j l"
proof (cases "fixed_fs x \<ge> 0")
  case True
  then obtain s where "0 \<le> s" "s < count_of (sourcecount m) (fixed_fs x)" "s < 256"
      "l = FrameID_of_ints (fixed_fs x) s"
    using assms(3) by (auto simp: allocated_def)
  then show ?thesis
    using True assms(2) [of "fixed_fs x"] by (auto simp: allocated_def)
qed (use assms(1,3) in \<open>auto simp: allocated_def\<close>)

lemma allocate_fixed:
  assumes inv: "muxer_inv m" and e: "e \<in> set (mstreams m)" and fx: "fixed_fs e \<ge> 0"
    and cnt: "count_of (sourcecount m) (fixed_fs e) < 256"
    and alloc: "allocate e i m = (l, m')"
  shows "entries_ok m' \<and> counters_ok m' \<and> allocated m' e i l
    \<and> (\<forall>x j k. allocated m x j k \<longrightarrow> allocated m' x j k)
    \<and> (\<forall>x \<in> set (mstreams m). \<forall>j. \<not> allocated m x j l)"
proof -
  define c where "c = count_of (sourcecount m) (fixed_fs e)"
  have m': "m' = m\<lparr>sourcecount := (sourcecount m)(fixed_fs e \<mapsto> c + 1)\<rparr>"
    and l: "l = FrameID_of_ints (fixed_fs e) c"
    using alloc fx by (auto simp: allocate_def c_def Let_def)
  have ok: "entries_ok m" "counters_ok m" using inv by (simp_all add: muxer_inv_def)
  have c: "0 \<le> c" "c < 256" using count_of_nonneg [OF ok(2)] cnt by (simp_all add: c_def)
  have cnt': "count_of (sourcecount m') k = (if k = fixed_fs e then c + 1 else count_of (sourcecount m) k)" for k
    by (simp add: m' count_of_def)
  have fm: "fsmap m' = fsmap m" by (simp add: m')
  have efs: "framesets m \<le> fixed_fs e" "fixed_fs e < 256"
    using ok(1) e fx by (auto simp: entries_ok_def)
  have "\<not> allocated m x j l" if x: "x \<in> set (mstreams m)" for x j
  proof
    assume a: "allocated m x j l"
    show False
    proof (cases "fixed_fs x \<ge> 0")
      case True
      then obtain s where s: "0 \<le> s" "s < count_of (sourcecount m) (fixed_fs x)" "s < 256"
          "l = FrameID_of_ints (fixed_fs x) s"
        using a by (auto simp: allocated_def)
      moreover have "fixed_fs x < 256" using ok(1) x True by (auto simp: entries_ok_def)
      ultimately have "fixed_fs x = fixed_fs e \<and> s = c"
        by (intro FrameID_of_ints_inj [OF True _ fx efs(2) _ _ c]) (simp_all only: l [symmetric])
      then show False using s by (simp add: c_def)
    next
      case False
      then obtain f where f: "fsmap m (fsiid_key (entry_id x) j) = Some f"
          "l = FrameID_of_ints f (uint (source j))"
        using a by (auto simp: allocated_def)
      moreover have fb: "0 \<le> f" "f < framesets m" using ok(2) f(1) by (auto simp: counters_ok_def)
      ultimately have "f = fixed_fs e \<and> uint (source j) = c"
        using efs uint_source [of j]
        by (intro FrameID_of_ints_inj [OF fb(1) _ fx efs(2) _ _ c]) (simp_all only: l [symmetric])
      then show False using fb efs by simp
    qed
  qed
  moreover have "allocated m' e i l"
    using fx c l cnt' by (auto simp: allocated_def)
  moreover have "allocated m' x j k" if "allocated m x j k" for x j k
    by (rule allocated_mono [OF _ _ that]) (simp_all add: cnt' fm, simp add: c_def)
  moreover have "entries_ok m'" "counters_ok m'"
    using ok c by (auto simp: m' entries_ok_def counters_ok_def)
  ultimately show ?thesis by blast
qed


lemma frameset_id_unique:
  assumes ok: "entries_ok m" "counters_ok m" and x: "x \<in> set (mstreams m)" and e: "e \<in> set (mstreams m)"
    and f: "fsmap m (fsiid_key (entry_id e) i) = Some f" and fs: "uint (frameset i) < 2 ^ 16"
    and a: "allocated m x j (FrameID_of_ints f (uint (source i)))"
  shows "x = e \<and> j = i"
proof -
  have fb: "0 \<le> f" "f < framesets m" "framesets m \<le> 256"
    using ok(2) f by (auto simp: counters_ok_def)
  have xe: "0 \<le> entry_id x" "entry_id x < 2 ^ 15" "0 \<le> entry_id e" "entry_id e < 2 ^ 15"
    using ok(1) x e by (force simp: entries_ok_def)+
  show ?thesis
  proof (cases "fixed_fs x \<ge> 0")
    case True
    then obtain s where s: "0 \<le> s" "s < 256" "FrameID_of_ints f (uint (source i)) = FrameID_of_ints (fixed_fs x) s"
      using a by (auto simp: allocated_def)
    have xf: "framesets m \<le> fixed_fs x" "fixed_fs x < 256"
      using ok(1) x True by (auto simp: entries_ok_def)
    have "f = fixed_fs x \<and> uint (source i) = s"
      using fb uint_source [of i] by (intro FrameID_of_ints_inj [OF fb(1) _ True xf(2) _ _ s]) simp_all
    then show ?thesis using fb xf by simp
  next
    case False
    then obtain g where g: "fsmap m (fsiid_key (entry_id x) j) = Some g" "uint (frameset j) < 2 ^ 16"
        "FrameID_of_ints f (uint (source i)) = FrameID_of_ints g (uint (source j))"
      using a by (auto simp: allocated_def)
    have gb: "0 \<le> g" "g < 256" using g(1) ok(2) by (force simp: counters_ok_def)+
    have eq: "f = g \<and> uint (source i) = uint (source j)"
      using fb uint_source [of i] uint_source [of j] by (intro FrameID_of_ints_inj [OF fb(1) _ gb _ _ _ _ g(3)]) simp_all
    then have "fsiid_key (entry_id x) j = fsiid_key (entry_id e) i"
      using g(1) f ok(2) unfolding counters_ok_def by (metis domI inj_onD)
    then have "entry_id x = entry_id e \<and> frameset j = frameset i"
      using fsiid_key_inj [of "entry_id x" "entry_id e" j i] xe g(2) fs by simp
    then show ?thesis
      using entry_unique [OF ok(1) x e] eq FrameID_eqI [of j i] by (simp add: word_uint_eq_iff)
  qed
qed

lemma allocate_auto:
  assumes inv: "muxer_inv m" and e: "e \<in> set (mstreams m)" and fx: "fixed_fs e < 0"
    and unmapped: "imap m (iid_key (entry_id e) i) = None" and room: "room e i m"
    and alloc: "allocate e i m = (l, m')"
  shows "entries_ok m' \<and> counters_ok m' \<and> allocated m' e i l
    \<and> (\<forall>x j k. allocated m x j k \<longrightarrow> allocated m' x j k)
    \<and> (\<forall>x \<in> set (mstreams m). \<forall>j. allocated m x j l \<longrightarrow> x = e \<and> j = i)"
proof -
  define k where "k = fsiid_key (entry_id e) i"
  define f where "f = (case fsmap m k of Some f \<Rightarrow> f | None \<Rightarrow> framesets m)"
  have m': "m' = (if fsmap m k = None then m\<lparr>fsmap := (fsmap m)(k \<mapsto> f), framesets := f + 1\<rparr> else m)"
    and l: "l = FrameID_of_ints f (uint (source i))"
    using alloc fx by (auto simp: allocate_def k_def f_def Let_def)
  have ok: "entries_ok m" "counters_ok m" using inv by (simp_all add: muxer_inv_def)
  have fs: "uint (frameset i) < 2 ^ 16" and new: "fsmap m k = None \<Longrightarrow> framesets m < 256"
      "fsmap m k = None \<Longrightarrow> x \<in> set (mstreams m) \<Longrightarrow> fixed_fs x \<ge> 0 \<Longrightarrow> framesets m < fixed_fs x" for x
    using room unmapped fx unfolding room_def by (auto simp: k_def)
  have fk: "fsmap m' k = Some f" and fm: "\<And>k' g. fsmap m k' = Some g \<Longrightarrow> fsmap m' k' = Some g"
    by (auto simp: m' f_def)
  have sc: "sourcecount m' = sourcecount m" "mstreams m' = mstreams m" "stream_ids m' = stream_ids m"
      "framesets m' = (if fsmap m k = None then f + 1 else framesets m)"
    by (simp_all add: m')
  have cok: "counters_ok m'"
  proof (cases "fsmap m k")
    case None
    then have f: "f = framesets m" by (simp add: f_def)
    have "fsmap m k' \<noteq> Some f" for k'
      using ok(2) by (auto simp: counters_ok_def f)
    moreover have "inj_on (fsmap m) (dom (fsmap m))"
      using ok(2) by (simp add: counters_ok_def)
    ultimately have "inj_on (fsmap m') (dom (fsmap m'))"
      using inj_on_map_updI [of "fsmap m" f k] None by (simp add: m')
    moreover have "0 \<le> g \<and> g < framesets m'" if "fsmap m' k' = Some g" for k' g
      using that ok(2) None by (fastforce simp: counters_ok_def m' f split: if_splits)
    ultimately show ?thesis
      using ok(2) new(1) None by (simp add: counters_ok_def sc f)
  qed (use ok(2) in \<open>simp add: m'\<close>)
  have "entries_ok m'"
    using ok(1) new(2) unfolding entries_ok_def sc by (auto simp: f_def add1_zle_eq)
  moreover have "allocated m' e i l"
    using fx fs fk l by (auto simp: allocated_def k_def)
  moreover have "allocated m' x j q" if "allocated m x j q" for x j q
    by (rule allocated_mono [OF _ _ that]) (use fm in \<open>simp_all add: sc\<close>)
  moreover have "x = e \<and> j = i" if x: "x \<in> set (mstreams m)" and a: "allocated m x j l" for x j
    using frameset_id_unique [OF \<open>entries_ok m'\<close> cok _ _ fk [unfolded k_def] fs] x e sc(2) calculation(3) [OF a] l by simp
  ultimately show ?thesis using cok by blast
qed


lemma allocate_keeps [simp]:
  "allocate e i m = (l, m') \<Longrightarrow> imap m' = imap m \<and> omap m' = omap m \<and> mstreams m' = mstreams m \<and> mbase m' = mbase m"
  by (auto simp: allocate_def Let_def split: if_splits)

lemma mapFromInput_ok:
  assumes inv: "muxer_inv m" and e: "e \<in> set (mstreams m)" and room: "room e i m"
    and map: "mapFromInput e i m = (l, m')"
  shows "muxer_inv m' \<and> omap m' l = Some (i, entry_id e) \<and> imap m' (iid_key (entry_id e) i) = Some l
    \<and> mstreams m' = mstreams m \<and> omap m \<subseteq>\<^sub>m omap m' \<and> imap m \<subseteq>\<^sub>m imap m'"
proof (cases "imap m (iid_key (entry_id e) i)")
  case (Some l')
  then have "l' = l" "m' = m" using map by (auto simp: mapFromInput_def Let_def)
  then show ?thesis
    using Some inv by (auto simp: muxer_inv_def maps_ok_def)
next
  case None
  then obtain m1 where a: "allocate e i m = (l, m1)"
    and m': "m' = m1\<lparr>imap := (imap m1)(iid_key (entry_id e) i \<mapsto> l), omap := (omap m1)(l \<mapsto> (i, entry_id e))\<rparr>"
    using map by (auto simp: mapFromInput_def Let_def split: prod.splits)
  have mo: "maps_ok m" using inv by (simp add: muxer_inv_def)
  have st: "entries_ok m1 \<and> counters_ok m1 \<and> allocated m1 e i l
      \<and> (\<forall>x j k. allocated m x j k \<longrightarrow> allocated m1 x j k)
      \<and> (\<forall>x \<in> set (mstreams m). \<forall>j. allocated m x j l \<longrightarrow> x = e \<and> j = i)"
  proof (cases "fixed_fs e \<ge> 0")
    case True
    then have "count_of (sourcecount m) (fixed_fs e) < 256"
      using room None by (simp add: room_def)
    from allocate_fixed [OF inv e True this a] show ?thesis by blast
  qed (use allocate_auto [OF inv e _ None room a] in simp)
  have keep: "imap m1 = imap m" "omap m1 = omap m" "mstreams m1 = mstreams m"
    using allocate_keeps [OF a] by simp_all
  have fresh: "omap m l = None"
  proof (rule ccontr)
    assume "omap m l \<noteq> None"
    then obtain j q where o: "omap m l = Some (j, q)" by auto
    then obtain x where "x \<in> set (mstreams m)" "entry_id x = q" "allocated m x j l"
      using maps_ok_entry [OF mo] by blast
    then have "q = entry_id e" "j = i" using st by auto
    then have "imap m (iid_key (entry_id e) i) = Some l"
      using mo o by (auto simp: maps_ok_def)
    then show False using None by simp
  qed
  have al: "allocated m' x j k = allocated m1 x j k" for x j k
    by (simp add: allocated_def m')
  have "maps_ok m'"
    unfolding maps_ok_def
  proof (intro conjI allI)
    fix k l'
    show "imap m' k = Some l' \<longleftrightarrow> (\<exists>i e. k = iid_key e i \<and> omap m' l' = Some (i, e))"
      using maps_ok_inverse [OF mo, of k l'] maps_ok_inverse [OF mo, of "iid_key (entry_id e) i" l'] None fresh
      by (auto simp: m' keep)
  next
    fix l' j q
    show "omap m' l' = Some (j, q) \<longrightarrow> (\<exists>x\<in>set (mstreams m'). entry_id x = q \<and> allocated m' x j l')"
      using mo st e unfolding al by (auto simp: maps_ok_def m' keep) blast
  qed
  moreover have "entries_ok m'" "counters_ok m'"
    using st by (simp_all add: m' entries_ok_def counters_ok_def)
  ultimately show ?thesis
    using fresh None by (auto simp: muxer_inv_def m' keep map_le_def)
qed

lemma muxer_add_inv [inv_intros]:
  assumes "muxer_inv m" "room_add fsid m"
  shows "muxer_inv (muxer_add p fsid m)"
proof -
  have "allocated (muxer_add p fsid m) x j k = allocated m x j k" for x j k
    by (simp add: allocated_def muxer_add_def)
  then have "maps_ok (muxer_add p fsid m)"
    using assms(1) by (fastforce simp: muxer_inv_def maps_ok_def muxer_add_def)
  moreover have "entries_ok (muxer_add p fsid m)" "counters_ok (muxer_add p fsid m)"
    using assms by (force simp: muxer_inv_def entries_ok_def muxer_add_def counters_ok_def room_add_def)+
  ultimately show ?thesis by (simp add: muxer_inv_def)
qed

lemma find_entry_mem: "find_entry p m = Some e \<Longrightarrow> e \<in> set (mstreams m) \<and> entry_stream e = p"
  by (auto simp: find_entry_def find_Some_iff)

lemma muxer_remove_simps:
  assumes "find_entry p m = Some e"
  shows "omap (muxer_remove p m) l = Some (r, q) \<longleftrightarrow> omap m l = Some (r, q) \<and> q \<noteq> entry_id e"
    and "imap (muxer_remove p m) k = Some l \<longleftrightarrow> imap m k = Some l \<and> drop_bit 32 k \<noteq> entry_id e"
    and "mstreams (muxer_remove p m) = remove1 e (mstreams m)"
  using assms by (auto simp: muxer_remove_def split: option.splits)

lemma muxer_remove_inv [inv_intros]:
  assumes inv: "muxer_inv m"
  shows "muxer_inv (muxer_remove p m)"
proof (cases "find_entry p m")
  case (Some e)
  note rm = muxer_remove_simps [OF Some]
  have al: "allocated (muxer_remove p m) x j k = allocated m x j k" for x j k
    using Some by (simp add: allocated_def muxer_remove_def)
  have d: "distinct (mstreams m)"
    using inv by (simp add: muxer_inv_def entries_ok_def distinct_map)
  have mo: "maps_ok m" using inv by (simp add: muxer_inv_def)
  have "maps_ok (muxer_remove p m)"
    unfolding maps_ok_def rm al
  proof (intro conjI allI impI)
    show "imap m k = Some l \<and> drop_bit 32 k \<noteq> entry_id e
      \<longleftrightarrow> (\<exists>i x. k = iid_key x i \<and> omap m l = Some (i, x) \<and> x \<noteq> entry_id e)" for k l
      unfolding maps_ok_inverse [OF mo] by auto
    show "\<exists>x\<in>set (remove1 e (mstreams m)). entry_id x = q \<and> allocated m x i l"
      if "omap m l = Some (i, q) \<and> q \<noteq> entry_id e" for l i q
      using maps_ok_entry [OF mo, of l i q] that d by auto
  qed
  moreover have "entries_ok (muxer_remove p m)" "counters_ok (muxer_remove p m)"
    using inv d Some by (auto simp: muxer_inv_def entries_ok_def counters_ok_def muxer_remove_def
        distinct_map dest: notin_set_remove1 intro: inj_on_subset)
  ultimately show ?thesis by (simp add: muxer_inv_def)
qed (use inv in \<open>simp add: muxer_remove_def\<close>)


section \<open>Reachable muxers\<close>

text \<open>The requests of a wildcard allocate one id after the other: room for each.\<close>

fun room_loop :: "'p StreamEntry \<Rightarrow> Request \<Rightarrow> FrameID list \<Rightarrow> 'p Muxer \<Rightarrow> bool" where
  "room_loop e req [] m = True"
| "room_loop e req (i # is) m =
     (if wildcard_match (req_id req) i then room e i m \<and> room_loop e req is (snd (mapFromInput e i m))
      else room_loop e req is m)"

inductive reachable_with_room :: "'p Muxer \<Rightarrow> bool" where
  init: "reachable_with_room empty_muxer"
| add: "reachable_with_room m \<Longrightarrow> room_add fsid m \<Longrightarrow> reachable_with_room (muxer_add p fsid m)"
| remove: "reachable_with_room m \<Longrightarrow> reachable_with_room (muxer_remove p m)"
| create: "reachable_with_room m \<Longrightarrow> findOrCreateLocal p r m = Inr (l, m')
    \<Longrightarrow> (\<And>e. find_entry p m = Some e \<Longrightarrow> room e r m) \<Longrightarrow> reachable_with_room m'"
| packet: "reachable_with_room m \<Longrightarrow> e \<in> set (mstreams m) \<Longrightarrow> room e (packet_FrameID spkt) m
    \<Longrightarrow> muxer_onPacket e spkt pkt m = (m', out) \<Longrightarrow> reachable_with_room m'"
| avail: "reachable_with_room m \<Longrightarrow> e \<in> set (mstreams m) \<Longrightarrow> room e i m
    \<Longrightarrow> muxer_onAvailable e i c m = Inr (m', out) \<Longrightarrow> reachable_with_room m'"
| request: "reachable_with_room m \<Longrightarrow> e \<in> set (mstreams m)
    \<Longrightarrow> (if wildcard (req_id req) then room_loop e req iter m else room e (req_id req) m)
    \<Longrightarrow> muxer_onRequest iter e req m = (m', out) \<Longrightarrow> reachable_with_room m'"
| select: "reachable_with_room m \<Longrightarrow> reachable_with_room (m\<lparr>mbase := s\<rparr>)"

text \<open>\<open>select\<close> covers the overloads of \<^verbatim>\<open>enable\<close> and \<^verbatim>\<open>disable\<close>: they change the base state only.\<close>

lemma enable_loop_base:
  "enable_loop f base i js r m w = (r', m', w') \<Longrightarrow> \<exists>s. m' = m\<lparr>mbase := s\<rparr>"
proof (induction js arbitrary: r m w)
  case Nil
  then show ?case by (auto intro: exI [of _ "mbase m"])
next
  case (Cons j js)
  have self: "\<exists>s. m = m\<lparr>mbase := s\<rparr>" by (rule exI [of _ "mbase m"]) simp
  show ?case
    using Cons.prems self
    by (auto split: if_splits option.splits prod.splits dest!: Cons.IH)
qed

lemma muxer_enable_base:
  "muxer_enable_with f base iter i m w = (r, m', w') \<Longrightarrow> \<exists>s. m' = m\<lparr>mbase := s\<rparr>"
proof -
  have "\<exists>s. m = m\<lparr>mbase := s\<rparr>" by (rule exI [of _ "mbase m"]) simp
  then show "muxer_enable_with f base iter i m w = (r, m', w') \<Longrightarrow> \<exists>s. m' = m\<lparr>mbase := s\<rparr>"
    by (auto simp: muxer_enable_with_def split: if_splits option.splits prod.splits dest!: enable_loop_base)
qed

lemma muxer_disable_base:
  "muxer_disable_with f base i m w = (m', w') \<Longrightarrow> \<exists>s. m' = m\<lparr>mbase := s\<rparr>"
  by (auto simp: muxer_disable_with_def split: option.splits intro: exI [of _ "mbase m"])

lemma muxer_select_reachable [inv_intros]:
  "reachable_with_room m \<Longrightarrow> reachable_with_room (fst (snd (muxer_enable_with f base iter i m w)))"
  "reachable_with_room m \<Longrightarrow> reachable_with_room (fst (muxer_disable_with g base' i m w))"
  using muxer_enable_base [of f base iter i m w] muxer_disable_base [of g base' i m w]
  by (metis reachable_with_room.select prod.collapse)+

lemma muxer_inv_base [simp]: "muxer_inv (m\<lparr>mbase := s\<rparr>) = muxer_inv m"
  by (simp add: muxer_inv_def entries_ok_def counters_ok_def maps_ok_def allocated_def)

lemma request_loop_inv:
  "muxer_inv m \<Longrightarrow> e \<in> set (mstreams m) \<Longrightarrow> room_loop e req is m \<Longrightarrow> muxer_inv (fst (request_loop e req is m))"
proof (induction "is" arbitrary: m)
  case (Cons i "is")
  obtain l m' where map: "mapFromInput e i m = (l, m')" by fastforce
  show ?case
  proof (cases "wildcard_match (req_id req) i")
    case True
    then have "muxer_inv m'" "e \<in> set (mstreams m')" "room_loop e req is m'"
      using mapFromInput_ok [OF Cons.prems(1,2) _ map] Cons.prems map by simp_all
    from Cons.IH [OF this] show ?thesis
      using True map by (cases "request_loop e req is m'") simp
  qed (use Cons in simp)
qed simp

lemma reachable_with_room_inv: "reachable_with_room m \<Longrightarrow> muxer_inv m"
proof (induction rule: reachable_with_room.induct)
  case (create m p r l m')
  then obtain e where "find_entry p m = Some e" "mapFromInput e r m = (l, m')"
    by (auto simp: findOrCreateLocal_def split: option.splits)
  then show ?case
    using mapFromInput_ok [OF create.IH _ _ , of e r l m'] create.hyps(3) find_entry_mem [of p m e] by auto
next
  case (packet m e spkt pkt m' out)
  then show ?case
    using mapFromInput_ok [OF packet.IH packet.hyps(2,3)]
    by (auto simp: muxer_onPacket_def split: prod.splits)
next
  case (avail m e i c m' out)
  then show ?case
    using mapFromInput_ok [OF avail.IH avail.hyps(2,3)]
    by (auto simp: muxer_onAvailable_def res_bind_Inr split: prod.splits)
next
  case (request m e req iter m' out)
  then show ?case
    using mapFromInput_ok [OF request.IH request.hyps(2)] request_loop_inv [OF request.IH request.hyps(2)]
    by (auto simp: muxer_onRequest_def split: prod.splits if_splits) (metis fst_conv)
qed (auto intro: inv_intros)

section \<open>Routing\<close>

lemma entry_of_mem: "entries_ok m \<Longrightarrow> e \<in> set (mstreams m) \<Longrightarrow> entry_of (entry_id e) m = Some e"
proof -
  assume "entries_ok m" "e \<in> set (mstreams m)"
  then obtain x where "entry_of (entry_id e) m = Some x" "x \<in> set (mstreams m)" "entry_id x = entry_id e"
    unfolding entry_of_def by (metis (mono_tags, lifting) find_None_iff find_Some_iff nth_mem option.exhaust)
  then show ?thesis
    using entry_unique [OF \<open>entries_ok m\<close> _ \<open>e \<in> set (mstreams m)\<close>] by auto
qed

lemma route_mapped:
  assumes "muxer_inv m" "e \<in> set (mstreams m)" "omap m l = Some (r, entry_id e)"
  shows "route l m = Some (r, entry_stream e)"
  using assms entry_of_mem [of m e] by (simp add: route_def mapToOutput_def muxer_inv_def)

lemma entry_of_SomeD: "entry_of q m = Some x \<Longrightarrow> x \<in> set (mstreams m) \<and> entry_id x = q"
  by (auto simp: entry_of_def find_Some_iff)

lemma route_SomeD:
  assumes "muxer_inv m" "route l m = Some (r, p)"
  obtains e where "e \<in> set (mstreams m)" "entry_stream e = p" "omap m l = Some (r, entry_id e)"
  using assms that by (auto simp: route_def mapToOutput_def dest!: entry_of_SomeD split: option.splits)





section \<open>Properties\<close>

text \<open>
  C25: The two id maps of the muxer are inverse in every state that is reachable with room: the local id found for a
  frame of a stream leads back to that frame and to that stream, so two frames never share a local
  id. Such a state is reached by adding and removing streams, by packets, availability reports,
  requests and look-ups that allocate ids, and by enabling and disabling, as long as there is room:
  fewer than 32768 streams, 256 sources per fixed frameset, remote frameset numbers of 16 bits, and
  automatically numbered framesets that stay below the fixed ones and 256. Without the last condition a frame of an
  automatic and one of a fixed frameset share an id (\<open>muxer_fixed_collision\<close>).
\<close>

theorem muxer_round_trip:
  assumes "reachable_with_room m" and "findLocal p r m = Inr l"
  shows "findRemote l m = Inr r \<and> originStream l m = Some p"
proof -
  have inv: "muxer_inv m" using assms(1) by (rule reachable_with_room_inv)
  obtain e where e: "find_entry p m = Some e" "imap m (iid_key (entry_id e) r) = Some l"
    using assms(2) by (auto simp: findLocal_def local_of_def mapFromInput_const_def split: option.splits)
  then have o: "omap m l = Some (r, entry_id e)"
    using inv maps_ok_inverse [of m "iid_key (entry_id e) r" l] by (auto simp: muxer_inv_def)
  then show ?thesis
    using route_mapped [OF inv _ o] find_entry_mem [OF e(1)]
    by (simp add: findRemote_def mapToOutput_def originStream_def)
qed

text \<open>Two automatic streams and a frame of the second, for the witnesses.\<close>

definition example_muxer :: "nat Muxer" where
  "example_muxer = fst (muxer_onPacket \<lparr>entry_stream = 11, entry_id = 1, fixed_fs = -1\<rparr>
     \<lparr>version = 5, timestamp = 0, streamID = 3, frame_number = 2, channel = 0, flags = 0, localTimestamp = 0,
      hint_capability = 0, hint_source_total = 0, retry_count = 0, hint_peerid = 0\<rparr> default_DataPacket
     (muxer_add 11 (-1) (muxer_add 10 (-1) empty_muxer)))"

lemma example_two_reachable: "reachable_with_room (muxer_add 11 (-1) (muxer_add 10 (-1) empty_muxer))"
  by (intro reachable_with_room.intros) (simp_all add: room_add_def muxer_add_def empty_muxer_def)

lemma example_room: "room \<lparr>entry_stream = 11, entry_id = 1, fixed_fs = -1\<rparr> (mk_FrameID 3 2)
    (muxer_add 11 (-1) (muxer_add 10 (-1) empty_muxer))"
  by (simp add: room_def muxer_add_def empty_muxer_def frameset_mk)

lemma example_reachable: "reachable_with_room example_muxer"
  unfolding example_muxer_def
  by (rule reachable_with_room.packet [OF example_two_reachable _ _ prod.collapse [symmetric]])
    (use example_room in \<open>simp_all add: muxer_add_def packet_FrameID_def empty_muxer_def\<close>)

theorem muxer_round_trip_witness:
  "findRemote (mk_FrameID 0 2) example_muxer = Inr (mk_FrameID 3 2)
   \<and> originStream (mk_FrameID 0 2) example_muxer = Some 11"
proof -
  have "findLocal 11 (mk_FrameID 3 2) example_muxer = Inr (mk_FrameID 0 2)"
    by code_simp
  from muxer_round_trip [OF example_reachable this] show ?thesis .
qed





lemma remove_routes:
  assumes "reachable_with_room m" and "distinct (muxer_streams m)"
  shows "route l (muxer_remove p m) = (if originStream l m = Some p then None else route l m)"
proof (cases "find_entry p m")
  case None
  then have "originStream l m \<noteq> Some p"
    by (auto simp: originStream_def find_entry_def find_None_iff elim: route_SomeD [OF reachable_with_room_inv [OF assms(1)]])
  then show ?thesis
    using None by (simp add: muxer_remove_def)
next
  case (Some e)
  have inv: "muxer_inv m" "muxer_inv (muxer_remove p m)"
    using reachable_with_room_inv [OF assms(1)] by (auto intro: inv_intros)
  have e: "e \<in> set (mstreams m)" "entry_stream e = p"
    using find_entry_mem [OF Some] by simp_all
  have d: "distinct (mstreams m)"
    using assms(2) by (simp add: muxer_streams_def distinct_map)
  show ?thesis
  proof (cases "omap m l")
    case None
    then show ?thesis
      using Some by (simp add: route_def mapToOutput_def muxer_remove_def originStream_def)
  next
    case (Some a)
    obtain r q where a: "omap m l = Some (r, q)" using Some by (cases a) auto
    obtain x where x: "x \<in> set (mstreams m)" "entry_id x = q"
      using maps_ok_entry [of m l r q] a inv(1) by (auto simp: muxer_inv_def)
    have rx: "route l m = Some (r, entry_stream x)"
      using route_mapped [OF inv(1) x(1)] a x(2) by simp
    show ?thesis
    proof (cases "x = e")
      case True
      then show ?thesis
        using rx e a x \<open>find_entry p m = Some e\<close>
        by (simp add: route_def mapToOutput_def muxer_remove_def originStream_def)
    next
      case False
      then have "entry_stream x \<noteq> p" and q: "q \<noteq> entry_id e"
        using assms(2) e x entry_unique [of m x e] inv(1)
        by (auto simp: muxer_streams_def distinct_map muxer_inv_def dest: inj_onD)
      have "x \<in> set (mstreams (muxer_remove p m))"
        using x False d \<open>find_entry p m = Some e\<close> by (simp add: muxer_remove_simps)
      then have "route l (muxer_remove p m) = Some (r, entry_stream x)"
        using route_mapped [OF inv(2), of x l r] a q x(2) \<open>find_entry p m = Some e\<close>
        by (simp add: muxer_remove_simps)
      then show ?thesis
        using rx \<open>entry_stream x \<noteq> p\<close> by (simp add: originStream_def)
    qed
  qed
qed

text \<open>
  Removing a stream takes its frames out of the muxer and leaves the others alone: afterwards
  every local id of the removed stream is unmapped (posting to it fails), and every other local id
  still leads to the same frame of the same stream.
\<close>

theorem muxer_remove_routes:
  assumes "reachable_with_room m" and "distinct (muxer_streams m)"
  shows "route l (muxer_remove p m) = (if originStream l m = Some p then None else route l m)"
  using assms by (rule remove_routes)

theorem muxer_remove_routes_witness:
  "route (mk_FrameID 0 2) (muxer_remove 11 example_muxer) = None
   \<and> route (mk_FrameID 0 2) (muxer_remove 10 example_muxer) = Some (mk_FrameID 3 2, 11)"
proof -
  have "distinct (muxer_streams example_muxer)" "route (mk_FrameID 0 2) example_muxer = Some (mk_FrameID 3 2, 11)"
    by code_simp+
  then show ?thesis
    using muxer_remove_routes [OF example_reachable, of "mk_FrameID 0 2"] by (simp add: originStream_def)
qed

lemma route_base [simp]: "route l (m\<lparr>mbase := s\<rparr>) = route l m"
  by (cases "omap m l") (auto simp: route_def mapToOutput_def entry_of_def)

lemma enable_loop_unmapped:
  "j \<in> set js \<Longrightarrow> wildcard_match i j \<Longrightarrow> route j m = None \<Longrightarrow> \<not> fst (enable_loop f base i js r m w)"
proof (induction js arbitrary: r m w)
  case (Cons k ks)
  show ?case
  proof (cases "k = j \<or> \<not> wildcard_match i k \<or> route k m = None")
    case False
    then have "j \<in> set ks" using Cons.prems(1) by auto
    then show ?thesis
      using Cons.IH Cons.prems False by (auto split: option.splits prod.splits)
  qed (use Cons in \<open>auto split: option.splits\<close>)
qed simp

text \<open>
  After a stream is removed, enabling all frames with the wildcard id (255, 255) fails for good:
  the muxer still lists the frames of the removed stream, and the loop returns false at the first
  listed frame that is no longer mapped.
\<close>

theorem muxer_wildcard_after_remove:
  assumes "reachable_with_room m" and "distinct (muxer_streams m)"
    and "j \<in> frames (mbase m)" and "originStream j m = Some p"
    and "set iter = frames (mbase (muxer_remove p m))"
  shows "\<not> fst (muxer_enable v iter (mk_FrameID 255 255) (muxer_remove p m) w)"
proof -
  have "j \<in> set iter"
    using assms(3,5) by (simp add: muxer_remove_def split: option.splits)
  moreover have "route j (muxer_remove p m) = None"
    using remove_routes [OF assms(1,2)] assms(4) by simp
  moreover have "wildcard (mk_FrameID 255 255)" "wildcard_match (mk_FrameID 255 255) j"
    by (simp_all add: wildcard_def wildcard_match_def frameset_mk source_mk)
  ultimately show ?thesis
    by (simp add: muxer_enable_def muxer_enable_with_def enable_loop_unmapped)
qed


theorem muxer_wildcard_after_remove_witness:
  "\<not> fst (muxer_enable (logging_vtable (\<lambda>_ _. True)) [mk_FrameID 0 2] (mk_FrameID 255 255)
      (muxer_remove 11 (example_muxer\<lparr>mbase := [mk_FrameID 0 2 \<mapsto> default_FSState]\<rparr>)) [])"
proof -
  let ?m = "example_muxer\<lparr>mbase := [mk_FrameID 0 2 \<mapsto> default_FSState]\<rparr>"
  have "distinct (muxer_streams example_muxer)" "route (mk_FrameID 0 2) example_muxer = Some (mk_FrameID 3 2, 11)"
    by code_simp+
  then have "distinct (muxer_streams ?m)" "originStream (mk_FrameID 0 2) ?m = Some 11"
    by (simp_all add: originStream_def muxer_streams_def)
  then show ?thesis
    using muxer_wildcard_after_remove [OF reachable_with_room.select [OF example_reachable],
        of "[mk_FrameID 0 2 \<mapsto> default_FSState]" "mk_FrameID 0 2" 11 "[mk_FrameID 0 2]"
          "logging_vtable (\<lambda>_ _. True)" "[]"]
    by (simp add: frames_def muxer_remove_def split: option.splits)
qed

text \<open>
  A fixed frameset number and the automatic numbering are not kept apart. With one stream merged
  into frameset 0 and another numbered automatically, the first frame of each gets local id (0, 0):
  both streams' packets carry it, and packets posted to it reach the second stream only.
\<close>

theorem muxer_fixed_collision:
  "let m0 = muxer_add (11 :: nat) (-1) (muxer_add 10 0 empty_muxer);
       a = \<lparr>entry_stream = 10, entry_id = 0, fixed_fs = 0\<rparr>;
       b = \<lparr>entry_stream = 11, entry_id = 1, fixed_fs = -1\<rparr>;
       (la, m1) = mapFromInput a (mk_FrameID 0 0) m0;
       (lb, m2) = mapFromInput b (mk_FrameID 0 0) m1
   in mstreams m0 = [a, b] \<and> la = lb \<and> originStream la m1 = Some 10 \<and> originStream la m2 = Some 11
      \<and> findLocal 10 (mk_FrameID 0 0) m2 = Inr la \<and> findLocal 11 (mk_FrameID 0 0) m2 = Inr la"
  by code_simp

end
