(* ===== verification/FTL_Base64.thy ===== *)
theory FTL_Base64
  imports FTL_Prelude
begin

text \<open>
  Base64 (\<^verbatim>\<open>base64.cpp\<close>): encoding with the plain and the URL alphabet, the PEM and MIME forms with
  line breaks, and the tolerant decoder. A \<^verbatim>\<open>std::string\<close> of raw data is a list of bytes, the
  encoded text a list of characters. Arithmetic on bytes is promoted to \<^verbatim>\<open>int\<close> as in the code.
  The decoder throws a string literal, modelled as \<^const>\<open>Std_exception\<close>.
\<close>

section \<open>Encoding\<close>

definition base64_chars :: "bool \<Rightarrow> string" where
  "base64_chars url = ''ABCDEFGHIJKLMNOPQRSTUVWXYZ'' @ ''abcdefghijklmnopqrstuvwxyz'' @ ''0123456789''
     @ (if url then ''-_'' else ''+/'')"

definition char_at :: "bool \<Rightarrow> int \<Rightarrow> char" where
  "char_at url i = base64_chars url ! nat i"

text \<open>
  One round of the loop at \<open>pos\<close>. The index is an \<^verbatim>\<open>unsigned int\<close> of 32 bits, compared with a length of 64 bits.
\<close>

definition encode_group :: "bool \<Rightarrow> u8 list \<Rightarrow> u32 \<Rightarrow> string" where
  "encode_group url bs pos =
     (let t = if url then CHR ''.'' else CHR ''='';
          b0 = uint (bs ! unat pos); b1 = uint (bs ! unat (pos + 1)); b2 = uint (bs ! unat (pos + 2)) in
      char_at url (drop_bit 2 (b0 AND 0xfc)) #
      (if unat (pos + 1) < length bs
       then char_at url (push_bit 4 (b0 AND 0x03) + drop_bit 4 (b1 AND 0xf0)) #
         (if unat (pos + 2) < length bs
          then [char_at url (push_bit 2 (b1 AND 0x0f) + drop_bit 6 (b2 AND 0xc0)), char_at url (b2 AND 0x3f)]
          else [char_at url (push_bit 2 (b1 AND 0x0f)), t])
       else [char_at url (push_bit 4 (b0 AND 0x03)), t, t]))"

text \<open>The loop; \<open>pos += 3\<close> wraps, so that it may run for ever.\<close>

partial_function (option) encode_from :: "bool \<Rightarrow> u8 list \<Rightarrow> u32 \<Rightarrow> string \<Rightarrow> string option" where
  "encode_from url bs pos ret =
     (if unat pos < length bs then encode_from url bs (pos + 3) (ret @ encode_group url bs pos) else Some ret)"

definition base64_encode :: "u8 list \<Rightarrow> bool \<Rightarrow> string option" where
  "base64_encode bs url = encode_from url bs 0 []"

text \<open>The loop ends when \<^verbatim>\<open>distance\<close> is positive; with \<^verbatim>\<open>distance\<close> 0 it would insert for ever.\<close>

partial_function (option) linebreak_loop :: "nat \<Rightarrow> nat \<Rightarrow> string \<Rightarrow> string option" where
  "linebreak_loop distance pos str =
     (if pos < length str
      then linebreak_loop distance (pos + distance + 1) (take pos str @ CHR ''\<newline>'' # drop pos str)
      else Some str)"

definition insert_linebreaks :: "string \<Rightarrow> nat \<Rightarrow> string option" where
  "insert_linebreaks str distance = (if length str = 0 then Some [] else linebreak_loop distance distance str)"

definition base64_encode_pem :: "u8 list \<Rightarrow> string option" where
  "base64_encode_pem bs = Option.bind (base64_encode bs False) (\<lambda>s. insert_linebreaks s 64)"

definition base64_encode_mime :: "u8 list \<Rightarrow> string option" where
  "base64_encode_mime bs = Option.bind (base64_encode bs False) (\<lambda>s. insert_linebreaks s 76)"

section \<open>Decoding\<close>

definition pos_of_char :: "char \<Rightarrow> int res" where
  "pos_of_char c =
     (let n = of_char c :: int in
      if 65 \<le> n \<and> n \<le> 90 then Inr (n - 65)
      else if 97 \<le> n \<and> n \<le> 122 then Inr (n - 97 + (90 - 65) + 1)
      else if 48 \<le> n \<and> n \<le> 57 then Inr (n - 48 + (90 - 65) + (122 - 97) + 2)
      else if n = 43 \<or> n = 45 then Inr 62
      else if n = 47 \<or> n = 95 then Inr 63
      else Inl (Std_exception ''If input is correct, this line should never be reached.''))"

text \<open>\<^verbatim>\<open>std::string::operator[]\<close>: the terminating zero at the end, undefined beyond.\<close>

definition str_at :: "string \<Rightarrow> nat \<Rightarrow> char res" where
  "str_at s i = (if i < length s then Inr (s ! i) else if i = length s then Inr (char_of (0 :: nat))
     else Inl Undefined_behaviour)"

definition is_pad :: "char \<Rightarrow> bool" where
  "is_pad c \<longleftrightarrow> c = CHR ''='' \<or> c = CHR ''.''"

text \<open>One round of the loop on the rest of the text, and the loop.\<close>

definition decode_round :: "string \<Rightarrow> u8 list res" where
  "decode_round s =
     res_bind (res_bind (str_at s 1) pos_of_char) (\<lambda>p1.
     res_bind (res_bind (str_at s 0) pos_of_char) (\<lambda>p0.
     let b0 = word_of_int (push_bit 2 p0 + drop_bit 4 (p1 AND 0x30)) in
     res_bind (str_at s 2) (\<lambda>c2.
     if is_pad c2 then Inr [b0]
     else
       res_bind (pos_of_char c2) (\<lambda>p2.
       let b1 = word_of_int (push_bit 4 (p1 AND 0x0f) + drop_bit 2 (p2 AND 0x3c)) in
       res_bind (str_at s 3) (\<lambda>c3.
       if is_pad c3 then Inr [b0, b1]
       else res_bind (pos_of_char c3) (\<lambda>p3. Inr [b0, b1, word_of_int (push_bit 6 (p2 AND 0x03) + p3)]))))))"

function decode_loop :: "string \<Rightarrow> u8 list res" where
  "decode_loop s =
     (if s = [] then Inr []
      else res_bind (decode_round s) (\<lambda>bs. res_bind (decode_loop (drop 4 s)) (\<lambda>rest. Inr (bs @ rest))))"
  by pat_completeness auto
termination by (relation "measure length") auto

declare decode_loop.simps [simp del]

fun remove_newlines :: "string \<Rightarrow> string" where
  "remove_newlines [] = []"
| "remove_newlines (c # cs) = (if c = CHR ''\<newline>'' then remove_newlines cs else c # remove_newlines cs)"

definition base64_decode :: "string \<Rightarrow> bool \<Rightarrow> u8 list res" where
  "base64_decode s remove_linebreaks =
     (if remove_linebreaks then (if length s = 0 then Inr [] else decode_loop (remove_newlines s))
      else decode_loop s)"

section \<open>The encoder as a recursion over the bytes\<close>

fun encode_loop :: "bool \<Rightarrow> u8 list \<Rightarrow> string" where
  "encode_loop url [] = []"
| "encode_loop url [a] =
     (let t = if url then CHR ''.'' else CHR ''='' in
      [char_at url (drop_bit 2 (uint a AND 0xfc)), char_at url (push_bit 4 (uint a AND 0x03)), t, t])"
| "encode_loop url [a, b] =
     (let t = if url then CHR ''.'' else CHR ''='' in
      [char_at url (drop_bit 2 (uint a AND 0xfc)),
       char_at url (push_bit 4 (uint a AND 0x03) + drop_bit 4 (uint b AND 0xf0)),
       char_at url (push_bit 2 (uint b AND 0x0f)), t])"
| "encode_loop url (a # b # c # bs) =
     char_at url (drop_bit 2 (uint a AND 0xfc))
     # char_at url (push_bit 4 (uint a AND 0x03) + drop_bit 4 (uint b AND 0xf0))
     # char_at url (push_bit 2 (uint b AND 0x0f) + drop_bit 6 (uint c AND 0xc0))
     # char_at url (uint c AND 0x3f)
     # encode_loop url bs"

text \<open>
  The loop computes this for fewer than \<open>2 ^ 32\<close> bytes: \<open>2 ^ 32 - 1\<close> is a multiple of 3, so that \<^verbatim>\<open>pos\<close> does not wrap before
  it reaches the end. For more bytes it never gets there.
\<close>

lemma encode_group_rest:
  assumes "unat pos < length bs" "length bs < 2 ^ 32"
  shows "encode_loop url (drop (unat pos) bs) = encode_group url bs pos @ encode_loop url (drop (unat pos + 3) bs)"
proof -
  have n: "unat (pos + 1) = unat pos + 1" if "unat pos + 1 < 2 ^ 32" using that by (simp add: unat_word_ariths)
  have n2: "unat (pos + 2) = unat pos + 2" if "unat pos + 2 < 2 ^ 32" using that by (simp add: unat_word_ariths)
  have d: "drop (unat pos) bs = bs ! unat pos # drop (unat pos + 1) bs" using assms(1) by (simp add: Cons_nth_drop_Suc)
  have p1: "unat (pos + 1) = unat pos + 1" using n assms by simp
  show ?thesis
  proof (cases "unat pos + 1 < length bs")
    case False
    then show ?thesis using d p1 by (simp add: encode_group_def Let_def)
  next
    case True
    then have p2: "unat (pos + 2) = unat pos + 2" using n2 assms(2) by simp
    have d2: "drop (unat pos + 1) bs = bs ! (unat pos + 1) # drop (unat pos + 2) bs" using True by (simp add: Cons_nth_drop_Suc)
    show ?thesis
    proof (cases "unat pos + 2 < length bs")
      case False
      then show ?thesis using d d2 p1 p2 True by (simp add: encode_group_def Let_def)
    next
      case True
      then have "drop (unat pos + 2) bs = bs ! (unat pos + 2) # drop (unat pos + 3) bs" by (simp add: Cons_nth_drop_Suc numeral_3_eq_3)
      then show ?thesis using d d2 p1 p2 True by (simp add: encode_group_def Let_def)
    qed
  qed
qed

lemma encode_from_loop:
  assumes "length bs < 2 ^ 32"
  shows "unat pos mod 3 = 0 \<Longrightarrow> encode_from url bs pos ret = Some (ret @ encode_loop url (drop (unat pos) bs))"
proof (induction "length bs - unat pos" arbitrary: pos ret rule: less_induct)
  case less
  show ?case
  proof (cases "unat pos < length bs")
    case True
    obtain k where k: "unat pos = 3 * k" using less.prems by (metis mult_div_mod_eq add_0_right)
    then have "3 * k + 1 < 4294967296" using True assms by simp
    then have "3 * k + 3 < 4294967296" by presburger
    then have p: "unat (pos + 3) = unat pos + 3" using k by (simp add: unat_word_ariths)
    then have "encode_from url bs (pos + 3) (ret @ encode_group url bs pos) =
        Some ((ret @ encode_group url bs pos) @ encode_loop url (drop (unat (pos + 3)) bs))"
      using less.prems True by (intro less.hyps) auto
    then show ?thesis using True encode_group_rest [OF True assms, of url] p by (simp add: encode_from.simps [of url bs pos])
  qed (simp add: encode_from.simps)
qed

lemma base64_encode_loop: "length bs < 2 ^ 32 \<Longrightarrow> base64_encode bs url = Some (encode_loop url bs)"
  using encode_from_loop [of bs 0 url "[]"] by (simp add: base64_encode_def)

lemma encode_from_short:
  assumes "encode_from url bs pos ret = Some r"
  shows "length bs < 2 ^ 32"
proof (rule encode_from.raw_induct [where P = "\<lambda>url bs pos ret r. length bs < 2 ^ 32", OF _ assms])
  fix f url' pos' ret' r' and bs' :: "u8 list"
  assume IH: "\<And>url bs pos ret r. f url bs pos ret = Some r \<Longrightarrow> length (bs :: u8 list) < 2 ^ 32"
    and body: "(if unat (pos' :: u32) < length bs' then f url' bs' (pos' + 3) (ret' @ encode_group url' bs' pos') else Some ret') = Some r'"
  have "unat pos' < 2 ^ 32" using unsigned_less [of pos'] by simp
  then show "length bs' < 2 ^ 32" using IH body by (auto split: if_splits)
qed

lemma base64_encode_long: "2 ^ 32 \<le> length bs \<Longrightarrow> base64_encode bs url = None"
  using encode_from_short [of url bs 0 "[]"] by (cases "base64_encode bs url") (auto simp: base64_encode_def)

section \<open>The alphabet\<close>

lemma byte_bits:
  assumes "0 \<le> a" "a < (256 :: int)"
  shows "drop_bit 2 (a AND 0xfc) = a div 4" "push_bit 4 (a AND 0x03) = (a mod 4) * 16"
    "drop_bit 4 (a AND 0xf0) = a div 16" "push_bit 2 (a AND 0x0f) = (a mod 16) * 4"
    "drop_bit 6 (a AND 0xc0) = a div 64" "a AND 0x3f = a mod 64"
    "drop_bit 4 (a AND 0x30) = a mod 64 div 16" "push_bit 4 (a AND 0x0f) = a mod 16 * 16"
    "drop_bit 2 (a AND 0x3c) = a mod 64 div 4" "push_bit 6 (a AND 0x03) = a mod 4 * 64"
proof -
  have all: "list_all (\<lambda>a :: int. drop_bit 2 (a AND 0xfc) = a div 4 \<and> push_bit 4 (a AND 0x03) = (a mod 4) * 16
    \<and> drop_bit 4 (a AND 0xf0) = a div 16 \<and> push_bit 2 (a AND 0x0f) = (a mod 16) * 4
    \<and> drop_bit 6 (a AND 0xc0) = a div 64 \<and> a AND 0x3f = a mod 64
    \<and> drop_bit 4 (a AND 0x30) = a mod 64 div 16 \<and> push_bit 4 (a AND 0x0f) = a mod 16 * 16
    \<and> drop_bit 2 (a AND 0x3c) = a mod 64 div 4 \<and> push_bit 6 (a AND 0x03) = a mod 4 * 64) [0..255]"
    by code_simp
  have "a \<in> set [0..255]" using assms by simp
  with all show "drop_bit 2 (a AND 0xfc) = a div 4" "push_bit 4 (a AND 0x03) = (a mod 4) * 16"
    "drop_bit 4 (a AND 0xf0) = a div 16" "push_bit 2 (a AND 0x0f) = (a mod 16) * 4"
    "drop_bit 6 (a AND 0xc0) = a div 64" "a AND 0x3f = a mod 64"
    "drop_bit 4 (a AND 0x30) = a mod 64 div 16" "push_bit 4 (a AND 0x0f) = a mod 16 * 16"
    "drop_bit 2 (a AND 0x3c) = a mod 64 div 4" "push_bit 6 (a AND 0x03) = a mod 4 * 64"
    unfolding list_all_iff by blast+
qed

lemma alphabet:
  assumes "0 \<le> i" "i < 64"
  shows "pos_of_char (char_at url i) = Inr i" "\<not> is_pad (char_at url i)" "char_at url i \<noteq> CHR ''\<newline>''"
proof -
  have all: "list_all (\<lambda>i. list_all (\<lambda>url. pos_of_char (char_at url i) = Inr i \<and> \<not> is_pad (char_at url i)
      \<and> char_at url i \<noteq> CHR ''\<newline>'') [True, False]) [0..63]"
    by code_simp
  have "i \<in> set [0..63]" "url \<in> set [True, False]" using assms by auto
  with all show "pos_of_char (char_at url i) = Inr i" "\<not> is_pad (char_at url i)" "char_at url i \<noteq> CHR ''\<newline>''"
    unfolding list_all_iff by blast+
qed

section \<open>Round trip\<close>

lemma join_2_4: "0 \<le> x \<Longrightarrow> x < 4 \<Longrightarrow> 0 \<le> y \<Longrightarrow> y < 16 \<Longrightarrow>
    (x * 16 + y) mod 64 div 16 = x \<and> (x * 16 + y) mod 16 = y \<and> x * 16 + y < (64 :: int)"
  by auto

lemma join_4_2: "0 \<le> x \<Longrightarrow> x < 16 \<Longrightarrow> 0 \<le> y \<Longrightarrow> y < 4 \<Longrightarrow>
    (x * 4 + y) mod 64 div 4 = x \<and> (x * 4 + y) mod 4 = y \<and> x * 4 + y < (64 :: int)"
  by auto

lemma byte_range: "0 \<le> uint (a :: u8) \<and> uint a < 256"
  by simp

lemma byte_div:
  fixes a :: u8
  shows "uint a div 4 < 64" "uint a div 16 < 16" "uint a div 64 < 4"
    "0 \<le> uint a div 4" "0 \<le> uint a div 16" "0 \<le> uint a div 64"
proof -
  have "uint a < 256" "0 \<le> uint a" by simp_all
  then show "uint a div 4 < 64" "uint a div 16 < 16" "uint a div 64 < 4"
    "0 \<le> uint a div 4" "0 \<le> uint a div 16" "0 \<le> uint a div 64" by linarith+
qed

text \<open>The sextets of three bytes, in range, and the bytes back from them.\<close>

lemma sextet_1:
  fixes a b :: u8
  shows "0 \<le> uint a mod 4 * 16 + uint b div 16" "uint a mod 4 * 16 + uint b div 16 < 64"
    "(uint a mod 4 * 16 + uint b div 16) mod 64 div 16 = uint a mod 4"
    "(uint a mod 4 * 16 + uint b div 16) mod 16 = uint b div 16"
  using join_2_4 [of "uint a mod 4" "uint b div 16"] byte_div(2,5) [of b] by simp_all

lemma sextet_2:
  fixes b c :: u8
  shows "0 \<le> uint b mod 16 * 4 + uint c div 64" "uint b mod 16 * 4 + uint c div 64 < 64"
    "(uint b mod 16 * 4 + uint c div 64) mod 64 div 4 = uint b mod 16"
    "(uint b mod 16 * 4 + uint c div 64) mod 4 = uint c div 64"
  using join_4_2 [of "uint b mod 16" "uint c div 64"] byte_div(3,6) [of c] by simp_all

lemma sextet_zero:
  fixes a b :: u8
  shows "0 \<le> uint a mod 4 * 16" "uint a mod 4 * 16 < 64" "uint a mod 4 * 16 mod 64 div 16 = uint a mod 4"
    "0 \<le> uint b mod 16 * 4" "uint b mod 16 * 4 < 64" "uint b mod 16 * 4 mod 64 div 4 = uint b mod 16"
proof -
  have z: "uint (0 :: u8) div 16 = 0" "uint (0 :: u8) div 64 = 0" by simp_all
  show "0 \<le> uint a mod 4 * 16" "uint a mod 4 * 16 < 64" "uint a mod 4 * 16 mod 64 div 16 = uint a mod 4"
    by (fact sextet_1(1-3) [of a 0, unfolded z add_0_right])+
  show "0 \<le> uint b mod 16 * 4" "uint b mod 16 * 4 < 64" "uint b mod 16 * 4 mod 64 div 4 = uint b mod 16"
    by (fact sextet_2(1-3) [of b 0, unfolded z add_0_right])+
qed

lemma round_bytes:
  fixes a b c :: u8
  shows "word_of_int (push_bit 2 (uint a div 4) + uint a mod 4) = a"
    "word_of_int (uint b div 16 * 16 + uint b mod 16) = b"
    "word_of_int (uint c div 64 * 64 + uint c mod 64) = c"
  by (simp_all add: push_bit_eq_mult mult.commute)

lemma str_at_simps [simp]:
  "str_at (x # xs) 0 = Inr x" "str_at (x # y # xs) 1 = Inr y" "str_at (x # y # xs) (Suc 0) = Inr y"
  "str_at (x # y # z # xs) 2 = Inr z" "str_at (x # y # z # w # xs) 3 = Inr w"
  by (simp_all add: str_at_def)

lemmas byte_bits' = byte_bits [OF conjunct1 [OF byte_range] conjunct2 [OF byte_range]]

lemma encode_arith:
  "encode_loop url [a] = [char_at url (uint a div 4), char_at url (uint a mod 4 * 16),
     if url then CHR ''.'' else CHR ''='', if url then CHR ''.'' else CHR ''='']"
  "encode_loop url [a, b] = [char_at url (uint a div 4), char_at url (uint a mod 4 * 16 + uint b div 16),
     char_at url (uint b mod 16 * 4), if url then CHR ''.'' else CHR ''='']"
  "encode_loop url (a # b # c # bs) = char_at url (uint a div 4) # char_at url (uint a mod 4 * 16 + uint b div 16)
     # char_at url (uint b mod 16 * 4 + uint c div 64) # char_at url (uint c mod 64) # encode_loop url bs"
  by (simp_all only: encode_loop.simps byte_bits' Let_def)

lemma decode_sextets:
  assumes "0 \<le> p0" "p0 < 64" "0 \<le> p1" "p1 < 64"
  shows "is_pad x \<Longrightarrow> decode_round (char_at url p0 # char_at url p1 # x # r) = Inr [word_of_int (p0 * 4 + p1 mod 64 div 16)]"
    and "0 \<le> p2 \<Longrightarrow> p2 < 64 \<Longrightarrow> is_pad x \<Longrightarrow>
      decode_round (char_at url p0 # char_at url p1 # char_at url p2 # x # r) =
        Inr [word_of_int (p0 * 4 + p1 mod 64 div 16), word_of_int (p1 mod 16 * 16 + p2 mod 64 div 4)]"
    and "0 \<le> p2 \<Longrightarrow> p2 < 64 \<Longrightarrow> 0 \<le> p3 \<Longrightarrow> p3 < 64 \<Longrightarrow>
      decode_round (char_at url p0 # char_at url p1 # char_at url p2 # char_at url p3 # r) =
        Inr [word_of_int (p0 * 4 + p1 mod 64 div 16), word_of_int (p1 mod 16 * 16 + p2 mod 64 div 4),
          word_of_int (p2 mod 4 * 64 + p3)]"
proof -
  have b: "0 \<le> p \<Longrightarrow> p < 64 \<Longrightarrow> p < 256" for p :: int by simp
  have p: "push_bit 2 p0 = p0 * 4" by (simp add: push_bit_eq_mult)
  show "is_pad x \<Longrightarrow> decode_round (char_at url p0 # char_at url p1 # x # r) = Inr [word_of_int (p0 * 4 + p1 mod 64 div 16)]"
    using assms by (simp only: decode_round_def str_at_simps res_bind.simps alphabet byte_bits b p Let_def if_True)
  show "0 \<le> p2 \<Longrightarrow> p2 < 64 \<Longrightarrow> is_pad x \<Longrightarrow>
      decode_round (char_at url p0 # char_at url p1 # char_at url p2 # x # r) =
        Inr [word_of_int (p0 * 4 + p1 mod 64 div 16), word_of_int (p1 mod 16 * 16 + p2 mod 64 div 4)]"
    using assms by (simp only: decode_round_def str_at_simps res_bind.simps alphabet byte_bits b p Let_def if_True if_False)
  show "0 \<le> p2 \<Longrightarrow> p2 < 64 \<Longrightarrow> 0 \<le> p3 \<Longrightarrow> p3 < 64 \<Longrightarrow>
      decode_round (char_at url p0 # char_at url p1 # char_at url p2 # char_at url p3 # r) =
        Inr [word_of_int (p0 * 4 + p1 mod 64 div 16), word_of_int (p1 mod 16 * 16 + p2 mod 64 div 4),
          word_of_int (p2 mod 4 * 64 + p3)]"
    using assms by (simp only: decode_round_def str_at_simps res_bind.simps alphabet byte_bits b p Let_def if_True if_False)
qed

lemma decode_round_encode:
  "decode_round (encode_loop url [a]) = Inr [a]" "decode_round (encode_loop url [a, b]) = Inr [a, b]"
  "decode_round (encode_loop url (a # b # c # bs)) = Inr [a, b, c]"
proof -
  have pad: "is_pad (if url then CHR ''.'' else CHR ''='')" by (simp add: is_pad_def)
  have m: "0 \<le> uint c mod 64" "uint c mod 64 < 64" by simp_all
  have z: "0 \<le> uint a mod 4 * 16" "uint a mod 4 * 16 < 64" "uint a mod 4 * 16 mod 64 div 16 = uint a mod 4"
    "0 \<le> uint b mod 16 * 4" "uint b mod 16 * 4 < 64" "uint b mod 16 * 4 mod 64 div 4 = uint b mod 16"
    by (fact sextet_zero)+
  have r: "uint x div 4 * 4 + uint x mod 4 = uint x" "uint x div 16 * 16 + uint x mod 16 = uint x"
    "uint x div 64 * 64 + uint x mod 64 = uint x" for x :: u8
    by (simp_all add: mult.commute)
  note d = byte_div(4,1) [of a]
  show "decode_round (encode_loop url [a]) = Inr [a]"
    unfolding encode_arith decode_sextets(1) [OF d z(1,2) pad] z(3) r by simp
  show "decode_round (encode_loop url [a, b]) = Inr [a, b]"
    unfolding encode_arith decode_sextets(2) [OF d sextet_1(1,2) z(4,5) pad] z(6) sextet_1 r by simp
  show "decode_round (encode_loop url (a # b # c # bs)) = Inr [a, b, c]"
    unfolding encode_arith decode_sextets(3) [OF d sextet_1(1,2) sextet_2(1,2) m] sextet_1 sextet_2 r by simp
qed

lemma decode_encode: "decode_loop (encode_loop url bs) = Inr bs"
proof (induction url bs rule: encode_loop.induct)
  case (1 url)
  then show ?case by (simp add: decode_loop.simps)
next
  case (2 url a)
  have "drop 4 (encode_loop url [a]) = []" "encode_loop url [a] \<noteq> []" by (simp_all add: Let_def)
  then show ?case
    unfolding decode_loop.simps [of "encode_loop url [a]"] decode_round_encode by (simp add: decode_loop.simps)
next
  case (3 url a b)
  have "drop 4 (encode_loop url [a, b]) = []" "encode_loop url [a, b] \<noteq> []" by (simp_all add: Let_def)
  then show ?case
    unfolding decode_loop.simps [of "encode_loop url [a, b]"] decode_round_encode by (simp add: decode_loop.simps)
next
  case (4 url a b c bs)
  have "drop 4 (encode_loop url (a # b # c # bs)) = encode_loop url bs" "encode_loop url (a # b # c # bs) \<noteq> []"
    by simp_all
  then show ?case
    unfolding decode_loop.simps [of "encode_loop url (a # b # c # bs)"] decode_round_encode using 4 by simp
qed

section \<open>Line breaks\<close>

lemma remove_newlines_append: "remove_newlines (xs @ ys) = remove_newlines xs @ remove_newlines ys"
  by (induction xs) auto

lemma remove_newlines_id: "CHR ''\<newline>'' \<notin> set xs \<Longrightarrow> remove_newlines xs = xs"
  by (induction xs) auto

lemma encode_no_newline: "CHR ''\<newline>'' \<notin> set (encode_loop url bs)"
proof (induction url bs rule: encode_loop.induct)
  case (2 url a)
  show ?case
    unfolding encode_arith
    using alphabet(3) [OF byte_div(4,1)] alphabet(3) [OF sextet_zero(1,2)] by (auto dest: sym)
next
  case (3 url a b)
  show ?case
    unfolding encode_arith
    using alphabet(3) [OF byte_div(4,1)] alphabet(3) [OF sextet_1(1,2)] alphabet(3) [OF sextet_zero(4,5)]
    by (auto dest: sym)
next
  case (4 url a b c bs)
  have "0 \<le> uint c mod 64" "uint c mod 64 < 64" by simp_all
  from alphabet(3) [OF this] show ?case
    unfolding encode_arith
    using alphabet(3) [OF byte_div(4,1)] alphabet(3) [OF sextet_1(1,2)] alphabet(3) [OF sextet_2(1,2)] 4
    by (auto dest: sym)
qed simp

text \<open>With a positive distance the loop ends, and removing the line breaks gives the text back.\<close>

lemma linebreak_loop_returns:
  assumes "0 < distance"
  shows "\<exists>r. linebreak_loop distance pos str = Some r \<and> remove_newlines r = remove_newlines str \<and> (str \<noteq> [] \<longrightarrow> r \<noteq> [])"
proof (induction "length str - pos" arbitrary: pos str rule: less_induct)
  case less
  show ?case
  proof (cases "pos < length str")
    case True
    let ?s = "take pos str @ CHR ''\<newline>'' # drop pos str"
    have "length ?s - (pos + distance + 1) < length str - pos"
      using True assms by simp
    from less [OF this] obtain r where "linebreak_loop distance (pos + distance + 1) ?s = Some r"
        "remove_newlines r = remove_newlines ?s" "r \<noteq> []"
      by auto
    moreover have "remove_newlines ?s = remove_newlines str"
      using remove_newlines_append [of "take pos str" "drop pos str"] by (simp add: remove_newlines_append)
    ultimately show ?thesis
      using True by (simp add: linebreak_loop.simps [of _ pos])
  qed (simp add: linebreak_loop.simps)
qed

lemma decode_linebreaks:
  assumes "0 < distance"
  shows "\<exists>r. insert_linebreaks (encode_loop False bs) distance = Some r \<and> base64_decode r True = Inr bs"
proof (cases "encode_loop False bs = []")
  case True
  then show ?thesis
    using decode_encode [of False bs]
    by (simp add: insert_linebreaks_def base64_decode_def decode_loop.simps)
next
  case False
  then obtain r where "linebreak_loop distance distance (encode_loop False bs) = Some r" "r \<noteq> []"
      "remove_newlines r = encode_loop False bs"
    using linebreak_loop_returns [OF assms, of distance "encode_loop False bs"]
    by (auto simp: remove_newlines_id [OF encode_no_newline])
  then show ?thesis
    using False by (simp add: insert_linebreaks_def base64_decode_def decode_encode)
qed

section \<open>The decoder stays in range\<close>

lemma pos_of_char_defined [simp]: "defined (pos_of_char c)"
  by (simp add: pos_of_char_def Let_def)

lemma pos_of_char_nul [simp]: "pos_of_char CHR 0x00 =
    Inl (Std_exception ''If input is correct, this line should never be reached.'')"
  by (simp add: pos_of_char_def)

lemma str_at_end [simp]:
  "str_at [x] 1 = Inr (CHR 0x00)" "str_at [x] (Suc 0) = Inr (CHR 0x00)" "str_at [x, y] 2 = Inr (CHR 0x00)"
  "str_at [x, y, z] 3 = Inr (CHR 0x00)"
  by (simp_all add: str_at_def, simp_all add: char_of_def)

lemma decode_round_defined:
  assumes "s \<noteq> []"
  shows "defined (decode_round s)"
proof -
  consider x where "s = [x]" | x y where "s = [x, y]" | x y z where "s = [x, y, z]"
    | x y z u r where "s = x # y # z # u # r"
    using assms by (metis neq_Nil_conv)
  then show ?thesis
    by cases (auto simp: decode_round_def Let_def is_pad_def intro!: defined_bind)
qed

lemma decode_loop_defined: "defined (decode_loop s)"
proof (induction s rule: decode_loop.induct)
  case (1 s)
  then show ?case
    unfolding decode_loop.simps [of s] by (auto intro!: defined_bind decode_round_defined)
qed

lemma length_encode: "length (encode_loop url bs) = (length bs + 2) div 3 * 4"
proof (induction url bs rule: encode_loop.induct)
  case (4 url a b c bs)
  have "(length (a # b # c # bs) + 2) div 3 = (length bs + 2 + 3) div 3" by simp
  then show ?case
    using 4 by (simp only: div_add_self2) simp
qed (simp_all add: Let_def)

section \<open>Properties\<close>

text \<open>
  C32: Encoding fewer than \<open>2 ^ 32\<close> bytes returns, and decoding the result gives the bytes back, for both alphabets,
  and also for the PEM and MIME forms, whose line breaking loops end, when line breaks are removed. The encoded text
  has the length the encoder reserves, four characters per started group of three bytes. Encoding \<open>2 ^ 32\<close> bytes or
  more never returns, as the 32 bit index wraps.
\<close>

theorem base64_round_trip:
  "if length bs < 2 ^ 32
   then \<exists>s p m. base64_encode bs url = Some s \<and> base64_decode s False = Inr bs \<and> length s = (length bs + 2) div 3 * 4
     \<and> base64_encode_pem bs = Some p \<and> base64_decode p True = Inr bs
     \<and> base64_encode_mime bs = Some m \<and> base64_decode m True = Inr bs
   else base64_encode bs url = None \<and> base64_encode_pem bs = None \<and> base64_encode_mime bs = None"
proof (cases "length bs < 2 ^ 32")
  case True
  obtain p m where "insert_linebreaks (encode_loop False bs) 64 = Some p" "base64_decode p True = Inr bs"
      "insert_linebreaks (encode_loop False bs) 76 = Some m" "base64_decode m True = Inr bs"
    using decode_linebreaks [of 64 bs] decode_linebreaks [of 76 bs] by auto
  then show ?thesis
    using True by (simp add: base64_encode_loop base64_decode_def decode_encode length_encode base64_encode_pem_def base64_encode_mime_def)
next
  case False
  then show ?thesis using base64_encode_long [of bs] by (simp add: base64_encode_pem_def base64_encode_mime_def)
qed

theorem base64_round_trip_witness:
  "\<exists>s p. base64_encode [1, 2, 3, 4] True = Some s \<and> base64_decode s False = Inr [1, 2, 3, 4] \<and> length s = 8
    \<and> base64_encode_pem [1, 2, 3, 4] = Some p \<and> base64_decode p True = Inr [1, 2, 3, 4]"
  using base64_round_trip [of "[1, 2, 3, 4]" True] by auto

text \<open>
  The decoder is safe on every input, also on text whose length is no multiple of four: although
  it reads up to three characters ahead of its position, it stops with a result or an exception
  before it can read beyond the terminating zero of the string.
\<close>

theorem base64_decode_safe: "base64_decode s remove_linebreaks \<noteq> Inl Undefined_behaviour"
  using decode_loop_defined by (simp add: base64_decode_def defined_def)

end
