(* ===== verification/FTL_WsHeader.thy ===== *)
theory FTL_WsHeader
  imports FTL_Prelude
begin

text \<open>
  WebSocket frame headers. Two independent implementations exist: \<^verbatim>\<open>ws_prepare\<close> and \<^verbatim>\<open>ws_parse\<close> of
  the TCP side (\<^verbatim>\<open>protocol/websocket.cpp\<close>) and \<^verbatim>\<open>WsWriteHeader\<close> and \<^verbatim>\<open>WsParseHeader\<close> of the
  QUIC side (\<^verbatim>\<open>quic/src/websocket.hpp\<close>). A buffer is a list of bytes, a length \<^verbatim>\<open>size_t\<close> a 64 bit
  word; an opcode is the byte the code casts it from or to.
\<close>

section \<open>The TCP side\<close>

record wsheader_type =
  header_size :: nat
  fin :: bool
  rsv :: u8
  mask :: bool
  opcode :: u8
  N0 :: u8
  N :: u64
  masking_key :: "u8 list"

text \<open>\<^verbatim>\<open>reinterpret_cast<uint8_t*>(&mask)\<close> on a little-endian machine.\<close>

definition key_bytes :: "u32 \<Rightarrow> u8 list" where
  "key_bytes m = [ucast m, ucast (drop_bit 8 m), ucast (drop_bit 16 m), ucast (drop_bit 24 m)]"

definition mask_flag :: "bool \<Rightarrow> u8" where
  "mask_flag useMask = (if useMask then 0x80 else 0)"

text \<open>\<^verbatim>\<open>ws_prepare\<close>: the header bytes written, or \<^const>\<open>None\<close> for the result -1.\<close>

definition ws_prepare :: "u8 \<Rightarrow> bool \<Rightarrow> u32 \<Rightarrow> u64 \<Rightarrow> nat \<Rightarrow> u8 list option" where
  "ws_prepare op useMask msk len maxlen =
     (let hs = 2 + (if len \<ge> 126 then 2 else 0) + (if len \<ge> 65536 then 6 else 0) + (if useMask then 4 else 0 :: nat);
          key = (if useMask then key_bytes msk else []) in
      if hs > maxlen then None
      else if len < 126 then
        Some ([0x80 OR op, (ucast len AND 0xff) OR mask_flag useMask] @ key)
      else if len < 65536 then
        Some ([0x80 OR op, 126 OR mask_flag useMask, ucast (drop_bit 8 len), ucast len] @ key)
      else
        Some ([0x80 OR op, 127 OR mask_flag useMask,
          ucast (drop_bit 56 len), ucast (drop_bit 48 len), ucast (drop_bit 40 len), ucast (drop_bit 32 len),
          ucast (drop_bit 24 len), ucast (drop_bit 16 len), ucast (drop_bit 8 len), ucast len] @ key))"

definition be16 :: "u8 list \<Rightarrow> nat \<Rightarrow> u64" where
  "be16 d i = push_bit 8 (ucast (d ! i)) OR ucast (d ! (i + 1))"

definition be64 :: "u8 list \<Rightarrow> nat \<Rightarrow> u64" where
  "be64 d i = push_bit 56 (ucast (d ! i)) OR push_bit 48 (ucast (d ! (i + 1)))
     OR push_bit 40 (ucast (d ! (i + 2))) OR push_bit 32 (ucast (d ! (i + 3)))
     OR push_bit 24 (ucast (d ! (i + 4))) OR push_bit 16 (ucast (d ! (i + 5)))
     OR push_bit 8 (ucast (d ! (i + 6))) OR ucast (d ! (i + 7))"

definition ws_parse :: "u8 list \<Rightarrow> wsheader_type res" where
  "ws_parse d =
     (if length d < 2 then Inl (FTL_Error ''Websock header too small'')
      else
        let rs = d ! 0 AND 0x70;
            opc = d ! 0 AND 0x0f;
            msk = (d ! 1 AND 0x80 = 0x80);
            n0 = d ! 1 AND 0x7f;
            hs = 2 + (if n0 = 126 then 2 else 0) + (if n0 = 127 then 8 else 0) + (if msk then 4 else 0) in
        if length d < hs then Inl (FTL_Error ''Websock header too small'')
        else if rs \<noteq> 0 then Inl (FTL_Error ''WS header reserved not zero'')
        else if opc > 10 \<or> (opc > 2 \<and> opc < 8) then Inl (FTL_Error ''Websock opcode invalid'')
        else
          let (n, i) = (if n0 < 126 then (ucast n0, 2) else if n0 = 126 then (be16 d 2, 4) else (be64 d 2, 10)) in
          Inr \<lparr>header_size = hs, fin = (d ! 0 AND 0x80 = 0x80), rsv = rs, mask = msk, opcode = opc, N0 = n0,
            N = n, masking_key = (if msk then [d ! i, d ! (i + 1), d ! (i + 2), d ! (i + 3)] else [0, 0, 0, 0])\<rparr>)"

text \<open>
  \<^verbatim>\<open>prepare_next\<close>: whether a whole frame is buffered, and the bytes to skip. The sum
  \<^verbatim>\<open>header.N + header.header_size\<close> is a \<^verbatim>\<open>uint64_t\<close> and wraps.
\<close>

definition prepare_next :: "u8 list \<Rightarrow> (bool \<times> nat) res" where
  "prepare_next d =
     (if length d < 14 then Inr (False, 0)
      else res_bind (ws_parse d) (\<lambda>h.
        if unat (N h + of_nat (header_size h)) > length d then Inr (False, 0)
        else if mask h then Inl (FTL_Error ''masked WebSocket data not supported'')
        else Inr (True, header_size h)))"

section \<open>The QUIC side\<close>

record WebSocketHeader =
  Fin :: bool
  Rsv :: u8
  HasMask :: bool
  OpCode :: u8
  PayloadLength :: u64
  MaskingKey :: "u8 list"
  HeaderSize :: nat

datatype WsParseHeaderStatus = OK WebSocketHeader | NOT_ENOUGH_DATA | INVALID

definition WsWriteHeader :: "u8 \<Rightarrow> bool \<Rightarrow> u8 list \<Rightarrow> u64 \<Rightarrow> nat \<Rightarrow> (u8 list option) res" where
  "WsWriteHeader op useMask key len maxlen =
     (if \<not> maxlen \<ge> 12 then Inl Check_failed
      else
        let hs = 2 + (if len \<ge> 126 then 2 else 0) + (if len \<ge> 65536 then 6 else 0) + (if useMask then 4 else 0 :: nat);
            k = (if useMask then [key ! 0, key ! 1, key ! 2, key ! 3] else []) in
        if hs > maxlen then Inr None
        else if len < 126 then
          Inr (Some ([0x80 OR op, (ucast len AND 0xff) OR mask_flag useMask] @ k))
        else if len < 65536 then
          Inr (Some ([0x80 OR op, 126 OR mask_flag useMask, ucast (drop_bit 8 len), ucast len] @ k))
        else
          Inr (Some ([0x80 OR op, 127 OR mask_flag useMask,
            ucast (drop_bit 56 len), ucast (drop_bit 48 len), ucast (drop_bit 40 len), ucast (drop_bit 32 len),
            ucast (drop_bit 24 len), ucast (drop_bit 16 len), ucast (drop_bit 8 len), ucast len] @ k)))"

definition WsParseHeader :: "u8 list \<Rightarrow> WsParseHeaderStatus res" where
  "WsParseHeader d =
     (if length d < 2 then Inr NOT_ENOUGH_DATA
      else
        let rs = d ! 0 AND 0x70;
            opc = d ! 0 AND 0x0f;
            msk = (d ! 1 AND 0x80 = 0x80);
            n0 = d ! 1 AND 0x7f;
            hs = 2 + (if n0 = 126 then 2 else 0) + (if n0 = 127 then 8 else 0) + (if msk then 4 else 0) in
        if \<not> hs \<le> 14 then Inl Check_failed
        else if length d < hs then Inr NOT_ENOUGH_DATA
        else if rs \<noteq> 0 then Inr INVALID
        else if opc > 10 \<or> (opc > 2 \<and> opc < 8) then Inr INVALID
        else
          let (n, i) = (if n0 < 126 then (ucast n0, 2) else if n0 = 126 then (be16 d 2, 4) else (be64 d 2, 10)) in
          Inr (OK \<lparr>Fin = (d ! 0 AND 0x80 = 0x80), Rsv = rs, HasMask = msk, OpCode = opc, PayloadLength = n,
            MaskingKey = (if msk then [d ! i, d ! (i + 1), d ! (i + 2), d ! (i + 3)] else [0, 0, 0, 0]),
            HeaderSize = hs\<rparr>))"

section \<open>Masking\<close>

text \<open>\<^verbatim>\<open>Mask\<close>: byte \<open>i\<close> is xored with \<^verbatim>\<open>Key[(i + Offset) & 3]\<close>.\<close>

fun Mask :: "u8 list \<Rightarrow> u8 list \<Rightarrow> nat \<Rightarrow> u8 list" where
  "Mask [] key off = []"
| "Mask (b # bs) key off = (b XOR key ! (off mod 4)) # Mask bs key (off + 1)"

text \<open>The masking loop of \<^verbatim>\<open>WebSocketBase::writev\<close> over the buffers of a message.\<close>

fun mask_iovecs :: "u8 list list \<Rightarrow> u8 list \<Rightarrow> nat \<Rightarrow> u8 list list" where
  "mask_iovecs [] key msglen = []"
| "mask_iovecs (buf # bufs) key msglen = Mask buf key msglen # mask_iovecs bufs key (msglen + length buf)"

text \<open>
  \<^verbatim>\<open>WebSocketBase::writev\<close>: masks the message, puts a header in front and hands all buffers to the
  socket; \<open>rnd\<close> is the random mask, \<open>wr\<close> the \<^verbatim>\<open>writev\<close> of the socket class. The size of the header
  is not reported. \<^verbatim>\<open>ws_prepare\<close> is given 20 bytes and never fails.
\<close>

definition ws_writev :: "u32 \<Rightarrow> (u8 list list \<Rightarrow> 'w \<Rightarrow> int \<times> 'w) \<Rightarrow> u8 list list \<Rightarrow> 'w \<Rightarrow> int \<times> 'w" where
  "ws_writev rnd wr iov w =
     (let bufs = mask_iovecs iov (key_bytes rnd) 0;
          msglen = of_nat (sum_list (map length iov)) :: u64 in
      case ws_prepare 2 True rnd msglen 20 of
        None \<Rightarrow> (-1, w)
      | Some h \<Rightarrow>
         (case wr (h # bufs) w of (sent, w') \<Rightarrow>
           (if sent > 0 then sent - int (length h) else sent, w')))"

section \<open>Writing and parsing\<close>

definition valid_opcode :: "u8 \<Rightarrow> bool" where
  "valid_opcode op \<longleftrightarrow> op \<in> {0, 1, 2, 8, 9, 10}"

lemma opcode_byte:
  assumes "valid_opcode op"
  shows "(0x80 OR op) AND 0x70 = 0" "(0x80 OR op) AND 0x0f = op" "(0x80 OR op) AND 0x80 = 0x80"
    "\<not> op > 10" "\<not> (op > 2 \<and> op < 8)"
  using assms by (auto simp: valid_opcode_def)

lemma bit_7f [simp]: "bit (127 :: int) n \<longleftrightarrow> n < 7"
  using bit_mask_iff [of 7 n, where 'a = int] by (auto simp: mask_eq_exp_minus_1)

lemma bit_80 [simp]: "bit (128 :: int) n \<longleftrightarrow> n = 7"
  using bit_exp_iff [of 7 n, where 'a = int] by auto

lemma small_length_bits:
  assumes "len < (128 :: u64)" "7 \<le> n"
  shows "\<not> bit len n"
proof -
  have "uint len < 128" using assms(1) by (simp add: word_less_def)
  then have "take_bit 7 len = len"
    by (simp add: word_uint_eq_iff unsigned_take_bit_eq take_bit_int_eq_self_iff)
  then show ?thesis using assms(2) by (metis bit_take_bit_iff linorder_not_less)
qed

lemma and_80: "x AND 0x80 = 0x80 \<longleftrightarrow> bit (x :: u8) 7"
proof
  assume "x AND 0x80 = 0x80"
  moreover have "bit (0x80 :: u8) 7" by simp
  ultimately show "bit x 7" by (metis bit_and_iff)
next
  assume "bit x 7"
  then show "x AND 0x80 = 0x80" by (intro bit_word_eqI) (auto simp: bit_simps)
qed

lemma short_length_byte:
  assumes "len < (126 :: u64)"
  shows "(((ucast len :: u8) AND 0xff) OR mask_flag m) AND 0x80 = 0x80 \<longleftrightarrow> m"
    and "(((ucast len :: u8) AND 0xff) OR mask_flag m) AND 0x7f = ucast len"
    and "(ucast len :: u8) < 126" and "ucast (ucast len :: u8) = len"
proof -
  have lt: "len < 128" using assms by (rule order_less_trans) simp
  note b = small_length_bits [OF lt]
  have b': "bit len n \<Longrightarrow> n < 7" for n using b [of n] by fastforce
  show "(((ucast len :: u8) AND 0xff) OR mask_flag m) AND 0x80 = 0x80 \<longleftrightarrow> m"
    using b [of 7] by (auto simp: mask_flag_def and_80 bit_simps)
  show "(((ucast len :: u8) AND 0xff) OR mask_flag m) AND 0x7f = ucast len"
    by (rule bit_word_eqI) (auto simp: mask_flag_def bit_simps b')
  have u: "uint len < 126" using assms by (simp add: word_less_def)
  then show "(ucast len :: u8) < 126"
    by (simp add: word_less_def unsigned_ucast_eq unsigned_take_bit_eq take_bit_int_eq_self)
  show "ucast (ucast len :: u8) = len"
    using u by (simp add: word_uint_eq_iff unsigned_ucast_eq unsigned_take_bit_eq take_bit_int_eq_self)
qed

lemma long_length_byte:
  "(126 OR mask_flag m) AND 0x80 = 0x80 \<longleftrightarrow> m" "(126 OR mask_flag m) AND 0x7f = 126"
  "(127 OR mask_flag m) AND 0x80 = 0x80 \<longleftrightarrow> m" "(127 OR mask_flag m) AND 0x7f = 127"
  by (simp_all add: mask_flag_def)

lemma u16_bytes: "len < (65536 :: u64) \<Longrightarrow> push_bit 8 (ucast (ucast (drop_bit 8 len) :: u8)) OR ucast (ucast len :: u8) = len"
  using u16_split_bytes by metis

lemma key_bytes_nth: "[key_bytes m ! 0, key_bytes m ! 1, key_bytes m ! 2, key_bytes m ! 3] = key_bytes m"
  by (simp add: key_bytes_def)

lemma length_key_bytes [simp]: "length (key_bytes m) = 4"
  by (simp add: key_bytes_def)

text \<open>The header both writers produce.\<close>

definition frame_header :: "u8 \<Rightarrow> u8 list option \<Rightarrow> u64 \<Rightarrow> u8 list" where
  "frame_header op key len =
     (if len < 126 then [0x80 OR op, (ucast len AND 0xff) OR mask_flag (key \<noteq> None)]
      else if len < 65536 then [0x80 OR op, 126 OR mask_flag (key \<noteq> None), ucast (drop_bit 8 len), ucast len]
      else [0x80 OR op, 127 OR mask_flag (key \<noteq> None),
          ucast (drop_bit 56 len), ucast (drop_bit 48 len), ucast (drop_bit 40 len), ucast (drop_bit 32 len),
          ucast (drop_bit 24 len), ucast (drop_bit 16 len), ucast (drop_bit 8 len), ucast len])
     @ (case key of Some k \<Rightarrow> k | None \<Rightarrow> [])"

lemma ws_prepare_frame_header:
  "14 \<le> maxlen \<Longrightarrow> ws_prepare op m msk len maxlen = Some (frame_header op (if m then Some (key_bytes msk) else None) len)"
  by (auto simp: ws_prepare_def frame_header_def Let_def not_less)

lemma four_nth: "length k = 4 \<Longrightarrow> [k ! 0, k ! 1, k ! 2, k ! 3] = (k :: 'a list)"
  by (auto simp: length_Suc_conv numeral_eq_Suc)

lemma WsWriteHeader_frame_header:
  "14 \<le> maxlen \<Longrightarrow> length key = 4 \<Longrightarrow>
   WsWriteHeader op m key len maxlen = Inr (Some (frame_header op (if m then Some key else None) len))"
  using four_nth [of key] by (auto simp: WsWriteHeader_def frame_header_def Let_def not_less)

definition parsed_header :: "u8 \<Rightarrow> u8 list option \<Rightarrow> u64 \<Rightarrow> WebSocketHeader" where
  "parsed_header op key len = \<lparr>Fin = True, Rsv = 0, HasMask = (key \<noteq> None), OpCode = op, PayloadLength = len,
     MaskingKey = (case key of Some k \<Rightarrow> k | None \<Rightarrow> [0, 0, 0, 0]),
     HeaderSize = length (frame_header op key len)\<rparr>"

lemma be_frame_header:
  "be16 (a # b # c # d # xs) 2 = push_bit 8 (ucast c) OR ucast d"
  "be64 (a # b # c0 # c1 # c2 # c3 # c4 # c5 # c6 # c7 # xs) 2 = push_bit 56 (ucast c0) OR push_bit 48 (ucast c1)
     OR push_bit 40 (ucast c2) OR push_bit 32 (ucast c3) OR push_bit 24 (ucast c4) OR push_bit 16 (ucast c5)
     OR push_bit 8 (ucast c6) OR ucast c7"
  by (simp_all add: be16_def be64_def numeral_eq_Suc)

lemma key_after:
  assumes "length k = 4"
  shows "k = [(k @ rest) ! 0, (k @ rest) ! Suc 0, (k @ rest) ! 2, (k @ rest) ! 3]"
  using assms by (auto simp: length_Suc_conv numeral_eq_Suc)

lemma WsParseHeader_frame_header:
  assumes "valid_opcode op" and "case_option True (\<lambda>k. length k = 4) key"
  shows "WsParseHeader (frame_header op key len @ rest) = Inr (OK (parsed_header op key len))"
proof -
  note op = opcode_byte [OF assms(1)]
  obtain k where k: "(case key of Some k \<Rightarrow> k | None \<Rightarrow> []) = k" by blast
  have kl: "length k = (if key \<noteq> None then 4 else 0)" "key \<noteq> None \<Longrightarrow> key = Some k"
    using assms(2) k by (auto split: option.splits)
  consider "len < 126" | "126 \<le> len" "len < 65536" | "65536 \<le> len" by fastforce
  then show ?thesis
  proof cases
    case 1
    note b = short_length_byte(1,2) [OF 1, of "key \<noteq> None"] short_length_byte(3,4) [OF 1]
    have "frame_header op key len @ rest = (0x80 OR op) # ((ucast len AND 0xff) OR mask_flag (key \<noteq> None)) # k @ rest"
      using 1 k by (simp add: frame_header_def)
    then show ?thesis
      using 1 b kl key_after [of k rest] op
      by (auto simp: WsParseHeader_def Let_def parsed_header_def frame_header_def)
  next
    case 2
    have "frame_header op key len @ rest = (0x80 OR op) # (126 OR mask_flag (key \<noteq> None))
        # ucast (drop_bit 8 len) # ucast len # k @ rest"
      using 2 k by (simp add: frame_header_def not_less)
    then show ?thesis
      using 2 long_length_byte(1,2) [of "key \<noteq> None"] kl key_after [of k rest] op u16_bytes [OF 2(2)]
      by (auto simp: WsParseHeader_def Let_def parsed_header_def frame_header_def be_frame_header)
  next
    case 3
    then have "126 \<le> len" using order_trans [of 126 65536 len] by simp
    then have "frame_header op key len @ rest = (0x80 OR op) # (127 OR mask_flag (key \<noteq> None))
        # ucast (drop_bit 56 len) # ucast (drop_bit 48 len) # ucast (drop_bit 40 len) # ucast (drop_bit 32 len)
        # ucast (drop_bit 24 len) # ucast (drop_bit 16 len) # ucast (drop_bit 8 len) # ucast len # k @ rest"
      using 3 k by (simp add: frame_header_def not_less)
    then show ?thesis
      using 3 \<open>126 \<le> len\<close> long_length_byte(3,4) [of "key \<noteq> None"] kl key_after [of k rest] op u64_split_bytes [of len]
      by (auto simp: WsParseHeader_def Let_def parsed_header_def frame_header_def be_frame_header)
  qed
qed


section \<open>The two parsers agree\<close>

definition tcp_view :: "wsheader_type \<Rightarrow> WebSocketHeader" where
  "tcp_view h = \<lparr>Fin = fin h, Rsv = rsv h, HasMask = mask h, OpCode = opcode h, PayloadLength = N h,
     MaskingKey = masking_key h, HeaderSize = header_size h\<rparr>"

lemma parsers_agree:
  "WsParseHeader d = Inr (case ws_parse d of
      Inr h \<Rightarrow> OK (tcp_view h)
    | Inl e \<Rightarrow> if e = FTL_Error ''Websock header too small'' then NOT_ENOUGH_DATA else INVALID)"
  by (auto simp: WsParseHeader_def ws_parse_def Let_def tcp_view_def)

section \<open>Masking\<close>

lemma Mask_append: "Mask (xs @ ys) key off = Mask xs key off @ Mask ys key (off + length xs)"
  by (induction xs arbitrary: off) auto

lemma length_Mask [simp]: "length (Mask xs key off) = length xs"
  by (induction xs arbitrary: off) auto

lemma Mask_Mask: "Mask (Mask xs key off) key off = xs"
  by (induction xs arbitrary: off) (auto simp: xor.assoc)

lemma nth_zeros: "n < 4 \<Longrightarrow> [0, 0, 0, 0] ! n = (0 :: u8)"
proof -
  assume "n < 4"
  then have "n = 0 \<or> n = 1 \<or> n = 2 \<or> n = 3" by linarith
  then show ?thesis by auto
qed

lemma Mask_zero: "Mask xs [0, 0, 0, 0] off = xs"
  by (induction xs arbitrary: off) (simp_all add: nth_zeros)

lemma concat_mask_iovecs: "concat (mask_iovecs bufs key off) = Mask (concat bufs) key off"
  by (induction bufs arbitrary: off) (auto simp: Mask_append)


section \<open>Properties\<close>

text \<open>
  C30: Headers survive the wire, across the two implementations: what either writer produces for a
  valid opcode, any payload length and an optional mask key, with any bytes following it, is parsed
  by both parsers into that opcode, that length and that key, with the header size written.
\<close>

theorem ws_header_round_trip:
  assumes "valid_opcode op" and "14 \<le> maxlen"
  shows "\<exists>h. ws_prepare op m msk len maxlen = Some h
    \<and> WsWriteHeader op m (key_bytes msk) len maxlen = Inr (Some h)
    \<and> (\<forall>rest. WsParseHeader (h @ rest) = Inr (OK (parsed_header op (if m then Some (key_bytes msk) else None) len))
         \<and> (\<exists>t. ws_parse (h @ rest) = Inr t \<and> N t = len \<and> opcode t = op \<and> mask t = m \<and> header_size t = length h
              \<and> masking_key t = (if m then key_bytes msk else [0, 0, 0, 0])))"
proof -
  let ?key = "if m then Some (key_bytes msk) else None"
  have p: "WsParseHeader (frame_header op ?key len @ rest) = Inr (OK (parsed_header op ?key len))" for rest
    by (rule WsParseHeader_frame_header [OF assms(1)]) simp
  have "\<exists>t. ws_parse (frame_header op ?key len @ rest) = Inr t \<and> N t = len \<and> opcode t = op \<and> mask t = m
      \<and> header_size t = length (frame_header op ?key len)
      \<and> masking_key t = (if m then key_bytes msk else [0, 0, 0, 0])" for rest
    using p [of rest] unfolding parsers_agree
    by (cases "ws_parse (frame_header op ?key len @ rest)")
      (auto simp: tcp_view_def parsed_header_def split: if_splits)
  then show ?thesis
    using p ws_prepare_frame_header [OF assms(2)] WsWriteHeader_frame_header [OF assms(2)] by auto
qed

theorem ws_header_round_trip_witness:
  "ws_prepare 2 True 0x04030201 300 20 = Some [0x82, 0xfe, 1, 44, 1, 2, 3, 4]
   \<and> WsParseHeader [0x82, 0xfe, 1, 44, 1, 2, 3, 4, 9] = Inr (OK (parsed_header 2 (Some (key_bytes 0x04030201)) 300))"
proof -
  have v: "valid_opcode 2" by (simp add: valid_opcode_def)
  have h: "ws_prepare 2 True 0x04030201 300 20 = Some [0x82, 0xfe, 1, 44, 1, 2, 3, 4]" by code_simp
  then show ?thesis
    using ws_header_round_trip [OF v, of 20 True "0x04030201" 300] by force
qed

text \<open>
  C31: The two parsers agree on every input: \<^verbatim>\<open>WsParseHeader\<close> never hits its check, reports missing
  data exactly where \<^verbatim>\<open>ws_parse\<close> throws "Websock header too small", reports an invalid header
  exactly where it throws for a reserved bit or an opcode, and otherwise gives the same header.
\<close>

theorem ws_parsers_agree:
  "WsParseHeader d = Inr (case ws_parse d of
      Inr h \<Rightarrow> OK (tcp_view h)
    | Inl e \<Rightarrow> if e = FTL_Error ''Websock header too small'' then NOT_ENOUGH_DATA else INVALID)"
  by (rule parsers_agree)


text \<open>
  What a WebSocket connection sends can be read back: \<^verbatim>\<open>writev\<close> hands the socket one header and
  the masked buffers, each as long as the original; the header announces the total length and the
  mask key, and unmasking the bytes after it with that key gives the message.
\<close>

theorem ws_writev_sends_frame:
  assumes "sum_list (map length iov) < 2 ^ 64"
  shows "\<exists>h bufs hdr. ws_writev rnd wr iov w =
      (case wr (h # bufs) w of (sent, w') \<Rightarrow> (if sent > 0 then sent - int (length h) else sent, w'))
    \<and> map length bufs = map length iov
    \<and> WsParseHeader (concat (h # bufs)) = Inr (OK hdr)
    \<and> HeaderSize hdr = length h \<and> unat (PayloadLength hdr) = length (concat bufs) \<and> HasMask hdr
    \<and> Mask (concat bufs) (MaskingKey hdr) 0 = concat iov"
proof -
  let ?len = "of_nat (sum_list (map length iov)) :: u64"
  let ?h = "frame_header 2 (Some (key_bytes rnd)) ?len"
  let ?bufs = "mask_iovecs iov (key_bytes rnd) 0"
  let ?hdr = "parsed_header 2 (Some (key_bytes rnd)) ?len"
  have lens: "map length (mask_iovecs bs key off) = map length bs" for bs key off
    by (induction bs arbitrary: off) auto
  have u: "unat ?len = sum_list (map length iov)"
    using assms by (simp add: unat_of_nat take_bit_nat_eq_self)
  have "WsParseHeader (?h @ concat ?bufs) = Inr (OK ?hdr)"
    by (rule WsParseHeader_frame_header) (simp_all add: valid_opcode_def)
  then have "WsParseHeader (concat (?h # ?bufs)) = Inr (OK ?hdr)" by simp
  moreover have "ws_writev rnd wr iov w =
      (case wr (?h # ?bufs) w of (sent, w') \<Rightarrow> (if sent > 0 then sent - int (length ?h) else sent, w'))"
    by (simp add: ws_writev_def ws_prepare_frame_header Let_def)
  moreover have "unat (PayloadLength ?hdr) = length (concat ?bufs)"
    using u by (simp add: parsed_header_def length_concat lens)
  ultimately show ?thesis
    using lens [of iov "key_bytes rnd" 0]
    by (intro exI [of _ ?h] exI [of _ ?bufs] exI [of _ ?hdr])
      (simp add: parsed_header_def concat_mask_iovecs Mask_Mask)
qed

theorem ws_writev_sends_frame_witness:
  "\<exists>h bufs hdr. ws_writev 0x04030201 (\<lambda>b w. (int (length (concat b)), concat b)) [[1, 2, 3], [4, 5]] [] = (5, h @ concat bufs)
    \<and> WsParseHeader (h @ concat bufs) = Inr (OK hdr) \<and> Mask (concat bufs) (MaskingKey hdr) 0 = [1, 2, 3, 4, 5]"
proof -
  have small: "sum_list (map length [[1, 2, 3], [4, 5 :: u8]]) < 2 ^ 64" by simp
  obtain h bufs hdr where *: "ws_writev 0x04030201 (\<lambda>b w. (int (length (concat b)), concat b)) [[1, 2, 3], [4, 5]] [] =
      (case (int (length (concat (h # bufs))), concat (h # bufs)) of
         (sent, w') \<Rightarrow> (if sent > 0 then sent - int (length h) else sent, w'))"
      "map length bufs = map length [[1, 2, 3], [4, 5 :: u8]]" "WsParseHeader (concat (h # bufs)) = Inr (OK hdr)"
      "Mask (concat bufs) (MaskingKey hdr) 0 = concat [[1, 2, 3], [4, 5]]"
    using ws_writev_sends_frame [OF small, of "0x04030201" "\<lambda>b w. (int (length (concat b)), concat b)" "[]"]
    by blast
  from *(2) have "length (concat bufs) = 5" by (simp add: length_concat)
  with * show ?thesis by (intro exI [of _ h] exI [of _ bufs] exI [of _ hdr]) simp
qed

lemma header_length: "2 \<le> length (frame_header op key len)"
    "case_option True (\<lambda>k. length k = 4) key \<Longrightarrow> length (frame_header op key len) \<le> 14"
  by (auto simp: frame_header_def split: option.splits)

text \<open>
  \<^verbatim>\<open>prepare_next\<close> recognises complete frames: on an unmasked frame, received in whole or in part,
  it answers true, with the header size as offset, exactly when the whole payload is buffered and at
  least 14 bytes are (a shorter complete frame waits for more data), provided the payload length is
  more than 14 below the range of 64 bits.
\<close>

theorem prepare_next_complete_frame:
  assumes "valid_opcode op" and "unat len + 14 < 2 ^ 64"
  shows "prepare_next (frame_header op None len @ body) =
    (let h = length (frame_header op None len) in
     Inr (if unat len \<le> length body \<and> 14 \<le> h + length body then (True, h) else (False, 0)))"
proof -
  let ?h = "frame_header op None len"
  have p: "WsParseHeader (?h @ body) = Inr (OK (parsed_header op None len))"
    by (rule WsParseHeader_frame_header [OF assms(1)]) simp
  then obtain t where t: "ws_parse (?h @ body) = Inr t" "N t = len" "\<not> mask t" "header_size t = length ?h"
    unfolding parsers_agree
    by (cases "ws_parse (?h @ body)") (auto simp: tcp_view_def parsed_header_def split: if_splits)
  have hl: "length ?h \<le> 14" by (rule header_length) simp
  have "unat (len + of_nat (length ?h)) = unat len + length ?h"
    using assms(2) hl by (subst unat_add_lem [THEN iffD1]) (simp_all add: unat_of_nat take_bit_nat_eq_self)
  then show ?thesis
    using t by (auto simp: prepare_next_def Let_def)
qed

theorem prepare_next_complete_frame_witness:
  "prepare_next (frame_header 2 None 12 @ replicate 12 7) = Inr (True, 2)
   \<and> prepare_next (frame_header 2 None 11 @ replicate 11 7) = Inr (False, 0)"
  using prepare_next_complete_frame [of 2 12 "replicate 12 7"] prepare_next_complete_frame [of 2 11 "replicate 11 7"]
  by (simp add: valid_opcode_def frame_header_def)

text \<open>
  The size check of \<^verbatim>\<open>prepare_next\<close> wraps around: a header that announces a payload of
  \<open>2 ^ 64 - 1\<close> bytes is taken for a complete frame when 14 bytes are buffered.
\<close>

theorem prepare_next_wraps:
  "let d = [0x82, 127, 255, 255, 255, 255, 255, 255, 255, 255, 0, 0, 0, 0] in
   prepare_next d = Inr (True, 10) \<and> (\<exists>h. ws_parse d = Inr h \<and> unat (N h) + header_size h > length d)"
proof -
  let ?d = "[0x82, 127, 255, 255, 255, 255, 255, 255, 255, 255, 0, 0, 0, 0] :: u8 list"
  have "prepare_next ?d = Inr (True, 10)" by code_simp
  moreover have "(case ws_parse ?d of Inr h \<Rightarrow> N h = 0xffffffffffffffff | Inl _ \<Rightarrow> False)" by code_simp
  then obtain h where "ws_parse ?d = Inr h" "N h = 0xffffffffffffffff" by (auto split: sum.splits)
  ultimately show ?thesis by (auto simp: Let_def)
qed

end
