(* ===== verification/FTL_WsRead.thy ===== *)
theory FTL_WsRead
  imports FTL_WsHeader
begin

text \<open>
  The incremental WebSocket reader of the QUIC side (\<^verbatim>\<open>WebsocketRead\<close>, \<^verbatim>\<open>quic/src/websocket.hpp\<close>) and
  the loop that drives it in \<^verbatim>\<open>QuicPeerStream\<close> (\<^verbatim>\<open>quic_peer.cpp\<close>): input arrives in chunks that may
  split headers and payloads anywhere; the reader hands out unmasked payload.

  Unmasking happens in place in the caller's memory; here the reader's buffer holds the bytes not
  yet consumed and the unmasked bytes are the result. \<^verbatim>\<open>CHECK\<close> failures are \<^const>\<open>Check_failed\<close>.
\<close>

section \<open>State and operations\<close>

record WebsocketRead =
  ws_payload_read :: int
  ws_payload_remaining :: int
  ws_partial_header_read :: nat
  ws_mask :: bool
  ws_buffer :: "u8 list"
  ws_error :: bool
  ws_mask_key :: "u8 list"
  ws_header :: "u8 list"

definition new_reader :: WebsocketRead where
  "new_reader = \<lparr>ws_payload_read = 0, ws_payload_remaining = 0, ws_partial_header_read = 0, ws_mask = False,
     ws_buffer = [], ws_error = False, ws_mask_key = [0, 0, 0, 0], ws_header = replicate 14 0\<rparr>"

definition CopyPartialHeader :: "WebsocketRead \<Rightarrow> WebsocketRead res" where
  "CopyPartialHeader s =
     (let j = ws_partial_header_read s; n = min (14 - j) (length (ws_buffer s)) in
      if \<not> j < 14 then Inl Check_failed
      else CHECK (j + n \<le> 14)
        (s\<lparr>ws_header := take j (ws_header s) @ take n (ws_buffer s) @ drop (j + n) (ws_header s),
           ws_partial_header_read := j + n\<rparr>))"

definition NextBuffer :: "WebsocketRead \<Rightarrow> (u8 list \<times> WebsocketRead) res" where
  "NextBuffer s =
     (let n = min (cast_i32 (int (length (ws_buffer s)))) (ws_payload_remaining s);
          b = take (nat n) (ws_buffer s) in
      if n < 0 then Inl Undefined_behaviour
      else Inr (if ws_mask s then Mask b (ws_mask_key s) (nat (ws_payload_read s)) else b,
        s\<lparr>ws_buffer := drop (nat n) (ws_buffer s), ws_payload_read := ws_payload_read s + n,
          ws_payload_remaining := ws_payload_remaining s - n\<rparr>))"

definition ws_Reset :: "WebsocketRead \<Rightarrow> WebsocketRead" where
  "ws_Reset s = s\<lparr>ws_payload_read := 0, ws_payload_remaining := 0, ws_partial_header_read := 0, ws_mask := False,
     ws_buffer := [], ws_error := False\<rparr>"

definition ws_Next :: "u8 list \<Rightarrow> WebsocketRead \<Rightarrow> WebsocketRead res" where
  "ws_Next d s = CHECK (length (ws_buffer s) = 0) (s\<lparr>ws_buffer := d\<rparr>)"

text \<open>The rest of \<^verbatim>\<open>Buffer\<close> once a header is parsed, \<open>off\<close> of whose bytes came in earlier chunks.\<close>

definition begin_payload :: "WebSocketHeader \<Rightarrow> nat \<Rightarrow> WebsocketRead \<Rightarrow> (u8 list \<times> WebsocketRead) res" where
  "begin_payload h off s =
     (let s1 = s\<lparr>ws_buffer := drop (HeaderSize h - off) (ws_buffer s)\<rparr> in
      if OpCode h = 8 then Inr ([], s1\<lparr>ws_error := True\<rparr>)
      else NextBuffer (s1\<lparr>ws_mask := HasMask h, ws_mask_key := MaskingKey h, ws_partial_header_read := 0,
        ws_payload_read := 0, ws_payload_remaining := cast_i32 (uint (PayloadLength h))\<rparr>))"

definition on_status :: "nat \<Rightarrow> WsParseHeaderStatus \<Rightarrow> WebsocketRead \<Rightarrow> (u8 list \<times> WebsocketRead) res" where
  "on_status off status s =
     (case status of
        INVALID \<Rightarrow> Inr ([], s\<lparr>ws_error := True\<rparr>)
      | NOT_ENOUGH_DATA \<Rightarrow>
          if \<not> length (ws_buffer s) + ws_partial_header_read s < 14 then Inl Check_failed
          else res_bind (if ws_partial_header_read s = 0 then CopyPartialHeader s else Inr s) (\<lambda>s2.
            CHECK (ws_partial_header_read s2 - off = length (ws_buffer s2)) ([], s2\<lparr>ws_buffer := []\<rparr>))
      | OK h \<Rightarrow> begin_payload h off s)"

definition ws_Buffer :: "WebsocketRead \<Rightarrow> (u8 list \<times> WebsocketRead) res" where
  "ws_Buffer s =
     (if length (ws_buffer s) = 0 then Inr ([], s)
      else if ws_payload_remaining s > 0 then NextBuffer s
      else
        let off = ws_partial_header_read s in
        if off > 0 then
          res_bind (CopyPartialHeader s) (\<lambda>s1.
          res_bind (WsParseHeader (take (ws_partial_header_read s1) (ws_header s1))) (\<lambda>status.
          on_status off status s1))
        else res_bind (WsParseHeader (ws_buffer s)) (\<lambda>status. on_status off status s))"

text \<open>The results of \<^verbatim>\<open>Buffer\<close> never grow the input, and a non-empty one shrinks it.\<close>

lemma NextBuffer_length:
  assumes "NextBuffer s = Inr (b, s')"
  shows "length (ws_buffer s') + length b = length (ws_buffer s)"
proof -
  let ?n = "min (cast_i32 (int (length (ws_buffer s)))) (ws_payload_remaining s)"
  have "length b = length (take (nat ?n) (ws_buffer s))" "ws_buffer s' = drop (nat ?n) (ws_buffer s)"
    using assms by (auto simp: NextBuffer_def Let_def split: if_splits)
  then show ?thesis by simp
qed

lemma begin_payload_length:
  assumes "begin_payload h off s = Inr (b, s')"
  shows "length (ws_buffer s') + length b \<le> length (ws_buffer s)"
  using assms by (auto simp: begin_payload_def Let_def dest!: NextBuffer_length split: if_splits)

lemma CopyPartialHeader_buffer: "CopyPartialHeader s = Inr s' \<Longrightarrow> ws_buffer s' = ws_buffer s"
  by (auto simp: CopyPartialHeader_def Let_def split: if_splits)

lemma on_status_length:
  assumes "on_status off st s = Inr (b, s')"
  shows "length (ws_buffer s') + length b \<le> length (ws_buffer s)"
proof (cases st)
  case (OK h)
  then show ?thesis using assms begin_payload_length by (simp add: on_status_def)
qed (use assms in \<open>auto simp: on_status_def res_bind_Inr split: if_splits\<close>)

lemma ws_Buffer_length:
  assumes "ws_Buffer s = Inr (b, s')"
  shows "length (ws_buffer s') + length b \<le> length (ws_buffer s)"
proof (cases "ws_payload_remaining s > 0 \<or> ws_buffer s = []")
  case True
  then show ?thesis
    using assms by (auto simp: ws_Buffer_def dest!: NextBuffer_length split: if_splits)
next
  case False
  then show ?thesis
    using assms
    by (auto simp: ws_Buffer_def Let_def res_bind_Inr dest!: on_status_length CopyPartialHeader_buffer split: if_splits)
qed

text \<open>
  The loop of \<^verbatim>\<open>OnData\<close> for one chunk: \<^verbatim>\<open>Buffer\<close> until it reports an error or returns an empty
  span. Result: the bytes copied out and the reader.
\<close>

function drain :: "WebsocketRead \<Rightarrow> (u8 list \<times> WebsocketRead) res" where
  "drain s = (case ws_Buffer s of
     Inl e \<Rightarrow> Inl e
   | Inr (b, s') \<Rightarrow>
      if ws_error s' then Inr ([], s')
      else if length b = 0 then Inr ([], s')
      else (case drain s' of Inl e \<Rightarrow> Inl e | Inr (bs, s'') \<Rightarrow> Inr (b @ bs, s'')))"
  by pat_completeness auto
termination
  by (relation "measure (\<lambda>s. length (ws_buffer s))") (auto dest!: ws_Buffer_length simp: Suc_le_eq add_less_le_mono neq_Nil_conv)

declare drain.simps [simp del]

definition recv_chunk :: "u8 list \<Rightarrow> WebsocketRead \<Rightarrow> (u8 list \<times> WebsocketRead) res" where
  "recv_chunk d s = res_bind (ws_Next d s) drain"

fun recv_chunks :: "u8 list list \<Rightarrow> WebsocketRead \<Rightarrow> (u8 list \<times> WebsocketRead) res" where
  "recv_chunks [] s = Inr ([], s)"
| "recv_chunks (d # ds) s = res_bind (recv_chunk d s) (\<lambda>(b, s'). res_bind (recv_chunks ds s') (\<lambda>(bs, s''). Inr (b @ bs, s'')))"

section \<open>Frames on the wire\<close>

text \<open>A binary frame: its mask key, if any, and its payload.\<close>

type_synonym ws_frame = "u8 list option \<times> u8 list"

definition masked :: "bool \<Rightarrow> u8 list \<Rightarrow> u8 list \<Rightarrow> nat \<Rightarrow> u8 list" where
  "masked m key p off = (if m then Mask p key off else p)"

definition wire_header :: "ws_frame \<Rightarrow> u8 list" where
  "wire_header f = frame_header 2 (fst f) (of_nat (length (snd f)))"

definition wire_frame :: "ws_frame \<Rightarrow> u8 list" where
  "wire_frame f = wire_header f @ (case fst f of Some key \<Rightarrow> Mask (snd f) key 0 | None \<Rightarrow> snd f)"

definition wire :: "ws_frame list \<Rightarrow> u8 list" where
  "wire fs = concat (map wire_frame fs)"

definition payloads :: "ws_frame list \<Rightarrow> u8 list" where
  "payloads fs = concat (map snd fs)"

definition good_frame :: "ws_frame \<Rightarrow> bool" where
  "good_frame f \<longleftrightarrow> snd f \<noteq> [] \<and> length (snd f) < 2 ^ 31 \<and> case_option True (\<lambda>k. length k = 4) (fst f)"

lemma wire_simps [simp]: "wire [] = []" "wire (f # fs) = wire_frame f @ wire fs"
    "payloads [] = []" "payloads (f # fs) = snd f @ payloads fs"
  by (simp_all add: wire_def payloads_def)

lemma take_masked: "take n (masked m key p off) = masked m key (take n p) off"
proof -
  have "take n (Mask p key off) = Mask (take n p) key off" for n off
    by (induction p arbitrary: n off) (auto simp: take_Cons split: nat.splits)
  then show ?thesis by (simp add: masked_def)
qed

lemma drop_masked: "n \<le> length p \<Longrightarrow> drop n (masked m key p off) = masked m key (drop n p) (off + n)"
proof -
  assume "n \<le> length p"
  then have "Mask p key off = Mask (take n p) key off @ Mask (drop n p) key (off + n)"
    using Mask_append [of "take n p" "drop n p" key off] by simp
  then have "drop n (Mask p key off) = Mask (drop n p) key (off + n)"
    using \<open>n \<le> length p\<close> by simp
  then show ?thesis by (simp add: masked_def)
qed

lemma masked_masked [simp]: "masked m key (masked m key p off) off = p"
  by (simp add: masked_def Mask_Mask)

lemma length_masked [simp]: "length (masked m key p off) = length p"
  by (simp add: masked_def)

lemma Mask_eq_Nil [simp]: "Mask p key off = [] \<longleftrightarrow> p = []"
  by (cases p) simp_all

lemma masked_eq_Nil [simp]: "masked m key p off = [] \<longleftrightarrow> p = []"
  by (simp add: masked_def)

section \<open>Partial headers\<close>

definition hs_of :: "u8 \<Rightarrow> nat" where
  "hs_of b = 2 + (if b AND 0x7f = 126 then 2 else 0) + (if b AND 0x7f = 127 then 8 else 0) + (if b AND 0x80 = 0x80 then 4 else 0)"

lemma parse_hs: "WsParseHeader d = Inr (OK h) \<Longrightarrow> HeaderSize h = hs_of (d ! 1) \<and> 2 \<le> length d"
  by (auto simp: WsParseHeader_def Let_def hs_of_def split: if_splits)

lemma parse_short: "2 \<le> length d \<Longrightarrow> length d < hs_of (d ! 1) \<Longrightarrow> WsParseHeader d = Inr NOT_ENOUGH_DATA"
  by (auto simp: WsParseHeader_def Let_def hs_of_def split: if_splits)

lemma parse_wire_header:
  assumes "good_frame f"
  shows "WsParseHeader (wire_header f @ r) = Inr (OK (parsed_header 2 (fst f) (of_nat (length (snd f)))))"
  unfolding wire_header_def
  by (rule WsParseHeader_frame_header) (use assms in \<open>auto simp: good_frame_def valid_opcode_def\<close>)

lemma wire_header_length: "good_frame f \<Longrightarrow> 2 \<le> length (wire_header f) \<and> length (wire_header f) \<le> 14"
  unfolding wire_header_def good_frame_def using header_length by auto

lemma parse_partial_header:
  assumes "good_frame f" and "m < length (wire_header f)"
  shows "WsParseHeader (take m (wire_header f)) = Inr NOT_ENOUGH_DATA"
proof (cases "2 \<le> m")
  case True
  have "length (wire_header f) = hs_of (wire_header f ! 1)"
    using parse_hs [of "wire_header f"] parse_wire_header [OF assms(1), of "[]"]
    by (simp add: parsed_header_def wire_header_def)
  then show ?thesis
    using True assms(2) by (intro parse_short) simp_all
next
  case False
  then have "length (take m (wire_header f)) < 2" by simp
  then show ?thesis by (simp only: WsParseHeader_def if_True)
qed

section \<open>The reader between two bytes of a stream of frames\<close>

text \<open>
  \<open>reading s rest outs\<close>: the reader \<open>s\<close>, with its buffered bytes and the bytes \<open>rest\<close> still to come,
  is in the middle of a stream of good frames, of whose payload \<open>outs\<close> is still to be delivered. It
  stands either in a header, with the bytes before already copied, or in a payload.
\<close>

definition in_header :: "WebsocketRead \<Rightarrow> u8 list \<Rightarrow> ws_frame list \<Rightarrow> bool" where
  "in_header s rest fs \<longleftrightarrow> ws_payload_remaining s = 0
     \<and> ws_buffer s @ rest = drop (ws_partial_header_read s) (wire fs)
     \<and> (ws_partial_header_read s > 0 \<longrightarrow> fs \<noteq> [] \<and> ws_partial_header_read s < length (wire_header (hd fs))
          \<and> take (ws_partial_header_read s) (ws_header s) = take (ws_partial_header_read s) (wire_header (hd fs)))"

definition in_payload :: "WebsocketRead \<Rightarrow> u8 list \<Rightarrow> u8 list \<Rightarrow> ws_frame list \<Rightarrow> bool" where
  "in_payload s rest p fs \<longleftrightarrow> p \<noteq> [] \<and> length p < 2 ^ 31 \<and> ws_payload_remaining s = int (length p)
     \<and> ws_partial_header_read s = 0 \<and> ws_payload_read s \<ge> 0
     \<and> ws_buffer s @ rest = masked (ws_mask s) (ws_mask_key s) p (nat (ws_payload_read s)) @ wire fs"

definition reading :: "WebsocketRead \<Rightarrow> u8 list \<Rightarrow> u8 list \<Rightarrow> bool" where
  "reading s rest outs \<longleftrightarrow> \<not> ws_error s \<and> length (ws_header s) = 14 \<and> (\<exists>fs. (\<forall>f \<in> set fs. good_frame f)
     \<and> (in_header s rest fs \<and> outs = payloads fs \<or> (\<exists>p. in_payload s rest p fs \<and> outs = p @ payloads fs)))"

lemma append_eq_take:
  assumes "xs @ ys = zs @ ws" "n \<le> length xs" "n \<le> length zs"
  shows "take n xs = take n zs"
proof -
  have "take n xs = take n (xs @ ys)" using assms(2) by simp
  also have "\<dots> = take n zs" unfolding assms(1) using assms(3) by simp
  finally show ?thesis .
qed

lemma append_eq_drop:
  assumes "xs @ ys = zs @ ws" "n \<le> length xs" "n \<le> length zs"
  shows "drop n xs @ ys = drop n zs @ ws"
proof -
  have "drop n xs @ ys = drop n (xs @ ys)" using assms(2) by simp
  also have "\<dots> = drop n zs @ ws" unfolding assms(1) using assms(3) by simp
  finally show ?thesis .
qed

lemma NextBuffer_payload:
  assumes pay: "in_payload s rest p fs" and len: "length (ws_buffer s) < 2 ^ 31"
    and gs: "\<forall>f \<in> set fs. good_frame f" "\<not> ws_error s" "length (ws_header s) = 14"
  shows "\<exists>b s' outs'. NextBuffer s = Inr (b, s') \<and> p @ payloads fs = b @ outs' \<and> reading s' rest outs'
    \<and> (b = [] \<longrightarrow> ws_buffer s' = []) \<and> ws_partial_header_read s' = 0"
proof -
  define n where "n = min (length (ws_buffer s)) (length p)"
  let ?off = "nat (ws_payload_read s)"
  let ?s' = "s\<lparr>ws_buffer := drop n (ws_buffer s), ws_payload_read := ws_payload_read s + int n,
     ws_payload_remaining := ws_payload_remaining s - int n\<rparr>"
  note P = pay [unfolded in_payload_def]
  have "min (cast_i32 (int (length (ws_buffer s)))) (ws_payload_remaining s) = int n"
    using P len by (simp add: cast_i32_small n_def)
  then have nb: "NextBuffer s = Inr (masked (ws_mask s) (ws_mask_key s) (take n (ws_buffer s)) ?off, ?s')"
    by (simp add: NextBuffer_def Let_def masked_def)
  have "take n (ws_buffer s) = take n (masked (ws_mask s) (ws_mask_key s) p ?off)"
    using P by (intro append_eq_take [of _ rest _ "wire fs"]) (simp_all add: n_def)
  then have b: "masked (ws_mask s) (ws_mask_key s) (take n (ws_buffer s)) ?off = take n p"
    by (simp add: take_masked)
  have "drop n (ws_buffer s) @ rest = drop n (masked (ws_mask s) (ws_mask_key s) p ?off) @ wire fs"
    using P by (intro append_eq_drop) (simp_all add: n_def)
  then have rest: "drop n (ws_buffer s) @ rest = masked (ws_mask s) (ws_mask_key s) (drop n p) (?off + n) @ wire fs"
    by (simp add: drop_masked n_def)
  have "reading ?s' rest (drop n p @ payloads fs)"
  proof (cases "n = length p")
    case True
    then have "in_header ?s' rest fs" using P rest by (simp add: in_header_def)
    then show ?thesis using gs True by (auto simp: reading_def)
  next
    case False
    then have "n < length p" by (simp add: n_def)
    then have "in_payload ?s' rest (drop n p) fs"
      using P rest by (simp add: in_payload_def nat_add_distrib of_nat_diff less_imp_diff_less)
    then show ?thesis using gs by (auto simp: reading_def)
  qed
  moreover have "take n p = [] \<longrightarrow> drop n (ws_buffer s) = []"
    using P by (auto simp: n_def min_def split: if_splits)
  moreover have "p @ payloads fs = take n p @ drop n p @ payloads fs"
    by (metis append.assoc append_take_drop_id)
  ultimately show ?thesis
    using nb P unfolding b by (intro exI [of _ "take n p"] exI [of _ ?s'] exI [of _ "drop n p @ payloads fs"]) simp
qed


lemma begin_payload_reading:
  assumes f: "good_frame (k, p)" and gs: "\<forall>f \<in> set fs. good_frame f" "\<not> ws_error s" "length (ws_header s) = 14"
    and len: "length (ws_buffer s) < 2 ^ 31"
    and rest: "drop (length (wire_header (k, p)) - j) (ws_buffer s) @ rest
      = (case k of Some key \<Rightarrow> Mask p key 0 | None \<Rightarrow> p) @ wire fs"
  shows "\<exists>b s' outs'. begin_payload (parsed_header 2 k (of_nat (length p))) j s = Inr (b, s')
    \<and> p @ payloads fs = b @ outs' \<and> reading s' rest outs'
    \<and> (b = [] \<longrightarrow> ws_buffer s' = []) \<and> ws_partial_header_read s' = 0"
proof -
  define h where "h = parsed_header 2 k (of_nat (length p))"
  define s1 where "s1 = s\<lparr>ws_buffer := drop (length (wire_header (k, p)) - j) (ws_buffer s), ws_mask := HasMask h,
    ws_mask_key := MaskingKey h, ws_partial_header_read := 0, ws_payload_read := 0,
    ws_payload_remaining := cast_i32 (uint (PayloadLength h))\<rparr>"
  have p: "p \<noteq> []" "length p < 2 ^ 31" using f by (simp_all add: good_frame_def)
  have "uint (of_nat (length p) :: u64) = int (length p)"
    using p(2) by (simp add: unsigned_of_nat take_bit_nat_eq_self_iff)
  then have "cast_i32 (uint (PayloadLength h)) = int (length p)"
    using p(2) by (simp add: h_def parsed_header_def cast_i32_small)
  then have "in_payload s1 rest p fs"
    using p rest by (auto simp: in_payload_def s1_def masked_def h_def parsed_header_def split: option.splits)
  moreover have "begin_payload h j s = NextBuffer s1"
    by (simp add: begin_payload_def s1_def h_def parsed_header_def wire_header_def Let_def)
  ultimately show ?thesis
    using NextBuffer_payload [of s1 rest p fs] gs len by (simp add: h_def s1_def)
qed

text \<open>A header of which the last byte is in the buffer; \<open>j\<close> bytes of it were copied before.\<close>

lemma ws_Buffer_header_complete:
  fixes s :: WebsocketRead and k p
  defines "j \<equiv> ws_partial_header_read s" and "h \<equiv> wire_header (k, p)"
  assumes f: "good_frame (k, p)" and s: "ws_buffer s \<noteq> []" "ws_payload_remaining s = 0" "length (ws_header s) = 14"
    and j: "j < length h" "j > 0 \<Longrightarrow> take j (ws_header s) = take j h" "length h \<le> j + length (ws_buffer s)"
    and pre: "take (length h - j) (ws_buffer s) = drop j h"
  shows "\<exists>s1. ws_Buffer s = begin_payload (parsed_header 2 k (of_nat (length p))) j s1
    \<and> ws_buffer s1 = ws_buffer s \<and> ws_error s1 = ws_error s \<and> length (ws_header s1) = 14"
proof (cases "j > 0")
  case True
  have buf: "ws_buffer s = drop j h @ drop (length h - j) (ws_buffer s)" using pre by (metis append_take_drop_id)
  define n where "n = min (14 - j) (length (ws_buffer s))"
  define s1 where "s1 = s\<lparr>ws_header := take j (ws_header s) @ take n (ws_buffer s) @ drop (j + n) (ws_header s),
     ws_partial_header_read := j + n\<rparr>"
  have nl: "length h - j \<le> n" "n \<le> length (ws_buffer s)" "j + n \<le> 14"
    using wire_header_length [OF f] j by (auto simp: n_def h_def)
  have copy: "CopyPartialHeader s = Inr s1"
    using j(1) wire_header_length [OF f] nl by (simp add: CopyPartialHeader_def Let_def j_def [symmetric] s1_def n_def h_def)
  have "take n (ws_buffer s) = drop j h @ take (n - (length h - j)) (drop (length h - j) (ws_buffer s))"
    by (subst buf, subst take_append) (use nl j(1) in simp)
  then have "take (j + n) (ws_header s1) = h @ take (n - (length h - j)) (drop (length h - j) (ws_buffer s))"
    using j True nl s(3) by (simp add: s1_def)
  then have "WsParseHeader (take (ws_partial_header_read s1) (ws_header s1)) = Inr (OK (parsed_header 2 k (of_nat (length p))))"
    using parse_wire_header [OF f] by (simp add: s1_def h_def)
  then have "ws_Buffer s = begin_payload (parsed_header 2 k (of_nat (length p))) j s1"
    using s True copy by (simp add: ws_Buffer_def j_def on_status_def Let_def)
  then show ?thesis using s(3) nl by (intro exI [of _ s1]) (simp add: s1_def)
next
  case False
  then have "ws_buffer s = h @ drop (length h) (ws_buffer s)" using pre by (metis append_take_drop_id drop0 diff_zero not_gr_zero)
  then have "WsParseHeader (ws_buffer s) = Inr (OK (parsed_header 2 k (of_nat (length p))))"
    using parse_wire_header [OF f] by (metis fst_conv snd_conv h_def)
  then have "ws_Buffer s = begin_payload (parsed_header 2 k (of_nat (length p))) j s"
    using s False by (simp add: ws_Buffer_def j_def on_status_def Let_def)
  then show ?thesis using s(3) by blast
qed

text \<open>The start of a header and nothing more is copied.\<close>

lemma ws_Buffer_header_starts:
  assumes f: "good_frame f" and s: "ws_buffer s \<noteq> []" "ws_payload_remaining s = 0" "ws_partial_header_read s = 0"
    and b: "ws_buffer s = take n (wire_header f)" "n < length (wire_header f)"
  shows "ws_Buffer s = Inr ([], s\<lparr>ws_header := ws_buffer s @ drop n (ws_header s), ws_partial_header_read := n, ws_buffer := []\<rparr>)"
proof -
  have n: "length (ws_buffer s) = n" "n < 14" using b wire_header_length [OF f] by simp_all
  then have "CopyPartialHeader s = Inr (s\<lparr>ws_header := ws_buffer s @ drop n (ws_header s), ws_partial_header_read := n\<rparr>)"
    using s(3) by (simp add: CopyPartialHeader_def Let_def)
  moreover have "WsParseHeader (ws_buffer s) = Inr NOT_ENOUGH_DATA"
    unfolding b(1) by (rule parse_partial_header [OF f b(2)])
  ultimately show ?thesis using s n by (auto simp: ws_Buffer_def on_status_def Let_def CHECK_def)
qed

lemma ws_Buffer_in_header:
  assumes hd: "in_header s rest fs" and gs: "\<forall>f \<in> set fs. good_frame f" "\<not> ws_error s" "length (ws_header s) = 14"
    and ne: "ws_buffer s \<noteq> []" and len: "length (ws_buffer s) < 2 ^ 31"
    and whole: "ws_partial_header_read s = 0 \<or> 13 \<le> length (ws_buffer s) \<or> rest = []"
  shows "\<exists>b s' outs'. ws_Buffer s = Inr (b, s') \<and> payloads fs = b @ outs' \<and> reading s' rest outs'
    \<and> (b = [] \<longrightarrow> ws_buffer s' = []) \<and> (ws_buffer s' \<noteq> [] \<longrightarrow> ws_partial_header_read s' = 0)"
proof -
  let ?j = "ws_partial_header_read s"
  have hd: "ws_payload_remaining s = 0" "ws_buffer s @ rest = drop ?j (wire fs)"
    and hj: "?j > 0 \<Longrightarrow> ?j < length (wire_header (hd fs)) \<and> take ?j (ws_header s) = take ?j (wire_header (hd fs))"
    using hd by (auto simp: in_header_def)
  have "fs \<noteq> []" using hd(2) ne by auto
  then obtain k p gss where fs: "fs = (k, p) # gss" by (cases fs) auto
  have f: "good_frame (k, p)" and g: "\<forall>f \<in> set gss. good_frame f" using gs fs by auto
  let ?h = "wire_header (k, p)"
  let ?body = "(case k of Some key \<Rightarrow> Mask p key 0 | None \<Rightarrow> p) @ wire gss"
  have w: "wire fs = ?h @ ?body" by (cases k) (simp_all add: fs wire_frame_def)
  have jl: "?j < length ?h" using hj wire_header_length [OF f] fs by (cases "?j > 0") auto
  have all: "ws_buffer s @ rest = drop ?j ?h @ ?body" using hd(2) w jl by simp
  show ?thesis
  proof (cases "length ?h \<le> ?j + length (ws_buffer s)")
    case True
    then have "drop (length ?h - ?j) (ws_buffer s) @ rest = drop (length ?h - ?j) (drop ?j ?h) @ ?body"
      by (intro append_eq_drop [OF all]) auto
    then have body: "drop (length ?h - ?j) (ws_buffer s) @ rest = ?body" by simp
    have "take (length ?h - ?j) (ws_buffer s) = drop ?j ?h" using append_eq_take [OF all, of "length ?h - ?j"] True by simp
    with True obtain s1 where "ws_Buffer s = begin_payload (parsed_header 2 k (of_nat (length p))) ?j s1"
        "ws_buffer s1 = ws_buffer s" "ws_error s1 = ws_error s" "length (ws_header s1) = 14"
      using ws_Buffer_header_complete [OF f ne hd(1) gs(3) jl] hj fs by auto
    then show ?thesis using begin_payload_reading [OF f g, of s1 ?j rest] gs(2) len body fs by simp metis
  next
    case False
    then have "?j = 0"
      using whole all wire_header_length [OF f] by (elim disjE) (auto simp: append_eq_conv_conj dest: arg_cong [where f = length])
    define n where "n = length (ws_buffer s)"
    have n: "n < length ?h" "n < 14" using False \<open>?j = 0\<close> wire_header_length [OF f] by (auto simp: n_def)
    have b: "ws_buffer s = take n ?h" using append_eq_take [OF all, of n] n \<open>?j = 0\<close> by (simp add: n_def)
    define s2 where "s2 = s\<lparr>ws_header := ws_buffer s @ drop n (ws_header s), ws_partial_header_read := n, ws_buffer := []\<rparr>"
    have "rest = drop n (wire fs)" using hd(2) \<open>?j = 0\<close> by (simp add: n_def append_eq_conv_conj)
    then have "in_header s2 rest fs" using hd(1) n b by (simp add: in_header_def s2_def fs)
    then have "reading s2 rest (payloads fs)" using gs n by (auto simp: reading_def s2_def n_def [symmetric])
    moreover have "ws_Buffer s = Inr ([], s2)" using ws_Buffer_header_starts [OF f ne hd(1) \<open>?j = 0\<close> b n(1)] by (simp add: s2_def)
    ultimately show ?thesis by (intro exI [of _ "[]"] exI [of _ s2] exI [of _ "payloads fs"]) (simp add: s2_def)
  qed
qed

lemma ws_Buffer_reading:
  assumes r: "reading s rest outs" and ne: "ws_buffer s \<noteq> []" and len: "length (ws_buffer s) < 2 ^ 31"
    and whole: "ws_partial_header_read s = 0 \<or> 13 \<le> length (ws_buffer s) \<or> rest = []"
  shows "\<exists>b s' outs'. ws_Buffer s = Inr (b, s') \<and> outs = b @ outs' \<and> reading s' rest outs'
    \<and> (b = [] \<longrightarrow> ws_buffer s' = []) \<and> (ws_buffer s' \<noteq> [] \<longrightarrow> ws_partial_header_read s' = 0)"
proof -
  obtain fs where gs: "\<forall>f \<in> set fs. good_frame f" "\<not> ws_error s" "length (ws_header s) = 14"
    and st: "in_header s rest fs \<and> outs = payloads fs \<or> (\<exists>p. in_payload s rest p fs \<and> outs = p @ payloads fs)"
    using r by (auto simp: reading_def)
  from st show ?thesis
  proof
    assume "in_header s rest fs \<and> outs = payloads fs"
    then show ?thesis using ws_Buffer_in_header [OF _ gs ne len whole] by blast
  next
    assume "\<exists>p. in_payload s rest p fs \<and> outs = p @ payloads fs"
    then obtain p where p: "in_payload s rest p fs" "outs = p @ payloads fs" by blast
    then have "ws_Buffer s = NextBuffer s" using ne by (simp add: ws_Buffer_def in_payload_def)
    then show ?thesis using NextBuffer_payload [OF p(1) len gs] p(2) by metis
  qed
qed

text \<open>A chunk that ends the stream, or that has at least 13 bytes, leaves no header in three pieces.\<close>

lemma drain_reading:
  "reading s rest outs \<Longrightarrow> length (ws_buffer s) < 2 ^ 31
   \<Longrightarrow> ws_partial_header_read s = 0 \<or> 13 \<le> length (ws_buffer s) \<or> rest = [] \<or> ws_buffer s = []
   \<Longrightarrow> \<exists>b s' outs'. drain s = Inr (b, s') \<and> outs = b @ outs' \<and> reading s' rest outs' \<and> ws_buffer s' = []"
proof (induction s arbitrary: outs rule: drain.induct)
  case (1 s)
  show ?case
  proof (cases "ws_buffer s = []")
    case True
    then show ?thesis
      using 1(2) by (auto simp: drain.simps [of s] ws_Buffer_def reading_def)
  next
    case False
    then obtain b s' outs' where B: "ws_Buffer s = Inr (b, s')" "outs = b @ outs'" "reading s' rest outs'"
        "b = [] \<longrightarrow> ws_buffer s' = []" "ws_buffer s' \<noteq> [] \<longrightarrow> ws_partial_header_read s' = 0"
      using ws_Buffer_reading [OF 1(2) False 1(3)] 1(4) by auto
    have noerr: "\<not> ws_error s'" using B(3) by (simp add: reading_def)
    show ?thesis
    proof (cases "b = []")
      case True
      then show ?thesis using B noerr by (auto simp: drain.simps [of s])
    next
      case False
      have "length (ws_buffer s') < 2 ^ 31" using ws_Buffer_length [OF B(1)] 1(3) by linarith
      then obtain b2 s2 outs2 where "drain s' = Inr (b2, s2)" "outs' = b2 @ outs2" "reading s2 rest outs2" "ws_buffer s2 = []"
        using 1(1) [OF B(1) refl noerr _ B(3)] False B(5) by auto
      then show ?thesis using B noerr False by (auto simp: drain.simps [of s])
    qed
  qed
qed

lemma recv_chunk_reading:
  assumes "reading s (d @ rest) outs" "ws_buffer s = []" "length d < 2 ^ 31" "13 \<le> length d \<or> rest = []"
  shows "\<exists>b s' outs'. recv_chunk d s = Inr (b, s') \<and> outs = b @ outs' \<and> reading s' rest outs' \<and> ws_buffer s' = []"
proof -
  have "reading (s\<lparr>ws_buffer := d\<rparr>) rest outs"
    using assms(1,2) by (auto simp: reading_def in_header_def in_payload_def)
  then show ?thesis
    using drain_reading [of "s\<lparr>ws_buffer := d\<rparr>" rest outs] assms by (auto simp: recv_chunk_def ws_Next_def CHECK_def)
qed

lemma recv_chunks_reading:
  "reading s (concat ds) outs \<Longrightarrow> ws_buffer s = [] \<Longrightarrow> \<forall>d \<in> set ds. length d < 2 ^ 31
   \<Longrightarrow> \<forall>d \<in> set (butlast ds). 13 \<le> length d
   \<Longrightarrow> \<exists>b s' outs'. recv_chunks ds s = Inr (b, s') \<and> outs = b @ outs' \<and> reading s' [] outs' \<and> ws_buffer s' = []"
proof (induction ds arbitrary: s outs)
  case (Cons d ds)
  have "13 \<le> length d \<or> concat ds = []" using Cons.prems(4) by (cases ds) auto
  then obtain b s1 outs1 where 1: "recv_chunk d s = Inr (b, s1)" "outs = b @ outs1" "reading s1 (concat ds) outs1" "ws_buffer s1 = []"
    using recv_chunk_reading [of s d "concat ds" outs] Cons.prems by auto
  moreover have "\<forall>d \<in> set (butlast ds). 13 \<le> length d" using Cons.prems(4) by (auto split: if_splits)
  ultimately obtain b2 s2 outs2 where "recv_chunks ds s1 = Inr (b2, s2)" "outs1 = b2 @ outs2" "reading s2 [] outs2" "ws_buffer s2 = []"
    using Cons.IH [of s1 outs1] Cons.prems(3) by auto
  then show ?case using 1 by auto
qed auto

lemma reading_end: "reading s [] outs \<Longrightarrow> ws_buffer s = [] \<Longrightarrow> outs = []"
proof -
  assume r: "reading s [] outs" and b: "ws_buffer s = []"
  then obtain fs where gs: "\<forall>f \<in> set fs. good_frame f"
    and st: "in_header s [] fs \<and> outs = payloads fs \<or> (\<exists>p. in_payload s [] p fs \<and> outs = p @ payloads fs)"
    by (auto simp: reading_def)
  from st show "outs = []"
  proof
    assume h: "in_header s [] fs \<and> outs = payloads fs"
    have "fs = []"
    proof (rule ccontr)
      assume "fs \<noteq> []"
      then obtain f gss where fs: "fs = f # gss" by (cases fs) auto
      then have "length (wire_header f) < length (wire fs)"
        using gs by (auto simp: wire_frame_def good_frame_def split: option.splits)
      then have "ws_partial_header_read s < length (wire fs)" using h fs by (auto simp: in_header_def)
      then show False using h b by (simp add: in_header_def)
    qed
    then show ?thesis using h by simp
  next
    assume "\<exists>p. in_payload s [] p fs \<and> outs = p @ payloads fs"
    then show ?thesis
      using b by (auto simp: in_payload_def)
  qed
qed

lemma new_reader_reading: "\<forall>f \<in> set fs. good_frame f \<Longrightarrow> reading new_reader (wire fs) (payloads fs)"
  by (auto simp: reading_def new_reader_def in_header_def)

section \<open>Properties\<close>

text \<open>
  The reader delivers exactly the payloads. For any sequence of non-empty binary frames, masked or
  not, and any way the network cuts their bytes into chunks, as long as no chunk but the last is
  shorter than 13 bytes (so that no header comes in three pieces), no check fails, no error is
  reported, and the bytes copied out are the concatenation of the unmasked payloads.
\<close>

theorem ws_read_delivers_payloads:
  assumes "\<forall>f \<in> set fs. good_frame f" and "concat ds = wire fs"
    and "\<forall>d \<in> set ds. length d < 2 ^ 31" and "\<forall>d \<in> set (butlast ds). 13 \<le> length d"
  shows "\<exists>s. recv_chunks ds new_reader = Inr (payloads fs, s) \<and> \<not> ws_error s \<and> ws_buffer s = []"
proof -
  have "reading new_reader (concat ds) (payloads fs)"
    using new_reader_reading [OF assms(1)] assms(2) by simp
  moreover have "ws_buffer new_reader = []" by (simp add: new_reader_def)
  ultimately obtain b s outs where "recv_chunks ds new_reader = Inr (b, s)" "payloads fs = b @ outs"
      "reading s [] outs" "ws_buffer s = []"
    using recv_chunks_reading [OF _ _ assms(3,4)] by blast
  then show ?thesis using reading_end by (auto simp: reading_def)
qed


theorem ws_read_delivers_payloads_witness:
  "\<exists>s. recv_chunks [take 13 (wire [(Some [1, 2, 3, 4], replicate 20 7), (None, [5])]),
        drop 13 (wire [(Some [1, 2, 3, 4], replicate 20 7), (None, [5])])] new_reader
      = Inr (replicate 20 7 @ [5], s)"
  using ws_read_delivers_payloads [of "[(Some [1, 2, 3, 4], replicate 20 7), (None, [5])]"
      "[take 13 (wire [(Some [1, 2, 3, 4], replicate 20 7), (None, [5])]),
        drop 13 (wire [(Some [1, 2, 3, 4], replicate 20 7), (None, [5])])]"]
  by (auto simp: good_frame_def wire_frame_def wire_header_def frame_header_def)

text \<open>
  A frame with an empty payload (such as an empty ping) stops the reader: \<^verbatim>\<open>Buffer\<close> returns an
  empty span although input is left, so the frame behind it in the chunk is not delivered, and the
  next chunk fails the check of \<^verbatim>\<open>Next\<close> and ends the process.
\<close>

theorem ws_read_empty_frame:
  "case recv_chunk (frame_header 9 None 0 @ wire [(None, [1, 2, 3])]) new_reader of
     Inr (out, s) \<Rightarrow> out = [] \<and> ws_buffer s = wire [(None, [1, 2, 3])] \<and> recv_chunk d s = Inl Check_failed
   | Inl _ \<Rightarrow> False"
proof -
  have "case recv_chunk (frame_header 9 None 0 @ wire [(None, [1, 2, 3])]) new_reader of
     Inr (out, s) \<Rightarrow> out = [] \<and> ws_buffer s = wire [(None, [1, 2, 3])] | Inl _ \<Rightarrow> False"
    by code_simp
  moreover have "wire [(None, [1, 2, 3])] \<noteq> []" by (simp add: wire_frame_def)
  ultimately show ?thesis
    by (auto simp: recv_chunk_def [of d] ws_Next_def CHECK_def split: sum.splits)
qed

text \<open>
  A header that arrives in three pieces can end the process: the second piece is counted twice
  in the check of the missing data case, so a 14 byte header received as 2, 6 and 6 bytes fails it,
  although it is valid.
\<close>

theorem ws_read_three_pieces:
  "let h = frame_header 2 (Some [1, 2, 3, 4]) 65536 in
   length h = 14 \<and> WsParseHeader h = Inr (OK (parsed_header 2 (Some [1, 2, 3, 4]) 65536))
   \<and> recv_chunks [take 2 h, take 6 (drop 2 h), drop 8 h] new_reader = Inl Check_failed"
proof -
  have p: "WsParseHeader (frame_header 2 (Some [1, 2, 3, 4]) 65536 @ [])
      = Inr (OK (parsed_header 2 (Some [1, 2, 3, 4]) 65536))"
    by (rule WsParseHeader_frame_header) (simp_all add: valid_opcode_def)
  have "recv_chunks [take 2 h, take 6 (drop 2 h), drop 8 h] new_reader = Inl Check_failed"
    if "h = frame_header 2 (Some [1, 2, 3, 4]) 65536" for h
    unfolding that by code_simp
  with p show ?thesis by (simp add: Let_def frame_header_def)
qed

text \<open>
  The 64 bit payload length is stored in an \<^verbatim>\<open>int\<close>: a frame of \<open>2 ^ 32\<close> bytes is read as an empty
  one, and for one of \<open>2 ^ 31\<close> bytes the reader forms a span of negative length.
\<close>

theorem ws_read_length_truncated:
  "(case recv_chunk (frame_header 2 None 0x100000000 @ [1]) new_reader of
      Inr (out, s) \<Rightarrow> out = [] \<and> ws_payload_remaining s = 0 \<and> ws_buffer s = [1] | Inl _ \<Rightarrow> False)
   \<and> recv_chunk (frame_header 2 None 0x80000000 @ [1]) new_reader = Inl Undefined_behaviour"
  by (rule conjI; code_simp)

end
