(* ===== verification/FTL_URI.thy ===== *)
theory FTL_URI
  imports FTL_Prelude "HOL-Library.List_Lexorder" "HOL-Library.Char_ord"
begin

text \<open>
  URIs (\<^verbatim>\<open>uri.cpp\<close>, \<^verbatim>\<open>uri.hpp\<close>). Parsing proper is done by liburiparser, which is a parameter: its
  result is a record of text ranges in the string it was given (a range is \<^const>\<open>None\<close> when the
  library leaves null pointers) and the list of path segments; splitting a query into items is
  another parameter, an item without \<^verbatim>\<open>=\<close> having no value. The environment (current directory, home
  directory) is a parameter too. Everything the class does with these results is modelled, for the
  Linux build. The query map, a \<^verbatim>\<open>std::map\<close>, is the list of its entries in key order.
\<close>

section \<open>Schemes and decimal numbers\<close>

datatype scheme_t = SCHEME_NONE | SCHEME_TCP | SCHEME_UDP | SCHEME_FTL | SCHEME_FTL_QUIC | SCHEME_PROXY
  | SCHEME_HTTP | SCHEME_WS | SCHEME_WSS | SCHEME_IPC | SCHEME_FILE | SCHEME_OTHER | SCHEME_DEVICE | SCHEME_GROUP
  | SCHEME_CAST | SCHEME_MUX | SCHEME_MIRROR | SCHEME_BEYOND

definition schemeMap :: "(string \<times> scheme_t) list" where
  "schemeMap = [(''tcp'', SCHEME_TCP), (''udp'', SCHEME_UDP), (''ws'', SCHEME_WS), (''wss'', SCHEME_WSS),
     (''ftl'', SCHEME_FTL), (''quic'', SCHEME_FTL_QUIC), (''proxy'', SCHEME_PROXY), (''http'', SCHEME_HTTP),
     (''ipc'', SCHEME_IPC), (''device'', SCHEME_DEVICE), (''file'', SCHEME_FILE), (''group'', SCHEME_GROUP),
     (''beyond'', SCHEME_BEYOND), (''mux'', SCHEME_MUX), (''mirror'', SCHEME_MIRROR), (''cast'', SCHEME_CAST)]"

text \<open>\<^verbatim>\<open>std::stoi\<close>: optional white space and sign, then the longest run of digits.\<close>

definition is_digit :: "char \<Rightarrow> bool" where
  "is_digit c \<longleftrightarrow> 48 \<le> (of_char c :: int) \<and> (of_char c :: int) \<le> 57"

definition is_space :: "char \<Rightarrow> bool" where
  "is_space c \<longleftrightarrow> (of_char c :: int) = 32 \<or> 9 \<le> (of_char c :: int) \<and> (of_char c :: int) \<le> 13"

definition digits_value :: "string \<Rightarrow> int" where
  "digits_value ds = foldl (\<lambda>n c. n * 10 + (of_char c - 48)) 0 ds"

definition stoi :: "string \<Rightarrow> int res" where
  "stoi s =
     (let t = dropWhile is_space s;
          neg = (t \<noteq> [] \<and> hd t = CHR ''-'');
          u = (if t \<noteq> [] \<and> (hd t = CHR ''-'' \<or> hd t = CHR ''+'') then tl t else t);
          ds = takeWhile is_digit u;
          v = (if neg then - digits_value ds else digits_value ds) in
      if ds = [] then Inl (Std_exception ''invalid_argument'')
      else if v < - (2 ^ 31) \<or> v \<ge> 2 ^ 31 then Inl (Std_exception ''out_of_range'')
      else Inr v)"

section \<open>State\<close>

record URI =
  m_valid :: bool
  m_host :: string
  m_path :: string
  m_frag :: string
  m_base :: string
  m_userinfo :: string
  m_pathseg :: "string list"
  m_port :: int
  m_proto :: scheme_t
  m_protostr :: string
  m_qmap :: "(string \<times> string) list"

definition empty_URI :: URI where
  "empty_URI = \<lparr>m_valid = False, m_host = [], m_path = [], m_frag = [], m_base = [], m_userinfo = [], m_pathseg = [],
     m_port = 0, m_proto = SCHEME_NONE, m_protostr = [], m_qmap = []\<rparr>"

text \<open>The copy constructor.\<close>

definition uri_copy :: "URI \<Rightarrow> URI" where
  "uri_copy c = empty_URI\<lparr>m_valid := m_valid c, m_host := m_host c, m_port := m_port c, m_proto := m_proto c,
     m_path := m_path c, m_pathseg := m_pathseg c, m_qmap := m_qmap c, m_base := m_base c,
     m_userinfo := m_userinfo c, m_frag := m_frag c\<rparr>"

text \<open>\<^verbatim>\<open>m_qmap[key] = value\<close>\<close>

fun qmap_set :: "string \<Rightarrow> string \<Rightarrow> (string \<times> string) list \<Rightarrow> (string \<times> string) list" where
  "qmap_set k v [] = [(k, v)]"
| "qmap_set k v ((k', v') # m) =
     (if k = k' then (k, v) # m else if k < k' then (k, v) # (k', v') # m else (k', v') # qmap_set k v m)"

section \<open>Parsing\<close>

record parsed_uri =
  pu_scheme :: "(nat \<times> nat) option"
  pu_userInfo :: "(nat \<times> nat) option"
  pu_hostText :: "(nat \<times> nat) option"
  pu_portText :: "(nat \<times> nat) option"
  pu_path :: "string list"
  pu_query :: "(nat \<times> nat) option"
  pu_fragment :: "(nat \<times> nat) option"

record uri_env =
  env_cwd :: "string option"
  env_home :: "string option"
  env_parse :: "string \<Rightarrow> parsed_uri option"
  env_dissect :: "string \<Rightarrow> ((string \<times> string option) list) option"

definition range_text :: "string \<Rightarrow> (nat \<times> nat) option \<Rightarrow> string" where
  "range_text s r = (case r of None \<Rightarrow> [] | Some (a, b) \<Rightarrow> take (b - a) (drop a s))"

text \<open>\<^verbatim>\<open>std::string(start, n)\<close> for a pointer into \<open>s\<close> and a length that must not be negative.\<close>

definition sub_text :: "string \<Rightarrow> nat option \<Rightarrow> int \<Rightarrow> string res" where
  "sub_text s start n =
     (case start of None \<Rightarrow> Inl Undefined_behaviour
      | Some a \<Rightarrow> if n < 0 then Inl Undefined_behaviour else Inr (take (nat n) (drop a s)))"

definition expand_file :: "uri_env \<Rightarrow> string \<Rightarrow> string" where
  "expand_file env s =
     (if s \<noteq> [] \<and> hd s = CHR ''.'' then
        (case env_cwd env of Some d \<Rightarrow> ''file://'' @ d @ tl s | None \<Rightarrow> s)
      else if s \<noteq> [] \<and> hd s = CHR ''/'' then ''file://'' @ s
      else if s \<noteq> [] \<and> hd s = CHR ''~'' then
        ''file://'' @ (case env_home env of Some d \<Rightarrow> d | None \<Rightarrow> []) @ tl s
      else s)"

definition scheme_of :: "string \<Rightarrow> scheme_t" where
  "scheme_of t = (if t = [] then SCHEME_FILE else case map_of schemeMap t of Some p \<Rightarrow> p | None \<Rightarrow> SCHEME_OTHER)"

definition parse_port :: "string \<Rightarrow> int res" where
  "parse_port t =
     (case (if t \<noteq> [] then stoi t else Inr 0) of
        Inr p \<Rightarrow> if p < 0 \<or> p \<ge> 65535 then Inl (FTL_Error ''Port out of range'') else Inr p
      | Inl e \<Rightarrow> if e = Std_exception ''invalid_argument'' then Inr 0 else Inl e)"

text \<open>The query items go into the map; a null value is assigned to a \<^verbatim>\<open>std::string\<close>.\<close>

fun query_items :: "(string \<times> string option) list \<Rightarrow> (string \<times> string) list \<Rightarrow> ((string \<times> string) list) res" where
  "query_items [] m = Inr m"
| "query_items ((k, Some v) # is) m = query_items is (qmap_set k v m)"
| "query_items ((k, None) # is) m = Inl Undefined_behaviour"

definition parse_query :: "uri_env \<Rightarrow> string \<Rightarrow> (nat \<times> nat) option \<Rightarrow> ((string \<times> string) list) res" where
  "parse_query env s q =
     (case q of
        None \<Rightarrow> Inr []
      | Some (a, b) \<Rightarrow>
         if b > a then
           (case env_dissect env (take (b - a) (drop a s)) of
              None \<Rightarrow> Inl Undefined_behaviour
            | Some items \<Rightarrow> query_items items [])
         else Inr [])"

definition parse_fragment :: "string \<Rightarrow> parsed_uri \<Rightarrow> string" where
  "parse_fragment s pu =
     (case pu_fragment pu of
        None \<Rightarrow> []
      | Some (fa, fb) \<Rightarrow>
         (let fraglast = (case pu_query pu of Some (qa, _) \<Rightarrow> qa | None \<Rightarrow> fb) in
          if int fraglast - int fa > 0 then take (fraglast - fa) (drop fa s) else []))"

definition parse_base :: "string \<Rightarrow> parsed_uri \<Rightarrow> string \<Rightarrow> bool \<Rightarrow> string res" where
  "parse_base s pu userinfo hasquery =
     (let start0 = map_option fst (pu_scheme pu) in
      res_bind
        (if userinfo \<noteq> [] then
           (case (start0, pu_userInfo pu) of
              (Some a, Some (ua, ub)) \<Rightarrow> res_bind (sub_text s (Some a) (int ua - int a)) (\<lambda>t. Inr (t, Some (ub + 1)))
            | _ \<Rightarrow> Inl Undefined_behaviour)
         else Inr ([], start0))
        (\<lambda>(base, start).
           if hasquery then
             (case (start, pu_query pu) of
                (Some a, Some (qa, _)) \<Rightarrow> res_bind (sub_text s (Some a) (int qa - int a - 1)) (\<lambda>t. Inr (base @ t))
              | _ \<Rightarrow> Inl Undefined_behaviour)
           else (case pu_fragment pu of
                Some (fa, _) \<Rightarrow>
                  (case start of
                     Some a \<Rightarrow> res_bind (sub_text s (Some a) (int fa - int a - 1)) (\<lambda>t. Inr (base @ t))
                   | None \<Rightarrow> Inl Undefined_behaviour)
              | None \<Rightarrow>
                  (case start of Some a \<Rightarrow> Inr (base @ drop a s) | None \<Rightarrow> Inr base))))"

definition uri_parse :: "uri_env \<Rightarrow> string \<Rightarrow> URI res" where
  "uri_parse env puri =
     (let s = expand_file env puri in
      case env_parse env s of
        None \<Rightarrow> Inr (empty_URI\<lparr>m_valid := False, m_host := ''none'', m_port := -1, m_proto := SCHEME_NONE, m_base := s\<rparr>)
      | Some pu \<Rightarrow>
         (let host = range_text s (pu_hostText pu);
              prototext = range_text s (pu_scheme pu);
              proto = scheme_of prototext in
          res_bind (parse_port (range_text s (pu_portText pu))) (\<lambda>port.
          let userinfo = range_text s (pu_userInfo pu);
              path = concat (map (\<lambda>p. ''/'' @ p) (pu_path pu)) in
          res_bind (parse_query env s (pu_query pu)) (\<lambda>qmap.
          let valid = (proto \<noteq> SCHEME_NONE \<and> (host \<noteq> [] \<or> path \<noteq> [])) in
          res_bind (if valid then parse_base s pu userinfo (qmap \<noteq> []) else Inr []) (\<lambda>base.
          Inr \<lparr>m_valid = valid, m_host = host, m_path = path, m_frag = parse_fragment s pu, m_base = base,
            m_userinfo = userinfo, m_pathseg = pu_path pu, m_port = port, m_proto = proto,
            m_protostr = prototext, m_qmap = qmap\<rparr>)))))"

section \<open>Accessors\<close>

fun query_text :: "string \<Rightarrow> (string \<times> string) list \<Rightarrow> string" where
  "query_text q [] = q"
| "query_text q ((k, v) # m) = query_text ((if q \<noteq> [] then q @ ''&'' else q) @ k @ ''='' @ v) m"

definition getQuery :: "URI \<Rightarrow> string" where
  "getQuery u = query_text [] (m_qmap u)"

definition uri_to_string :: "URI \<Rightarrow> string" where
  "uri_to_string u = (if m_qmap u \<noteq> [] then m_base u @ ''?'' @ getQuery u else m_base u)"

definition toFilePath :: "URI \<Rightarrow> string res" where
  "toFilePath u = (if m_proto u \<noteq> SCHEME_FILE \<and> m_proto u \<noteq> SCHEME_NONE then Inl (FTL_Error ''Not a file URI'')
     else Inr (m_path u))"

text \<open>\<^verbatim>\<open>size() + n\<close> with an \<^verbatim>\<open>int\<close> \<open>n\<close> is computed in \<^verbatim>\<open>size_t\<close>.\<close>

definition size_plus :: "nat \<Rightarrow> int \<Rightarrow> nat" where
  "size_plus sz n = nat ((int sz + n) mod 2 ^ 64)"

definition getPathSegment :: "URI \<Rightarrow> int \<Rightarrow> string" where
  "getPathSegment u n =
     (let k = (if n < 0 then size_plus (length (m_pathseg u)) n else nat n) in
      if k \<ge> length (m_pathseg u) then [] else m_pathseg u ! k)"

definition authority :: "URI \<Rightarrow> string" where
  "authority u = m_protostr u @ ''://'' @ m_host u @ (if m_port u \<noteq> 0 then '':'' @ int_to_string (m_port u) else [])"

fun segments_loop :: "URI \<Rightarrow> nat \<Rightarrow> string" where
  "segments_loop u 0 = authority u"
| "segments_loop u (Suc i) = segments_loop u i @ ''/'' @ getPathSegment u (cast_i32 (int i))"

definition getBaseURI :: "URI \<Rightarrow> int \<Rightarrow> string" where
  "getBaseURI u n =
     (if n \<ge> int (length (m_pathseg u)) then m_base u
      else if n \<ge> 0 then segments_loop u (nat n)
      else segments_loop u (size_plus (length (m_pathseg u)) n))"

definition getBaseURIWithUser :: "URI \<Rightarrow> string" where
  "getBaseURIWithUser u = m_protostr u @ ''://'' @ (if m_userinfo u \<noteq> [] then m_userinfo u @ ''@'' else []) @ m_host u
     @ (if m_port u > 0 then '':'' @ int_to_string (m_port u) else []) @ m_path u"

definition setAttribute :: "string \<Rightarrow> string \<Rightarrow> URI \<Rightarrow> URI" where
  "setAttribute k v u = u\<lparr>m_qmap := qmap_set k v (m_qmap u)\<rparr>"

definition setAttribute_int :: "string \<Rightarrow> int \<Rightarrow> URI \<Rightarrow> URI" where
  "setAttribute_int k v u = u\<lparr>m_qmap := qmap_set k (int_to_string v) (m_qmap u)\<rparr>"

definition hasAttribute :: "string \<Rightarrow> URI \<Rightarrow> bool" where
  "hasAttribute k u \<longleftrightarrow> map_of (m_qmap u) k \<noteq> None"

definition getAttribute_int :: "string \<Rightarrow> URI \<Rightarrow> int res" where
  "getAttribute_int k u = (case map_of (m_qmap u) k of Some v \<Rightarrow> stoi v | None \<Rightarrow> Inr 0)"

definition getAttribute_string :: "string \<Rightarrow> URI \<Rightarrow> string" where
  "getAttribute_string k u = (case map_of (m_qmap u) k of Some v \<Rightarrow> v | None \<Rightarrow> [])"

definition hasUserInfo :: "URI \<Rightarrow> bool" where
  "hasUserInfo u \<longleftrightarrow> m_userinfo u \<noteq> []"

section \<open>Decimal round trip\<close>

lemma of_char_digit: "d < 10 \<Longrightarrow> (of_char (digit_char d) :: int) = 48 + int d"
proof -
  assume "d < 10"
  then have "(of_char (digit_char d) :: nat) = 48 + d" by (simp add: digit_char_def)
  then have "int (of_char (digit_char d)) = 48 + int d" by simp
  then show ?thesis by (simp only: of_nat_of_char)
qed

lemma digits_value_snoc: "digits_value (ds @ [c]) = digits_value ds * 10 + (of_char c - 48)"
  by (simp add: digits_value_def)

lemma nat_to_string_digits:
  "nat_to_string n \<noteq> [] \<and> list_all is_digit (nat_to_string n) \<and> digits_value (nat_to_string n) = int n"
proof (induction n rule: nat_to_string.induct)
  case (1 n)
  show ?case
  proof (cases "n < 10")
    case True
    then show ?thesis
      by (simp add: nat_to_string.simps [of n] is_digit_def digits_value_def of_char_digit)
  next
    case False
    have m: "n mod 10 < 10" by simp
    have "n = n div 10 * 10 + n mod 10" by simp
    then have "int n = int (n div 10) * 10 + int (n mod 10)" by linarith
    then show ?thesis
      using False 1 of_char_digit [OF m]
      by (simp add: nat_to_string.simps [of n] is_digit_def digits_value_snoc)
  qed
qed

lemma digit_not_space: "is_digit c \<Longrightarrow> \<not> is_space c \<and> c \<noteq> CHR ''-'' \<and> c \<noteq> CHR ''+''"
  by (auto simp: is_digit_def is_space_def)

lemma stoi_digits:
  assumes "ds \<noteq> []" "list_all is_digit ds"
  shows "- (2 ^ 31) \<le> digits_value ds \<Longrightarrow> digits_value ds < 2 ^ 31 \<Longrightarrow> stoi ds = Inr (digits_value ds)"
    and "- (2 ^ 31) \<le> - digits_value ds \<Longrightarrow> - digits_value ds < 2 ^ 31 \<Longrightarrow> stoi (CHR ''-'' # ds) = Inr (- digits_value ds)"
proof -
  obtain c cs where ds: "ds = c # cs" using assms(1) by (cases ds) auto
  have c: "\<not> is_space c" "c \<noteq> CHR ''-''" "c \<noteq> CHR ''+''"
    using assms(2) ds digit_not_space by auto
  have t: "takeWhile is_digit ds = ds" using assms(2) by (simp add: list_all_iff)
  have m: "\<not> is_space (CHR ''-'')" by (simp add: is_space_def)
  have w: "dropWhile is_space ds = ds" "hd ds \<noteq> CHR ''-''" "hd ds \<noteq> CHR ''+''" using c ds by simp_all
  show "stoi ds = Inr (digits_value ds)" if "- (2 ^ 31) \<le> digits_value ds" "digits_value ds < 2 ^ 31"
    unfolding stoi_def Let_def w(1) using that w(2,3) assms(1) by (simp add: t)
  show "stoi (CHR ''-'' # ds) = Inr (- digits_value ds)" if "- (2 ^ 31) \<le> - digits_value ds" "- digits_value ds < 2 ^ 31"
    using that assms(1) m by (simp add: t stoi_def Let_def)
qed

lemma stoi_int_to_string: "- (2 ^ 31) \<le> i \<Longrightarrow> i < 2 ^ 31 \<Longrightarrow> stoi (int_to_string i) = Inr i"
  using nat_to_string_digits [of "nat (- i)"] nat_to_string_digits [of "nat i"] stoi_digits
  by (auto simp: int_to_string_def)

section \<open>The query map\<close>

lemma map_of_qmap_set: "map_of (qmap_set k v m) = (map_of m)(k \<mapsto> v)"
  by (induction k v m rule: qmap_set.induct) auto

lemma keys_qmap_set: "set (map fst (qmap_set k v m)) = insert k (set (map fst m))"
  by (induction k v m rule: qmap_set.induct) auto

lemma sorted_qmap_set: "sorted_wrt (<) (map fst m) \<Longrightarrow> sorted_wrt (<) (map fst (qmap_set k v m))"
proof (induction k v m rule: qmap_set.induct)
  case (2 k v k' v' m)
  show ?case
  proof (cases "k = k' \<or> k < k'")
    case True
    then show ?thesis using 2(2) by auto
  next
    case False
    then have "sorted_wrt (<) (map fst (qmap_set k v m))" "k' < k" using 2 by auto
    moreover have "\<forall>x \<in> set (map fst (qmap_set k v m)). k' < x"
      unfolding keys_qmap_set using 2(2) \<open>k' < k\<close> by auto
    ultimately show ?thesis using False by simp
  qed
qed simp

section \<open>Path prefixes\<close>

lemma size_plus_small: "- int sz \<le> n \<Longrightarrow> n < 0 \<Longrightarrow> sz < 2 ^ 63 \<Longrightarrow> size_plus sz n = nat (int sz + n)"
  by (simp add: size_plus_def)

lemma segments_loop_eq:
  assumes "k \<le> length (m_pathseg u)" "length (m_pathseg u) < 2 ^ 31"
  shows "segments_loop u k = authority u @ concat (map (\<lambda>p. ''/'' @ p) (take k (m_pathseg u)))"
  using assms(1)
proof (induction k)
  case (Suc k)
  have "cast_i32 (int k) = int k"
    using Suc.prems assms(2) by (simp add: cast_i32_def signed_take_bit_int_eq_self_iff)
  then have "getPathSegment u (cast_i32 (int k)) = m_pathseg u ! k"
    using Suc.prems by (simp add: getPathSegment_def)
  then show ?case
    using Suc by (simp add: take_Suc_conv_app_nth)
qed simp

lemma segments_loop_length: "k \<le> length (segments_loop u k)"
  by (induction k) auto

lemma authority_copy: "authority u = m_protostr u @ authority (uri_copy u)"
  by (simp add: authority_def uri_copy_def empty_URI_def)

lemma segments_loop_copy: "segments_loop u k = m_protostr u @ segments_loop (uri_copy u) k"
proof (induction k)
  case 0
  show ?case unfolding segments_loop.simps by (rule authority_copy)
next
  case (Suc k)
  have "getPathSegment (uri_copy u) i = getPathSegment u i" for i
    by (simp add: getPathSegment_def uri_copy_def Let_def)
  then show ?case using Suc by simp
qed

section \<open>Properties\<close>

text \<open>
  Query attributes survive: after \<^verbatim>\<open>setAttribute\<close> with a string or with any \<^verbatim>\<open>int\<close>, reading the
  attribute gives the value back (integers through their decimal text), the other attributes are
  unchanged, and the map stays in strict key order.
\<close>

theorem uri_attribute_round_trip:
  assumes "sorted_wrt (<) (map fst (m_qmap u))" and "- (2 ^ 31) \<le> i" and "i < 2 ^ 31"
  shows "getAttribute_int k (setAttribute_int k i u) = Inr i
    \<and> getAttribute_string k (setAttribute k v u) = v \<and> hasAttribute k (setAttribute k v u)
    \<and> (k' \<noteq> k \<longrightarrow> getAttribute_string k' (setAttribute k v u) = getAttribute_string k' u)
    \<and> sorted_wrt (<) (map fst (m_qmap (setAttribute k v u)))"
  using assms
  by (simp add: getAttribute_int_def setAttribute_int_def map_of_qmap_set stoi_int_to_string getAttribute_string_def
      setAttribute_def hasAttribute_def sorted_qmap_set)

theorem uri_attribute_round_trip_witness:
  "getAttribute_int ''set'' (setAttribute_int ''set'' (-17) empty_URI) = Inr (-17)"
  using uri_attribute_round_trip [of empty_URI "-17" "''set''" "[]" "[]"] by (simp add: empty_URI_def)

text \<open>
  \<^verbatim>\<open>getBaseURI(n)\<close> is scheme, host and port followed by the first \<open>n\<close> path segments, or all but
  the last \<open>- n\<close> for a negative \<open>n\<close>. A negative number larger than the number of segments wraps
  around: the loop then appends more than \<open>2 ^ 63\<close> characters.
\<close>

theorem getBaseURI_prefix:
  assumes "length (m_pathseg u) < 2 ^ 31"
  shows "(0 \<le> n \<and> n < int (length (m_pathseg u)) \<longrightarrow>
      getBaseURI u n = authority u @ concat (map (\<lambda>p. ''/'' @ p) (take (nat n) (m_pathseg u))))
    \<and> (n < 0 \<and> - n \<le> int (length (m_pathseg u)) \<longrightarrow>
      getBaseURI u n = authority u @ concat (map (\<lambda>p. ''/'' @ p) (take (length (m_pathseg u) - nat (- n)) (m_pathseg u))))
    \<and> (- (2 ^ 31) \<le> n \<and> n < - int (length (m_pathseg u)) \<longrightarrow> length (getBaseURI u n) > 2 ^ 63)"
proof (intro conjI impI)
  assume "0 \<le> n \<and> n < int (length (m_pathseg u))"
  then show "getBaseURI u n = authority u @ concat (map (\<lambda>p. ''/'' @ p) (take (nat n) (m_pathseg u)))"
    using assms by (simp add: getBaseURI_def segments_loop_eq nat_le_iff)
next
  assume n: "n < 0 \<and> - n \<le> int (length (m_pathseg u))"
  define L where "L = length (m_pathseg u)"
  have "nat (int L + n) = L - nat (- n)" using n by (simp add: L_def) linarith
  then have "size_plus (length (m_pathseg u)) n = length (m_pathseg u) - nat (- n)"
    using size_plus_small [of L n] n assms by (simp add: L_def)
  then show "getBaseURI u n = authority u @ concat (map (\<lambda>p. ''/'' @ p) (take (length (m_pathseg u) - nat (- n)) (m_pathseg u)))"
    using n assms by (simp add: getBaseURI_def segments_loop_eq)
next
  assume n: "- (2 ^ 31) \<le> n \<and> n < - int (length (m_pathseg u))"
  define x where "x = int (length (m_pathseg u)) + n"
  have x: "- (2 ^ 31) \<le> x" "x < 0" using n by (simp_all add: x_def)
  have "(x + 2 ^ 64) mod 2 ^ 64 = x + 2 ^ 64"
    using x by (intro mod_pos_pos_trivial) simp_all
  then have "x mod 2 ^ 64 = x + 2 ^ 64" by (simp only: mod_add_self2)
  then have "size_plus (length (m_pathseg u)) n > 2 ^ 63"
    using x by (simp add: size_plus_def nat_less_iff x_def)
  then show "length (getBaseURI u n) > 2 ^ 63"
    using n segments_loop_length [of "size_plus (length (m_pathseg u)) n" u] by (simp add: getBaseURI_def)
qed

definition example_uri :: URI where
  "example_uri = empty_URI\<lparr>m_protostr := ''ftl'', m_host := ''h'', m_pathseg := [''a'', ''b''], m_base := ''ftl://h/a/b''\<rparr>"

theorem getBaseURI_prefix_witness:
  "getBaseURI example_uri 1 = ''ftl://h/a'' \<and> getBaseURI example_uri (-1) = ''ftl://h/a''
   \<and> length (getBaseURI example_uri (-3)) > 2 ^ 63"
  using getBaseURI_prefix [of example_uri 1] getBaseURI_prefix [of example_uri "-1"] getBaseURI_prefix [of example_uri "-3"]
  by (simp add: example_uri_def empty_URI_def authority_def)

text \<open>
  A copied URI loses its scheme text: on a copy, \<^verbatim>\<open>getBaseURI(n)\<close> below the path length lacks the
  scheme in front of "://".
\<close>

theorem uri_copy_loses_scheme:
  assumes "n < int (length (m_pathseg u))"
  shows "getBaseURI u n = m_protostr u @ getBaseURI (uri_copy u) n"
proof -
  have "m_pathseg (uri_copy u) = m_pathseg u" by (simp add: uri_copy_def)
  then show ?thesis
    using assms segments_loop_copy [of u "nat n"] segments_loop_copy [of u "size_plus (length (m_pathseg u)) n"]
    by (simp only: getBaseURI_def) simp
qed


theorem uri_copy_loses_scheme_witness:
  "''ftl://h/a'' = ''ftl'' @ getBaseURI (uri_copy example_uri) 1"
proof -
  have "getBaseURI example_uri 1 = ''ftl://h/a''" by code_simp
  then show ?thesis
    using uri_copy_loses_scheme [of 1 example_uri] by (simp add: example_uri_def)
qed

text \<open>
  Two inputs the parser does not handle. When a URI has a query, the text after \<^verbatim>\<open>#\<close> is dropped,
  because the end of the fragment is taken to be the start of the query, which comes before it. And
  a query item without a value assigns a null pointer to a string, which has no defined behaviour.
\<close>

theorem uri_parse_query_defects:
  assumes "env_parse env (expand_file env s) = Some pu" and "pu_query pu = Some (qa, qb)" and "qa < qb"
    and "parse_port (range_text (expand_file env s) (pu_portText pu)) = Inr port"
    and "env_dissect env (take (qb - qa) (drop qa (expand_file env s))) = Some items"
  shows "(pu_fragment pu = Some (fa, fb) \<and> qb < fa \<and> uri_parse env s = Inr u \<longrightarrow> m_frag u = [])
    \<and> ((\<exists>k. (k, None) \<in> set items) \<longrightarrow> uri_parse env s = Inl Undefined_behaviour)"
proof (intro conjI impI)
  assume "pu_fragment pu = Some (fa, fb) \<and> qb < fa \<and> uri_parse env s = Inr u"
  then show "m_frag u = []"
    using assms by (auto simp: uri_parse_def Let_def res_bind_Inr parse_fragment_def)
next
  assume "\<exists>k. (k, None) \<in> set items"
  then have "query_items items m = Inl Undefined_behaviour" for m
    by (induction items m rule: query_items.induct) auto
  then show "uri_parse env s = Inl Undefined_behaviour"
    using assms by (simp add: uri_parse_def Let_def parse_query_def)
qed

text \<open>What liburiparser gives for \<^verbatim>\<open>ftl://h?a#f\<close>, for the witness.\<close>

definition example_env :: uri_env where
  "example_env = \<lparr>env_cwd = None, env_home = None,
     env_parse = (\<lambda>s. Some \<lparr>pu_scheme = Some (0, 3), pu_userInfo = None, pu_hostText = Some (6, 7), pu_portText = None,
       pu_path = [], pu_query = Some (8, 9), pu_fragment = Some (10, 11)\<rparr>),
     env_dissect = (\<lambda>q. Some [(q, None)])\<rparr>"

theorem uri_parse_query_defects_witness: "uri_parse example_env ''ftl://h?a#f'' = Inl Undefined_behaviour"
  using uri_parse_query_defects [of example_env "''ftl://h?a#f''" _ 8 9 0 "[(''a'', None)]"]
  by (auto simp: example_env_def expand_file_def parse_port_def range_text_def)

end
