(* ===== verification/FTL_Socket.thy ===== *)
theory FTL_Socket
  imports FTL_Prelude
begin

text \<open>
  The operating system socket wrapper (\<^verbatim>\<open>socketImpl.hpp\<close>, \<^verbatim>\<open>socket/socket.cpp\<close>,
  \<^verbatim>\<open>socket/socket_linux.cpp\<close>). The system calls are the fields of a record, functions of the state
  \<open>'o\<close> of the operating system; nothing is assumed of them here. An address is opaque. Buffers of
  \<^verbatim>\<open>writev\<close> are lists of bytes.
\<close>

section \<open>System calls\<close>

record ('a, 'o) sys =
  sys_socket :: "'o \<Rightarrow> int \<times> 'o"
  sys_recv :: "int \<Rightarrow> nat \<Rightarrow> 'o \<Rightarrow> int \<times> u8 list \<times> 'o"
  sys_send :: "int \<Rightarrow> u8 list \<Rightarrow> 'o \<Rightarrow> int \<times> 'o"
  sys_writev :: "int \<Rightarrow> u8 list list \<Rightarrow> 'o \<Rightarrow> int \<times> 'o"
  sys_bind :: "int \<Rightarrow> 'a \<Rightarrow> 'o \<Rightarrow> int \<times> 'o"
  sys_listen :: "int \<Rightarrow> int \<Rightarrow> 'o \<Rightarrow> int \<times> 'o"
  sys_accept :: "int \<Rightarrow> 'o \<Rightarrow> int \<times> 'a \<times> 'o"
  sys_connect :: "int \<Rightarrow> 'a \<Rightarrow> 'o \<Rightarrow> int \<times> 'o"
  sys_select :: "int \<Rightarrow> int \<Rightarrow> 'o \<Rightarrow> int \<times> bool \<times> 'o"
  sys_close :: "int \<Rightarrow> 'o \<Rightarrow> int \<times> 'o"
  sys_getfl :: "int \<Rightarrow> 'o \<Rightarrow> bool"
  sys_setfl :: "int \<Rightarrow> bool \<Rightarrow> 'o \<Rightarrow> 'o"
  sys_getsockname :: "int \<Rightarrow> 'o \<Rightarrow> 'a"
  sys_errno :: "'o \<Rightarrow> int"
  sys_strerror :: "int \<Rightarrow> string"

text \<open>
  \<^term>\<open>sys_getfl\<close> and \<^term>\<open>sys_setfl\<close> read and write the \<^verbatim>\<open>O_NONBLOCK\<close> flag; \<^term>\<open>sys_select\<close>
  returns the number of ready descriptors and whether the descriptor is in the error set.
\<close>

definition EINTR :: int where "EINTR = 4"
definition EWOULDBLOCK :: int where "EWOULDBLOCK = 11"
definition EINPROGRESS :: int where "EINPROGRESS = 115"

section \<open>Socket\<close>

datatype STATUS = ST_INVALID | ST_UNCONNECTED | ST_OPEN | ST_CLOSED

record Socket =
  sock_status :: STATUS
  sock_fd :: int

definition socket_create :: "('a, 'o) sys \<Rightarrow> 'o \<Rightarrow> Socket res \<times> 'o" where
  "socket_create y w =
     (case sys_socket y w of (r, w') \<Rightarrow>
        if r > 0 then (Inr \<lparr>sock_status = ST_UNCONNECTED, sock_fd = r\<rparr>, w')
        else (Inl (FTL_Error (''socket: '' @ sys_strerror y (sys_errno y w'))), w'))"

definition socket_invalid :: Socket where
  "socket_invalid = \<lparr>sock_status = ST_INVALID, sock_fd = -1\<rparr>"

definition socket_is_valid :: "Socket \<Rightarrow> bool" where
  "socket_is_valid s \<longleftrightarrow> sock_status s \<noteq> ST_INVALID"

definition socket_is_open :: "Socket \<Rightarrow> bool" where
  "socket_is_open s \<longleftrightarrow> sock_status s = ST_OPEN"

definition socket_is_closed :: "Socket \<Rightarrow> bool" where
  "socket_is_closed s \<longleftrightarrow> sock_status s = ST_CLOSED"

definition is_fatal :: "int \<Rightarrow> int \<Rightarrow> bool" where
  "is_fatal errno code = (let e = (if code \<noteq> 0 then code else errno) in
     \<not> (e = EINTR \<or> e = EWOULDBLOCK \<or> e = EINPROGRESS))"

definition socket_bind :: "('a, 'o) sys \<Rightarrow> 'a \<Rightarrow> Socket \<Rightarrow> 'o \<Rightarrow> int \<times> Socket \<times> 'o" where
  "socket_bind y a s w =
     (case sys_bind y (sock_fd s) a w of (r, w') \<Rightarrow> (r, if r \<noteq> 0 then s\<lparr>sock_status := ST_OPEN\<rparr> else s, w'))"

definition socket_accept :: "('a, 'o) sys \<Rightarrow> Socket \<Rightarrow> 'o \<Rightarrow> Socket \<times> 'a \<times> 'o" where
  "socket_accept y s w =
     (case sys_accept y (sock_fd s) w of (r, a, w') \<Rightarrow>
        (if r > 0 then \<lparr>sock_status = ST_OPEN, sock_fd = r\<rparr> else socket_invalid, a, w'))"

definition socket_connect :: "('a, 'o) sys \<Rightarrow> 'a \<Rightarrow> Socket \<Rightarrow> 'o \<Rightarrow> int \<times> Socket \<times> 'o" where
  "socket_connect y a s w =
     (if sock_status s = ST_UNCONNECTED then
        (case sys_connect y (sock_fd s) a w of (err, w1) \<Rightarrow>
           if err = 0 then (0, s\<lparr>sock_status := ST_OPEN\<rparr>, w1)
           else if sys_errno y w1 = EINPROGRESS then (-1, s\<lparr>sock_status := ST_OPEN\<rparr>, w1)
           else (err, s\<lparr>sock_status := ST_CLOSED\<rparr>, snd (sys_close y (sock_fd s) w1)))
      else (0, s, w))"

definition set_blocking :: "('a, 'o) sys \<Rightarrow> bool \<Rightarrow> Socket \<Rightarrow> 'o \<Rightarrow> 'o" where
  "set_blocking y v s w = sys_setfl y (sock_fd s) v w"

definition is_blocking :: "('a, 'o) sys \<Rightarrow> Socket \<Rightarrow> 'o \<Rightarrow> bool" where
  "is_blocking y s w = sys_getfl y (sock_fd s) w"

definition socket_connect_timeout :: "('a, 'o) sys \<Rightarrow> 'a \<Rightarrow> int \<Rightarrow> Socket \<Rightarrow> 'o \<Rightarrow> int \<times> Socket \<times> 'o" where
  "socket_connect_timeout y a timeout s w =
     (if timeout \<le> 0 then socket_connect y a s w
      else
        let blocking = is_blocking y s w;
            w1 = (if blocking then set_blocking y False s w else w) in
        case socket_connect y a s w1 of (rc, s1, w2) \<Rightarrow>
          let (rc', w3) =
                (if rc < 0 \<and> sys_errno y w2 = EINPROGRESS then
                   (case sys_select y (sock_fd s1) timeout w2 of (r, isset, w') \<Rightarrow> (if isset then -1 else r, w'))
                 else (rc, w2));
              w4 = (if blocking then set_blocking y True s1 w3 else w3) in
          if rc' < 0 then (rc', s1\<lparr>sock_status := ST_CLOSED\<rparr>, snd (sys_close y (sock_fd s1) w4))
          else (0, s1, w4))"

definition socket_close :: "('a, 'o) sys \<Rightarrow> Socket \<Rightarrow> 'o \<Rightarrow> bool \<times> Socket \<times> 'o" where
  "socket_close y s w =
     (if socket_is_valid s \<and> sock_status s \<noteq> ST_CLOSED then
        (case sys_close y (sock_fd s) w of (r, w') \<Rightarrow> (r = 0, s\<lparr>sock_status := ST_CLOSED\<rparr>, w'))
      else (False, s, w))"

section \<open>Properties\<close>

text \<open>An operating system that only records: connecting fails with a given code, closing is logged.\<close>

definition refusing_sys :: "'a \<Rightarrow> int \<Rightarrow> ('a, int list) sys" where
  "refusing_sys a0 e = \<lparr>sys_socket = (\<lambda>w. (3, w)), sys_recv = (\<lambda>f n w. (0, [], w)), sys_send = (\<lambda>f b w. (0, w)),
     sys_writev = (\<lambda>f b w. (0, w)), sys_bind = (\<lambda>f a w. (0, w)), sys_listen = (\<lambda>f n w. (0, w)),
     sys_accept = (\<lambda>f w. (-1, a0, w)), sys_connect = (\<lambda>f a w. (-1, w)), sys_select = (\<lambda>f t w. (0, False, w)),
     sys_close = (\<lambda>f w. (0, w @ [f])), sys_getfl = (\<lambda>f w. False), sys_setfl = (\<lambda>f b w. w),
     sys_getsockname = (\<lambda>f w. a0), sys_errno = (\<lambda>w. e), sys_strerror = (\<lambda>n. [])\<rparr>"

text \<open>
  Closing a socket is safe to repeat: a valid socket that is not closed is closed by exactly one
  system call, and every further \<^verbatim>\<open>close\<close>, and every \<^verbatim>\<open>close\<close> of an invalid socket, makes none.
\<close>

theorem socket_close_once:
  "socket_close y s w = (r, s', w') \<Longrightarrow>
     (if socket_is_valid s \<and> \<not> socket_is_closed s
      then sys_close y (sock_fd s) w = (if r then 0 else fst (sys_close y (sock_fd s) w), w')
        \<and> socket_is_closed s' else w' = w)
     \<and> (socket_close y s' w' = (False, s', w'))"
  by (auto simp: socket_close_def socket_is_valid_def socket_is_closed_def split: if_splits prod.splits)

theorem socket_close_once_witness:
  "socket_close (refusing_sys () 111) \<lparr>sock_status = ST_CLOSED, sock_fd = 3\<rparr> [3] = (False, \<lparr>sock_status = ST_CLOSED, sock_fd = 3\<rparr>, [3])"
proof -
  have "socket_close (refusing_sys () 111) \<lparr>sock_status = ST_OPEN, sock_fd = 3\<rparr> [] = (True, \<lparr>sock_status = ST_CLOSED, sock_fd = 3\<rparr>, [3])"
    by (simp add: socket_close_def refusing_sys_def socket_is_valid_def)
  from socket_close_once [OF this] show ?thesis by simp
qed

text \<open>
  Connecting with a timeout closes the descriptor twice when the connection is refused: once in
  the plain \<^verbatim>\<open>connect\<close> it calls and once more itself, so that a descriptor the system has handed out
  again in between is closed too.
\<close>

theorem connect_timeout_closes_twice:
  assumes "timeout > 0" and "e \<noteq> EINPROGRESS"
  shows "socket_connect_timeout (refusing_sys a0 e) a timeout \<lparr>sock_status = ST_UNCONNECTED, sock_fd = n\<rparr> []
      = (-1, \<lparr>sock_status = ST_CLOSED, sock_fd = n\<rparr>, [n, n])"
  using assms
  by (simp add: socket_connect_timeout_def socket_connect_def refusing_sys_def is_blocking_def Let_def)

theorem connect_timeout_closes_twice_witness:
  "socket_connect_timeout (refusing_sys () 111) () 5 \<lparr>sock_status = ST_UNCONNECTED, sock_fd = 3\<rparr> []
      = (-1, \<lparr>sock_status = ST_CLOSED, sock_fd = 3\<rparr>, [3, 3])"
  by (rule connect_timeout_closes_twice) (simp_all add: EINPROGRESS_def)

end
