(* ===== verification/FTL_Connection.thy ===== *)
theory FTL_Connection
  imports FTL_Socket FTL_URI
begin

text \<open>
  Stream connections and listening sockets (\<^verbatim>\<open>protocol/connection.cpp\<close>, \<^verbatim>\<open>protocol/tcp.cpp\<close>,
  \<^verbatim>\<open>protocol/factory.cpp\<close>) over the socket wrapper. The central operation is the scatter write,
  which repeats the system call until everything is sent.
\<close>

section \<open>SocketConnection\<close>

record 'a SocketConnection =
  sock :: Socket
  addr :: 'a

definition conn_destroy :: "('a, 'o) sys \<Rightarrow> 'a SocketConnection \<Rightarrow> 'o \<Rightarrow> 'a SocketConnection \<times> 'o" where
  "conn_destroy y c w =
     (if socket_is_valid (sock c) then (case socket_close y (sock c) w of (_, s, w') \<Rightarrow> (c\<lparr>sock := s\<rparr>, w')) else (c, w))"

definition conn_is_valid :: "'a SocketConnection \<Rightarrow> bool" where
  "conn_is_valid c = socket_is_open (sock c)"

definition conn_connect :: "('a, 'o) sys \<Rightarrow> 'a \<Rightarrow> int \<Rightarrow> 'a SocketConnection \<Rightarrow> 'o \<Rightarrow> unit res \<times> 'a SocketConnection \<times> 'o" where
  "conn_connect y a timeout c w =
     (case (if timeout \<le> 0 then socket_connect y a (sock c) w else socket_connect_timeout y a timeout (sock c) w) of
        (rv, s, w') \<Rightarrow>
          (if rv \<noteq> 0 then Inl (FTL_Error (''connect(): '' @ sys_strerror y (sys_errno y w'))) else Inr (),
           c\<lparr>addr := a, sock := s\<rparr>, w'))"

definition conn_recv :: "('a, 'o) sys \<Rightarrow> nat \<Rightarrow> 'a SocketConnection \<Rightarrow> 'o \<Rightarrow> (int \<times> u8 list) res \<times> 'o" where
  "conn_recv y len c w =
     (case sys_recv y (sock_fd (sock c)) len w of (n, d, w') \<Rightarrow>
        if n = 0 then (Inr (-1, []), w')
        else if n < 0 then
          (if \<not> is_fatal (sys_errno y w') 0 then Inr (0, [])
           else Inl (FTL_Error (sys_strerror y (sys_errno y w'))), w')
        else (Inr (n, d), w'))"

definition conn_send :: "('a, 'o) sys \<Rightarrow> u8 list \<Rightarrow> 'a SocketConnection \<Rightarrow> 'o \<Rightarrow> int \<times> 'o" where
  "conn_send y b c w = sys_send y (sock_fd (sock c)) b w"

text \<open>
  The loop of \<^verbatim>\<open>writev\<close>. \<open>iov\<close> is what is left of the local copy, \<open>sent\<close> the bytes of its head already
  sent. It may run for ever (a socket that stays unable to take data), hence a partial function.
\<close>

definition iov_total :: "u8 list list \<Rightarrow> int" where
  "iov_total iov = int (length (concat iov))"

partial_function (option) writev_loop ::
    "(u8 list list \<Rightarrow> 'o \<Rightarrow> int \<times> 'o) \<Rightarrow> ('o \<Rightarrow> bool) \<Rightarrow> u8 list list \<Rightarrow> int \<Rightarrow> int \<Rightarrow> int \<Rightarrow> 'o \<Rightarrow> (int res \<times> 'o) option" where
  "writev_loop wr fatal iov sent sent_total requested w =
     (if sent_total < requested then
        (case iov of
           [] \<Rightarrow> Some (Inl Undefined_behaviour, w)
         | b # bs \<Rightarrow>
            if int (length b) - sent < 0 then writev_loop wr fatal bs (- (int (length b) - sent)) sent_total requested w
            else
              (case wr (drop (nat sent) b # bs) w of (n, w') \<Rightarrow>
                 if n < 0 then
                   if fatal w' then Some (Inr n, w')
                   else writev_loop wr fatal (drop (nat sent) b # bs) 0 sent_total requested w'
                 else writev_loop wr fatal (drop (nat sent) b # bs) n (sent_total + n) requested w'))
      else Some (Inr requested, w))"

definition writev_all :: "(u8 list list \<Rightarrow> 'o \<Rightarrow> int \<times> 'o) \<Rightarrow> ('o \<Rightarrow> bool) \<Rightarrow> u8 list list \<Rightarrow> 'o \<Rightarrow> (int res \<times> 'o) option" where
  "writev_all wr fatal iov w =
     (let requested = iov_total iov in
      case wr iov w of (sent, w') \<Rightarrow>
        if sent < 0 \<and> fatal w' then Some (Inr sent, w')
        else
          let sent' = (if sent < 0 then 0 else sent) in
          if sent' = requested then Some (Inr sent', w')
          else writev_loop wr fatal iov sent' sent' requested w')"

definition conn_writev :: "('a, 'o) sys \<Rightarrow> u8 list list \<Rightarrow> 'a SocketConnection \<Rightarrow> 'o \<Rightarrow> (int res \<times> 'o) option" where
  "conn_writev y iov c w =
     writev_all (sys_writev y (sock_fd (sock c))) (\<lambda>w'. is_fatal (sys_errno y w') 0) iov w"

definition conn_close :: "('a, 'o) sys \<Rightarrow> 'a SocketConnection \<Rightarrow> 'o \<Rightarrow> bool \<times> 'a SocketConnection \<times> 'o" where
  "conn_close y c w = (case socket_close y (sock c) w of (r, s, w') \<Rightarrow> (r, c\<lparr>sock := s\<rparr>, w'))"

section \<open>SocketServer\<close>

record 'a SocketServer =
  ssock :: Socket
  saddr :: 'a
  is_listening :: bool

definition server_bind :: "('a, 'o) sys \<Rightarrow> 'a \<Rightarrow> int \<Rightarrow> 'a SocketServer \<Rightarrow> 'o \<Rightarrow> bool res \<times> 'a SocketServer \<times> 'o" where
  "server_bind y a backlog s w =
     (case socket_bind y a (ssock s) w of (r1, k1, w1) \<Rightarrow>
        let s1 = s\<lparr>ssock := k1\<rparr> in
        if r1 \<noteq> 0 then (Inl (FTL_Error (''socket error:'' @ sys_strerror y (sys_errno y w1))), s1, w1)
        else
          (case sys_listen y (sock_fd k1) backlog w1 of (r2, w2) \<Rightarrow>
             if r2 \<noteq> 0 then (Inl (FTL_Error (''socket error:'' @ sys_strerror y (sys_errno y w2))), s1, w2)
             else (Inr True, s1\<lparr>is_listening := True, saddr := sys_getsockname y (sock_fd k1) w2\<rparr>, w2)))"

definition server_close :: "('a, 'o) sys \<Rightarrow> 'a SocketServer \<Rightarrow> 'o \<Rightarrow> bool \<times> 'a SocketServer \<times> 'o" where
  "server_close y s w =
     (case socket_close y (ssock s) w of (r, k, w') \<Rightarrow> (r, s\<lparr>is_listening := False, ssock := k\<rparr>, w'))"

section \<open>TCP\<close>

text \<open>\<open>resolve\<close> stands for \<^verbatim>\<open>resolve_inet_address\<close> (a DNS look-up).\<close>

definition tcp_connect :: "('a, 'o) sys \<Rightarrow> (string \<Rightarrow> int \<Rightarrow> 'a option) \<Rightarrow> string \<Rightarrow> int \<Rightarrow> 'a SocketConnection \<Rightarrow> 'o
    \<Rightarrow> bool res \<times> 'a SocketConnection \<times> 'o" where
  "tcp_connect y resolve hostname port c w =
     (case resolve hostname port of
        None \<Rightarrow> (Inl (FTL_Error (''could not resolve hostname: '' @ hostname)), c, w)
      | Some a \<Rightarrow>
         (case socket_connect y a (sock c) w of (err, s, w') \<Rightarrow>
            (if err < 0 then Inl (FTL_Error (''connect() error: '' @ sys_strerror y (sys_errno y w'))) else Inr True,
             c\<lparr>addr := a, sock := s\<rparr>, w')))"

definition tcp_accept :: "('a, 'o) sys \<Rightarrow> 'a SocketServer \<Rightarrow> 'o \<Rightarrow> 'a SocketConnection \<times> 'o" where
  "tcp_accept y s w = (case socket_accept y (ssock s) w of (k, a, w') \<Rightarrow> (\<lparr>sock = k, addr = a\<rparr>, w'))"

text \<open>\<^verbatim>\<open>createConnection\<close>: the class of connection for a scheme; \<open>tls\<close>: built with TLS support.\<close>

datatype connection_kind = Connection_TCP | Connection_WS | Connection_WSS

definition createConnection :: "bool \<Rightarrow> scheme_t \<Rightarrow> string \<Rightarrow> connection_kind res" where
  "createConnection tls sch uri =
     (if sch = SCHEME_TCP then Inr Connection_TCP
      else if sch = SCHEME_WS then Inr Connection_WS
      else if sch = SCHEME_WSS then (if tls then Inr Connection_WSS else Inl (FTL_Error ''built without TLS support''))
      else Inl (FTL_Error (''unrecognised connection protocol: '' @ uri)))"

section \<open>The scatter write\<close>

text \<open>
  What \<^verbatim>\<open>writev(2)\<close> documents: it returns a negative number and sends nothing, or the number of bytes
  it sent, which are the first ones of the buffers in order. \<open>log\<close> gives the bytes sent so far.
\<close>

definition writev_contract :: "('o \<Rightarrow> u8 list) \<Rightarrow> (u8 list list \<Rightarrow> 'o \<Rightarrow> int \<times> 'o) \<Rightarrow> bool" where
  "writev_contract log wr \<longleftrightarrow> (\<forall>iov w n w'. wr iov w = (n, w') \<longrightarrow>
     (if n < 0 then log w' = log w
      else n \<le> int (length (concat iov)) \<and> log w' = log w @ take (nat n) (concat iov)))"

text \<open>
  Fairness: a request for at least one byte sends at least one byte, fails for good, or is interrupted or blocked
  (\<^verbatim>\<open>EINTR\<close>, \<^verbatim>\<open>EWOULDBLOCK\<close>, or a result of 0) and to be tried again, which does not go on for ever: \<open>stall\<close> is a number of such
  results still to come. A call that sends something may set it to any value.
\<close>

definition writev_fair :: "('o \<Rightarrow> nat) \<Rightarrow> (u8 list list \<Rightarrow> 'o \<Rightarrow> int \<times> 'o) \<Rightarrow> ('o \<Rightarrow> bool) \<Rightarrow> bool" where
  "writev_fair stall wr fatal \<longleftrightarrow>
     (\<forall>iov w n w'. wr iov w = (n, w') \<longrightarrow> concat iov \<noteq> [] \<longrightarrow> n > 0 \<or> n < 0 \<and> fatal w' \<or> stall w' < stall w)"

lemma writev_contractD:
  assumes "writev_contract log wr" "wr iov w = (n, w')"
  shows "n < 0 \<Longrightarrow> log w' = log w" "0 \<le> n \<Longrightarrow> n \<le> int (length (concat iov)) \<and> log w' = log w @ take (nat n) (concat iov)"
  using assms by (auto simp: writev_contract_def)

text \<open>
  The invariant of the loop: \<open>sent\<close> bytes of what is left are already sent, and the rest of it is
  what remains of \<open>all\<close>.
\<close>

definition loop_ok :: "u8 list \<Rightarrow> u8 list \<Rightarrow> ('o \<Rightarrow> u8 list) \<Rightarrow> u8 list list \<Rightarrow> int \<Rightarrow> int \<Rightarrow> 'o \<Rightarrow> bool" where
  "loop_ok before all log iov sent tot w \<longleftrightarrow> 0 \<le> sent \<and> 0 \<le> tot \<and> tot \<le> int (length all)
     \<and> nat sent \<le> length (concat iov) \<and> drop (nat sent) (concat iov) = drop (nat tot) all
     \<and> log w = before @ take (nat tot) all"

lemma loop_ok_next:
  assumes "loop_ok before all log (b # bs) sent tot w" "int (length b) - sent < 0"
  shows "loop_ok before all log bs (- (int (length b) - sent)) tot w"
  using assms by (auto simp: loop_ok_def nat_diff_distrib' nat_less_iff)

lemma loop_ok_written:
  assumes ok: "loop_ok before all log (b # bs) sent tot w" and b: "\<not> int (length b) - sent < 0"
    and c: "writev_contract log wr" and wr: "wr (drop (nat sent) b # bs) w = (n, w')"
  shows "n < 0 \<Longrightarrow> loop_ok before all log (drop (nat sent) b # bs) 0 tot w'"
    and "0 \<le> n \<Longrightarrow> loop_ok before all log (drop (nat sent) b # bs) n (tot + n) w'"
proof -
  have rest: "drop (nat sent) b @ concat bs = drop (nat tot) all"
    using ok b by (auto simp: loop_ok_def)
  show "n < 0 \<Longrightarrow> loop_ok before all log (drop (nat sent) b # bs) 0 tot w'"
    using ok rest writev_contractD(1) [OF c wr] by (simp add: loop_ok_def)
  assume n: "0 \<le> n"
  have bound: "n \<le> int (length (drop (nat tot) all))"
    and log: "log w' = log w @ take (nat n) (drop (nat tot) all)"
    using writev_contractD(2) [OF c wr n] rest by simp_all
  have tn: "nat (tot + n) = nat tot + nat n" using ok n by (simp add: loop_ok_def nat_add_distrib)
  have "drop (nat n) (drop (nat tot) all) = drop (nat (tot + n)) all"
    unfolding tn by (simp add: add.commute)
  moreover have "log w' = before @ take (nat (tot + n)) all"
    unfolding tn take_add using log ok by (simp add: loop_ok_def)
  moreover have "nat n \<le> length (drop (nat tot) all)" "tot + n \<le> int (length all)" "0 \<le> tot"
    using ok n bound by (auto simp: loop_ok_def)
  ultimately show "loop_ok before all log (drop (nat sent) b # bs) n (tot + n) w'"
    unfolding loop_ok_def concat.simps rest using n by linarith
qed

text \<open>One round of the loop that calls \<^verbatim>\<open>writev\<close>, by its result.\<close>

lemma writev_loop_round:
  assumes "tot < requested" "\<not> int (length b) - sent < 0" "wr (drop (nat sent) b # bs) w = (n, w')"
  shows "writev_loop wr fatal (b # bs) sent tot requested w =
    (if n < 0 \<and> fatal w' then Some (Inr n, w') else writev_loop wr fatal (drop (nat sent) b # bs) (max n 0) (tot + max n 0) requested w')"
  using assms by (auto simp: writev_loop.simps [of _ _ "b # bs"] max_def)

text \<open>The loop ends: the bytes and buffers left decrease, or they stay and the retries left decrease.\<close>

lemma writev_loop_returns:
  assumes c: "writev_contract log wr" and p: "writev_fair stall wr fatal" and len: "requested = int (length all)"
  shows "loop_ok before all log iov sent tot w \<Longrightarrow>
    \<exists>r w'. writev_loop wr fatal iov sent tot requested w = Some (Inr r, w')
      \<and> (r = requested \<and> log w' = before @ all \<or> r < 0 \<and> fatal w' \<and> (\<exists>k. k < length all \<and> log w' = before @ take k all))"
proof (induction "(nat (requested - tot) + length iov, stall w)" arbitrary: iov sent tot w rule: wf_induct_rule [OF wf_lex_prod [OF wf_less_than wf_less_than]])
  case 1
  note IH = "1.hyps" and ok = "1.prems"
  show ?case
  proof (cases "tot < requested")
    case False
    then have "log w = before @ all" "tot = requested"
      using ok len by (auto simp: loop_ok_def)
    then show ?thesis by (simp add: writev_loop.simps)
  next
    case True
    have "drop (nat tot) all \<noteq> []" using True len ok by (auto simp: loop_ok_def)
    then have ne: "drop (nat sent) (concat iov) \<noteq> []" using ok by (simp add: loop_ok_def)
    then obtain b bs where iov: "iov = b # bs" by (cases iov) auto
    show ?thesis
    proof (cases "int (length b) - sent < 0")
      case True
      then show ?thesis
        using IH [of tot bs w, OF _ loop_ok_next [OF ok [unfolded iov] True]] \<open>tot < requested\<close> iov
        by (simp add: writev_loop.simps [of _ _ "b # bs"])
    next
      case False
      obtain n w' where wr: "wr (drop (nat sent) b # bs) w = (n, w')" by fastforce
      note round = writev_loop_round [of tot requested b sent wr bs w n w' fatal, OF \<open>tot < requested\<close> False wr]
      have "concat (drop (nat sent) b # bs) \<noteq> []" using ne False iov by auto
      then have n: "n > 0 \<or> n < 0 \<and> fatal w' \<or> stall w' < stall w" using p wr by (auto simp: writev_fair_def)
      note w = loop_ok_written [OF ok [unfolded iov] False c wr]
      show ?thesis
      proof (cases "n < 0 \<and> fatal w'")
        case True
        then have "log w' = before @ take (nat tot) all" "nat tot < length all"
          using w(1) \<open>tot < requested\<close> len by (auto simp: loop_ok_def)
        then show ?thesis using True round iov by auto
      next
        case go: False
        have "loop_ok before all log (drop (nat sent) b # bs) (max n 0) (tot + max n 0) w'"
          using w by (cases "n < 0") (simp_all add: max_def)
        moreover have "((nat (requested - (tot + max n 0)) + length (drop (nat sent) b # bs), stall w'), nat (requested - tot) + length iov, stall w)
            \<in> less_than <*lex*> less_than"
          using n go \<open>tot < requested\<close> iov by (auto simp: max_def)
        ultimately show ?thesis using IH go unfolding iov round by auto
      qed
    qed
  qed
qed

section \<open>Properties\<close>

text \<open>
  C29: The scatter write over a \<^verbatim>\<open>writev\<close> system call that sends a prefix of what it is given (or nothing, with an
  error), and whose interruptions do not go on for ever: the loop ends; it returns the number of bytes requested,
  with exactly the bytes of all buffers sent once and in order, or the negative result of a fatal error, with a
  prefix sent. It never reads beyond the last buffer.
\<close>

theorem conn_writev_sends_all:
  assumes "writev_contract log (sys_writev y (sock_fd (sock c)))"
    and "writev_fair stall (sys_writev y (sock_fd (sock c))) (\<lambda>w'. is_fatal (sys_errno y w') 0)"
  shows "\<exists>r w'. conn_writev y iov c w = Some (Inr r, w')
    \<and> (r = int (length (concat iov)) \<and> log w' = log w @ concat iov
       \<or> r < 0 \<and> is_fatal (sys_errno y w') 0 \<and> (\<exists>k. k \<le> length (concat iov) \<and> log w' = log w @ take k (concat iov)))"
proof -
  obtain n w' where wr: "sys_writev y (sock_fd (sock c)) iov w = (n, w')" by fastforce
  note con = writev_contractD [OF assms(1) wr]
  let ?r = "int (length (concat iov))"
  show ?thesis
  proof (cases "n < 0 \<and> is_fatal (sys_errno y w') 0 \<or> max n 0 = ?r")
    case True
    then show ?thesis
      using con wr by (auto simp: conn_writev_def writev_all_def iov_total_def Let_def intro: exI [of _ 0])
  next
    case False
    have "loop_ok (log w) (concat iov) log iov (max n 0) (max n 0) w'"
      using con by (cases "n < 0") (auto simp: loop_ok_def nat_le_iff)
    from writev_loop_returns [OF assms refl this] obtain r w2 where
      r: "writev_loop (sys_writev y (sock_fd (sock c))) (\<lambda>w'. is_fatal (sys_errno y w') 0) iov (max n 0) (max n 0) ?r w'
          = Some (Inr r, w2)"
        "r = ?r \<and> log w2 = log w @ concat iov
         \<or> r < 0 \<and> is_fatal (sys_errno y w2) 0 \<and> (\<exists>k < length (concat iov). log w2 = log w @ take k (concat iov))"
      by blast
    have "conn_writev y iov c w = Some (Inr r, w2)"
      using False wr r(1) by (auto simp: conn_writev_def writev_all_def iov_total_def Let_def max_def split: if_splits)
    then show ?thesis using r(2) by (metis less_imp_le_nat)
  qed
qed


text \<open>
  A system whose \<^verbatim>\<open>writev\<close> sends at most three bytes per call and is interrupted twice before each call that
  sends, for the witness.
\<close>

definition stalling_sys :: "(unit, nat \<times> u8 list) sys" where
  "stalling_sys = \<lparr>sys_socket = (\<lambda>w. (3, w)), sys_recv = (\<lambda>f n w. (0, [], w)),
     sys_send = (\<lambda>f b w. (0, w)),
     sys_writev = (\<lambda>f b (k, d). case k of 0 \<Rightarrow> (int (min 3 (length (concat b))), (2, d @ take 3 (concat b))) | Suc k \<Rightarrow> (-1, (k, d))),
     sys_bind = (\<lambda>f a w. (0, w)), sys_listen = (\<lambda>f n w. (0, w)), sys_accept = (\<lambda>f w. (-1, (), w)),
     sys_connect = (\<lambda>f a w. (-1, w)), sys_select = (\<lambda>f t w. (0, False, w)), sys_close = (\<lambda>f w. (0, w)),
     sys_getfl = (\<lambda>f w. False), sys_setfl = (\<lambda>f b w. w), sys_getsockname = (\<lambda>f w. ()),
     sys_errno = (\<lambda>w. EINTR), sys_strerror = (\<lambda>n. [])\<rparr>"

theorem conn_writev_sends_all_witness:
  "\<exists>w'. conn_writev stalling_sys [[1, 2], [3, 4, 5, 6]] \<lparr>sock = \<lparr>sock_status = ST_OPEN, sock_fd = 3\<rparr>, addr = ()\<rparr> (1, [9])
     = Some (Inr 6, w') \<and> snd w' = [9, 1, 2, 3, 4, 5, 6]"
proof -
  let ?c = "\<lparr>sock = \<lparr>sock_status = ST_OPEN, sock_fd = 3\<rparr>, addr = ()\<rparr>"
  have "writev_contract snd (sys_writev stalling_sys (sock_fd (sock ?c)))"
    by (auto simp: writev_contract_def stalling_sys_def min_def split: nat.splits)
  moreover have "writev_fair fst (sys_writev stalling_sys (sock_fd (sock ?c))) (\<lambda>w'. is_fatal (sys_errno stalling_sys w') 0)"
    by (auto simp: writev_fair_def stalling_sys_def split: nat.splits)
  moreover have "\<not> is_fatal (sys_errno stalling_sys w) 0" for w by (simp add: stalling_sys_def is_fatal_def)
  ultimately show ?thesis
    using conn_writev_sends_all [of snd stalling_sys ?c fst "[[1, 2], [3, 4, 5, 6]]" "(1, [9])"] by fastforce
qed

end
