(* ===== verification/FTL_NetBuffer.thy ===== *)
theory FTL_NetBuffer
  imports FTL_Packet "HOL-Library.AList" "HOL-Library.Multiset"
begin

text \<open>
  The receive buffer of a network stream (\<^verbatim>\<open>netstream.cpp\<close>, the section ``Recv Buffering'' of
  \<^verbatim>\<open>netstream.hpp\<close>): packets are queued per frame as they arrive and released by a thread once
  their time has come, the end-of-frame packet of a frame only when all packets of the frame have
  arrived. Released packets are sorted and handed to the consumer, video channels in parallel.

  The clock, the peer's round trip time and its local id are arguments. The packet queues are an
  association list; its order stands for the iteration order of the \<^verbatim>\<open>unordered_map\<close>, on which no
  result depends. Every operation holds the locks of what it touches, so it is one step; the
  parallel jobs of a batch are a step relation.
\<close>

section \<open>State\<close>

record PacketBuffer =
  pb_spkt :: StreamPacket
  pb_dpkt :: DataPacket
  ts_rel :: int
  packet_consumed :: bool

record PacketQueue =
  pq_packets :: "PacketBuffer list"
  ts_base_spkt :: int
  ts_base_local :: int
  incomplete_packet_count :: "int \<rightharpoonup> int"

record NetBuffer =
  buffering_auto :: bool
  underruns :: int
  last_underrun_buffering :: int
  buffering :: int
  buffering_default :: int
  buffering_min_ms :: int
  t_buffering_updated :: int
  buffering_update_delay_ms :: int
  netstream_thread_waiting :: bool
  packet_queue :: "(FrameID \<times> PacketQueue) list"
  synchronize_on_recv_timestamps :: bool
  dbg_streams_peers_mask :: int

definition new_NetBuffer :: NetBuffer where
  "new_NetBuffer = \<lparr>buffering_auto = False, underruns = 0, last_underrun_buffering = 0, buffering = 0,
     buffering_default = 0, buffering_min_ms = 0, t_buffering_updated = 0, buffering_update_delay_ms = 50,
     netstream_thread_waiting = False, packet_queue = [], synchronize_on_recv_timestamps = False,
     dbg_streams_peers_mask = 0\<rparr>"

section \<open>Single precision arithmetic\<close>

text \<open>
  The products of an \<^verbatim>\<open>int\<close> and a \<^verbatim>\<open>float\<close> constant: a value is an integer times a power of two,
  and a product is rounded to 24 significant bits, half to even. \<open>round24\<close> does not depend on the
  power of two.
\<close>

function excess_bits :: "int \<Rightarrow> nat" where
  "excess_bits n = (if n < 2 ^ 24 then 0 else Suc (excess_bits (n div 2)))"
  by auto

termination
  by (relation "measure nat") auto

declare excess_bits.simps [simp del]

definition round24 :: "int \<Rightarrow> int" where
  "round24 v = (let a = \<bar>v\<bar>; e = excess_bits a; q = a div 2 ^ e; r = a mod 2 ^ e in
     sgn v * ((if 2 * r > 2 ^ e \<or> 2 * r = 2 ^ e \<and> odd q then q + 1 else q) * 2 ^ e))"

text \<open>Conversion of \<open>v * 2 ^ (- k)\<close> to \<^verbatim>\<open>int32_t\<close>: truncation, without meaning out of range.\<close>

definition float_to_i32 :: "int \<Rightarrow> nat \<Rightarrow> int res" where
  "float_to_i32 v k = (let t = sgn v * (\<bar>v\<bar> div 2 ^ k) in
     if - (2 ^ 31) \<le> t \<and> t < 2 ^ 31 then Inr t else Inl Undefined_behaviour)"

text \<open>\<^verbatim>\<open>n * 2.1f\<close>, \<^verbatim>\<open>n * 0.9f\<close> and the comparison \<^verbatim>\<open>b > n * 1.5f\<close>\<close>

definition float_times_2_1 :: "int \<Rightarrow> int res" where
  "float_times_2_1 n = float_to_i32 (round24 (round24 n * 8808038)) 22"

definition float_times_0_9 :: "int \<Rightarrow> int res" where
  "float_times_0_9 n = float_to_i32 (round24 (round24 n * 15099494)) 24"

definition exceeds_1_5 :: "int \<Rightarrow> int \<Rightarrow> bool" where
  "exceeds_1_5 b n \<longleftrightarrow> round24 b * 2 > round24 (round24 n * 3)"

section \<open>Queueing\<close>

text \<open>The automatic adjustment of the buffering delay.\<close>

definition adjust_buffering :: "int \<Rightarrow> int \<Rightarrow> NetBuffer \<Rightarrow> NetBuffer res" where
  "adjust_buffering now rtt b =
     (if buffering_auto b \<and> now - t_buffering_updated b > buffering_update_delay_ms b then
        res_bind (float_times_2_1 rtt) (\<lambda>auto.
          if underruns b > 0 then
            Inr (b\<lparr>t_buffering_updated := now, last_underrun_buffering := buffering b,
              buffering := max (if buffering b < auto + 20 then auto else buffering b + 20) (buffering_min_ms b),
              underruns := 0\<rparr>)
          else if exceeds_1_5 (buffering b) auto then
            res_bind (float_times_0_9 (buffering b)) (\<lambda>s.
              Inr (b\<lparr>t_buffering_updated := now,
                buffering := max (max s (buffering b - 20)) (buffering_min_ms b)\<rparr>))
          else Inr (b\<lparr>t_buffering_updated := now\<rparr>))
      else Inr b)"

text \<open>
  \<^verbatim>\<open>auto peer_id = (unsigned int)(peer->localID()) < 64\<close> declares a \<^verbatim>\<open>bool\<close>, so the mask is \<^verbatim>\<open>1 << 1\<close>.
\<close>

definition note_peer :: "int \<Rightarrow> NetBuffer \<Rightarrow> NetBuffer" where
  "note_peer localID b =
     (if 0 \<le> localID \<and> localID < 64
      then b\<lparr>dbg_streams_peers_mask := dbg_streams_peers_mask b OR push_bit 1 1\<rparr> else b)"

text \<open>\<^verbatim>\<open>try_emplace\<close>\<close>

definition queue_for :: "int \<Rightarrow> StreamPacket \<Rightarrow> NetBuffer \<Rightarrow> PacketQueue" where
  "queue_for now spkt b = (case map_of (packet_queue b) (packet_FrameID spkt) of
     Some q \<Rightarrow> q
   | None \<Rightarrow> \<lparr>pq_packets = [], ts_base_spkt = timestamp spkt, ts_base_local = now, incomplete_packet_count = Map.empty\<rparr>)"

text \<open>The packet counter of a timestamp: up by one, and down by the announced number at the end of the frame.\<close>

definition count_packet :: "StreamPacket \<Rightarrow> DataPacket \<Rightarrow> (int \<rightharpoonup> int) \<Rightarrow> (int \<rightharpoonup> int)" where
  "count_packet spkt dpkt m =
     (let c = (case m (timestamp spkt) of Some n \<Rightarrow> n | None \<Rightarrow> 0) + 1
            - (if channel spkt = kEndFrame then uint (packet_count dpkt) else 0) in
      if c = 0 then m(timestamp spkt := None) else m(timestamp spkt \<mapsto> c))"

definition enqueue :: "StreamPacket \<Rightarrow> DataPacket \<Rightarrow> PacketQueue \<Rightarrow> PacketQueue" where
  "enqueue spkt dpkt q = q\<lparr>
     pq_packets := pq_packets q @ [\<lparr>pb_spkt = spkt, pb_dpkt = dpkt,
       ts_rel = timestamp spkt - ts_base_spkt q, packet_consumed = False\<rparr>],
     incomplete_packet_count := count_packet spkt dpkt (incomplete_packet_count q)\<rparr>"

text \<open>\<^verbatim>\<open>queuePacket_\<close>: the new buffer and whether the thread is notified.\<close>

definition queuePacket :: "int \<Rightarrow> int \<Rightarrow> int \<Rightarrow> StreamPacket \<Rightarrow> DataPacket \<Rightarrow> NetBuffer \<Rightarrow> (NetBuffer \<times> bool) res" where
  "queuePacket now rtt localID spkt dpkt b =
     res_bind (adjust_buffering now rtt (note_peer localID b)) (\<lambda>b'.
       Inr (b'\<lparr>packet_queue := AList.update (packet_FrameID spkt) (enqueue spkt dpkt (queue_for now spkt b')) (packet_queue b')\<rparr>,
            netstream_thread_waiting b'))"

section \<open>Releasing\<close>

definition release_time :: "PacketQueue \<Rightarrow> int \<Rightarrow> PacketBuffer \<Rightarrow> int" where
  "release_time q buf e = ts_base_local q + ts_rel e + buf"

definition should_process_now :: "PacketQueue \<Rightarrow> bool \<Rightarrow> int \<Rightarrow> int \<Rightarrow> PacketBuffer \<Rightarrow> bool" where
  "should_process_now q sync buf now_u e =
     (let have_all_packets = (incomplete_packet_count q (timestamp (pb_spkt e)) = None) in
      if sync \<and> \<not> have_all_packets then False
      else if channel (pb_spkt e) = kEndFrame \<and> \<not> have_all_packets then False
      else release_time q buf e * 1000 < now_u)"

text \<open>The moved-from entry keeps everything but the data.\<close>

definition consume :: "PacketBuffer \<Rightarrow> PacketBuffer" where
  "consume e = e\<lparr>pb_dpkt := (pb_dpkt e)\<lparr>data := []\<rparr>, packet_consumed := True\<rparr>"

fun scan_packets :: "(PacketBuffer \<Rightarrow> bool) \<Rightarrow> (PacketBuffer \<Rightarrow> int) \<Rightarrow> PacketBuffer list \<Rightarrow> int
    \<Rightarrow> PacketPair list \<times> PacketBuffer list \<times> int" where
  "scan_packets rdy due [] nxt = ([], [], nxt)"
| "scan_packets rdy due (e # es) nxt =
     (if packet_consumed e then
        (case scan_packets rdy due es nxt of (ps, es', n) \<Rightarrow> (ps, e # es', n))
      else if rdy e then
        (case scan_packets rdy due es nxt of (ps, es', n) \<Rightarrow> ((pb_spkt e, pb_dpkt e) # ps, consume e # es', n))
      else
        (case scan_packets rdy due es (min (due e) nxt) of (ps, es', n) \<Rightarrow> (ps, e # es', n)))"

definition poll_queue :: "bool \<Rightarrow> int \<Rightarrow> int \<Rightarrow> PacketQueue \<Rightarrow> int \<Rightarrow> PacketPair list \<times> PacketQueue \<times> int" where
  "poll_queue sync buf now_u q nxt =
     (case scan_packets (should_process_now q sync buf now_u) (release_time q buf) (pq_packets q) nxt of
        (ps, es, n) \<Rightarrow> (ps, q\<lparr>pq_packets := dropWhile packet_consumed es\<rparr>, n))"

fun poll_queues :: "bool \<Rightarrow> int \<Rightarrow> int \<Rightarrow> (FrameID \<times> PacketQueue) list \<Rightarrow> int
    \<Rightarrow> PacketPair list \<times> (FrameID \<times> PacketQueue) list \<times> int" where
  "poll_queues sync buf now_u [] nxt = ([], [], nxt)"
| "poll_queues sync buf now_u ((f, q) # qs) nxt =
     (if pq_packets q = [] then
        (case poll_queues sync buf now_u qs nxt of (ps, qs', n) \<Rightarrow> (ps, (f, q) # qs', n))
      else
        (case poll_queue sync buf now_u q nxt of (ps1, q', n1) \<Rightarrow>
           case poll_queues sync buf now_u qs n1 of (ps, qs', n) \<Rightarrow> (ps1 @ ps, (f, q') # qs', n)))"

definition t_max_ms :: int where "t_max_ms = 2 ^ 63 - 1"

text \<open>
  One iteration of the loop of \<^verbatim>\<open>netstream_thread_\<close>: the packets released, the new buffer and the time
  of the next wake-up. With nothing queued the thread counts an underrun and waits for a packet
  (until \<open>net_resume\<close>).
\<close>

definition net_poll :: "int \<Rightarrow> NetBuffer \<Rightarrow> PacketPair list \<times> NetBuffer \<times> int" where
  "net_poll now_u b =
     (if list_all (\<lambda>(f, q). pq_packets q = []) (packet_queue b)
      then ([], b\<lparr>underruns := underruns b + 1, netstream_thread_waiting := True\<rparr>, t_max_ms)
      else (case poll_queues (synchronize_on_recv_timestamps b) (buffering b) now_u (packet_queue b) t_max_ms of
              (ps, qs, n) \<Rightarrow> (ps, b\<lparr>packet_queue := qs\<rparr>, n)))"

definition net_resume :: "NetBuffer \<Rightarrow> NetBuffer" where
  "net_resume b = b\<lparr>netstream_thread_waiting := False\<rparr>"

section \<open>Delivering\<close>

text \<open>
  The comparison of \<^verbatim>\<open>process_buffered_packets_\<close>, and insertion by it: a packet is placed after the
  last one it is not before. The comparison is no strict weak order, as an end-of-frame packet is before
  itself, and the standard leaves \<^verbatim>\<open>stable_sort\<close> with such a comparison undefined; what is modelled is a sort
  that compares different packets only. Two end-of-frame packets of one timestamp are then before
  each other, so their order is that of the sorting algorithm; all else is the same for every one.
\<close>

definition pkt_before :: "PacketPair \<Rightarrow> PacketPair \<Rightarrow> bool" where
  "pkt_before a b =
     (if timestamp (fst a) = timestamp (fst b) then channel (fst b) = kEndFrame
      else timestamp (fst a) < timestamp (fst b))"

definition insert_packet :: "PacketPair \<Rightarrow> PacketPair list \<Rightarrow> PacketPair list" where
  "insert_packet x xs = rev (dropWhile (pkt_before x) (rev xs)) @ x # rev (takeWhile (pkt_before x) (rev xs))"

definition sort_packets :: "PacketPair list \<Rightarrow> PacketPair list" where
  "sort_packets ps = fold insert_packet ps []"

text \<open>
  What the function does with the sorted packets: start a job of the batch, process in this thread,
  or wait for the batch.
\<close>

datatype action = Spawn PacketPair | Process PacketPair | Wait

definition packet_actions :: "PacketPair \<Rightarrow> action list" where
  "packet_actions p =
     (if channel (fst p) < 32 then [Spawn p]
      else if channel (fst p) = kEndFrame then [Wait, Process p] else [Process p])"

definition process_buffered_packets :: "PacketPair list \<Rightarrow> action list" where
  "process_buffered_packets ps = concat (map packet_actions (sort_packets ps)) @ [Wait]"

text \<open>
  The orders in which the packets can reach the consumer: a running job may complete at any moment,
  a wait ends when no job is running.
\<close>

inductive batch_run :: "action list \<Rightarrow> PacketPair list \<Rightarrow> PacketPair list \<Rightarrow> bool" where
  finished: "batch_run [] [] []"
| job: "batch_run as (js @ ks) tr \<Longrightarrow> batch_run as (js @ p # ks) (p # tr)"
| spawn: "batch_run as (p # js) tr \<Longrightarrow> batch_run (Spawn p # as) js tr"
| process: "batch_run as js tr \<Longrightarrow> batch_run (Process p # as) js (p # tr)"
| wait: "batch_run as [] tr \<Longrightarrow> batch_run (Wait # as) [] tr"

section \<open>Runs\<close>

datatype buf_event = Received int int int StreamPacket DataPacket | Poll int | Resume

text \<open>The buffer after a sequence of events, and the batches released, each by one iteration of the thread.\<close>

fun buf_run :: "buf_event list \<Rightarrow> NetBuffer \<Rightarrow> (NetBuffer \<times> PacketPair list list) res" where
  "buf_run [] b = Inr (b, [])"
| "buf_run (Received now rtt lid spkt dpkt # es) b =
     res_bind (queuePacket now rtt lid spkt dpkt b) (\<lambda>(b', _). buf_run es b')"
| "buf_run (Poll now_u # es) b =
     (case net_poll now_u b of (ps, b', _) \<Rightarrow>
        res_bind (buf_run es b') (\<lambda>(b'', bs). Inr (b'', ps # bs)))"
| "buf_run (Resume # es) b = buf_run es (net_resume b)"

section \<open>Sorting\<close>

definition pkt_le :: "PacketPair \<Rightarrow> PacketPair \<Rightarrow> bool" where
  "pkt_le a b \<longleftrightarrow> timestamp (fst a) < timestamp (fst b)
     \<or> timestamp (fst a) = timestamp (fst b) \<and> (channel (fst a) = kEndFrame \<longrightarrow> channel (fst b) = kEndFrame)"

lemma pkt_before_le: "pkt_before x y \<Longrightarrow> pkt_le x y" "\<not> pkt_before x y \<Longrightarrow> pkt_le y x"
  by (auto simp: pkt_before_def pkt_le_def split: if_splits)

lemma pkt_le_trans: "pkt_le x y \<Longrightarrow> pkt_le y z \<Longrightarrow> pkt_le x z"
  by (auto simp: pkt_le_def)

lemma mset_insert_packet [simp]: "mset (insert_packet x xs) = add_mset x (mset xs)"
proof -
  have "mset (rev xs) = mset (takeWhile (pkt_before x) (rev xs)) + mset (dropWhile (pkt_before x) (rev xs))"
    by (metis mset_append takeWhile_dropWhile_id)
  then show ?thesis by (simp add: insert_packet_def)
qed

lemma sorted_insert_packet:
  assumes "sorted_wrt pkt_le xs"
  shows "sorted_wrt pkt_le (insert_packet x xs)"
proof -
  let ?D = "rev (dropWhile (pkt_before x) (rev xs))" and ?T = "rev (takeWhile (pkt_before x) (rev xs))"
  have xs: "xs = ?D @ ?T"
    by (metis rev_append rev_rev_ident takeWhile_dropWhile_id)
  have ord: "sorted_wrt pkt_le ?D" "sorted_wrt pkt_le ?T" "\<And>d t. d \<in> set ?D \<Longrightarrow> t \<in> set ?T \<Longrightarrow> pkt_le d t"
    using assms xs sorted_wrt_append [of pkt_le ?D ?T] by auto
  have right: "pkt_le x t" if "t \<in> set ?T" for t
    using that by (auto dest: set_takeWhileD pkt_before_le)
  have left: "pkt_le d x" if "d \<in> set ?D" for d
  proof (cases "dropWhile (pkt_before x) (rev xs)")
    case Nil
    show ?thesis using that by (simp add: Nil del: dropWhile_eq_Nil_conv)
  next
    case (Cons z zs)
    then have z: "pkt_le z x" by (metis dropWhile_eq_Cons_conv pkt_before_le(2))
    have "d = z \<or> pkt_le d z"
      using that ord(1) Cons by (auto simp: sorted_wrt_append)
    then show ?thesis using z pkt_le_trans by blast
  qed
  show ?thesis
    unfolding insert_packet_def using ord left right by (auto simp: sorted_wrt_append)
qed

lemma fold_insert_packet:
  "sorted_wrt pkt_le xs \<Longrightarrow> sorted_wrt pkt_le (fold insert_packet ps xs) \<and> mset (fold insert_packet ps xs) = mset ps + mset xs"
  by (induction ps arbitrary: xs) (simp_all add: sorted_insert_packet)

lemma sort_packets_sorted: "sorted_wrt pkt_le (sort_packets ps)"
  and mset_sort_packets [simp]: "mset (sort_packets ps) = mset ps"
  using fold_insert_packet [of "[]" ps] by (simp_all add: sort_packets_def)

section \<open>Batches\<close>

fun action_packets :: "action list \<Rightarrow> PacketPair list" where
  "action_packets [] = []"
| "action_packets (Spawn p # as) = p # action_packets as"
| "action_packets (Process p # as) = p # action_packets as"
| "action_packets (Wait # as) = action_packets as"

lemma action_packets_append [simp]: "action_packets (as @ bs) = action_packets as @ action_packets bs"
  by (induction as rule: action_packets.induct) simp_all

lemma action_packets_of [simp]: "action_packets (concat (map packet_actions ps)) = ps"
  by (induction ps) (simp_all add: packet_actions_def)

inductive_cases batch_run_ProcessE: "batch_run (Process p # as) [] tr"
inductive_cases batch_run_endE: "batch_run [] [] tr"

lemma batch_run_wait:
  assumes "batch_run cs js tr" "cs = as @ Wait # bs"
  shows "\<exists>t1 t2. tr = t1 @ t2 \<and> mset t1 = mset js + mset (action_packets as) \<and> batch_run bs [] t2"
  using assms
proof (induction arbitrary: as rule: batch_run.induct)
  case finished
  then show ?case by simp
next
  case (job cs js ks tr p)
  then obtain t1 t2 where "tr = t1 @ t2" "mset t1 = mset (js @ ks) + mset (action_packets as)" "batch_run bs [] t2"
    by blast
  then show ?case by (intro exI [of _ "p # t1"] exI [of _ t2]) simp
next
  case (spawn cs p js tr)
  then obtain as' where as: "as = Spawn p # as'" "cs = as' @ Wait # bs" by (cases as) auto
  then obtain t1 t2 where "tr = t1 @ t2" "mset t1 = mset (p # js) + mset (action_packets as')" "batch_run bs [] t2"
    using spawn.IH by blast
  then show ?case using as by (intro exI [of _ t1] exI [of _ t2]) simp
next
  case (process cs js tr p)
  then obtain as' where as: "as = Process p # as'" "cs = as' @ Wait # bs" by (cases as) auto
  then obtain t1 t2 where "tr = t1 @ t2" "mset t1 = mset js + mset (action_packets as')" "batch_run bs [] t2"
    using process.IH by blast
  then show ?case using as by (intro exI [of _ "p # t1"] exI [of _ t2]) simp
next
  case (wait cs tr)
  show ?case
  proof (cases as)
    case Nil
    then show ?thesis using wait by (intro exI [of _ "[]"] exI [of _ tr]) simp
  next
    case (Cons a as')
    then have as: "as = Wait # as'" "cs = as' @ Wait # bs" using wait.prems by auto
    then obtain t1 t2 where "tr = t1 @ t2" "mset t1 = mset [] + mset (action_packets as')" "batch_run bs [] t2"
      using wait.IH by blast
    then show ?thesis using as by (intro exI [of _ t1] exI [of _ t2]) simp
  qed
qed

lemma batch_run_mset: "batch_run (process_buffered_packets ps) [] tr \<Longrightarrow> mset tr = mset ps"
  using batch_run_wait [of "process_buffered_packets ps" "[]" tr "concat (map packet_actions (sort_packets ps))" "[]"]
  by (auto simp: process_buffered_packets_def elim: batch_run_endE)

lemma batch_run_endframe:
  assumes "batch_run (process_buffered_packets ps) [] tr" "sort_packets ps = l @ e # r" "channel (fst e) = kEndFrame"
  shows "\<exists>t1 t2. tr = t1 @ e # t2 \<and> mset t1 = mset l \<and> mset t2 = mset r"
proof -
  have split: "process_buffered_packets ps
      = concat (map packet_actions l) @ Wait # Process e # concat (map packet_actions r) @ [Wait]"
    by (simp add: process_buffered_packets_def assms(2,3) packet_actions_def kEndFrame_def)
  obtain t1 t2 where t: "tr = t1 @ t2" "mset t1 = mset l"
      "batch_run (Process e # concat (map packet_actions r) @ [Wait]) [] t2"
    using batch_run_wait [OF assms(1) split] by auto
  then obtain t3 where t3: "t2 = e # t3" by (auto elim: batch_run_ProcessE)
  have "mset tr = mset (l @ e # r)" using batch_run_mset [OF assms(1)] assms(2) mset_sort_packets by metis
  then show ?thesis using t t3 by auto
qed

section \<open>Invariant of the buffer\<close>

text \<open>
  \<open>recd\<close> are the packets queued so far and \<open>dl\<close> those released. For each frame: released and pending
  packets together are the received ones, and the counter of a timestamp is the number of packets
  received for it less the numbers announced by end-of-frame packets.
\<close>

abbreviation on_frame :: "FrameID \<Rightarrow> PacketPair \<Rightarrow> bool" where
  "on_frame f p \<equiv> packet_FrameID (fst p) = f"

definition same_frame :: "PacketPair \<Rightarrow> PacketPair \<Rightarrow> bool" where
  "same_frame p p' \<longleftrightarrow> on_frame (packet_FrameID (fst p)) p' \<and> timestamp (fst p') = timestamp (fst p)"

definition ends_frame :: "PacketPair \<Rightarrow> PacketPair \<Rightarrow> bool" where
  "ends_frame p p' \<longleftrightarrow> same_frame p p' \<and> channel (fst p') = kEndFrame"

definition balance :: "PacketPair list \<Rightarrow> int \<Rightarrow> int" where
  "balance ps t = sum_list (map (\<lambda>p. 1 - (if channel (fst p) = kEndFrame then uint (packet_count (snd p)) else 0))
     (filter (\<lambda>p. timestamp (fst p) = t) ps))"

lemma balance_simps [simp]:
  "balance [] t = 0"
  "balance (ps @ [p]) t = (if timestamp (fst p) = t
     then balance ps t + 1 - (if channel (fst p) = kEndFrame then uint (packet_count (snd p)) else 0) else balance ps t)"
  by (simp_all add: balance_def)

definition pb_pair :: "PacketBuffer \<Rightarrow> PacketPair" where
  "pb_pair e = (pb_spkt e, pb_dpkt e)"

definition pending :: "PacketQueue \<Rightarrow> PacketPair list" where
  "pending q = map pb_pair (filter (\<lambda>e. \<not> packet_consumed e) (pq_packets q))"

definition counts_ok :: "PacketPair list \<Rightarrow> (int \<rightharpoonup> int) \<Rightarrow> bool" where
  "counts_ok recd m \<longleftrightarrow> (\<forall>t. m t = (if balance recd t = 0 then None else Some (balance recd t)))"

definition queue_inv :: "PacketPair list \<Rightarrow> PacketPair list \<Rightarrow> PacketQueue \<Rightarrow> bool" where
  "queue_inv recd dl q \<longleftrightarrow> mset recd = mset dl + mset (pending q)
     \<and> (\<forall>e \<in> set (pq_packets q). ts_rel e = timestamp (pb_spkt e) - ts_base_spkt q)
     \<and> counts_ok recd (incomplete_packet_count q)"

definition buf_inv :: "PacketPair list \<Rightarrow> PacketPair list \<Rightarrow> (FrameID \<times> PacketQueue) list \<Rightarrow> bool" where
  "buf_inv recd dl qs \<longleftrightarrow> distinct (map fst qs)
     \<and> (\<forall>f q. map_of qs f = Some q \<longrightarrow> queue_inv (filter (on_frame f) recd) (filter (on_frame f) dl) q)
     \<and> (\<forall>f. map_of qs f = None \<longrightarrow> filter (on_frame f) recd = [] \<and> filter (on_frame f) dl = [])"

lemma counts_ok_count: "counts_ok recd m \<Longrightarrow> counts_ok (recd @ [(spkt, dpkt)]) (count_packet spkt dpkt m)"
  by (auto simp: counts_ok_def count_packet_def Let_def split: if_splits)

lemma queue_inv_enqueue:
  "queue_inv recd dl q \<Longrightarrow> queue_inv (recd @ [(spkt, dpkt)]) dl (enqueue spkt dpkt q)"
  by (auto simp: queue_inv_def enqueue_def pending_def pb_pair_def intro: counts_ok_count)

lemma adjust_buffering_queue: "adjust_buffering now rtt b = Inr b' \<Longrightarrow> packet_queue b' = packet_queue b"
  by (auto simp: adjust_buffering_def res_bind_Inr split: if_splits)

lemma note_peer_queue [simp]: "packet_queue (note_peer l b) = packet_queue b"
  by (simp add: note_peer_def)

lemma queuePacket_inv:
  assumes "buf_inv recd dl (packet_queue b)" "queuePacket now rtt lid spkt dpkt b = Inr (b', n)"
  shows "buf_inv (recd @ [(spkt, dpkt)]) dl (packet_queue b')"
proof -
  let ?f = "packet_FrameID spkt"
  obtain b1 where b1: "adjust_buffering now rtt (note_peer lid b) = Inr b1" and
      b': "b' = b1\<lparr>packet_queue := AList.update ?f (enqueue spkt dpkt (queue_for now spkt b1)) (packet_queue b1)\<rparr>"
    using assms(2) by (auto simp: queuePacket_def res_bind_Inr)
  have q: "packet_queue b1 = packet_queue b" using adjust_buffering_queue [OF b1] by simp
  have "queue_inv (filter (on_frame ?f) recd) (filter (on_frame ?f) dl) (queue_for now spkt b1)"
  proof (cases "map_of (packet_queue b) ?f")
    case None
    then have "filter (on_frame ?f) recd = []" "filter (on_frame ?f) dl = []" using assms(1) by (auto simp: buf_inv_def)
    then show ?thesis
      by (simp only:) (simp add: queue_for_def q None queue_inv_def pending_def counts_ok_def)
  next
    case (Some x)
    then show ?thesis using assms(1) by (simp add: buf_inv_def queue_for_def q)
  qed
  then have "queue_inv (filter (on_frame ?f) recd @ [(spkt, dpkt)]) (filter (on_frame ?f) dl)
      (enqueue spkt dpkt (queue_for now spkt b1))"
    by (rule queue_inv_enqueue)
  then show ?thesis
    using assms(1) by (auto simp: buf_inv_def b' q update_conv' distinct_update)
qed

text \<open>The scan loop in closed form.\<close>

lemma scan_packets_eq:
  "scan_packets rdy due es nxt =
     (map pb_pair (filter (\<lambda>e. \<not> packet_consumed e \<and> rdy e) es),
      map (\<lambda>e. if \<not> packet_consumed e \<and> rdy e then consume e else e) es,
      fold min (map due (filter (\<lambda>e. \<not> packet_consumed e \<and> \<not> rdy e) es)) nxt)"
  by (induction es arbitrary: nxt) (simp_all add: pb_pair_def)

lemma pending_dropWhile:
  "filter (\<lambda>e. \<not> packet_consumed e) (dropWhile packet_consumed es) = filter (\<lambda>e. \<not> packet_consumed e) es"
  by (induction es) simp_all

lemma filter_consumed:
  "filter (\<lambda>e. \<not> packet_consumed e) (map (\<lambda>e. if \<not> packet_consumed e \<and> rdy e then consume e else e) es)
     = filter (\<lambda>e. \<not> packet_consumed e \<and> \<not> rdy e) es"
  by (induction es) (simp_all add: consume_def)

lemma poll_queue_eq:
  assumes "poll_queue sync buf now_u q nxt = (ps, q', n)"
  defines "rdy \<equiv> should_process_now q sync buf now_u"
  shows "ps = map pb_pair (filter (\<lambda>e. \<not> packet_consumed e \<and> rdy e) (pq_packets q))"
    and "pending q' = map pb_pair (filter (\<lambda>e. \<not> packet_consumed e \<and> \<not> rdy e) (pq_packets q))"
    and "ts_base_spkt q' = ts_base_spkt q" "ts_base_local q' = ts_base_local q"
      "incomplete_packet_count q' = incomplete_packet_count q"
    and "\<forall>e \<in> set (pq_packets q'). \<exists>e' \<in> set (pq_packets q). pb_spkt e = pb_spkt e' \<and> ts_rel e = ts_rel e'"
proof -
  let ?es = "map (\<lambda>e. if \<not> packet_consumed e \<and> rdy e then consume e else e) (pq_packets q)"
  have q': "q' = q\<lparr>pq_packets := dropWhile packet_consumed ?es\<rparr>"
      and ps: "ps = map pb_pair (filter (\<lambda>e. \<not> packet_consumed e \<and> rdy e) (pq_packets q))"
    using assms(1) by (auto simp: poll_queue_def scan_packets_eq rdy_def)
  show "ps = map pb_pair (filter (\<lambda>e. \<not> packet_consumed e \<and> rdy e) (pq_packets q))" by (rule ps)
  have "filter (\<lambda>e. \<not> packet_consumed e) ?es = filter (\<lambda>e. \<not> packet_consumed e \<and> \<not> rdy e) (pq_packets q)"
    by (rule filter_consumed)
  then show "pending q' = map pb_pair (filter (\<lambda>e. \<not> packet_consumed e \<and> \<not> rdy e) (pq_packets q))"
    by (simp add: pending_def q' pending_dropWhile)
  show "ts_base_spkt q' = ts_base_spkt q" "ts_base_local q' = ts_base_local q"
      "incomplete_packet_count q' = incomplete_packet_count q"
    by (simp_all add: q')
  show "\<forall>e \<in> set (pq_packets q'). \<exists>e' \<in> set (pq_packets q). pb_spkt e = pb_spkt e' \<and> ts_rel e = ts_rel e'"
    by (fastforce simp: q' consume_def dest!: set_dropWhileD split: if_splits)
qed

lemma poll_queue_empty: "pq_packets q = [] \<Longrightarrow> poll_queue sync buf now_u q nxt = ([], q, nxt)"
  by (cases q) (simp add: poll_queue_def)

lemma poll_queue_frame:
  "poll_queue sync buf now_u q nxt = (ps, q', n) \<Longrightarrow> p \<in> set ps \<Longrightarrow> p \<in> set (pending q)"
  by (drule poll_queue_eq(1)) (auto simp: pending_def)

lemma poll_queues_queue:
  assumes "poll_queues sync buf now_u qs nxt = (ps, qs', n)" "distinct (map fst qs)"
    and "\<forall>(f, q) \<in> set qs. \<forall>p \<in> set (pending q). on_frame f p"
  shows "map fst qs' = map fst qs
    \<and> (\<forall>f q. map_of qs f = Some q \<longrightarrow>
         (\<exists>q' nx n'. map_of qs' f = Some q' \<and> poll_queue sync buf now_u q nx = (filter (on_frame f) ps, q', n')))
    \<and> (\<forall>f. map_of qs f = None \<longrightarrow> filter (on_frame f) ps = [])"
  using assms
proof (induction qs arbitrary: nxt ps qs' n)
  case Nil
  then show ?case by simp
next
  case (Cons fq qs)
  obtain g q where fq: "fq = (g, q)" by (cases fq)
  obtain ps1 q1 n1 where p1: "poll_queue sync buf now_u q nxt = (ps1, q1, n1)" by (cases "poll_queue sync buf now_u q nxt") auto
  obtain ps2 qs2 n2 where p2: "poll_queues sync buf now_u qs n1 = (ps2, qs2, n2)" by (cases "poll_queues sync buf now_u qs n1") auto
  have res: "ps = ps1 @ ps2" "qs' = (g, q1) # qs2" "n = n2"
    using Cons.prems(1) p1 p2 by (auto simp: fq poll_queue_empty split: if_splits)
  note IH = Cons.IH [OF p2]
  have on_g: "on_frame g p" if "p \<in> set ps1" for p
    using poll_queue_frame [OF p1 that] Cons.prems(3) by (auto simp: fq)
  have g2: "filter (on_frame g) ps2 = []"
    using IH Cons.prems(2,3) by (auto simp: fq map_of_eq_None_iff)
  have g1: "filter (on_frame g) ps1 = ps1" using on_g by simp
  have f1: "filter (on_frame f) ps1 = []" if "f \<noteq> g" for f using on_g that by (auto simp: filter_empty_conv)
  show ?case
    using IH Cons.prems(2,3) p1 by (auto simp: fq res g1 g2 f1)
qed

lemma buf_inv_pending:
  assumes "buf_inv recd dl qs"
  shows "\<forall>(f, q) \<in> set qs. \<forall>p \<in> set (pending q). on_frame f p"
proof (clarify)
  fix f q p assume q: "(f, q) \<in> set qs" and p: "p \<in> set (pending q)"
  have "map_of qs f = Some q" using q assms by (simp add: buf_inv_def)
  then have "mset (filter (on_frame f) recd) = mset (filter (on_frame f) dl) + mset (pending q)"
    using assms by (auto simp: buf_inv_def queue_inv_def)
  then have "p \<in> set (filter (on_frame f) recd)" using p by (metis set_mset_mset union_iff)
  then show "on_frame f p" by simp
qed

text \<open>
  A poll keeps the invariant, and when it releases an end-of-frame packet, then the counter of the
  frame is balanced and nothing of the frame stays behind.
\<close>

lemma image_mset_split:
  "image_mset f {#x \<in># M. P x#} = image_mset f {#x \<in># M. P x \<and> Q x#} + image_mset f {#x \<in># M. P x \<and> \<not> Q x#}"
  by (induction M) simp_all

lemma poll_queue_inv:
  assumes "queue_inv recd dl q" "poll_queue sync buf now_u q nxt = (ps, q', n)"
  shows "queue_inv recd (dl @ ps) q'"
    and "p \<in> set ps \<Longrightarrow> channel (fst p) = kEndFrame \<Longrightarrow>
      balance recd (timestamp (fst p)) = 0 \<and> (\<forall>p' \<in> set (pending q'). timestamp (fst p') \<noteq> timestamp (fst p))"
proof -
  note eq = poll_queue_eq [OF assms(2)]
  let ?rdy = "should_process_now q sync buf now_u"
  have "mset (pending q) = mset ps + mset (pending q')"
    using image_mset_split [of pb_pair "\<lambda>e. \<not> packet_consumed e" "mset (pq_packets q)" ?rdy]
    by (simp only: eq(1,2) pending_def [of q] mset_map mset_filter)
  then show "queue_inv recd (dl @ ps) q'"
    using assms(1) eq(6) by (auto simp: queue_inv_def eq(3,5))
  assume "p \<in> set ps" and end': "channel (fst p) = kEndFrame"
  then obtain e where e: "e \<in> set (pq_packets q)" "p = pb_pair e" "?rdy e" by (auto simp: eq(1))
  then have none: "incomplete_packet_count q (timestamp (fst p)) = None" and due: "release_time q buf e * 1000 < now_u"
    using end' by (auto simp: should_process_now_def pb_pair_def Let_def split: if_splits)
  have "timestamp (pb_spkt e') \<noteq> timestamp (fst p)" if "e' \<in> set (pq_packets q)" "\<not> ?rdy e'" for e'
    using that e(1,2) none due assms(1)
    by (auto simp: should_process_now_def queue_inv_def release_time_def pb_pair_def)
  then show "balance recd (timestamp (fst p)) = 0 \<and> (\<forall>p' \<in> set (pending q'). timestamp (fst p') \<noteq> timestamp (fst p))"
    using none assms(1) by (auto simp: queue_inv_def counts_ok_def eq(2) pb_pair_def split: if_splits)
qed

lemma net_poll_frame:
  assumes "buf_inv recd dl (packet_queue b)" "net_poll now_u b = (ps, b', n)"
  defines "pq \<equiv> poll_queue (synchronize_on_recv_timestamps b) (buffering b) now_u"
  shows "map fst (packet_queue b') = map fst (packet_queue b)"
    and "map_of (packet_queue b) f = Some q \<Longrightarrow>
      \<exists>q' nx n'. map_of (packet_queue b') f = Some q' \<and> pq q nx = (filter (on_frame f) ps, q', n')"
    and "map_of (packet_queue b) f = None \<Longrightarrow> filter (on_frame f) ps = []"
proof -
  have d: "distinct (map fst (packet_queue b))" using assms(1) by (simp add: buf_inv_def)
  show "map fst (packet_queue b') = map fst (packet_queue b)"
    and "map_of (packet_queue b) f = Some q \<Longrightarrow>
      \<exists>q' nx n'. map_of (packet_queue b') f = Some q' \<and> pq q nx = (filter (on_frame f) ps, q', n')"
    and "map_of (packet_queue b) f = None \<Longrightarrow> filter (on_frame f) ps = []"
  proof (atomize (full), cases "list_all (\<lambda>(f, q). pq_packets q = []) (packet_queue b)")
    case True
    then have "ps = []" "packet_queue b' = packet_queue b" using assms(2) by (auto simp: net_poll_def)
    moreover have "pq_packets q = []" if "map_of (packet_queue b) f = Some q"
      using True map_of_SomeD [OF that] by (auto simp: list_all_iff)
    ultimately show "map fst (packet_queue b') = map fst (packet_queue b)
      \<and> (map_of (packet_queue b) f = Some q \<longrightarrow> (\<exists>q' nx n'. map_of (packet_queue b') f = Some q' \<and> pq q nx = (filter (on_frame f) ps, q', n')))
      \<and> (map_of (packet_queue b) f = None \<longrightarrow> filter (on_frame f) ps = [])"
      by (simp add: pq_def poll_queue_empty)
  next
    case False
    then have "poll_queues (synchronize_on_recv_timestamps b) (buffering b) now_u (packet_queue b) t_max_ms = (ps, packet_queue b', n)"
      using assms(2) by (auto simp: net_poll_def split: prod.splits)
    from poll_queues_queue [OF this d buf_inv_pending [OF assms(1)]]
    show "map fst (packet_queue b') = map fst (packet_queue b)
      \<and> (map_of (packet_queue b) f = Some q \<longrightarrow> (\<exists>q' nx n'. map_of (packet_queue b') f = Some q' \<and> pq q nx = (filter (on_frame f) ps, q', n')))
      \<and> (map_of (packet_queue b) f = None \<longrightarrow> filter (on_frame f) ps = [])"
      unfolding pq_def by blast
  qed
qed

lemma net_poll_queue:
  assumes "buf_inv recd dl (packet_queue b)" "net_poll now_u b = (ps, b', n)" "map_of (packet_queue b') f = Some q'"
  shows "\<exists>q sync buf nx n'. queue_inv (filter (on_frame f) recd) (filter (on_frame f) dl) q
    \<and> poll_queue sync buf now_u q nx = (filter (on_frame f) ps, q', n')"
proof -
  note fr = net_poll_frame [OF assms(1,2)]
  have "f \<in> fst ` set (packet_queue b')" using map_of_SomeD [OF assms(3)] by force
  then have "f \<in> fst ` set (packet_queue b)" using fr(1) by (metis list.set_map)
  then obtain q where q: "map_of (packet_queue b) f = Some q" by (metis map_of_eq_None_iff option.exhaust)
  then have "queue_inv (filter (on_frame f) recd) (filter (on_frame f) dl) q"
    using assms(1) by (auto simp: buf_inv_def)
  then show ?thesis using fr(2) [OF q] assms(3) by (metis option.inject)
qed

lemma net_poll_inv:
  assumes "buf_inv recd dl (packet_queue b)" "net_poll now_u b = (ps, b', n)"
  shows "buf_inv recd (dl @ ps) (packet_queue b')"
proof -
  note fr = net_poll_frame [OF assms(1,2)]
  have "queue_inv (filter (on_frame f) recd) (filter (on_frame f) (dl @ ps)) q'"
    if "map_of (packet_queue b') f = Some q'" for f q'
    using net_poll_queue [OF assms that] poll_queue_inv(1) by fastforce
  moreover have "filter (on_frame f) recd = [] \<and> filter (on_frame f) (dl @ ps) = []"
    if "map_of (packet_queue b') f = None" for f
  proof -
    have "map_of (packet_queue b) f = None" using that fr(1) by (metis list.set_map map_of_eq_None_iff)
    then show ?thesis using assms(1) fr(3) by (simp add: buf_inv_def)
  qed
  ultimately show ?thesis using assms(1) fr(1) by (simp add: buf_inv_def)
qed

lemma filter_same_frame:
  "filter (same_frame p) xs = filter (\<lambda>x. timestamp (fst x) = timestamp (fst p)) (filter (on_frame (packet_FrameID (fst p))) xs)"
  by (simp add: same_frame_def [abs_def])

lemma net_poll_endframe:
  assumes "buf_inv recd dl (packet_queue b)" "net_poll now_u b = (ps, b', n)"
    and "p \<in> set ps" "channel (fst p) = kEndFrame"
  shows "balance (filter (on_frame (packet_FrameID (fst p))) recd) (timestamp (fst p)) = 0"
    and "mset (filter (same_frame p) recd) = mset (filter (same_frame p) (dl @ ps))"
proof -
  let ?f = "packet_FrameID (fst p)"
  note fr = net_poll_frame [OF assms(1,2)]
  have pf: "p \<in> set (filter (on_frame ?f) ps)" using assms(3) by simp
  then obtain q' where q': "map_of (packet_queue b') ?f = Some q'"
    using fr(2,3) by (metis empty_iff list.set(1) not_None_eq)
  obtain q sync buf nx n' where q: "queue_inv (filter (on_frame ?f) recd) (filter (on_frame ?f) dl) q"
      "poll_queue sync buf now_u q nx = (filter (on_frame ?f) ps, q', n')"
    using net_poll_queue [OF assms(1,2) q'] by blast
  note rel = poll_queue_inv(2) [OF q pf assms(4)]
  show "balance (filter (on_frame ?f) recd) (timestamp (fst p)) = 0" using rel by simp
  have "mset (filter (on_frame ?f) recd) = mset (filter (on_frame ?f) (dl @ ps)) + mset (pending q')"
    using poll_queue_inv(1) [OF q] by (simp add: queue_inv_def)
  then have "mset (filter (same_frame p) recd) = mset (filter (same_frame p) (dl @ ps))
      + mset (filter (\<lambda>x. timestamp (fst x) = timestamp (fst p)) (pending q'))"
    unfolding filter_same_frame mset_filter [of "\<lambda>x. timestamp (fst x) = timestamp (fst p)"] by simp
  then show "mset (filter (same_frame p) recd) = mset (filter (same_frame p) (dl @ ps))"
    using rel by (simp add: filter_empty_conv)
qed

section \<open>Runs keep every packet and complete frames\<close>

fun received :: "buf_event list \<Rightarrow> PacketPair list" where
  "received [] = []"
| "received (Received now rtt lid spkt dpkt # es) = (spkt, dpkt) # received es"
| "received (Poll now_u # es) = received es"
| "received (Resume # es) = received es"

lemma buf_inv_new: "buf_inv [] [] (packet_queue new_NetBuffer)"
  by (simp add: buf_inv_def new_NetBuffer_def)

lemma buf_run_inv:
  assumes "buf_run es b = Inr (b', bs)" "buf_inv recd dl (packet_queue b)"
  shows "buf_inv (recd @ received es) (dl @ concat bs) (packet_queue b')"
  using assms
proof (induction es b arbitrary: bs recd dl rule: buf_run.induct)
  case (2 now rtt lid spkt dpkt es b)
  then obtain b1 n where b1: "queuePacket now rtt lid spkt dpkt b = Inr (b1, n)" "buf_run es b1 = Inr (b', bs)"
    by (auto simp: res_bind_Inr)
  show ?case using "2.IH" [OF b1(2) queuePacket_inv [OF "2.prems"(2) b1(1)]] by simp
next
  case (3 now_u es b)
  obtain ps b1 n where p: "net_poll now_u b = (ps, b1, n)" by (cases "net_poll now_u b") auto
  then obtain bs' where bs': "buf_run es b1 = Inr (b', bs')" "bs = ps # bs'"
    using "3.prems"(1) by (auto simp: res_bind_Inr)
  show ?case using "3.IH" [OF p [symmetric] refl bs'(1) net_poll_inv [OF "3.prems"(2) p]] bs'(2) by simp
qed (auto simp: net_resume_def)

lemma buf_run_endframe:
  assumes "buf_run es b = Inr (b', bs1 @ ps # bs2)" "buf_inv recd dl (packet_queue b)"
    and "p \<in> set ps" "channel (fst p) = kEndFrame"
  shows "\<exists>r1 r2. received es = r1 @ r2
    \<and> balance (filter (on_frame (packet_FrameID (fst p))) (recd @ r1)) (timestamp (fst p)) = 0
    \<and> mset (filter (same_frame p) (recd @ r1)) = mset (filter (same_frame p) (dl @ concat bs1 @ ps))"
  using assms(1,2)
proof (induction es b arbitrary: bs1 recd dl rule: buf_run.induct)
  case (2 now rtt lid spkt dpkt es b)
  then obtain b1 n where b1: "queuePacket now rtt lid spkt dpkt b = Inr (b1, n)" "buf_run es b1 = Inr (b', bs1 @ ps # bs2)"
    by (auto simp: res_bind_Inr)
  from "2.IH" [OF b1(2) queuePacket_inv [OF "2.prems"(2) b1(1)]] obtain r1 r2 where
    "received es = r1 @ r2"
    "balance (filter (on_frame (packet_FrameID (fst p))) (recd @ (spkt, dpkt) # r1)) (timestamp (fst p)) = 0"
    "mset (filter (same_frame p) (recd @ (spkt, dpkt) # r1)) = mset (filter (same_frame p) (dl @ concat bs1 @ ps))"
    by auto
  then show ?case by (intro exI [of _ "(spkt, dpkt) # r1"] exI [of _ r2]) simp
next
  case (3 now_u es b)
  obtain ps' b1 n where pl: "net_poll now_u b = (ps', b1, n)" by (cases "net_poll now_u b") auto
  then obtain bs' where bs': "buf_run es b1 = Inr (b', bs')" "bs1 @ ps # bs2 = ps' # bs'"
    using "3.prems"(1) by (auto simp: res_bind_Inr)
  show ?case
  proof (cases bs1)
    case Nil
    then have "ps = ps'" using bs'(2) by simp
    then show ?thesis
      using net_poll_endframe [OF "3.prems"(2) pl] assms(3,4) Nil
      by (intro exI [of _ "[]"] exI [of _ "received es"]) simp
  next
    case (Cons c cs)
    then have "c = ps'" "buf_run es b1 = Inr (b', cs @ ps # bs2)" using bs' by auto
    from "3.IH" [OF pl [symmetric] refl this(2) net_poll_inv [OF "3.prems"(2) pl]] show ?thesis
      using Cons \<open>c = ps'\<close> by simp
  qed
qed (auto simp: net_resume_def)

lemma concat_split_at:
  "concat xss = u @ x # v \<Longrightarrow> \<exists>as u' v' bs. xss = as @ (u' @ x # v') # bs \<and> u = concat as @ u'"
proof (induction xss arbitrary: u)
  case (Cons xs xss)
  have "xs @ concat xss = u @ x # v" using Cons.prems by simp
  then obtain us where us: "xs = u @ us \<and> us @ concat xss = x # v \<or> xs @ us = u \<and> concat xss = us @ x # v"
    by (auto simp: append_eq_append_conv2)
  then consider (here) v' where "xs = u @ x # v'" | (later) "xs @ us = u" "concat xss = us @ x # v"
    using Cons.prems by (cases us) auto
  then show ?case
  proof cases
    case here
    then show ?thesis by (intro exI [of _ "[]"] exI [of _ u] exI [of _ v'] exI [of _ xss]) simp
  next
    case later
    obtain as u' v' bs where "xss = as @ (u' @ x # v') # bs" "us = concat as @ u'"
      using Cons.IH [OF later(2)] by blast
    then show ?thesis using later(1) by (intro exI [of _ "xs # as"]) auto
  qed
qed simp

lemma batches_mset: "list_all2 (\<lambda>ps tr. batch_run (process_buffered_packets ps) [] tr) bs trs \<Longrightarrow> mset (concat trs) = mset (concat bs)"
  by (induction rule: list_all2_induct) (simp_all add: batch_run_mset)

lemma balance_one:
  assumes "filter (\<lambda>p. channel (fst p) = kEndFrame) ps = [e]" "\<forall>p \<in> set ps. timestamp (fst p) = t"
  shows "balance ps t = int (length ps) - uint (packet_count (snd e))"
proof -
  have "balance ps t = (\<Sum>p\<leftarrow>ps. 1 - (if channel (fst p) = kEndFrame then uint (packet_count (snd p)) else 0))"
    using assms(2) by (simp add: balance_def)
  also have "\<dots> = int (length ps) - (\<Sum>p\<leftarrow>filter (\<lambda>p. channel (fst p) = kEndFrame) ps. uint (packet_count (snd p)))"
    by (induction ps) simp_all
  finally show ?thesis using assms(1) by simp
qed

text \<open>The last packet of a batch for a frame with one end-of-frame packet is that packet.\<close>

lemma batch_run_frame:
  assumes "batch_run (process_buffered_packets ps) [] (u @ p # v)" "channel (fst p) = kEndFrame"
    and "filter (ends_frame p) ps = [p]"
  shows "mset (filter (same_frame p) (u @ [p])) = mset (filter (same_frame p) ps)"
proof -
  have "p \<in> set (filter (ends_frame p) ps)" by (simp only: assms(3) list.set_intros)
  then have "p \<in> set ps" by simp
  then have "p \<in> set (sort_packets ps)" by (metis mset_sort_packets set_mset_mset)
  then obtain l r where lr: "sort_packets ps = l @ p # r" by (meson split_list)
  obtain t1 t2 where t: "u @ p # v = t1 @ p # t2" "mset t1 = mset l" "mset t2 = mset r"
    using batch_run_endframe [OF assms(1) lr assms(2)] by blast
  have "mset ps = mset (l @ p # r)" using lr mset_sort_packets by metis
  then have m: "mset (filter P ps) = mset (filter P l) + (if P p then {#p#} else {#}) + mset (filter P r)" for P
    by simp
  have pp: "same_frame p p" "ends_frame p p" using assms(2) by (simp_all add: same_frame_def ends_frame_def)
  have none: "filter (ends_frame p) l = []" "filter (ends_frame p) r = []"
    using m [of "ends_frame p"] by (auto simp: assms(3) pp simp flip: mset_filter)
  have "pkt_le p x" if "x \<in> set r" for x
    using sort_packets_sorted [of ps] that by (simp add: lr sorted_wrt_append)
  then have "filter (same_frame p) r = []"
    using none(2) assms(2) by (fastforce simp: filter_empty_conv pkt_le_def same_frame_def ends_frame_def)
  then have f: "mset (filter (same_frame p) ps) = mset (filter (same_frame p) (l @ [p]))"
    using m [of "same_frame p"] pp(1) by (simp flip: mset_filter)
  have "p \<notin> set l" "p \<notin> set r" using none pp by (auto simp: filter_empty_conv)
  then have "p \<notin> set t1" "p \<notin> set t2" using t(2,3) by (metis set_mset_mset)+
  then have "u = t1" using t(1) by (metis append_Cons_eq_iff)
  then show ?thesis using f t(2) by (metis filter_append mset_append mset_filter)
qed

section \<open>Properties\<close>

text \<open>
  C6: The end-of-frame packet comes last, and only when the frame is complete. In every run of the
  receive buffer, and however the jobs of each batch are scheduled: if the consumer sees the
  end-of-frame packet \<open>p\<close> of a frame (one that has no second one, and of which no more packets come in
  than \<open>p\<close> announces), then all \<^verbatim>\<open>packet_count\<close> packets of the frame have been received and the consumer
  has seen every one of them, exactly once, up to and including \<open>p\<close>.
\<close>

theorem endframe_delivered_last:
  assumes run: "buf_run es new_NetBuffer = Inr (b, bs)"
    and sched: "list_all2 (\<lambda>ps tr. batch_run (process_buffered_packets ps) [] tr) bs trs"
    and seen_p: "concat trs = u @ p # v" "channel (fst p) = kEndFrame"
    and one: "filter (ends_frame p) (received es) = [p]"
    and most: "length (filter (same_frame p) (received es)) \<le> unat (packet_count (snd p))"
  shows "mset (filter (same_frame p) (u @ [p])) = mset (filter (same_frame p) (received es))
    \<and> length (filter (same_frame p) (u @ [p])) = unat (packet_count (snd p))"
proof -
  let ?R = "filter (same_frame p) (received es)"
  obtain ts1 u' v' ts2 where ts: "trs = ts1 @ (u' @ p # v') # ts2" "u = concat ts1 @ u'"
    using concat_split_at [OF seen_p(1)] by blast
  then obtain bs1 ps bs2 where bs: "bs = bs1 @ ps # bs2"
      and tr: "batch_run (process_buffered_packets ps) [] (u' @ p # v')"
      and pre: "list_all2 (\<lambda>ps tr. batch_run (process_buffered_packets ps) [] tr) bs1 ts1"
    using sched by (auto simp: list_all2_append2 list_all2_Cons2)
  have pps: "p \<in> set ps" using batch_run_mset [OF tr] by (metis in_set_conv_decomp set_mset_mset)
  obtain r1 r2 where r: "received es = r1 @ r2"
      "balance (filter (on_frame (packet_FrameID (fst p))) r1) (timestamp (fst p)) = 0"
      "mset (filter (same_frame p) r1) = mset (filter (same_frame p) (concat bs1 @ ps))"
    using buf_run_endframe [OF run [unfolded bs] buf_inv_new pps seen_p(2)] by auto
  have ends: "filter (ends_frame p) xs = filter (\<lambda>x. channel (fst x) = kEndFrame) (filter (same_frame p) xs)" for xs
    by (simp add: ends_frame_def [abs_def])
  have pp: "ends_frame p p" using seen_p(2) by (simp add: same_frame_def ends_frame_def)
  have r1': "mset (filter (ends_frame p) r1) = mset (filter (ends_frame p) (concat bs1 @ ps))"
    using arg_cong [OF r(3), of "filter_mset (\<lambda>x. channel (fst x) = kEndFrame)"]
    by (simp only: ends mset_filter)
  have in_ps: "p \<in> set (filter (ends_frame p) ps)" using pps pp by simp
  then have in_r1: "p \<in> set (filter (ends_frame p) r1)" using arg_cong [OF r1', of set_mset] by auto
  have "filter (ends_frame p) r1 @ filter (ends_frame p) r2 = [p]" using one by (simp add: r(1))
  then have ends1: "filter (ends_frame p) r1 = [p]"
    using in_r1 by (cases "filter (ends_frame p) r1") (simp_all del: set_filter)
  have "balance (filter (same_frame p) r1) (timestamp (fst p)) = 0"
    using r(2) by (simp add: filter_same_frame balance_def)
  moreover have "balance (filter (same_frame p) r1) (timestamp (fst p))
      = int (length (filter (same_frame p) r1)) - uint (packet_count (snd p))"
    by (rule balance_one) (simp_all only: ends1 ends [symmetric], simp add: same_frame_def)
  ultimately have len: "length (filter (same_frame p) r1) = unat (packet_count (snd p))"
    by (metis eq_iff_diff_eq_0 of_nat_eq_iff uint_nat)
  then have r2: "filter (same_frame p) r2 = []" using most by (simp add: r(1))
  then have R: "mset ?R = mset (filter (same_frame p) (concat bs1 @ ps))" using r(3) by (simp add: r(1))
  have "mset (filter (ends_frame p) (concat bs1 @ ps)) = {#p#}" by (simp only: r1' [symmetric] ends1 mset.simps add_mset_eq_singleton_iff)
  then have "filter (ends_frame p) (concat bs1) @ filter (ends_frame p) ps = [p]"
    by (simp only: mset_single_iff filter_append)
  then have "filter (ends_frame p) ps = [p]"
    using in_ps by (cases "filter (ends_frame p) (concat bs1)") (simp_all del: set_filter)
  note this_batch = batch_run_frame [OF tr seen_p(2) this]
  have before: "mset (filter (same_frame p) (concat ts1)) = mset (filter (same_frame p) (concat bs1))"
    using batches_mset [OF pre] by (metis mset_filter)
  have "mset (filter (same_frame p) (u @ [p])) = mset (filter (same_frame p) (concat ts1)) + mset (filter (same_frame p) (u' @ [p]))"
    by (simp only: ts(2) append_assoc filter_append mset_append)
  then have "mset (filter (same_frame p) (u @ [p])) = mset ?R"
    by (simp only: before this_batch R) (simp only: filter_append mset_append)
  then show ?thesis using len r2 by (metis append_Nil2 filter_append mset_eq_length r(1))
qed

definition example_spkt :: "Channel \<Rightarrow> int \<Rightarrow> StreamPacket" where
  "example_spkt c t = \<lparr>version = 5, timestamp = t, streamID = 0, frame_number = 0, channel = c, flags = 0,
     localTimestamp = t, hint_capability = 0, hint_source_total = 0, retry_count = 0, hint_peerid = 0\<rparr>"

definition example_colour :: PacketPair where
  "example_colour = (example_spkt kColour 100, default_DataPacket\<lparr>data := [1, 2, 3]\<rparr>)"

definition example_end :: PacketPair where
  "example_end = (example_spkt kEndFrame 100, default_DataPacket\<lparr>dataFlags := 2\<rparr>)"

definition example_events :: "buf_event list" where
  "example_events = [Received 5 10 1 (fst example_end) (snd example_end), Poll 6000,
     Received 7 10 1 (fst example_colour) (snd example_colour), Poll 8000]"

lemmas example_defs = example_events_def example_colour_def example_end_def example_spkt_def
  default_DataPacket_def kColour_def kEndFrame_def



lemma example_run: "\<exists>b. buf_run example_events new_NetBuffer = Inr (b, [[], [example_end, example_colour]])"
  by (simp add: example_defs new_NetBuffer_def queuePacket_def note_peer_def adjust_buffering_def queue_for_def
      enqueue_def count_packet_def net_poll_def poll_queue_def should_process_now_def release_time_def consume_def
      packet_FrameID_def mk_FrameID_def)

theorem endframe_delivered_last_witness:
  "length (filter (same_frame example_end) ([example_colour] @ [example_end])) = 2"
proof -
  obtain b where run: "buf_run example_events new_NetBuffer = Inr (b, [[], [example_end, example_colour]])"
    using example_run by blast
  have sorted: "sort_packets [example_end, example_colour] = [example_colour, example_end]"
    by (simp add: sort_packets_def insert_packet_def pkt_before_def example_defs)
  have "batch_run [Spawn example_colour, Wait, Process example_end, Wait] [] [example_colour, example_end]"
    by (rule batch_run.spawn, rule batch_run.job [where js = "[]", simplified])
       (simp_all add: batch_run.wait batch_run.process batch_run.finished)
  moreover have "packet_actions example_colour = [Spawn example_colour]"
      "packet_actions example_end = [Wait, Process example_end]"
    by (simp_all add: packet_actions_def example_defs)
  ultimately have b2: "batch_run (process_buffered_packets [example_end, example_colour]) [] [example_colour, example_end]"
    by (simp add: process_buffered_packets_def sorted)
  have b1: "batch_run (process_buffered_packets []) [] []"
    by (simp add: process_buffered_packets_def sort_packets_def batch_run.wait batch_run.finished)
  from endframe_delivered_last [OF run, of "[[], [example_colour, example_end]]" "[example_colour]" example_end "[]"] b1 b2
  show ?thesis
    by (simp add: example_defs same_frame_def ends_frame_def packet_FrameID_def)
qed

text \<open>
  C23: No packet is lost and none is delivered twice: at every moment the packets received for a frame
  are those released to the consumer and those still pending in the queue of the frame, counted
  with multiplicity; and the packet counter of a timestamp is missing exactly when the packets
  received balance the numbers announced.
\<close>

theorem buffer_conserves_packets:
  assumes "buf_run es new_NetBuffer = Inr (b, bs)"
  shows "mset (filter (on_frame f) (received es)) = mset (filter (on_frame f) (concat bs))
      + (case map_of (packet_queue b) f of None \<Rightarrow> {#} | Some q \<Rightarrow> mset (pending q))
    \<and> (\<forall>q t. map_of (packet_queue b) f = Some q \<longrightarrow>
         (incomplete_packet_count q t = None \<longleftrightarrow> balance (filter (on_frame f) (received es)) t = 0))"
proof -
  have inv: "buf_inv (received es) (concat bs) (packet_queue b)"
    using buf_run_inv [OF assms buf_inv_new] by simp
  show ?thesis
  proof (cases "map_of (packet_queue b) f")
    case None
    then have "filter (on_frame f) (received es) = []" "filter (on_frame f) (concat bs) = []"
      using inv by (auto simp: buf_inv_def)
    then show ?thesis by (simp only: None) simp
  next
    case (Some q)
    then have "queue_inv (filter (on_frame f) (received es)) (filter (on_frame f) (concat bs)) q"
      using inv by (simp add: buf_inv_def)
    then show ?thesis by (auto simp: Some queue_inv_def counts_ok_def)
  qed
qed

theorem buffer_conserves_packets_witness:
  "mset (filter (on_frame 0) (received example_events)) = {#example_end, example_colour#}"
proof -
  obtain b where run: "buf_run example_events new_NetBuffer = Inr (b, [[], [example_end, example_colour]])"
    using example_run by blast
  have "size (mset (filter (on_frame 0) (received example_events))) = 2"
    by (simp add: example_defs packet_FrameID_def mk_FrameID_def)
  moreover have "filter (on_frame 0) (concat [[], [example_end, example_colour]]) = [example_end, example_colour]"
    by (simp add: example_defs packet_FrameID_def mk_FrameID_def)
  ultimately show ?thesis
    using conjunct1 [OF buffer_conserves_packets [OF run, of 0]]
    by (auto simp: size_eq_0_iff_empty split: option.splits)
qed

text \<open>
  After an underrun the automatic adjustment can make the delay shorter: a delay that is less than
  20 ms above the target derived from the round trip time is set to the target, so it drops by up
  to 19 ms although the buffer has just run empty. Otherwise it grows by 20 ms.
\<close>

theorem underrun_can_shrink:
  assumes "buffering_auto b" "now - t_buffering_updated b > buffering_update_delay_ms b" "underruns b > 0"
    and "float_times_2_1 rtt = Inr target" "buffering_min_ms b \<le> target"
  shows "\<exists>b'. adjust_buffering now rtt b = Inr b' \<and> underruns b' = 0 \<and> last_underrun_buffering b' = buffering b
    \<and> buffering b' = (if buffering b < target + 20 then target else buffering b + 20)"
  using assms by (auto simp: adjust_buffering_def)

lemma float_example: "float_times_2_1 10 = Inr 21"
  by code_simp

theorem underrun_can_shrink_witness:
  "\<exists>b'. adjust_buffering 1000 10 (new_NetBuffer\<lparr>buffering_auto := True, underruns := 1, buffering := 40\<rparr>) = Inr b'
     \<and> buffering b' = 21"
  using underrun_can_shrink [of "new_NetBuffer\<lparr>buffering_auto := True, underruns := 1, buffering := 40\<rparr>" 1000 10 21]
  by (auto simp: new_NetBuffer_def float_example)

end
