(* ===== verification/FTL_UUID.thy ===== *)
theory FTL_UUID
  imports FTL_Prelude
begin

text \<open>
  Universally unique identifiers (\<^verbatim>\<open>uuid.hpp\<close>): sixteen bytes, with comparison, printing and the
  order that \<^verbatim>\<open>std::map\<close> uses when the universe looks up a peer. Generation and parsing are done by
  libuuid; the parser is an argument of the constructor that uses it.
\<close>

type_synonym UUID = "u8 list"

definition well_formed_UUID :: "UUID \<Rightarrow> bool" where
  "well_formed_UUID u \<longleftrightarrow> length u = 16"

section \<open>Construction and comparison\<close>

text \<open>\<^verbatim>\<open>memset(uuid_, u, 16)\<close> stores the low byte of the argument.\<close>

definition uuid_of_int :: "int \<Rightarrow> UUID" where
  "uuid_of_int u = replicate 16 (word_of_int u)"

text \<open>\<open>uuid_parse\<close> is libuuid's: \<open>None\<close> where it returns a negative number.\<close>

definition uuid_of_string :: "(string \<Rightarrow> UUID option) \<Rightarrow> string \<Rightarrow> UUID" where
  "uuid_of_string uuid_parse s = (case uuid_parse s of None \<Rightarrow> replicate 16 0 | Some u \<Rightarrow> u)"

definition uuid_eq :: "UUID \<Rightarrow> UUID \<Rightarrow> bool" where
  "uuid_eq a b \<longleftrightarrow> take 16 a = take 16 b"

definition uuid_neq :: "UUID \<Rightarrow> UUID \<Rightarrow> bool" where
  "uuid_neq a b \<longleftrightarrow> take 16 a \<noteq> take 16 b"

text \<open>\<^verbatim>\<open>strncmp\<close>: bytes as unsigned numbers, up to \<open>n\<close> of them, ending after a zero byte.\<close>

fun strncmp :: "nat \<Rightarrow> u8 list \<Rightarrow> u8 list \<Rightarrow> int" where
  "strncmp (Suc n) (a # as) (b # bs) =
     (if a \<noteq> b then (if a < b then - 1 else 1) else if a = 0 then 0 else strncmp n as bs)"
| "strncmp _ _ _ = 0"

definition uuid_less :: "UUID \<Rightarrow> UUID \<Rightarrow> bool" where
  "uuid_less a b \<longleftrightarrow> strncmp 16 a b < 0"

definition uuid_is_valid :: "UUID \<Rightarrow> bool" where
  "uuid_is_valid u \<longleftrightarrow> \<not> fold (\<lambda>b z. z \<and> 0 = b) (take 16 u) True"

section \<open>Printing\<close>

definition hex_digit :: "u8 \<Rightarrow> char" where
  "hex_digit d = (''0123456789abcdef'') ! unat d"

definition hex_byte :: "u8 \<Rightarrow> string" where
  "hex_byte b = [hex_digit (drop_bit 4 b AND 15), hex_digit (b AND 15)]"

definition hex_bytes :: "nat \<Rightarrow> nat \<Rightarrow> UUID \<Rightarrow> string" where
  "hex_bytes i j u = concat (map hex_byte (take (j - i) (drop i u)))"

definition uuid_to_string :: "UUID \<Rightarrow> string" where
  "uuid_to_string u = hex_bytes 0 4 u @ ''-'' @ hex_bytes 4 6 u @ ''-'' @ hex_bytes 6 8 u @ ''-''
     @ hex_bytes 8 10 u @ ''-'' @ hex_bytes 10 16 u"

section \<open>Printing is injective\<close>

text \<open>Reading two digits back, as a reference for the printer.\<close>

definition hex_value :: "char \<Rightarrow> u8" where
  "hex_value c = (if of_char c < (58 :: nat) then of_char c - 48 else of_char c - 87)"

fun unhex :: "string \<Rightarrow> u8 list" where
  "unhex (a # b # s) = (push_bit 4 (hex_value a) OR hex_value b) # unhex s"
| "unhex _ = []"

definition uuid_read :: "string \<Rightarrow> UUID" where
  "uuid_read s = unhex (filter (\<lambda>c. c \<noteq> CHR ''-'') s)"

definition nibbles :: "u8 list" where
  "nibbles = [0, 1, 2, 3, 4, 5, 6, 7, 8, 9, 10, 11, 12, 13, 14, 15]"

lemma less_16_nibbles:
  assumes "x < (16 :: u8)"
  shows "x \<in> set nibbles"
proof -
  have "0 \<le> uint x" "uint x < 16" using assms by (simp_all add: word_less_def)
  then have "uint x = 0 \<or> uint x = 1 \<or> uint x = 2 \<or> uint x = 3 \<or> uint x = 4 \<or> uint x = 5 \<or> uint x = 6 \<or> uint x = 7
    \<or> uint x = 8 \<or> uint x = 9 \<or> uint x = 10 \<or> uint x = 11 \<or> uint x = 12 \<or> uint x = 13 \<or> uint x = 14 \<or> uint x = 15"
    by presburger
  then show ?thesis by (simp add: nibbles_def word_uint_eq_iff)
qed

lemma hex_digits_read: "list_all (\<lambda>x. hex_value (hex_digit x) = x \<and> hex_digit x \<noteq> CHR ''-'') nibbles"
  by code_simp

lemma hex_value_digit:
  assumes "x < 16"
  shows "hex_value (hex_digit x) = x" "hex_digit x \<noteq> CHR ''-''"
  using less_16_nibbles [OF assms] hex_digits_read by (simp_all add: list_all_iff)

lemma nibble_less: "x AND 15 < (16 :: u8)"
  by (rule le_less_trans [OF word_and_le1]) simp

lemma nibbles_join: "push_bit 4 (drop_bit 4 b AND 15) OR (b AND 15) = (b :: u8)"
proof (rule bit_word_eqI)
  fix n assume "n < LENGTH(8)"
  have m: "(15 :: u8) = mask 4" by (simp add: mask_eq_exp_minus_1)
  from \<open>n < LENGTH(8)\<close> show "bit (push_bit 4 (drop_bit 4 b AND 15) OR (b AND 15)) n = bit b n"
    unfolding m by (auto simp: bit_simps)
qed

lemma filter_hex_bytes: "filter (\<lambda>c. c \<noteq> CHR ''-'') (concat (map hex_byte bs)) = concat (map hex_byte bs)"
  by (induction bs) (simp_all add: hex_byte_def hex_value_digit nibble_less)

lemma unhex_hex_bytes: "unhex (concat (map hex_byte bs)) = bs"
proof (induction bs)
  case (Cons b bs)
  then show ?case
    using nibbles_join [of b] by (simp add: hex_byte_def hex_value_digit nibble_less del: push_bit_and)
qed simp

lemma uuid_read_to_string: "well_formed_UUID u \<Longrightarrow> uuid_read (uuid_to_string u) = u"
proof -
  assume u: "well_formed_UUID u"
  have "take 4 u @ take 2 (drop 4 u) @ take 2 (drop 6 u) @ take 2 (drop 8 u) @ take 6 (drop 10 u) = take 16 u"
    using take_add [of 4 12 u] take_add [of 2 10 "drop 4 u"] take_add [of 2 8 "drop 6 u"] take_add [of 2 6 "drop 8 u"]
    by simp
  moreover have "filter (\<lambda>c. c \<noteq> CHR ''-'') (uuid_to_string u) = concat (map hex_byte
      (take 4 u @ take 2 (drop 4 u) @ take 2 (drop 6 u) @ take 2 (drop 8 u) @ take 6 (drop 10 u)))"
    by (simp add: uuid_to_string_def hex_bytes_def filter_hex_bytes)
  ultimately show ?thesis
    using u by (simp add: uuid_read_def unhex_hex_bytes well_formed_UUID_def)
qed

section \<open>The order\<close>

lemma strncmp_sign:
  assumes "length a = n" "length b = n"
  shows "strncmp n b a = - strncmp n a b"
  using assms
proof (induction n arbitrary: a b)
  case (Suc n)
  then obtain x xs y ys where "a = x # xs" "b = y # ys" "length xs = n" "length ys = n"
    by (metis length_Suc_conv)
  with Suc.IH [of xs ys] show ?case
    by (cases x y rule: linorder_cases) (simp_all add: order.strict_implies_not_eq order_less_not_sym not_less_iff_gr_or_eq)
qed simp

lemma strncmp_zero_iff:
  assumes "length a = n" "length b = n"
  shows "strncmp n a b = 0 \<longleftrightarrow> takeWhile (\<lambda>x. x \<noteq> 0) a = takeWhile (\<lambda>x. x \<noteq> 0) b"
  using assms
proof (induction n arbitrary: a b)
  case (Suc n)
  then show ?case by (cases a; cases b) auto
qed simp

text \<open>
  Two identifiers are the same key of the map of peers (neither is less than the other) if and
  only if they agree up to their first zero byte, and the printed form distinguishes all identifiers.
\<close>

theorem uuid_keys:
  assumes "well_formed_UUID a" "well_formed_UUID b"
  shows "(\<not> uuid_less a b \<and> \<not> uuid_less b a) = (takeWhile (\<lambda>x. x \<noteq> 0) a = takeWhile (\<lambda>x. x \<noteq> 0) b)
    \<and> (uuid_to_string a = uuid_to_string b) = uuid_eq a b"
proof
  have l: "length a = 16" "length b = 16" using assms by (simp_all add: well_formed_UUID_def)
  show "(\<not> uuid_less a b \<and> \<not> uuid_less b a) = (takeWhile (\<lambda>x. x \<noteq> 0) a = takeWhile (\<lambda>x. x \<noteq> 0) b)"
    using strncmp_sign [OF l] strncmp_zero_iff [OF l] by (simp add: uuid_less_def) linarith
  show "(uuid_to_string a = uuid_to_string b) = uuid_eq a b"
    using uuid_read_to_string assms l by (metis uuid_eq_def le_refl take_all)
qed

theorem uuid_keys_witness:
  "let a = uuid_of_int 0; b = 0 # replicate 15 7 in
     \<not> uuid_less a b \<and> \<not> uuid_less b a \<and> uuid_to_string a \<noteq> uuid_to_string b"
proof -
  have "well_formed_UUID (uuid_of_int 0) \<and> well_formed_UUID (0 # replicate 15 7) \<and> \<not> uuid_eq (uuid_of_int 0) (0 # replicate 15 7)
      \<and> takeWhile (\<lambda>x. x \<noteq> 0) (uuid_of_int 0) = takeWhile (\<lambda>x. x \<noteq> 0) (0 # replicate 15 7)"
    by code_simp
  then show ?thesis
    using uuid_keys [of "uuid_of_int 0" "0 # replicate 15 7"] by (simp add: Let_def)
qed

end
