(* ===== verification/FTL_NetStream.thy ===== *)
theory FTL_NetStream
  imports FTL_Iface FTL_NetBuffer FTL_URI FTL_UUID
begin

text \<open>
  The network stream (\<^verbatim>\<open>streams/netstream.cpp\<close>, \<^verbatim>\<open>netstream.hpp\<close>). A hosting stream keeps, per
  frame, the list of clients that requested it, with the channels wanted and the number of frames
  still owed; a receiving stream requests frames and passes what arrives through the receive
  buffer of \<^verbatim>\<open>FTL_NetBuffer\<close>.

  The network (\<^verbatim>\<open>ftl::net::Universe\<close> and its peers) is reached through the record \<open>net_ops\<close>, functions of
  the state \<open>'w\<close> of everything behind it, including the clock; nothing is assumed of them. The order
  in which an \<^verbatim>\<open>unordered_set\<close> is iterated is a field too. Calls of stream callbacks are outputs. The
  static statistics counters are kept with the stream.
\<close>

section \<open>State\<close>

record StreamClientLocal =
  peerid :: int
  txcount :: int
  client_channels :: u32
  quality :: u8

record Net =
  nbase :: stream_state
  net_active :: bool
  npeer :: "UUID option"
  nuri :: string
  nbase_uri :: string
  nhost :: bool
  tally :: "int list"
  nbitrate :: u8
  bytes_received :: int
  paused :: bool
  frames_to_request :: int
  nname :: string
  nbuffer :: NetBuffer
  buffering_disabled_channels :: "Channel set"
  clients_local :: "FrameID \<rightharpoonup> StreamClientLocal list"
  dbg_send :: "u64 \<rightharpoonup> int"
  dbg_recv :: "u64 \<rightharpoonup> int"
  req_bitrate :: u64
  tx_bitrate :: u64
  rx_sample_count :: u64
  tx_sample_count :: u64

record 'w net_ops =
  n_time :: "'w \<Rightarrow> int"
  n_getPeer :: "int \<Rightarrow> 'w \<Rightarrow> bool"
  n_peer_send :: "int \<Rightarrow> string \<Rightarrow> int \<Rightarrow> StreamPacket \<Rightarrow> DataPacket \<Rightarrow> 'w \<Rightarrow> int res \<times> 'w"
  n_send :: "UUID \<Rightarrow> string \<Rightarrow> int \<Rightarrow> StreamPacket \<Rightarrow> DataPacket \<Rightarrow> 'w \<Rightarrow> bool res \<times> 'w"
  n_send_enable :: "UUID \<Rightarrow> string \<Rightarrow> u32 \<Rightarrow> u32 \<Rightarrow> 'w \<Rightarrow> 'w"
  n_isBound :: "string \<Rightarrow> 'w \<Rightarrow> bool"
  n_bind :: "string \<Rightarrow> 'w \<Rightarrow> 'w"
  n_unbind :: "string \<Rightarrow> 'w \<Rightarrow> 'w"
  n_broadcast :: "string \<Rightarrow> string \<Rightarrow> 'w \<Rightarrow> 'w"
  n_findOne :: "string \<Rightarrow> string \<Rightarrow> 'w \<Rightarrow> UUID option \<times> 'w"
  n_getWebService :: "'w \<Rightarrow> UUID option"
  n_frames :: "FrameID set \<Rightarrow> FrameID list"
  n_channels :: "Channel set \<Rightarrow> Channel list"

text \<open>What the stream reports: a callback of the base class, or the client connection callback.\<close>

datatype net_out = Stream_out stream_out | Client_connect int

definition kFramesToRequest :: int where "kFramesToRequest = 80"

text \<open>
  The constructor. \<open>hostname\<close> is what \<^verbatim>\<open>gethostname\<close> fills in; the string keeps its length of 1024.
\<close>

definition net_create :: "uri_env \<Rightarrow> string \<Rightarrow> string \<Rightarrow> bool \<Rightarrow> Net res" where
  "net_create env hostname uri host =
     res_bind (uri_parse env uri) (\<lambda>u.
       if \<not> m_valid u \<or> m_proto u \<noteq> SCHEME_FTL then Inl (FTL_Error ''Bad stream URI'')
       else Inr \<lparr>nbase = Map.empty, net_active = False, npeer = None, nuri = uri, nbase_uri = m_base u, nhost = host,
         tally = [0, 0, 0, 0, 0], nbitrate = 255, bytes_received = 0, paused = False, frames_to_request = kFramesToRequest,
         nname = (if host then take 1024 (hostname @ replicate 1024 (CHR 0x00)) else ''No name''),
         nbuffer = new_NetBuffer, buffering_disabled_channels = {}, clients_local = Map.empty,
         dbg_send = Map.empty, dbg_recv = Map.empty,
         req_bitrate = 0, tx_bitrate = 0, rx_sample_count = 0, tx_sample_count = 0\<rparr>)"

section \<open>The registry of hosted streams\<close>

text \<open>The RPC \<^verbatim>\<open>find_stream\<close>: compares base URIs, so that query strings do not matter.\<close>

fun find_stream :: "uri_env \<Rightarrow> UUID \<Rightarrow> string \<Rightarrow> string list \<Rightarrow> (UUID option) res" where
  "find_stream env own base [] = Inr None"
| "find_stream env own base (s # ss) = res_bind (uri_parse env s) (\<lambda>u2.
     if base = m_base u2 then Inr (Some own) else find_stream env own base ss)"

definition rpc_find_stream :: "uri_env \<Rightarrow> UUID \<Rightarrow> string \<Rightarrow> string list \<Rightarrow> (UUID option) res" where
  "rpc_find_stream env own uri streams = res_bind (uri_parse env uri) (\<lambda>u1. find_stream env own (m_base u1) streams)"

section \<open>Sending\<close>

text \<open>The order check compiled in by \<^verbatim>\<open>DEBUG_NETSTREAM\<close>; an error is logged when the result is true.\<close>

definition dbg_key :: "StreamPacket \<Rightarrow> u64" where
  "dbg_key spkt = push_bit 32 (ucast (mk_FrameID (ucast (frameSetID spkt)) (word_of_int (frameNumber spkt))))
     OR word_of_int (channel spkt)"

definition dbg_check_pkt :: "(u64 \<rightharpoonup> int) \<Rightarrow> StreamPacket \<Rightarrow> bool \<times> (u64 \<rightharpoonup> int)" where
  "dbg_check_pkt ts spkt =
     (case ts (dbg_key spkt) of Some old \<Rightarrow> old > timestamp spkt | None \<Rightarrow> False, ts(dbg_key spkt \<mapsto> timestamp spkt))"

text \<open>\<^verbatim>\<open>net_send_\<close> to a peer converts the \<^verbatim>\<open>int\<close> of \<^verbatim>\<open>Peer::send\<close> to \<^verbatim>\<open>bool\<close>: only 0 is false.\<close>

definition net_send_peer :: "'w net_ops \<Rightarrow> int \<Rightarrow> int \<Rightarrow> StreamPacket \<Rightarrow> DataPacket \<Rightarrow> Net \<Rightarrow> 'w \<Rightarrow> bool res \<times> Net \<times> 'w" where
  "net_send_peer nt p latency spkt pkt n w =
     (case n_peer_send nt p (nbase_uri n) latency spkt pkt w of (r, w') \<Rightarrow>
        (res_bind r (\<lambda>k. Inr (k \<noteq> 0)), n\<lparr>dbg_send := snd (dbg_check_pkt (dbg_send n) spkt)\<rparr>, w'))"

definition net_send_uuid :: "'w net_ops \<Rightarrow> UUID \<Rightarrow> int \<Rightarrow> StreamPacket \<Rightarrow> DataPacket \<Rightarrow> Net \<Rightarrow> 'w \<Rightarrow> bool res \<times> Net \<times> 'w" where
  "net_send_uuid nt u latency spkt pkt n w =
     (case n_send nt u (nbase_uri n) latency spkt pkt w of (r, w') \<Rightarrow>
        (r, n\<lparr>dbg_send := snd (dbg_check_pkt (dbg_send n) spkt)\<rparr>, w'))"

definition checkTXRate :: "nat \<Rightarrow> Net \<Rightarrow> Net" where
  "checkTXRate sz n = n\<lparr>tx_bitrate := tx_bitrate n + of_nat (sz * 8), tx_sample_count := tx_sample_count n + 1\<rparr>"

definition checkRXRate :: "nat \<Rightarrow> Net \<Rightarrow> Net" where
  "checkRXRate sz n = n\<lparr>req_bitrate := req_bitrate n + of_nat (sz * 8), rx_sample_count := rx_sample_count n + 1\<rparr>"

text \<open>The version of a packet without its data.\<close>

definition pkt_strip :: "DataPacket \<Rightarrow> DataPacket" where
  "pkt_strip pkt = default_DataPacket\<lparr>codec := codec pkt, bitrate := bitrate pkt, frame_count := frame_count pkt,
     dataFlags := dataFlags pkt\<rparr>"

text \<open>\<^verbatim>\<open>1 << static_cast<int>(channel)\<close> for a channel below 32\<close>

definition channel_bit :: "Channel \<Rightarrow> u32 res" where
  "channel_bit c = (if 0 \<le> c then Inr (push_bit (nat c) 1) else Inl Undefined_behaviour)"

definition strip_for :: "StreamPacket \<Rightarrow> DataPacket \<Rightarrow> StreamClientLocal \<Rightarrow> bool res" where
  "strip_for spkt pkt c =
     (if channel spkt < 32 \<and> length (data pkt) > 0
      then res_bind (channel_bit (channel spkt)) (\<lambda>b. Inr (b AND client_channels c = 0)) else Inr False)"

definition pre_transmit_latency :: "'w net_ops \<Rightarrow> StreamPacket \<Rightarrow> 'w \<Rightarrow> int" where
  "pre_transmit_latency nt spkt w = cast_i16 (n_time nt w - localTimestamp spkt)"

definition send_client :: "'w net_ops \<Rightarrow> StreamPacket \<Rightarrow> DataPacket \<Rightarrow> StreamClientLocal \<Rightarrow> Net \<Rightarrow> 'w
    \<Rightarrow> (StreamClientLocal \<times> Net \<times> 'w) res" where
  "send_client nt spkt pkt c n w =
     res_bind (strip_for spkt pkt c) (\<lambda>strip.
       if \<not> n_getPeer nt (peerid c) w then Inr (c\<lparr>txcount := 0\<rparr>, n, w)
       else
         (case net_send_peer nt (peerid c) (pre_transmit_latency nt spkt w) spkt (if strip then pkt_strip pkt else pkt) n w of
            (Inr True, n', w') \<Rightarrow>
              Inr (if channel spkt = kEndFrame then c\<lparr>txcount := txcount c - 1\<rparr> else c,
                   if \<not> strip \<and> length (data pkt) > 0 then checkTXRate (length (data pkt)) n' else n', w')
          | (_, n', w') \<Rightarrow> Inr (c\<lparr>txcount := 0\<rparr>, n', w')))"

fun send_clients :: "'w net_ops \<Rightarrow> StreamPacket \<Rightarrow> DataPacket \<Rightarrow> StreamClientLocal list \<Rightarrow> Net \<Rightarrow> 'w
    \<Rightarrow> (StreamClientLocal list \<times> Net \<times> 'w) res" where
  "send_clients nt spkt pkt [] n w = Inr ([], n, w)"
| "send_clients nt spkt pkt (c # cs) n w =
     res_bind (send_client nt spkt pkt c n w) (\<lambda>(c', n', w').
       res_bind (send_clients nt spkt pkt cs n' w') (\<lambda>(cs', n'', w''). Inr (c' # cs', n'', w'')))"

definition cleanUp :: "Net \<Rightarrow> Net" where
  "cleanUp n = n\<lparr>clients_local := (\<lambda>f. case clients_local n f of
       None \<Rightarrow> None
     | Some cs \<Rightarrow> (let cs' = filter (\<lambda>c. \<not> txcount c \<le> 0) cs in if cs' = [] then None else Some cs'))\<rparr>"

definition send_hosted :: "'w net_ops \<Rightarrow> StreamPacket \<Rightarrow> DataPacket \<Rightarrow> Net \<Rightarrow> 'w \<Rightarrow> (bool \<times> Net \<times> 'w) res" where
  "send_hosted nt spkt pkt n w =
     (case clients_local n (packet_FrameID spkt) of
        None \<Rightarrow> Inr (True, n, w)
      | Some cs \<Rightarrow>
         res_bind (send_clients nt spkt pkt cs n w) (\<lambda>(cs', n', w').
           let n'' = n'\<lparr>clients_local := (clients_local n')(packet_FrameID spkt \<mapsto> cs')\<rparr> in
           Inr (True, if list_ex (\<lambda>c. txcount c \<le> 0) cs' then cleanUp n'' else n'', w')))"

definition send_received :: "'w net_ops \<Rightarrow> StreamPacket \<Rightarrow> DataPacket \<Rightarrow> Net \<Rightarrow> 'w \<Rightarrow> (bool \<times> Net \<times> 'w) res" where
  "send_received nt spkt pkt n w =
     (case npeer n of
        None \<Rightarrow> Inl Undefined_behaviour
      | Some u \<Rightarrow>
         (case net_send_uuid nt u (pre_transmit_latency nt spkt w) spkt pkt n w of
            (Inl e, n', w') \<Rightarrow> Inr (False, n', w')
          | (Inr _, n', w') \<Rightarrow>
              Inr (True, if length (data pkt) > 0 then checkTXRate (length (data pkt)) n' else n', w')))"

definition net_send :: "'w net_ops \<Rightarrow> StreamPacket \<Rightarrow> DataPacket \<Rightarrow> Net \<Rightarrow> 'w \<Rightarrow> (bool \<times> Net \<times> 'w) res" where
  "net_send nt spkt pkt n w =
     (if \<not> net_active n then Inr (False, n, w)
      else if paused n then Inr (True, n, w)
      else if nhost n then send_hosted nt spkt pkt n w else send_received nt spkt pkt n w)"

definition net_post :: "'w net_ops \<Rightarrow> StreamPacket \<Rightarrow> DataPacket \<Rightarrow> Net \<Rightarrow> 'w \<Rightarrow> (bool \<times> Net \<times> 'w) res" where
  "net_post nt spkt pkt n w = res_bind (net_send nt spkt pkt n w) (\<lambda>(_, n', w'). Inr (True, n', w'))"

section \<open>Requests\<close>

definition request_packet :: "int \<Rightarrow> Channel \<Rightarrow> u8 \<Rightarrow> u8 \<Rightarrow> bool \<Rightarrow> StreamPacket" where
  "request_packet now c fs fr doreset = \<lparr>version = 5, timestamp = now, streamID = fs, frame_number = fr, channel = c,
     flags = (if doreset then kFlagRequest OR kFlagReset else kFlagRequest), localTimestamp = 0,
     hint_capability = 0, hint_source_total = 0, retry_count = 0, hint_peerid = 0\<rparr>"

definition sendRequest :: "'w net_ops \<Rightarrow> Channel \<Rightarrow> u8 \<Rightarrow> u8 \<Rightarrow> u8 \<Rightarrow> bool \<Rightarrow> Net \<Rightarrow> 'w \<Rightarrow> (Net \<times> 'w) res" where
  "sendRequest nt c fs fr cnt doreset n w =
     (if \<not> net_active n \<or> nhost n then Inr (n, w)
      else (case npeer n of
        None \<Rightarrow> Inl Undefined_behaviour
      | Some u \<Rightarrow>
         (case net_send_uuid nt u 0 (request_packet (n_time nt w) c fs fr doreset)
             \<lparr>codec = codec_kAny, reserved = 0, frame_count = cnt, bitrate = nbitrate n, dataFlags = 0, data = []\<rparr> n w of
            (r, n', w') \<Rightarrow> res_bind r (\<lambda>_. Inr (n', w')))))"

text \<open>One request per selected channel of a frame, and of several frames.\<close>

fun request_channels :: "'w net_ops \<Rightarrow> FrameID \<Rightarrow> bool \<Rightarrow> Channel list \<Rightarrow> Net \<Rightarrow> 'w \<Rightarrow> (Net \<times> 'w) res" where
  "request_channels nt f doreset [] n w = Inr (n, w)"
| "request_channels nt f doreset (c # cs) n w =
     res_bind (sendRequest nt c (ucast (frameset f)) (ucast (source f)) (word_of_int (frames_to_request n)) doreset n w)
       (\<lambda>(n', w'). request_channels nt f doreset cs n' w')"

fun request_enabled :: "'w net_ops \<Rightarrow> bool \<Rightarrow> FrameID list \<Rightarrow> Net \<Rightarrow> 'w \<Rightarrow> (Net \<times> 'w) res" where
  "request_enabled nt doreset [] n w = Inr (n, w)"
| "request_enabled nt doreset (f # fs) n w =
     res_bind (request_channels nt f doreset (n_channels nt (enabledChannels f (nbase n))) n w)
       (\<lambda>(n', w'). request_enabled nt doreset fs n' w')"

text \<open>The renewal of requests at the end of a frame. \<^verbatim>\<open>int\<close> division truncates.\<close>

definition half :: "int \<Rightarrow> int" where
  "half i = (if i < 0 then - ((- i) div 2) else i div 2)"

definition renew_requests :: "'w net_ops \<Rightarrow> FrameID \<Rightarrow> Net \<Rightarrow> 'w \<Rightarrow> (Net \<times> 'w) res" where
  "renew_requests nt f n w =
     (let k = unat (frameset f) in
      if tally n ! k \<le> half (frames_to_request n) then
        res_bind (request_enabled nt False (n_frames nt (enabled_frames_of (frameset f) (nbase n))) n w)
          (\<lambda>(n', w'). Inr (n'\<lparr>tally := (tally n')[k := frames_to_request n']\<rparr>, w'))
      else Inr (n\<lparr>tally := (tally n)[k := tally n ! k - 1]\<rparr>, w))"

definition is_request :: "StreamPacket \<Rightarrow> DataPacket \<Rightarrow> bool" where
  "is_request spkt pkt \<longleftrightarrow> data pkt = [] \<and> flags spkt AND kFlagRequest \<noteq> 0"

definition earlyProcessPacket :: "'w net_ops \<Rightarrow> StreamPacket \<Rightarrow> DataPacket \<Rightarrow> Net \<Rightarrow> 'w \<Rightarrow> (Net \<times> net_out list \<times> 'w) res" where
  "earlyProcessPacket nt spkt pkt n w =
     (if \<not> (streamID spkt < 5 \<or> streamID spkt = 255) then Inl Check_failed
      else
        let n1 = n\<lparr>dbg_recv := snd (dbg_check_pkt (dbg_recv n) spkt)\<rparr>; f = packet_FrameID spkt in
        if \<not> net_active n1 then Inr (n1, [], w)
        else
          res_bind (if nhost n1 \<and> is_request spkt pkt then Inr (nbase n1, []) else seen_out f (channel spkt) (nbase n1))
            (\<lambda>(s, out).
               let n2 = n1\<lparr>nbase := s\<rparr>; o2 = map Stream_out out in
               if paused n2 then Inr (n2, o2, w)
               else if \<not> nhost n2 \<and> channel spkt = kEndFrame \<and> unat (frameset f) < length (tally n2) then
                 res_bind (renew_requests nt f n2 w) (\<lambda>(n3, w'). Inr (n3, o2, w'))
               else Inr (n2, o2, w)))"

section \<open>Serving requests\<close>

definition update_client :: "StreamPacket \<Rightarrow> DataPacket \<Rightarrow> StreamClientLocal \<Rightarrow> StreamClientLocal res" where
  "update_client spkt pkt c =
     (let c' = c\<lparr>txcount := max (txcount c) (uint (frame_count pkt))\<rparr> in
      if channel spkt < 32
      then res_bind (channel_bit (channel spkt)) (\<lambda>b. Inr (c'\<lparr>client_channels := client_channels c' OR b\<rparr>))
      else Inr c')"

text \<open>The loop over the clients of a frame: those of the peer are updated.\<close>

fun update_clients :: "int \<Rightarrow> StreamPacket \<Rightarrow> DataPacket \<Rightarrow> StreamClientLocal list \<Rightarrow> (bool \<times> StreamClientLocal list) res" where
  "update_clients p spkt pkt [] = Inr (False, [])"
| "update_clients p spkt pkt (c # cs) =
     res_bind (if peerid c = p then update_client spkt pkt c else Inr c) (\<lambda>c'.
       res_bind (update_clients p spkt pkt cs) (\<lambda>(found, cs'). Inr (peerid c = p \<or> found, c' # cs')))"

definition new_client :: "int \<Rightarrow> StreamClientLocal" where
  "new_client p = \<lparr>peerid = p, txcount = 0, client_channels = 0, quality = 255\<rparr>"

text \<open>
  The client list of a frame after a request from the local peer \<open>p\<close>, and whether a client is new.
\<close>

definition note_client :: "int \<Rightarrow> StreamPacket \<Rightarrow> DataPacket \<Rightarrow> Net \<Rightarrow> (bool \<times> Net) res" where
  "note_client p spkt pkt n =
     (let f = packet_FrameID spkt; cs = (case clients_local n f of Some cs \<Rightarrow> cs | None \<Rightarrow> []) in
      res_bind (update_clients p spkt pkt cs) (\<lambda>(found, cs').
        if found then Inr (False, n\<lparr>clients_local := (clients_local n)(f \<mapsto> cs')\<rparr>)
        else res_bind (update_client spkt pkt (new_client p)) (\<lambda>c.
          Inr (True, n\<lparr>clients_local := (clients_local n)(f \<mapsto> cs' @ [c])\<rparr>))))"

text \<open>
  A request for one frame: \<open>p\<close> is the local id of the peer, if there is one. The result says whether
  the peer is a new client and gives the packet, whose bitrate the request limits.
\<close>

definition single_request :: "int option \<Rightarrow> StreamPacket \<Rightarrow> DataPacket \<Rightarrow> Net \<Rightarrow> (bool \<times> DataPacket \<times> Net \<times> net_out list) res" where
  "single_request p spkt pkt n =
     res_bind (case p of None \<Rightarrow> Inr (False, n) | Some i \<Rightarrow> note_client i spkt pkt n) (\<lambda>(new, n').
       let pkt' = (if channel spkt < 32 then pkt\<lparr>bitrate := min (bitrate pkt) (nbitrate n')\<rparr> else pkt);
           req = \<lparr>req_id = packet_FrameID spkt, req_channel = channel spkt, req_bitrate = uint (bitrate pkt'),
                  req_count = uint (frame_count pkt'), req_codec = codec pkt'\<rparr> in
       Inr (new, pkt', n', (if new then [Client_connect (the p)] else []) @ [Stream_out (Out_request req)]))"

definition wildcard_packet :: "StreamPacket \<Rightarrow> bool" where
  "wildcard_packet spkt \<longleftrightarrow> streamID spkt = 255 \<or> frame_number spkt = 255"

definition request_skips :: "StreamPacket \<Rightarrow> FrameID \<Rightarrow> bool" where
  "request_skips spkt i \<longleftrightarrow> streamID spkt \<noteq> 255 \<and> frameset i \<noteq> ucast (streamID spkt)
     \<or> frame_number spkt \<noteq> 255 \<and> source i \<noteq> ucast (frame_number spkt)"

definition with_frame :: "FrameID \<Rightarrow> StreamPacket \<Rightarrow> StreamPacket" where
  "with_frame i spkt = spkt\<lparr>streamID := ucast (frameset i), frame_number := ucast (source i)\<rparr>"

text \<open>The batch of requests for a wildcard, over the frames in iteration order.\<close>

fun request_each :: "(StreamPacket \<Rightarrow> DataPacket \<Rightarrow> Net \<Rightarrow> (bool \<times> DataPacket \<times> Net \<times> net_out list) res option)
    \<Rightarrow> StreamPacket \<Rightarrow> FrameID list \<Rightarrow> DataPacket \<Rightarrow> Net \<Rightarrow> (DataPacket \<times> Net \<times> net_out list) res option" where
  "request_each rec spkt [] pkt n = Some (Inr (pkt, n, []))"
| "request_each rec spkt (i # is) pkt n =
     (if request_skips spkt i then request_each rec spkt is pkt n
      else case rec (with_frame i spkt) pkt n of
        None \<Rightarrow> None
      | Some (Inl e) \<Rightarrow> Some (Inl e)
      | Some (Inr (_, pkt', n', out)) \<Rightarrow>
         (case request_each rec spkt is pkt' n' of
            None \<Rightarrow> None
          | Some (Inl e) \<Rightarrow> Some (Inl e)
          | Some (Inr (pkt'', n'', out')) \<Rightarrow> Some (Inr (pkt'', n'', out @ out'))))"

text \<open>
  \<^verbatim>\<open>_processRequest\<close> calls itself for each frame of a wildcard. The fuel is the depth of the calls; a
  request that never returns is \<open>None\<close> for every fuel.
\<close>

primrec processRequest :: "'w net_ops \<Rightarrow> nat \<Rightarrow> int option \<Rightarrow> StreamPacket \<Rightarrow> DataPacket \<Rightarrow> Net
    \<Rightarrow> (bool \<times> DataPacket \<times> Net \<times> net_out list) res option" where
  "processRequest nt 0 p spkt pkt n = None"
| "processRequest nt (Suc k) p spkt pkt n =
     (if wildcard_packet spkt then
        map_option (\<lambda>r. res_bind r (\<lambda>(pkt', n', out). Inr (False, pkt', n', out)))
          (request_each (\<lambda>s d m. processRequest nt k p s d m) spkt (n_frames nt (frames (nbase n))) pkt n)
      else Some (single_request p spkt pkt n))"

section \<open>Receiving\<close>

definition localise :: "int \<Rightarrow> int \<Rightarrow> StreamPacket \<Rightarrow> StreamPacket" where
  "localise now ttimeoff spkt =
     (let s = (if localTimestamp spkt = 0 then spkt\<lparr>localTimestamp := now - ttimeoff\<rparr> else spkt) in
      s\<lparr>hint_capability := 0, hint_source_total := 0, version := 4\<rparr>)"

definition processPacket :: "'w net_ops \<Rightarrow> nat \<Rightarrow> int option \<Rightarrow> int \<Rightarrow> StreamPacket \<Rightarrow> DataPacket \<Rightarrow> Net \<Rightarrow> 'w
    \<Rightarrow> (Net \<times> net_out list) res option" where
  "processPacket nt fuel p ttimeoff spkt_raw pkt n w =
     (if \<not> net_active n then Some (Inr (n, []))
      else
        let spkt = localise (n_time nt w) ttimeoff spkt_raw;
            n1 = n\<lparr>bytes_received := bytes_received n + int (length (data pkt))\<rparr> in
        map_option (\<lambda>r. res_bind r (\<lambda>(new, pkt', n2, out).
            let spkt' = (if new then spkt\<lparr>hint_capability := hint_capability spkt OR kStreamCap_NewConnection\<rparr> else spkt) in
            Inr (if length (data pkt') > 0 then checkRXRate (length (data pkt')) n2 else n2,
                 out @ [Stream_out (Out_packet spkt' pkt')])))
          (if nhost n1 \<and> is_request spkt pkt then processRequest nt fuel p spkt pkt n1
           else Some (Inr (False, pkt, n1, []))))"

definition net_inject :: "'w net_ops \<Rightarrow> nat \<Rightarrow> StreamPacket \<Rightarrow> DataPacket \<Rightarrow> Net \<Rightarrow> 'w \<Rightarrow> (Net \<times> net_out list) res option" where
  "net_inject nt fuel spkt pkt n w = processPacket nt fuel None 0 spkt pkt n w"

text \<open>
  The function bound to the stream's URI, called for each message of the peer with local id \<open>lid\<close> and
  round trip time \<open>rtt\<close>; the hosting and the receiving case.
\<close>

definition on_message_host :: "'w net_ops \<Rightarrow> nat \<Rightarrow> int \<Rightarrow> int \<Rightarrow> StreamPacket \<Rightarrow> DataPacket \<Rightarrow> Net \<Rightarrow> 'w
    \<Rightarrow> (Net \<times> net_out list \<times> 'w) res option" where
  "on_message_host nt fuel lid ttimeoff spkt pkt n w =
     (case earlyProcessPacket nt spkt pkt n w of
        Inl e \<Rightarrow> Some (Inl e)
      | Inr (n1, out, w1) \<Rightarrow>
          map_option (\<lambda>r. res_bind r (\<lambda>(n2, out'). Inr (n2, out @ out', w1)))
            (processPacket nt fuel (Some lid) ttimeoff spkt pkt n1 w1))"

definition on_message_receive :: "'w net_ops \<Rightarrow> nat \<Rightarrow> int \<Rightarrow> int \<Rightarrow> int \<Rightarrow> StreamPacket \<Rightarrow> DataPacket \<Rightarrow> Net \<Rightarrow> 'w
    \<Rightarrow> (Net \<times> net_out list \<times> 'w) res option" where
  "on_message_receive nt fuel lid rtt ttimeoff spkt_in pkt n w =
     (let spkt = spkt_in\<lparr>localTimestamp := n_time nt w - ttimeoff\<rparr> in
      case earlyProcessPacket nt spkt pkt n w of
        Inl e \<Rightarrow> Some (Inl e)
      | Inr (n1, out, w1) \<Rightarrow>
          if flags spkt AND kFlagOutOfBand \<noteq> 0 \<or> channel spkt \<in> buffering_disabled_channels n1 then
            map_option (\<lambda>r. res_bind r (\<lambda>(n2, out'). Inr (n2, out @ out', w1)))
              (processPacket nt fuel (Some lid) ttimeoff spkt pkt n1 w1)
          else
            Some (res_bind (queuePacket (n_time nt w1) rtt lid spkt pkt (nbuffer n1))
              (\<lambda>(b, _). Inr (n1\<lparr>nbuffer := b\<rparr>, out, w1))))"

section \<open>Life cycle and selection\<close>

text \<open>
  \<^verbatim>\<open>begin\<close> and \<^verbatim>\<open>end\<close>; \<open>streams\<close> is the static list of hosted stream URIs. The result of \<^verbatim>\<open>begin\<close> also
  reports the error of a URI that is bound already.
\<close>

definition net_begin :: "'w net_ops \<Rightarrow> Net \<Rightarrow> string list \<Rightarrow> 'w \<Rightarrow> bool \<times> Net \<times> string list \<times> stream_out list \<times> 'w" where
  "net_begin nt n streams w =
     (if net_active n then (True, n, streams, [], w)
      else if n_isBound nt (nbase_uri n) w then
        (False, n\<lparr>net_active := False\<rparr>, streams, [Out_error kURIAlreadyExists (''Stream already exists: '' @ nuri n)], w)
      else
        let w1 = n_bind nt (nbase_uri n) w in
        if nhost n then
          (True, n\<lparr>net_active := True\<rparr>, streams @ [nuri n], [], n_broadcast nt ''add_stream'' (nuri n) w1)
        else
          (True, n\<lparr>tally := map (\<lambda>_. frames_to_request n) (tally n), net_active := True\<rparr>, streams, [], w1))"

definition net_end :: "'w net_ops \<Rightarrow> Net \<Rightarrow> string list \<Rightarrow> 'w \<Rightarrow> bool \<times> Net \<times> string list \<times> 'w" where
  "net_end nt n streams w =
     (if \<not> net_active n then (False, n, streams, w)
      else (True, n\<lparr>net_active := False\<rparr>, remove1 (nuri n) streams, n_unbind nt (nbase_uri n) w))"

definition net_refresh :: "'w net_ops \<Rightarrow> Net \<Rightarrow> 'w \<Rightarrow> (Net \<times> 'w) res" where
  "net_refresh nt n w =
     res_bind (request_enabled nt True (n_frames nt (enabled_frames (nbase n))) n w) (\<lambda>(n', w').
       Inr (n'\<lparr>tally := map (\<lambda>_. frames_to_request n') (tally n')\<rparr>, w'))"

definition net_reset :: "Net \<Rightarrow> Net" where
  "net_reset n = n\<lparr>nbase := reset_state (nbase n)\<rparr>"

text \<open>\<^verbatim>\<open>_enable\<close>: finds the peer that hosts the stream.\<close>

definition find_host :: "'w net_ops \<Rightarrow> FrameID \<Rightarrow> Net \<Rightarrow> 'w \<Rightarrow> bool \<times> Net \<times> stream_out list \<times> 'w" where
  "find_host nt i n w =
     (if nhost n then (False, n, [], w)
      else if npeer n \<noteq> None then (True, n, [], w)
      else if enabled i (nbase n) then (True, n, [], w)
      else
        (case n_findOne nt ''find_stream'' (nuri n) w of (r, w1) \<Rightarrow>
           case (case r of Some u \<Rightarrow> Some u | None \<Rightarrow> n_getWebService nt w1) of
             None \<Rightarrow> (False, n, [Out_error kURIDoesNotExist (''Stream not found: '' @ nuri n)], w1)
           | Some u \<Rightarrow> (True, n\<lparr>npeer := Some u\<rparr>, [], n_send_enable nt u (nuri n) (frameset i) (source i) w1)))"

text \<open>The three overloads of \<^verbatim>\<open>enable\<close> differ in the selection and in the channels requested.\<close>

definition net_enable_with :: "'w net_ops \<Rightarrow> (stream_state \<Rightarrow> bool \<times> stream_state) \<Rightarrow> Channel list \<Rightarrow> FrameID \<Rightarrow> Net \<Rightarrow> 'w
    \<Rightarrow> (bool \<times> Net \<times> stream_out list \<times> 'w) res" where
  "net_enable_with nt sel cs i n w =
     (if nhost n then Inr (False, n, [], w)
      else (case find_host nt i n w of
        (False, n1, out, w1) \<Rightarrow> Inr (False, n1, out, w1)
      | (True, n1, out, w1) \<Rightarrow>
         (case sel (nbase n1) of
            (False, s) \<Rightarrow> Inr (False, n1\<lparr>nbase := s\<rparr>, out, w1)
          | (True, s) \<Rightarrow>
             res_bind (request_channels nt i True cs (n1\<lparr>nbase := s\<rparr>) w1) (\<lambda>(n2, w2). Inr (True, n2, out, w2)))))"

definition net_enable :: "'w net_ops \<Rightarrow> FrameID \<Rightarrow> Net \<Rightarrow> 'w \<Rightarrow> (bool \<times> Net \<times> stream_out list \<times> 'w) res" where
  "net_enable nt i = net_enable_with nt (enable i) [kColour] i"

definition net_enable_channel :: "'w net_ops \<Rightarrow> FrameID \<Rightarrow> Channel \<Rightarrow> Net \<Rightarrow> 'w \<Rightarrow> (bool \<times> Net \<times> stream_out list \<times> 'w) res" where
  "net_enable_channel nt i c = net_enable_with nt (enable_channel i c) [c] i"

definition net_enable_channels :: "'w net_ops \<Rightarrow> FrameID \<Rightarrow> Channel set \<Rightarrow> Net \<Rightarrow> 'w \<Rightarrow> (bool \<times> Net \<times> stream_out list \<times> 'w) res" where
  "net_enable_channels nt i cs = net_enable_with nt (enable_channels i cs) (n_channels nt cs) i"

definition net_is_active :: "Net \<Rightarrow> bool" where
  "net_is_active n = net_active n"

definition net_active_frame :: "FrameID \<Rightarrow> Net \<Rightarrow> bool" where
  "net_active_frame i n \<longleftrightarrow> net_active n \<and> clients_local n i \<noteq> None"

section \<open>Options\<close>

definition allowFrameInterleaving :: "bool \<Rightarrow> Net \<Rightarrow> Net" where
  "allowFrameInterleaving v n = n\<lparr>nbuffer := (nbuffer n)\<lparr>synchronize_on_recv_timestamps := True\<rparr>\<rparr>"

definition disableBuffering :: "Channel \<Rightarrow> bool \<Rightarrow> Net \<Rightarrow> Net" where
  "disableBuffering c dis n = n\<lparr>buffering_disabled_channels :=
     (if dis then insert c (buffering_disabled_channels n) else buffering_disabled_channels n - {c})\<rparr>"

text \<open>A delay in seconds is given by the number of milliseconds the code derives from the \<^verbatim>\<open>float\<close>.\<close>

definition setBuffering :: "int \<Rightarrow> Net \<Rightarrow> Net" where
  "setBuffering ms n = n\<lparr>nbuffer := (nbuffer n)\<lparr>buffering := ms, buffering_default := ms\<rparr>\<rparr>"

definition setAutoBufferAdjust :: "bool \<Rightarrow> Net \<Rightarrow> Net" where
  "setAutoBufferAdjust e n = n\<lparr>nbuffer := (let b = (nbuffer n)\<lparr>buffering_auto := e\<rparr> in
     if \<not> e then b\<lparr>buffering := max (buffering_default b) (buffering_min_ms b)\<rparr> else b)\<rparr>"

fun any_cast_float :: "any \<Rightarrow> int res" where
  "any_cast_float (Any_float ms) = Inr ms"
| "any_cast_float _ = Inl (Std_exception ''bad any_cast'')"

fun any_cast_channel :: "any \<Rightarrow> Channel res" where
  "any_cast_channel (Any_channel c) = Inr c"
| "any_cast_channel _ = Inl (Std_exception ''bad any_cast'')"

definition net_setProperty :: "StreamProperty \<Rightarrow> any \<Rightarrow> Net \<Rightarrow> Net res" where
  "net_setProperty opt v n = (case opt of
       kBitrate \<Rightarrow> res_bind (any_cast_int v) (\<lambda>i. Inr (n\<lparr>nbitrate := word_of_int i\<rparr>))
     | kMaxBitrate \<Rightarrow> res_bind (any_cast_int v) (\<lambda>i. Inr (n\<lparr>nbitrate := word_of_int i\<rparr>))
     | kPaused \<Rightarrow> res_bind (any_cast_bool v) (\<lambda>b. Inr (n\<lparr>paused := b\<rparr>))
     | kName \<Rightarrow> res_bind (any_cast_string v) (\<lambda>t. Inr (n\<lparr>nname := t\<rparr>))
     | kRequestSize \<Rightarrow> res_bind (any_cast_int v) (\<lambda>i. Inr (n\<lparr>frames_to_request := i\<rparr>))
     | kBuffering \<Rightarrow> res_bind (any_cast_float v) (\<lambda>ms. Inr (setBuffering ms n))
     | kAutoBufferAdjust \<Rightarrow> res_bind (any_cast_bool v) (\<lambda>b. Inr (setAutoBufferAdjust b n))
     | kURI \<Rightarrow> Inl (FTL_Error ''Readonly property'')
     | _ \<Rightarrow>
        (if opt \<in> {kObservers, kBytesSent, kBytesReceived, kLatency, kFrameRate, kUnderunCount, kDropCount, kDisableBuffering}
         then res_bind (any_cast_channel v) (\<lambda>c. Inr (disableBuffering c True n))
         else Inl (FTL_Error ''Unsupported property'')))"

definition net_getProperty :: "StreamProperty \<Rightarrow> Net \<Rightarrow> any res" where
  "net_getProperty opt n = (case opt of
       kBitrate \<Rightarrow> Inr (Any_int (uint (nbitrate n)))
     | kMaxBitrate \<Rightarrow> Inr (Any_int (uint (nbitrate n)))
     | kObservers \<Rightarrow> Inr (Any_size (int (card (dom (clients_local n)))))
     | kURI \<Rightarrow> Inr (Any_string (nbase_uri n))
     | kPaused \<Rightarrow> Inr (Any_bool (paused n))
     | kBytesSent \<Rightarrow> Inr (Any_int 0)
     | kBytesReceived \<Rightarrow> Inr (Any_int (bytes_received n))
     | kFrameRate \<Rightarrow> Inr (Any_int 0)
     | kLatency \<Rightarrow> Inr (Any_int 0)
     | kName \<Rightarrow> Inr (Any_string (nname n))
     | kBuffering \<Rightarrow> Inr (Any_float (buffering (nbuffer n)))
     | kAutoBufferAdjust \<Rightarrow> Inr (Any_bool (buffering_auto (nbuffer n)))
     | kRequestSize \<Rightarrow> Inr (Any_int (frames_to_request n))
     | kUnderunCount \<Rightarrow> Inr (Any_int (underruns (nbuffer n)))
     | kDropCount \<Rightarrow> Inr (Any_int (- 1))
     | kDisableBuffering \<Rightarrow> Inr (Any_size (int (card (buffering_disabled_channels n))))
     | _ \<Rightarrow> Inl (FTL_Error ''Unsupported property''))"

definition net_supportsProperty :: "StreamProperty \<Rightarrow> bool" where
  "net_supportsProperty opt \<longleftrightarrow> opt \<in> {kBitrate, kMaxBitrate, kObservers, kPaused, kBytesSent, kBytesReceived, kLatency,
     kFrameRate, kName, kRequestSize, kBuffering, kUnderunCount, kAutoBufferAdjust, kDisableBuffering, kURI}"

definition net_type :: "Net \<Rightarrow> StreamType" where
  "net_type n = kLive"

definition net_getPeerID :: "Net \<Rightarrow> UUID res" where
  "net_getPeerID n =
     (if nhost n then Inl (FTL_Error ''Net::getPeer() not possible, hosting stream'')
      else case npeer n of None \<Rightarrow> Inl (FTL_Error ''steram::Net has no valid Peer. Not found earlier?'') | Some u \<Rightarrow> Inr u)"

section \<open>Wildcard requests\<close>

lemma channel_bit_ok: "0 \<le> c \<Longrightarrow> \<exists>b. channel_bit c = Inr b"
  by (simp add: channel_bit_def)

lemma update_client_ok: "0 \<le> channel spkt \<Longrightarrow> \<exists>c'. update_client spkt pkt c = Inr c'"
  using channel_bit_ok [of "channel spkt"] by (auto simp: update_client_def Let_def)

lemma update_clients_ok: "0 \<le> channel spkt \<Longrightarrow> \<exists>found cs'. update_clients p spkt pkt cs = Inr (found, cs')"
proof (induction cs)
  case (Cons c cs)
  obtain c' where "(if peerid c = p then update_client spkt pkt c else Inr c) = Inr c'"
    using update_client_ok [OF Cons.prems, of pkt c] by (cases "peerid c = p") auto
  then show ?case using Cons by auto
qed auto

lemma note_client_ok:
  assumes "0 \<le> channel spkt"
  shows "\<exists>new cl. note_client p spkt pkt n = Inr (new, n\<lparr>clients_local := cl\<rparr>)"
proof -
  obtain found cs' where "update_clients p spkt pkt (case clients_local n (packet_FrameID spkt) of Some cs \<Rightarrow> cs | None \<Rightarrow> []) = Inr (found, cs')"
    using update_clients_ok [OF assms] by blast
  moreover obtain c where "update_client spkt pkt (new_client p) = Inr c" using update_client_ok [OF assms] by blast
  ultimately show ?thesis by (cases found) (auto simp: note_client_def)
qed

lemma single_request_ok:
  assumes "0 \<le> channel spkt"
  shows "\<exists>new pkt' n' out. single_request p spkt pkt n = Inr (new, pkt', n', out) \<and> nbase n' = nbase n"
proof (cases p)
  case None
  then show ?thesis by (auto simp: single_request_def Let_def)
next
  case (Some i)
  obtain new cl where "note_client i spkt pkt n = Inr (new, n\<lparr>clients_local := cl\<rparr>)" using note_client_ok [OF assms] by blast
  then show ?thesis by (auto simp: single_request_def Some Let_def)
qed

text \<open>A call that returns normally and leaves the frames of the stream as they are.\<close>

definition returns :: "stream_state \<Rightarrow> (bool \<times> DataPacket \<times> Net \<times> net_out list) res option \<Rightarrow> bool" where
  "returns s r \<longleftrightarrow> (\<exists>new pkt n out. r = Some (Inr (new, pkt, n, out)) \<and> nbase n = s)"

lemma single_request_returns: "0 \<le> channel spkt \<Longrightarrow> returns (nbase n) (Some (single_request p spkt pkt n))"
  unfolding returns_def using single_request_ok by blast

lemma request_each_returns:
  assumes "\<And>i pkt n. i \<in> set is \<Longrightarrow> nbase n = s \<Longrightarrow> returns s (rec (with_frame i spkt) pkt n)" and "nbase n = s"
  shows "\<exists>pkt' n' out. request_each rec spkt is pkt n = Some (Inr (pkt', n', out)) \<and> nbase n' = s"
  using assms
proof (induction "is" arbitrary: pkt n)
  case (Cons i "is")
  show ?case
  proof (cases "request_skips spkt i")
    case True
    then show ?thesis using Cons.IH [of n pkt] Cons.prems by simp
  next
    case False
    have "returns s (rec (with_frame i spkt) pkt n)" using Cons.prems by simp
    then obtain new pkt' n' out where r: "rec (with_frame i spkt) pkt n = Some (Inr (new, pkt', n', out))" "nbase n' = s"
      unfolding returns_def by blast
    moreover obtain pkt'' n'' out' where "request_each rec spkt is pkt' n' = Some (Inr (pkt'', n'', out'))" "nbase n'' = s"
      using Cons.IH [OF _ r(2), of pkt'] Cons.prems(1) by (metis list.set_intros(2))
    ultimately show ?thesis using False by simp
  qed
qed simp

lemma processRequest_wildcard:
  assumes "wildcard_packet spkt"
    and "request_each (\<lambda>s d m. processRequest nt k p s d m) spkt (n_frames nt (frames (nbase n))) pkt n = Some (Inr (pkt', n', out))"
  shows "processRequest nt (Suc k) p spkt pkt n = Some (Inr (False, pkt', n', out))"
  using assms by simp

lemma processRequest_returns:
  assumes "0 \<le> channel spkt"
    and "\<forall>i \<in> set (n_frames nt (frames (nbase n))). \<not> wildcard_packet (with_frame i spkt)"
  shows "returns (nbase n) (processRequest nt (Suc (Suc k)) p spkt pkt n)"
proof (cases "wildcard_packet spkt")
  case False
  then show ?thesis using single_request_returns [OF assms(1), of n p pkt] by simp
next
  case True
  have "returns (nbase n) (processRequest nt (Suc k) p (with_frame i spkt) pkt m)"
    if "i \<in> set (n_frames nt (frames (nbase n)))" "nbase m = nbase n" for i pkt m
    using single_request_returns [of "with_frame i spkt" m p pkt] assms that by (simp add: with_frame_def)
  then obtain pkt' n' out where
      "request_each (\<lambda>s d m. processRequest nt (Suc k) p s d m) spkt (n_frames nt (frames (nbase n))) pkt n = Some (Inr (pkt', n', out))"
      "nbase n' = nbase n"
    using request_each_returns [of "n_frames nt (frames (nbase n))" "nbase n" "\<lambda>s d m. processRequest nt (Suc k) p s d m" spkt n pkt]
    by blast
  then show ?thesis using processRequest_wildcard [OF True] unfolding returns_def by blast
qed

text \<open>A frame that turns into a wildcard again makes the recursion endless.\<close>

lemma request_each_loops:
  assumes "i \<in> set is" "\<not> request_skips spkt i" "\<And>pkt n. nbase n = s \<Longrightarrow> rec (with_frame i spkt) pkt n = None"
    and "\<And>j pkt n. nbase n = s \<Longrightarrow> rec (with_frame j spkt) pkt n = None \<or> returns s (rec (with_frame j spkt) pkt n)"
    and "nbase n = s"
  shows "request_each rec spkt is pkt n = None"
  using assms(1,5)
proof (induction "is" arbitrary: pkt n)
  case (Cons j "is")
  show ?case
  proof (cases "j = i")
    case True
    then show ?thesis using assms(2,3) Cons.prems by simp
  next
    case False
    then have i: "i \<in> set is" using Cons.prems by simp
    show ?thesis
    proof (cases "request_skips spkt j \<or> rec (with_frame j spkt) pkt n = None")
      case True
      then show ?thesis using Cons.IH [OF i Cons.prems(2)] by auto
    next
      case False
      then have "returns s (rec (with_frame j spkt) pkt n)" using assms(4) [OF Cons.prems(2), of j pkt] by auto
      then obtain new pkt' n' out where r: "rec (with_frame j spkt) pkt n = Some (Inr (new, pkt', n', out))" "nbase n' = s"
        unfolding returns_def by blast
      then show ?thesis using Cons.IH [OF i r(2), of pkt'] False by simp
    qed
  qed
qed simp

lemma request_each_cases:
  assumes "\<And>j pkt n. nbase n = s \<Longrightarrow> rec (with_frame j spkt) pkt n = None \<or> returns s (rec (with_frame j spkt) pkt n)"
    and "nbase n = s"
  shows "request_each rec spkt is pkt n = None
    \<or> (\<exists>pkt' n' out. request_each rec spkt is pkt n = Some (Inr (pkt', n', out)) \<and> nbase n' = s)"
  using assms(2)
proof (induction "is" arbitrary: pkt n)
  case (Cons j "is")
  show ?case
  proof (cases "request_skips spkt j \<or> rec (with_frame j spkt) pkt n = None")
    case True
    then show ?thesis using Cons.IH [OF Cons.prems] by auto
  next
    case False
    then have "returns s (rec (with_frame j spkt) pkt n)" using assms(1) [OF Cons.prems, of j pkt] by auto
    then obtain new pkt' n' out where r: "rec (with_frame j spkt) pkt n = Some (Inr (new, pkt', n', out))" "nbase n' = s"
      unfolding returns_def by blast
    then show ?thesis using Cons.IH [OF r(2), of pkt'] False by auto
  qed
qed simp

lemma processRequest_cases:
  "0 \<le> channel spkt \<Longrightarrow> processRequest nt k p spkt pkt n = None \<or> returns (nbase n) (processRequest nt k p spkt pkt n)"
proof (induction k arbitrary: spkt pkt n)
  case (Suc k)
  show ?case
  proof (cases "wildcard_packet spkt")
    case True
    have "processRequest nt k p (with_frame j spkt) d m = None
        \<or> returns (nbase n) (processRequest nt k p (with_frame j spkt) d m)" if "nbase m = nbase n" for j d m
      using Suc.IH [of "with_frame j spkt" d m] Suc.prems that by (simp add: with_frame_def)
    from request_each_cases [of "nbase n" "\<lambda>s d m. processRequest nt k p s d m" spkt n, OF this refl,
        of "n_frames nt (frames (nbase n))" pkt]
    show ?thesis using True processRequest_wildcard [OF True, of nt k p n pkt] unfolding returns_def by auto
  next
    case False
    then show ?thesis using single_request_returns [OF Suc.prems, of n p pkt] by simp
  qed
qed simp

lemma with_frame_again: "with_frame i (with_frame i spkt) = with_frame i spkt"
  by (simp add: with_frame_def)

lemma with_frame_not_skipped:
  "frameset i = ucast (ucast (frameset i) :: u8) \<Longrightarrow> \<not> request_skips (with_frame i spkt) i"
proof -
  have "source i = ucast (ucast (source i) :: u8)"
    by (rule bit_word_eqI) (auto simp: source_def bit_simps)
  moreover assume "frameset i = ucast (ucast (frameset i) :: u8)"
  ultimately show ?thesis by (auto simp: request_skips_def with_frame_def)
qed

lemma processRequest_loops:
  assumes "0 \<le> channel spkt" "wildcard_packet spkt" "i \<in> set (n_frames nt (frames (nbase n)))" "\<not> request_skips spkt i"
    and "frameset i = ucast (ucast (frameset i) :: u8)" "wildcard_packet (with_frame i spkt)"
  shows "processRequest nt k p spkt pkt n = None"
  using assms(1-4,6)
proof (induction k arbitrary: spkt pkt n)
  case (Suc k)
  have "processRequest nt k p (with_frame i spkt) d m = None" if "nbase m = nbase n" for d m
    using Suc.IH [of "with_frame i spkt" m d] Suc.prems that with_frame_not_skipped [OF assms(5)]
    by (simp add: with_frame_again) (simp add: with_frame_def)
  moreover have "processRequest nt k p (with_frame j spkt) d m = None
      \<or> returns (nbase n) (processRequest nt k p (with_frame j spkt) d m)" if "nbase m = nbase n" for j d m
    using processRequest_cases [of "with_frame j spkt" nt k p d m] Suc.prems(1) that by (simp add: with_frame_def)
  ultimately have "request_each (\<lambda>s d m. processRequest nt k p s d m) spkt (n_frames nt (frames (nbase n))) pkt n = None"
    by (rule request_each_loops [OF Suc.prems(3,4), where s = "nbase n"]) simp_all
  then show ?case using Suc.prems(2) by simp
qed simp

lemma localise_simps [simp]:
  "streamID (localise t d spkt) = streamID spkt" "frame_number (localise t d spkt) = frame_number spkt"
  "channel (localise t d spkt) = channel spkt" "flags (localise t d spkt) = flags spkt"
  "is_request (localise t d spkt) pkt = is_request spkt pkt"
  "timestamp (localise t d spkt) = timestamp spkt"
  by (simp_all add: localise_def is_request_def Let_def)

lemma packet_FrameID_parts [simp]:
  "frameset (packet_FrameID spkt) = ucast (streamID spkt)" "source (packet_FrameID spkt) = ucast (frame_number spkt)"
proof -
  show "frameset (packet_FrameID spkt) = ucast (streamID spkt)"
    by (rule bit_word_eqI) (auto simp: packet_FrameID_def frameid_simps bit_simps dest: bit_imp_le_length)
  show "source (packet_FrameID spkt) = ucast (frame_number spkt)"
    by (rule bit_word_eqI) (auto simp: packet_FrameID_def source_mk bit_simps dest: bit_imp_le_length)
qed

section \<open>An example host\<close>

definition example_host :: "stream_state \<Rightarrow> Net" where
  "example_host s = \<lparr>nbase = s, net_active = True, npeer = None, nuri = ''ftl://x/y'', nbase_uri = ''ftl://x/y'', nhost = True,
     tally = [0, 0, 0, 0, 0], nbitrate = 255, bytes_received = 0, paused = False, frames_to_request = 80, nname = ''x'',
     nbuffer = new_NetBuffer, buffering_disabled_channels = {}, clients_local = Map.empty, dbg_send = Map.empty,
     dbg_recv = Map.empty, req_bitrate = 0, tx_bitrate = 0, rx_sample_count = 0, tx_sample_count = 0\<rparr>"

lemma example_frameid: "packet_FrameID (fst example_colour) = 0" "packet_FrameID (fst example_end) = 0"
  by (simp_all add: example_defs packet_FrameID_def mk_FrameID_def)

text \<open>
  A network whose peers all exist and accept every packet; its state is the list of the packets sent,
  each with the local id of the peer.
\<close>

type_synonym sent_log = "(int \<times> PacketPair) list"

definition accepting_net :: "sent_log net_ops" where
  "accepting_net = \<lparr>n_time = (\<lambda>w. 0), n_getPeer = (\<lambda>p w. True),
     n_peer_send = (\<lambda>p uri lat spkt pkt w. (Inr 1, w @ [(p, (spkt, pkt))])),
     n_send = (\<lambda>u uri lat spkt pkt w. (Inr True, w)), n_send_enable = (\<lambda>u uri a b w. w),
     n_isBound = (\<lambda>uri w. False), n_bind = (\<lambda>uri w. w), n_unbind = (\<lambda>uri w. w), n_broadcast = (\<lambda>m uri w. w),
     n_findOne = (\<lambda>m uri w. (None, w)), n_getWebService = (\<lambda>w. None),
     n_frames = sorted_list_of_set, n_channels = sorted_list_of_set\<rparr>"

section \<open>Properties of requests\<close>

text \<open>
  C24: Serving a request ends: when no frame of the hosted stream has the wildcard number 255 as frameset
  or source, a request, for one frame or by wildcard, returns normally within two nested calls,
  whatever the peer, and leaves the frames of the stream as they are.
\<close>

theorem wildcard_request_returns:
  assumes "0 \<le> channel spkt"
    and "\<forall>i \<in> set (n_frames nt (frames (nbase n))). (ucast (frameset i) :: u8) \<noteq> 255 \<and> (ucast (source i) :: u8) \<noteq> 255"
  shows "\<exists>new pkt' n' out. processRequest nt 2 p spkt pkt n = Some (Inr (new, pkt', n', out)) \<and> nbase n' = nbase n"
proof -
  have "\<forall>i \<in> set (n_frames nt (frames (nbase n))). \<not> wildcard_packet (with_frame i spkt)"
    using assms(2) by (simp add: wildcard_packet_def with_frame_def)
  from processRequest_returns [OF assms(1) this, of 0 p pkt] show ?thesis
    by (simp add: returns_def numeral_2_eq_2 del: processRequest.simps)
qed

theorem wildcard_request_returns_witness:
  "\<exists>new pkt' n' out. processRequest accepting_net 2 (Some 1) (request_packet 0 kColour 255 255 False) default_DataPacket
     (example_host [0 \<mapsto> default_FSState]) = Some (Inr (new, pkt', n', out))"
  using wildcard_request_returns [of "request_packet 0 kColour 255 255 False" accepting_net
      "example_host [0 \<mapsto> default_FSState]" "Some 1" default_DataPacket]
  by (auto simp: request_packet_def kColour_def accepting_net_def example_host_def frames_def frameset_def source_def)

text \<open>
  A peer can exhaust the stack of a host with two messages: a data packet for frameset 255 (which the
  range check lets through) registers the frame, and a request for frameset 255 then makes
  \<^verbatim>\<open>_processRequest\<close> call itself for that frame without end.
\<close>

theorem remote_wildcard_overflow:
  assumes host: "net_active n" "nhost n" "finite (dom (nbase n))"
    and order: "\<And>S. finite S \<Longrightarrow> set (n_frames nt S) = S"
    and first: "streamID spkt1 = 255" "channel spkt1 = kColour" "\<not> is_request spkt1 pkt1"
    and second: "streamID spkt2 = 255" "frame_number spkt2 = frame_number spkt1" "is_request spkt2 pkt2" "0 \<le> channel spkt2"
  shows "\<exists>n1 out w1. on_message_host nt k lid toff spkt1 pkt1 n w = Some (Inr (n1, out, w1))
    \<and> (\<forall>fuel w2. on_message_host nt fuel lid' toff' spkt2 pkt2 n1 w2 = None)"
proof -
  let ?f = "packet_FrameID spkt1"
  obtain s out where s: "seen_out ?f kColour (nbase n) = Inr (s, out)" "?f \<in> dom s" "dom s = insert ?f (dom (nbase n))"
    by (auto simp: seen_out_def seen_def seen_frame_def kColour_def kEndFrame_def isPersistent_def isVideo_def isAudio_def
        isData_def shl64_def Let_def split: if_splits)
  define n0 where "n0 = n\<lparr>dbg_recv := snd (dbg_check_pkt (dbg_recv n) spkt1), nbase := s\<rparr>"
  have early: "earlyProcessPacket nt spkt1 pkt1 n w = Inr (n0, map Stream_out out, w)"
    using host first s(1) by (simp add: earlyProcessPacket_def n0_def Let_def)
  have "processPacket nt k (Some lid) toff spkt1 pkt1 n0 w = Some (Inr (n1, o1)) \<Longrightarrow> nbase n1 = s \<and> net_active n1 \<and> nhost n1" for n1 o1
    using host first(3) by (auto simp: processPacket_def Let_def n0_def checkRXRate_def split: if_splits)
  moreover obtain n1 o1 where p1: "processPacket nt k (Some lid) toff spkt1 pkt1 n0 w = Some (Inr (n1, o1))"
    using host first(3) by (simp add: processPacket_def Let_def n0_def)
  ultimately have n1: "nbase n1 = s" "net_active n1" "nhost n1" by blast+
  have "on_message_host nt fuel lid' toff' spkt2 pkt2 n1 w2 = None" for fuel w2
  proof -
    define n2 where "n2 = n1\<lparr>dbg_recv := snd (dbg_check_pkt (dbg_recv n1) spkt2)\<rparr>"
    have "earlyProcessPacket nt spkt2 pkt2 n1 w2 = Inr (n2, [], w2)"
      using n1 second by (cases "paused n1") (simp_all add: earlyProcessPacket_def n2_def Let_def)
    moreover have "processRequest nt fuel (Some lid') (localise t toff' spkt2) pkt2
        (n2\<lparr>bytes_received := b\<rparr>) = None" for t b
    proof (rule processRequest_loops [where i = ?f])
      show "?f \<in> set (n_frames nt (frames (nbase (n2\<lparr>bytes_received := b\<rparr>))))"
        using s host(3) by (simp add: n2_def n1 frames_def order)
    qed (use first second in \<open>auto simp: wildcard_packet_def request_skips_def with_frame_def\<close>)
    ultimately show ?thesis using n1 second
      by (simp add: on_message_host_def processPacket_def Let_def n2_def)
  qed
  then show ?thesis using early p1 by (simp add: on_message_host_def)
qed

theorem remote_wildcard_overflow_witness:
  "\<exists>n1 out w1. on_message_host accepting_net 2 1 0 ((fst example_colour)\<lparr>streamID := 255\<rparr>) (snd example_colour)
        (example_host Map.empty) [] = Some (Inr (n1, out, w1))
    \<and> on_message_host accepting_net 1000 1 0 (request_packet 0 kColour 255 0 False) default_DataPacket n1 [] = None"
  using remote_wildcard_overflow [of "example_host Map.empty" accepting_net "(fst example_colour)\<lparr>streamID := 255\<rparr>"
      "snd example_colour" "request_packet 0 kColour 255 0 False" default_DataPacket 2 1 0 "[]" 1 0]
  by (fastforce simp: example_host_def accepting_net_def example_colour_def example_spkt_def is_request_def
      request_packet_def kFlagRequest_def kColour_def default_DataPacket_def)

section \<open>What a client is sent\<close>

fun net_posts :: "'w net_ops \<Rightarrow> PacketPair list \<Rightarrow> Net \<Rightarrow> 'w \<Rightarrow> (Net \<times> 'w) res" where
  "net_posts nt [] n w = Inr (n, w)"
| "net_posts nt (p # ps) n w = res_bind (net_post nt (fst p) (snd p) n w) (\<lambda>(_, n', w'). net_posts nt ps n' w')"

definition client_of :: "int \<Rightarrow> FrameID \<Rightarrow> Net \<Rightarrow> StreamClientLocal option" where
  "client_of p f n = (case clients_local n f of None \<Rightarrow> None | Some cs \<Rightarrow> List.find (\<lambda>c. peerid c = p) cs)"

definition frame_clients :: "FrameID \<Rightarrow> Net \<Rightarrow> StreamClientLocal list" where
  "frame_clients f n = (case clients_local n f of None \<Rightarrow> [] | Some cs \<Rightarrow> cs)"

lemma client_of_frame: "client_of p f n = List.find (\<lambda>c. peerid c = p) (frame_clients f n)"
  by (simp add: client_of_def frame_clients_def split: option.splits)

text \<open>
  The abstract view of one client: it is sent every packet, without the data where it did not ask for
  the video channel, until the frames it asked for have ended.
\<close>

definition client_after :: "PacketPair \<Rightarrow> StreamClientLocal \<Rightarrow> StreamClientLocal" where
  "client_after p c = (if channel (fst p) = kEndFrame then c\<lparr>txcount := txcount c - 1\<rparr> else c)"

definition wants_data :: "StreamClientLocal \<Rightarrow> Channel \<Rightarrow> bool" where
  "wants_data c ch \<longleftrightarrow> 32 \<le> ch \<or> bit (client_channels c) (nat ch)"

definition packet_for :: "StreamClientLocal \<Rightarrow> PacketPair \<Rightarrow> PacketPair" where
  "packet_for c p = (fst p, if wants_data c (channel (fst p)) \<or> data (snd p) = [] then snd p else pkt_strip (snd p))"

fun served :: "StreamClientLocal option \<Rightarrow> PacketPair list \<Rightarrow> PacketPair list" where
  "served None ps = []"
| "served (Some c) [] = []"
| "served (Some c) (p # ps) = packet_for c p
     # served (if txcount (client_after p c) \<le> 0 then None else Some (client_after p c)) ps"

lemma strip_for_eq:
  assumes "0 \<le> channel spkt"
  shows "strip_for spkt pkt c = Inr (\<not> wants_data c (channel spkt) \<and> data pkt \<noteq> [])"
proof -
  have "push_bit (nat (channel spkt)) 1 AND client_channels c = 0 \<longleftrightarrow> \<not> bit (client_channels c) (nat (channel spkt))"
    by (simp add: push_bit_eq_mult and_exp_eq_0_iff_not_bit and.commute)
  then show ?thesis using assms by (auto simp: strip_for_def channel_bit_def wants_data_def)
qed

text \<open>
  The network takes every packet: every client is a known peer, and a send gives a result other than 0 and adds
  the packet to the packets sent, which \<open>sent\<close> reads off the state of the network.
\<close>

definition accepts_all :: "'w net_ops \<Rightarrow> ('w \<Rightarrow> sent_log) \<Rightarrow> bool" where
  "accepts_all nt sent \<longleftrightarrow> (\<forall>p w. n_getPeer nt p w)
     \<and> (\<forall>p uri lat spkt pkt w. \<exists>k w'. n_peer_send nt p uri lat spkt pkt w = (Inr k, w') \<and> k \<noteq> 0 \<and> sent w' = sent w @ [(p, (spkt, pkt))])"

lemma send_client_accepting:
  assumes "accepts_all nt sent" "0 \<le> channel spkt"
  shows "\<exists>n' w'. send_client nt spkt pkt c n w = Inr (client_after (spkt, pkt) c, n', w')
    \<and> sent w' = sent w @ [(peerid c, packet_for c (spkt, pkt))]
    \<and> clients_local n' = clients_local n \<and> net_active n' = net_active n \<and> nhost n' = nhost n \<and> paused n' = paused n"
proof -
  let ?pkt = "if \<not> wants_data c (channel spkt) \<and> data pkt \<noteq> [] then pkt_strip pkt else pkt"
  obtain k w' where "n_peer_send nt (peerid c) (nbase_uri n) (pre_transmit_latency nt spkt w) spkt ?pkt w = (Inr k, w')" "k \<noteq> 0"
      "sent w' = sent w @ [(peerid c, (spkt, ?pkt))]"
    using assms(1) unfolding accepts_all_def by blast
  moreover have "n_getPeer nt (peerid c) w" using assms(1) by (simp add: accepts_all_def)
  ultimately show ?thesis using assms(2)
    by (auto simp: send_client_def strip_for_eq net_send_peer_def client_after_def packet_for_def checkTXRate_def)
qed

lemma send_clients_accepting:
  assumes "accepts_all nt sent" "0 \<le> channel spkt"
  shows "\<exists>n' w'. send_clients nt spkt pkt cs n w = Inr (map (client_after (spkt, pkt)) cs, n', w')
    \<and> sent w' = sent w @ map (\<lambda>c. (peerid c, packet_for c (spkt, pkt))) cs
    \<and> clients_local n' = clients_local n \<and> net_active n' = net_active n \<and> nhost n' = nhost n \<and> paused n' = paused n"
proof (induction cs arbitrary: n w)
  case (Cons c cs)
  obtain n1 w1 where n1: "send_client nt spkt pkt c n w = Inr (client_after (spkt, pkt) c, n1, w1)"
    "sent w1 = sent w @ [(peerid c, packet_for c (spkt, pkt))]"
    "clients_local n1 = clients_local n" "net_active n1 = net_active n" "nhost n1 = nhost n" "paused n1 = paused n"
    using send_client_accepting [OF assms] by blast
  then show ?case using Cons.IH [of n1 w1] by auto
qed simp

text \<open>Posting one packet to a hosted stream.\<close>

lemma net_post_accepting:
  assumes "accepts_all nt sent" "net_active n" "nhost n" "\<not> paused n" "0 \<le> channel (fst p)" "packet_FrameID (fst p) = f"
  shows "\<exists>n' w'. net_post nt (fst p) (snd p) n w = Inr (True, n', w')
    \<and> sent w' = sent w @ map (\<lambda>c. (peerid c, packet_for c p)) (frame_clients f n)
    \<and> net_active n' \<and> nhost n' \<and> \<not> paused n'
    \<and> frame_clients f n' = filter (\<lambda>c. \<not> txcount c \<le> 0) (map (client_after p) (frame_clients f n))"
proof (cases "clients_local n f")
  case None
  then show ?thesis using assms by (simp add: net_post_def net_send_def send_hosted_def frame_clients_def)
next
  case (Some cs)
  obtain n1 w1 where n1: "send_clients nt (fst p) (snd p) cs n w = Inr (map (client_after p) cs, n1, w1)"
    "sent w1 = sent w @ map (\<lambda>c. (peerid c, packet_for c p)) cs"
    "clients_local n1 = clients_local n" "net_active n1 = net_active n" "nhost n1 = nhost n" "paused n1 = paused n"
    using send_clients_accepting [OF assms(1,5), of "snd p" cs n w] by auto
  have keep: "\<not> list_ex (\<lambda>c. txcount c \<le> 0) xs \<Longrightarrow> filter (\<lambda>c. \<not> txcount c \<le> 0) xs = xs" for xs
    by (auto simp: list_ex_iff)
  show ?thesis
    using assms n1 keep [of "map (client_after p) cs"]
    by (auto simp: net_post_def net_send_def send_hosted_def Some frame_clients_def Let_def cleanUp_def)
qed

lemma peerid_client_after [simp]: "peerid (client_after p c) = peerid c"
  by (simp add: client_after_def)

lemma distinct_client_after:
  "distinct (map peerid cs) \<Longrightarrow> distinct (map peerid (filter P (map (client_after p) cs)))"
  by (induction cs) auto

lemma find_client_after:
  "distinct (map peerid cs) \<Longrightarrow> List.find (\<lambda>c. peerid c = i) (filter (\<lambda>c. \<not> txcount c \<le> 0) (map (client_after p) cs))
     = (case List.find (\<lambda>c. peerid c = i) cs of None \<Rightarrow> None
        | Some c \<Rightarrow> if txcount (client_after p c) \<le> 0 then None else Some (client_after p c))"
proof (induction cs)
  case (Cons c cs)
  have "List.find (\<lambda>x. peerid x = i) cs = None" if "peerid c = i"
    using Cons.prems that by (simp add: find_None_iff) (metis image_eqI)
  then show ?case using Cons by auto
qed simp

lemma sent_to_client:
  "distinct (map peerid cs) \<Longrightarrow>
     map snd (filter (\<lambda>e. fst e = i) (map (\<lambda>c. (peerid c, packet_for c p)) cs))
     = (case List.find (\<lambda>c. peerid c = i) cs of None \<Rightarrow> [] | Some c \<Rightarrow> [packet_for c p])"
proof (induction cs)
  case (Cons c cs)
  have "filter (\<lambda>e. fst e = i) (map (\<lambda>c. (peerid c, packet_for c p)) cs) = []" if "peerid c = i"
    using Cons.prems that by (simp add: filter_empty_conv) (metis image_eqI)
  then show ?case using Cons by auto
qed simp

lemma served_Cons:
  "served co (p # ps) = (case co of None \<Rightarrow> [] | Some c \<Rightarrow> [packet_for c p])
     @ served (case co of None \<Rightarrow> None | Some c \<Rightarrow> if txcount (client_after p c) \<le> 0 then None else Some (client_after p c)) ps"
  by (cases co) simp_all

lemma net_posts_served:
  assumes "accepts_all nt sent" "net_active n" "nhost n" "\<not> paused n" "distinct (map peerid (frame_clients f n))"
    and "\<forall>p \<in> set ps. 0 \<le> channel (fst p) \<and> packet_FrameID (fst p) = f"
  shows "\<exists>n' w' log. net_posts nt ps n w = Inr (n', w') \<and> sent w' = sent w @ log
    \<and> (\<forall>i. map snd (filter (\<lambda>e. fst e = i) log) = served (client_of i f n) ps)"
  using assms(2-)
proof (induction ps arbitrary: n w)
  case Nil
  have "served co [] = []" for co by (cases co) simp_all
  then show ?case by simp
next
  case (Cons p ps)
  let ?one = "map (\<lambda>c. (peerid c, packet_for c p)) (frame_clients f n)"
  obtain n1 w1 where n1: "net_post nt (fst p) (snd p) n w = Inr (True, n1, w1)" "sent w1 = sent w @ ?one"
      "net_active n1" "nhost n1" "\<not> paused n1"
      "frame_clients f n1 = filter (\<lambda>c. \<not> txcount c \<le> 0) (map (client_after p) (frame_clients f n))"
    using net_post_accepting [OF assms(1), of n p f w] Cons.prems by auto
  obtain n' w' log where IH: "net_posts nt ps n1 w1 = Inr (n', w')" "sent w' = sent w1 @ log"
      "\<And>i. map snd (filter (\<lambda>e. fst e = i) log) = served (client_of i f n1) ps"
    using Cons.IH [OF n1(3-5), of w1] Cons.prems by (auto simp: n1(6) distinct_client_after)
  show ?case
    using n1(1,2) IH sent_to_client [OF Cons.prems(4)] find_client_after [OF Cons.prems(4)]
    by (auto simp: served_Cons client_of_frame n1(6) intro!: exI [of _ "?one @ log"])
qed

text \<open>A client after a request: the larger number of frames, and the channel added when it is below 32.\<close>

definition requested :: "StreamPacket \<Rightarrow> DataPacket \<Rightarrow> StreamClientLocal \<Rightarrow> StreamClientLocal" where
  "requested spkt pkt c = c\<lparr>txcount := max (txcount c) (uint (frame_count pkt)),
     client_channels := client_channels c OR (if channel spkt < 32 then push_bit (nat (channel spkt)) 1 else 0)\<rparr>"

lemma update_client_requested: "0 \<le> channel spkt \<Longrightarrow> update_client spkt pkt c = Inr (requested spkt pkt c)"
  by (simp add: update_client_def requested_def channel_bit_def Let_def)

lemma peerid_requested [simp]: "peerid (requested spkt pkt c) = peerid c"
  by (simp add: requested_def)

lemma update_clients_requested:
  assumes "0 \<le> channel spkt"
  shows "update_clients p spkt pkt cs = Inr (p \<in> peerid ` set cs, map (\<lambda>c. if peerid c = p then requested spkt pkt c else c) cs)"
  by (induction cs) (auto simp: update_client_requested [OF assms])

lemma find_same_peer:
  "(\<And>c. peerid (g c) = peerid c) \<Longrightarrow> List.find (\<lambda>c. peerid c = j) (map g cs) = map_option g (List.find (\<lambda>c. peerid c = j) cs)"
  by (induction cs) auto

lemma find_append: "List.find P (xs @ ys) = (case List.find P xs of Some x \<Rightarrow> Some x | None \<Rightarrow> List.find P ys)"
  by (induction xs) auto

text \<open>The clients of the frame after a request.\<close>

lemma note_client_requested:
  assumes "0 \<le> channel spkt" "packet_FrameID spkt = f"
  shows "\<exists>cs. note_client i spkt pkt n = Inr (client_of i f n = None, n\<lparr>clients_local := (clients_local n)(f \<mapsto> cs)\<rparr>)
    \<and> (distinct (map peerid (frame_clients f n)) \<longrightarrow> distinct (map peerid cs))
    \<and> (\<forall>j. List.find (\<lambda>c. peerid c = j) cs = (if j = i then Some (requested spkt pkt (case client_of i f n of None \<Rightarrow> new_client i | Some c \<Rightarrow> c)) else client_of j f n))"
proof -
  let ?cs = "frame_clients f n" and ?g = "\<lambda>c. if peerid c = i then requested spkt pkt c else c"
  have found: "i \<in> peerid ` set ?cs \<longleftrightarrow> client_of i f n \<noteq> None" by (auto simp: client_of_frame find_None_iff)
  have u: "update_clients i spkt pkt ?cs = Inr (client_of i f n \<noteq> None, map ?g ?cs)" using update_clients_requested [OF assms(1)] found by simp
  have ids: "map peerid (map ?g ?cs) = map peerid ?cs" by simp
  have same: "List.find (\<lambda>c. peerid c = j) (map ?g ?cs) = map_option ?g (client_of j f n)" for j
    unfolding client_of_frame by (rule find_same_peer) simp
  have nc: "note_client i spkt pkt n = (if client_of i f n = None
      then Inr (True, n\<lparr>clients_local := (clients_local n)(f \<mapsto> map ?g ?cs @ [requested spkt pkt (new_client i)])\<rparr>)
      else Inr (False, n\<lparr>clients_local := (clients_local n)(f \<mapsto> map ?g ?cs)\<rparr>))"
    using u assms(2) by (simp add: note_client_def frame_clients_def update_client_requested [OF assms(1)] Let_def del: map_map)
  have other: "map_option ?g (client_of j f n) = client_of j f n" if "j \<noteq> i" for j
  proof (cases "client_of j f n")
    case (Some c)
    then have "peerid c = j" by (auto simp: client_of_frame find_Some_iff)
    then show ?thesis using that Some by simp
  qed simp
  let ?new = "case client_of i f n of None \<Rightarrow> new_client i | Some c \<Rightarrow> c"
  show ?thesis
  proof (cases "client_of i f n")
    case None
    let ?ds = "map ?g ?cs @ [requested spkt pkt (new_client i)]"
    have "note_client i spkt pkt n = Inr (client_of i f n = None, n\<lparr>clients_local := (clients_local n)(f \<mapsto> ?ds)\<rparr>)"
      unfolding nc using None by (simp del: map_map)
    moreover have "distinct (map peerid ?cs) \<longrightarrow> distinct (map peerid ?ds)"
      unfolding map_append ids using found None by (simp add: new_client_def)
    moreover have "List.find (\<lambda>c. peerid c = j) ?ds = (if j = i then Some (requested spkt pkt ?new) else client_of j f n)" for j
      unfolding find_append same using None other [of j] by (cases "client_of j f n"; cases "j = i") (auto simp: new_client_def)
    ultimately show ?thesis by blast
  next
    case (Some c)
    then have "peerid c = i" by (auto simp: client_of_frame find_Some_iff)
    then have "List.find (\<lambda>c. peerid c = j) (map ?g ?cs) = (if j = i then Some (requested spkt pkt ?new) else client_of j f n)" for j
      unfolding same using Some other [of j] by simp
    moreover have "note_client i spkt pkt n = Inr (client_of i f n = None, n\<lparr>clients_local := (clients_local n)(f \<mapsto> map ?g ?cs)\<rparr>)"
      unfolding nc using Some by (simp del: map_map)
    moreover have "distinct (map peerid ?cs) \<longrightarrow> distinct (map peerid (map ?g ?cs))" unfolding ids by simp
    ultimately show ?thesis by blast
  qed
qed

text \<open>
  C7: A host serves what it is asked for. When a peer requests \<open>k\<close> frames of a channel, and packets of the frame are
  then posted over a network that takes them, the peer is sent the packets in order up to the \<open>k\<close>-th end of
  frame and nothing afterwards; for a peer that still has requests open, \<open>k\<close> is the larger of what is left and the
  new number, and its channels are those asked for before and the new one. The data of a packet of a channel below
  32 that the peer did not ask for is left out; other channels are sent whole. Every other client is served as if
  the request had not been made.
\<close>

theorem host_serves_request:
  assumes net: "accepts_all nt sent"
    and host: "net_active n" "nhost n" "\<not> paused n" "distinct (map peerid (frame_clients f n))"
    and req: "packet_FrameID rspkt = f" "0 \<le> channel rspkt"
    and posts: "\<forall>p \<in> set ps. 0 \<le> channel (fst p) \<and> packet_FrameID (fst p) = f"
  shows "\<exists>pkt' n1 out n2 w' log. single_request (Some i) rspkt rpkt n = Inr (client_of i f n = None, pkt', n1, out)
    \<and> net_posts nt ps n1 w = Inr (n2, w') \<and> sent w' = sent w @ log
    \<and> map snd (filter (\<lambda>e. fst e = i) log) = served (Some (requested rspkt rpkt (case client_of i f n of None \<Rightarrow> new_client i | Some c \<Rightarrow> c))) ps
    \<and> (\<forall>j. j \<noteq> i \<longrightarrow> map snd (filter (\<lambda>e. fst e = j) log) = served (client_of j f n) ps)"
proof -
  obtain cs where nc: "note_client i rspkt rpkt n = Inr (client_of i f n = None, n\<lparr>clients_local := (clients_local n)(f \<mapsto> cs)\<rparr>)"
    and d: "distinct (map peerid cs)"
    and of: "\<And>j. List.find (\<lambda>c. peerid c = j) cs = (if j = i then Some (requested rspkt rpkt (case client_of i f n of None \<Rightarrow> new_client i | Some c \<Rightarrow> c)) else client_of j f n)"
    using note_client_requested [OF req(2,1), of i rpkt n] host(4) by blast
  define n1 where "n1 = n\<lparr>clients_local := (clients_local n)(f \<mapsto> cs)\<rparr>"
  have "frame_clients f n1 = cs" by (simp add: n1_def frame_clients_def)
  then obtain n2 w' log where l: "net_posts nt ps n1 w = Inr (n2, w')" "sent w' = sent w @ log"
      "\<And>j. map snd (filter (\<lambda>e. fst e = j) log) = served (client_of j f n1) ps"
    using net_posts_served [OF net, of n1 f ps w] host posts d by (auto simp: n1_def)
  moreover have "client_of j f n1 = List.find (\<lambda>c. peerid c = j) cs" for j by (simp add: client_of_def n1_def)
  ultimately show ?thesis using nc of by (auto simp: single_request_def Let_def n1_def)
qed

lemma accepting_net_accepts: "accepts_all accepting_net (\<lambda>w. w)"
  by (simp add: accepts_all_def accepting_net_def)

theorem host_serves_request_witness:
  "\<exists>n1 n2 w' log. fst (snd (snd (projr (single_request (Some 7) (request_packet 0 kColour 0 0 False) default_DataPacket (example_host Map.empty))))) = n1
    \<and> net_posts accepting_net [example_colour, example_end, example_colour] n1 [] = Inr (n2, w') \<and> w' = log
    \<and> map snd (filter (\<lambda>e. fst e = 7) log) = [example_colour, example_end]"
proof -
  let ?q = "request_packet 0 kColour 0 0 False" and ?ps = "[example_colour, example_end, example_colour]"
  have host: "net_active (example_host Map.empty)" "nhost (example_host Map.empty)" "\<not> paused (example_host Map.empty)"
      "distinct (map peerid (frame_clients 0 (example_host Map.empty)))" "client_of 7 0 (example_host Map.empty) = None"
    by (simp_all add: example_host_def frame_clients_def client_of_def)
  have q: "packet_FrameID ?q = 0" "0 \<le> channel ?q"
    by (simp_all add: packet_FrameID_def mk_FrameID_def request_packet_def kColour_def)
  have posts: "\<forall>p \<in> set ?ps. 0 \<le> channel (fst p) \<and> packet_FrameID (fst p) = 0"
    by (simp add: example_frameid) (simp add: example_defs)
  have sv: "served (Some (requested ?q default_DataPacket (new_client 7))) ?ps = [example_colour, example_end]"
    by (simp add: requested_def new_client_def client_after_def packet_for_def wants_data_def example_defs request_packet_def)
  obtain pkt' n1 out n2 w' log where r: "single_request (Some 7) ?q default_DataPacket (example_host Map.empty) = Inr (True, pkt', n1, out)"
      "net_posts accepting_net ?ps n1 [] = Inr (n2, w')" "w' = [] @ log" "map snd (filter (\<lambda>e. fst e = 7) log) = [example_colour, example_end]"
    using host_serves_request [OF accepting_net_accepts host(1-4) q posts, of 7 default_DataPacket "[]"] host(5) sv by auto
  then show ?thesis by simp
qed

end
