(* ===== verification/FTL_Clock.thy ===== *)
theory FTL_Clock
  imports FTL_Prelude "HOL-Library.Multiset" "HOL-Library.Signed_Division"
begin

text \<open>
  Clock synchronisation between two peers (\<^verbatim>\<open>rpc/time.hpp\<close>, \<^verbatim>\<open>rpc/time.cpp\<close>): each exchange of times
  gives a sample of the offset between the clocks and of the round trip time; the estimates are
  means over the middle half of the last samples, ordered by round trip time.

  \<^verbatim>\<open>std::sort\<close> leaves the order of equal elements open, so the sorting function is an argument. The
  estimates have no value before the first sample: the constructor does not initialise them.
  Division of integers truncates towards zero (\<open>sdiv\<close>).
\<close>

section \<open>State\<close>

record SyncEvent =
  se_offset :: int
  se_rtt :: int

record ClockInfo =
  n_samples :: int
  n_pos :: int
  history :: "SyncEvent list"
  ci_rtt :: "int option"
  rtt_fastest :: "int option"
  rtt_slowest :: "int option"
  ci_offset :: "int option"

definition new_ClockInfo :: "int \<Rightarrow> ClockInfo" where
  "new_ClockInfo n = \<lparr>n_samples = n, n_pos = 0, history = replicate (nat n) \<lparr>se_offset = 0, se_rtt = 0\<rparr>,
     ci_rtt = None, rtt_fastest = None, rtt_slowest = None, ci_offset = None\<rparr>"

fun initialised :: "int option \<Rightarrow> int res" where
  "initialised None = Inl Undefined_behaviour"
| "initialised (Some x) = Inr x"

definition getClockOffset :: "ClockInfo \<Rightarrow> int res" where
  "getClockOffset c = initialised (ci_offset c)"

definition getRtt :: "ClockInfo \<Rightarrow> int res" where
  "getRtt c = initialised (ci_rtt c)"

definition getJitter :: "ClockInfo \<Rightarrow> int res" where
  "getJitter c = res_bind (initialised (rtt_slowest c)) (\<lambda>s. res_bind (initialised (rtt_fastest c)) (\<lambda>f. Inr (s - f)))"

section \<open>Updating the estimate\<close>

definition update_estimate :: "(SyncEvent list \<Rightarrow> SyncEvent list) \<Rightarrow> ClockInfo \<Rightarrow> ClockInfo" where
  "update_estimate srt c =
     (let xs = srt (history c);
          b = length xs div 4;
          k = length xs - b * 2;
          mid = take k (drop b xs) in
      c\<lparr>ci_offset := Some (sum_list (map se_offset mid) sdiv int k),
        ci_rtt := Some (sum_list (map se_rtt mid) sdiv int k),
        rtt_fastest := Some (se_rtt (hd xs)),
        rtt_slowest := Some (se_rtt (last xs))\<rparr>)"

text \<open>The round trip time is narrowed to 32 bits by the parameter type.\<close>

definition clock_update :: "(SyncEvent list \<Rightarrow> SyncEvent list) \<Rightarrow> int \<Rightarrow> int \<Rightarrow> ClockInfo \<Rightarrow> ClockInfo" where
  "clock_update srt offset rtt c =
     (let pos = n_pos c;
          n = pos + 1 in
      update_estimate srt (c\<lparr>n_pos := (if n \<ge> n_samples c then 0 else n),
        history := (history c)[nat pos := \<lparr>se_offset = offset, se_rtt = cast_i32 rtt\<rparr>]\<rparr>))"

text \<open>
  The sample of \<^verbatim>\<open>updateInfo\<close> from the local time before and after the remote call and the time the
  remote side answered, and the arguments of the message sent back; then that of the remote side,
  which reads its own clock when the message arrives.
\<close>

definition sync_sample :: "int \<Rightarrow> int \<Rightarrow> int \<Rightarrow> int \<times> int" where
  "sync_sample t_start t_remote t_end =
     (let rtt = t_end - t_start in (t_remote - t_start - rtt sdiv 2, rtt))"

definition updateInfo :: "(SyncEvent list \<Rightarrow> SyncEvent list) \<Rightarrow> int \<Rightarrow> int \<Rightarrow> int \<Rightarrow> ClockInfo \<Rightarrow> (int \<times> int \<times> int) \<times> ClockInfo" where
  "updateInfo srt t_start t_remote t_end c =
     (case sync_sample t_start t_remote t_end of (offset, rtt) \<Rightarrow>
        ((t_remote, t_end, rtt), clock_update srt offset rtt c))"

definition update_time_sync :: "(SyncEvent list \<Rightarrow> SyncEvent list) \<Rightarrow> int \<Rightarrow> int \<Rightarrow> int \<Rightarrow> int \<Rightarrow> ClockInfo \<Rightarrow> ClockInfo" where
  "update_time_sync srt now t_request_local t_reply_remote rtt_remote c =
     (let rtt_local = now - t_request_local in
      clock_update srt (t_reply_remote - t_request_local - rtt_local sdiv 2) rtt_local c)"

text \<open>\<^verbatim>\<open>init\<close>: \<open>attempt\<close> is a call of \<^verbatim>\<open>updateInfo\<close>, true when it did not throw.\<close>

function init_loop :: "('w \<Rightarrow> bool \<times> 'w) \<Rightarrow> int \<Rightarrow> int \<Rightarrow> int \<Rightarrow> 'w \<Rightarrow> int \<times> 'w" where
  "init_loop attempt n i fails w =
     (if i < n then
        (case attempt w of
           (True, w') \<Rightarrow> init_loop attempt n (i + 1) fails w'
         | (False, w') \<Rightarrow> init_loop attempt n (if fails < n then i else i + 1) (fails + 1) w')
      else (fails, w))"
  by pat_completeness auto
termination
  by (relation "measure (\<lambda>(a, n, i, fails, w). nat (n - i) + nat (n - fails))") auto

declare init_loop.simps [simp del]

definition clock_init :: "('w \<Rightarrow> bool \<times> 'w) \<Rightarrow> int \<Rightarrow> 'w \<Rightarrow> bool \<times> 'w" where
  "clock_init attempt n w = (case init_loop attempt n 0 0 w of (fails, w') \<Rightarrow> (fails < n, w'))"

section \<open>The estimate lies between the samples\<close>

lemma sdiv_pos_bounds:
  assumes "0 < k" "a * k \<le> s" "s \<le> b * k"
  shows "a \<le> s sdiv k" "s sdiv k \<le> (b :: int)"
proof -
  have q: "s sdiv k = (if 0 \<le> s then s div k else - ((- s) div k))"
    using assms(1) by (auto simp: signed_divide_int_def sgn_if)
  have "a \<le> s div k" "s div k \<le> b"
    using zdiv_mono1 [OF assms(2) assms(1)] zdiv_mono1 [OF assms(3) assms(1)] assms(1) by simp_all
  moreover have "(- s) div k \<le> (- a) * k div k" "(- b) * k div k \<le> (- s) div k"
    using assms by (auto intro!: zdiv_mono1)
  then have "(- s) div k \<le> - a" "- b \<le> (- s) div k"
    using assms(1) nonzero_mult_div_cancel_right [of k "- a"] nonzero_mult_div_cancel_right [of k "- b"] by auto
  ultimately show "a \<le> s sdiv k" "s sdiv k \<le> b" by (simp_all add: q)
qed

lemma sum_list_bounds:
  assumes "\<forall>x \<in> set xs. lo \<le> f x \<and> f x \<le> (hi :: int)"
  shows "lo * int (length xs) \<le> sum_list (map f xs)" "sum_list (map f xs) \<le> hi * int (length xs)"
  using assms by (induction xs) (auto simp: algebra_simps)

lemma mean_bounds:
  assumes "xs \<noteq> []" "\<forall>x \<in> set xs. lo \<le> f x \<and> f x \<le> (hi :: int)"
  shows "lo \<le> sum_list (map f xs) sdiv int (length xs)" "sum_list (map f xs) sdiv int (length xs) \<le> hi"
  using sdiv_pos_bounds sum_list_bounds [OF assms(2)] assms(1) by auto

text \<open>What \<^verbatim>\<open>std::sort\<close> promises.\<close>

definition sorts_by_rtt :: "(SyncEvent list \<Rightarrow> SyncEvent list) \<Rightarrow> bool" where
  "sorts_by_rtt srt \<longleftrightarrow> (\<forall>xs. mset (srt xs) = mset xs \<and> sorted (map se_rtt (srt xs)))"

definition clock_inv :: "ClockInfo \<Rightarrow> bool" where
  "clock_inv c \<longleftrightarrow> 0 < n_samples c \<and> int (length (history c)) = n_samples c \<and> 0 \<le> n_pos c \<and> n_pos c < n_samples c"

lemma clock_inv_new: "0 < n \<Longrightarrow> clock_inv (new_ClockInfo n)"
  by (simp add: clock_inv_def new_ClockInfo_def)

lemma clock_inv_update: "clock_inv c \<Longrightarrow> clock_inv (clock_update srt offset rtt c)"
  by (auto simp: clock_inv_def clock_update_def update_estimate_def Let_def)

lemma update_estimate_history [simp]: "history (update_estimate srt c) = history c"
  by (simp add: update_estimate_def Let_def)

lemma history_update:
  "history (clock_update srt offset rtt c) = (history c)[nat (n_pos c) := \<lparr>se_offset = offset, se_rtt = cast_i32 rtt\<rparr>]"
  by (simp add: clock_update_def Let_def)

lemma sorted_ends:
  assumes "sorted (map f xs)" "xs \<noteq> []"
  shows "f (hd xs) = Min (f ` set xs)" "f (last xs) = Max (f ` set xs)"
proof -
  have nth: "i \<le> j \<Longrightarrow> j < length xs \<Longrightarrow> f (xs ! i) \<le> f (xs ! j)" for i j
    using assms(1) by (simp add: sorted_iff_nth_mono)
  have "f (hd xs) \<le> f x" "f x \<le> f (last xs)" if "x \<in> set xs" for x
    using that assms(2) nth [of 0] nth [of _ "length xs - 1"] by (auto simp: hd_conv_nth last_conv_nth in_set_conv_nth)
  then show "f (hd xs) = Min (f ` set xs)" "f (last xs) = Max (f ` set xs)"
    using assms(2) by (auto intro!: Min_eqI [symmetric] Max_eqI [symmetric])
qed

lemma middle_not_empty:
  assumes "xs \<noteq> []"
  defines "k \<equiv> length xs - length xs div 4 * 2"
  shows "length (take k (drop (length xs div 4) xs)) = k" "0 < k"
proof -
  have "0 < length xs" using assms(1) by simp
  then have "length xs div 4 * 2 < length xs" by linarith
  then show "length (take k (drop (length xs div 4) xs)) = k" "0 < k" unfolding k_def by simp_all
qed

text \<open>
  C22: After every sample the estimates are defined, the round trip estimate lies between the fastest
  and the slowest sample kept, the offset estimate between the smallest and the largest, and the
  jitter is the spread of the round trip times; the sample window, which holds zeros until it is full,
  keeps its length.
\<close>

theorem clock_estimate_bounds:
  assumes "clock_inv c" "sorts_by_rtt srt" and c': "c' = clock_update srt offset rtt c"
  shows "clock_inv c' \<and> (\<exists>r q. getRtt c' = Inr r \<and> getClockOffset c' = Inr q
    \<and> Min (se_rtt ` set (history c')) \<le> r \<and> r \<le> Max (se_rtt ` set (history c'))
    \<and> Min (se_offset ` set (history c')) \<le> q \<and> q \<le> Max (se_offset ` set (history c'))
    \<and> getJitter c' = Inr (Max (se_rtt ` set (history c')) - Min (se_rtt ` set (history c'))))"
proof
  show inv: "clock_inv c'" unfolding c' by (rule clock_inv_update) fact
  define xs where "xs = srt (history c')"
  define mid where "mid = take (length xs - length xs div 4 * 2) (drop (length xs div 4) xs)"
  have st: "set xs = set (history c')" and srt: "sorted (map se_rtt xs)"
    using assms(2) by (auto simp: sorts_by_rtt_def xs_def dest: mset_eq_setD)
  have ne: "xs \<noteq> []" using inv st by (auto simp: clock_inv_def)
  have mid: "mid \<noteq> []" "int (length xs - length xs div 4 * 2) = int (length mid)"
    using middle_not_empty [OF ne] by (auto simp: mid_def)
  have "set mid \<subseteq> set (history c')" unfolding mid_def st [symmetric] by (meson set_drop_subset set_take_subset subset_trans)
  then have b: "\<forall>x \<in> set mid. Min (f ` set (history c')) \<le> f x \<and> f x \<le> Max (f ` set (history c'))" for f :: "SyncEvent \<Rightarrow> int"
    by auto
  obtain d where d: "c' = update_estimate srt d" "history d = history c'"
    unfolding c' by (metis clock_update_def update_estimate_history)
  have h: "srt (history d) = xs" by (simp add: d(2) xs_def)
  have est: "ci_rtt (update_estimate srt d) = Some (sum_list (map se_rtt mid) sdiv int (length mid))"
      "ci_offset (update_estimate srt d) = Some (sum_list (map se_offset mid) sdiv int (length mid))"
      "rtt_fastest (update_estimate srt d) = Some (Min (se_rtt ` set xs))"
      "rtt_slowest (update_estimate srt d) = Some (Max (se_rtt ` set xs))"
    using sorted_ends [OF srt ne] mid(2) by (simp_all add: update_estimate_def Let_def h mid_def)
  show "\<exists>r q. getRtt c' = Inr r \<and> getClockOffset c' = Inr q
    \<and> Min (se_rtt ` set (history c')) \<le> r \<and> r \<le> Max (se_rtt ` set (history c'))
    \<and> Min (se_offset ` set (history c')) \<le> q \<and> q \<le> Max (se_offset ` set (history c'))
    \<and> getJitter c' = Inr (Max (se_rtt ` set (history c')) - Min (se_rtt ` set (history c')))"
    using mean_bounds [OF mid(1) b [of se_rtt]] mean_bounds [OF mid(1) b [of se_offset]]
    by (simp add: getRtt_def getClockOffset_def getJitter_def est [folded d(1)] st)
qed

theorem clock_estimate_bounds_witness:
  "let c = clock_update (sort_key se_rtt) 5 20 (new_ClockInfo 50) in
     \<exists>r. getRtt c = Inr r \<and> Min (se_rtt ` set (history c)) \<le> r \<and> r \<le> Max (se_rtt ` set (history c))"
proof -
  have "sorts_by_rtt (sort_key se_rtt)" by (simp add: sorts_by_rtt_def)
  then show ?thesis
    using clock_estimate_bounds [of "new_ClockInfo 50" "sort_key se_rtt" _ 5 20] clock_inv_new [of 50] by (auto simp: Let_def)
qed

section \<open>Accuracy of a sample\<close>

lemma sdiv_2_nonneg: "0 \<le> x \<Longrightarrow> x sdiv 2 = (x :: int) div 2"
  by (auto simp: signed_divide_int_def sgn_if)

lemma stored_sample:
  assumes "clock_inv c"
  shows "history (clock_update srt q r c) ! nat (n_pos c) = \<lparr>se_offset = q, se_rtt = cast_i32 r\<rparr>"
proof -
  have "nat (n_pos c) < length (history c)" using assms by (auto simp: clock_inv_def nat_less_iff)
  then show ?thesis by (simp add: history_update)
qed

text \<open>
  C21: When the remote clock is ahead by \<open>theta\<close> and the request, the reply and the following message take
  \<open>d1\<close>, \<open>d2\<close> and \<open>d3\<close>, the sample stored locally misses the offset by at most half the round trip, rounded up, and the
  sample the remote side stores from the message misses the opposite offset by at most half of the
  round trip it measured, rounded up.
\<close>

theorem clock_sync_accuracy:
  assumes "clock_inv c" "clock_inv e" "0 \<le> d1" "0 \<le> d2" "0 \<le> d3"
    and "updateInfo srt t (t + d1 + theta) (t + d1 + d2) c = ((a, b, r), c')"
    and "update_time_sync srt (t + d1 + d2 + d3 + theta) a b r e = e'"
  shows "\<bar>se_offset (history c' ! nat (n_pos c)) - theta\<bar> \<le> (d1 + d2 + 1) div 2
    \<and> \<bar>se_offset (history e' ! nat (n_pos e)) + theta\<bar> \<le> (d2 + d3 + 1) div 2"
proof
  have c': "a = t + d1 + theta" "b = t + d1 + d2" "c' = clock_update srt (d1 + theta - (d1 + d2) div 2) (d1 + d2) c"
    using assms(3,4,6) by (auto simp: updateInfo_def sync_sample_def Let_def sdiv_2_nonneg algebra_simps)
  then have e': "e' = clock_update srt (d2 - theta - (d2 + d3) div 2) (d2 + d3) e"
    using assms(4,5,7) by (auto simp: update_time_sync_def Let_def sdiv_2_nonneg algebra_simps)
  show "\<bar>se_offset (history c' ! nat (n_pos c)) - theta\<bar> \<le> (d1 + d2 + 1) div 2"
    unfolding c' stored_sample [OF assms(1)] using assms(3,4) by simp
  show "\<bar>se_offset (history e' ! nat (n_pos e)) + theta\<bar> \<le> (d2 + d3 + 1) div 2"
    unfolding e' stored_sample [OF assms(2)] using assms(4,5) by simp
qed

theorem clock_sync_accuracy_witness:
  "let c = new_ClockInfo 4; (m, c') = updateInfo (sort_key se_rtt) 1000 1510 1030 c in
     \<bar>se_offset (history c' ! 0) - 500\<bar> \<le> 15"
proof -
  have inv: "clock_inv (new_ClockInfo 4)" by (simp add: clock_inv_new)
  obtain a b r c' where u: "updateInfo (sort_key se_rtt) 1000 (1000 + 10 + 500) (1000 + 10 + 20) (new_ClockInfo 4) = ((a, b, r), c')"
    by (metis prod.exhaust)
  show ?thesis
    using clock_sync_accuracy [OF inv inv, of 10 20 0, OF _ _ _ u] u by (simp add: new_ClockInfo_def)
qed

section \<open>Initialisation ends\<close>

definition counting :: "(nat \<Rightarrow> bool) \<Rightarrow> nat \<Rightarrow> bool \<times> nat" where
  "counting ok k = (ok k, Suc k)"

definition failures :: "(nat \<Rightarrow> bool) \<Rightarrow> nat \<Rightarrow> int" where
  "failures ok k = int (length (filter (\<lambda>j. \<not> ok j) [0..<k]))"

lemma failures_Suc: "failures ok (Suc k) = failures ok k + (if ok k then 0 else 1)"
  by (simp add: failures_def)

lemma init_loop_count:
  assumes "i = int k - failures ok k + max 0 (failures ok k - n)" "i \<le> n"
  shows "\<exists>m. init_loop (counting ok) n i (failures ok k) k = (failures ok m, m)
    \<and> n = int m - failures ok m + max 0 (failures ok m - n)"
  using assms
proof (induction "nat (n - i) + nat (n - failures ok k)" arbitrary: i k rule: less_induct)
  case less
  let ?j = "if ok k \<or> \<not> failures ok k < n then i + 1 else i"
  show ?case
  proof (cases "i < n")
    case True
    have "\<exists>m. init_loop (counting ok) n ?j (failures ok (Suc k)) (Suc k) = (failures ok m, m)
        \<and> n = int m - failures ok m + max 0 (failures ok m - n)"
      using less.prems True by (intro less.hyps) (auto simp: failures_Suc)
    moreover have "init_loop (counting ok) n i (failures ok k) k = init_loop (counting ok) n ?j (failures ok (Suc k)) (Suc k)"
      using True by (subst init_loop.simps) (simp add: counting_def failures_Suc)
    ultimately show ?thesis by simp
  next
    case False
    then show ?thesis using less.prems by (subst init_loop.simps) auto
  qed
qed

text \<open>
  The initial synchronisation always ends, whichever exchanges fail: it makes \<open>n\<close> exchanges plus
  one for each failure but never more than \<open>2 n\<close>, and succeeds exactly when fewer than \<open>n\<close> failed.
\<close>

theorem clock_init_ends:
  assumes "0 \<le> n"
  shows "\<exists>k. clock_init (counting ok) n 0 = (failures ok k < n, k) \<and> int k = min (n + failures ok k) (2 * n)"
proof -
  obtain m where "init_loop (counting ok) n 0 0 0 = (failures ok m, m)" "n = int m - failures ok m + max 0 (failures ok m - n)"
    using init_loop_count [of 0 0 ok n] assms by (auto simp: failures_def)
  then show ?thesis by (auto simp: clock_init_def min_def max_def split: if_splits)
qed

theorem clock_init_ends_witness:
  "\<exists>k. clock_init (counting (\<lambda>j. j mod 2 = 0)) 3 0 = (failures (\<lambda>j. j mod 2 = 0) k < 3, k)
    \<and> int k = min (3 + failures (\<lambda>j. j mod 2 = 0) k) 6"
  using clock_init_ends [of 3 "\<lambda>j. j mod 2 = 0"] by simp

end
