(* ===== verification/FTL_Dispatcher.thy ===== *)
theory FTL_Dispatcher
  imports FTL_Prelude
begin

text \<open>
  Remote procedure calls: the binding table and the dispatch of incoming messages
  (\<^verbatim>\<open>dispatcher.hpp\<close>, \<^verbatim>\<open>dispatcher.cpp\<close>).

  Messages are objects of the msgpack library, which is reached through the record \<open>msgpack\<close>: the
  type \<open>'o\<close> of objects, the conversions the dispatcher asks for (\<open>None\<close> where \<^verbatim>\<open>convert\<close> throws) and
  the reads of the union \<^verbatim>\<open>via\<close>. A bound function runs on the state \<open>'w\<close> of the process and is given
  the peer \<open>'p\<close> the message came from. The mutex of the table only orders calls and is left out.
\<close>

section \<open>Computations with exceptions\<close>

text \<open>
  Exceptions by the clauses that tell them apart: \<^verbatim>\<open>std::bad_cast\<close> (thrown by failed conversions),
  any other \<^verbatim>\<open>std::exception\<close> with its \<^verbatim>\<open>what()\<close>, an \<^verbatim>\<open>int\<close>, a pointer to one, anything else. \<open>Abort\<close>
  is the end of the process by a failed \<^verbatim>\<open>CHECK\<close>, which no clause catches. The source position
  that \<^verbatim>\<open>FTL_Error\<close> appends to its message is left out.
\<close>

datatype rpc_exn = Exn_cast string | Exn_std string | Exn_int int | Exn_int_ptr int | Exn_other | Abort

type_synonym ('a, 'w) io = "'w \<Rightarrow> (rpc_exn + 'a) \<times> 'w"

definition io_return :: "'a \<Rightarrow> ('a, 'w) io" where
  "io_return x = (\<lambda>w. (Inr x, w))"

definition io_throw :: "rpc_exn \<Rightarrow> ('a, 'w) io" where
  "io_throw e = (\<lambda>w. (Inl e, w))"

definition io_bind :: "('a, 'w) io \<Rightarrow> ('a \<Rightarrow> ('b, 'w) io) \<Rightarrow> ('b, 'w) io" where
  "io_bind m f = (\<lambda>w. case m w of (Inl e, w') \<Rightarrow> (Inl e, w') | (Inr x, w') \<Rightarrow> f x w')"

text \<open>\<open>io_catch m h\<close>: the handler gets the exception and says by \<open>None\<close> that no clause matches.\<close>

definition io_catch :: "('a, 'w) io \<Rightarrow> (rpc_exn \<Rightarrow> ('a, 'w) io option) \<Rightarrow> ('a, 'w) io" where
  "io_catch m h = (\<lambda>w. case m w of
     (Inl e, w') \<Rightarrow> (if e = Abort then (Inl e, w') else case h e of Some k \<Rightarrow> k w' | None \<Rightarrow> (Inl e, w'))
   | (Inr x, w') \<Rightarrow> (Inr x, w'))"

text \<open>\<^verbatim>\<open>catch (const std::exception &e)\<close>: the message of an exception the clause takes.\<close>

fun std_what :: "rpc_exn \<Rightarrow> string option" where
  "std_what (Exn_cast s) = Some s"
| "std_what (Exn_std s) = Some s"
| "std_what _ = None"

lemma io_simps [simp]:
  "io_return x w = (Inr x, w)" "io_throw e w = (Inl e, w)"
  "io_bind (io_return x) f = f x" "io_bind (io_throw e) f = io_throw e"
  by (simp_all add: io_return_def io_throw_def io_bind_def fun_eq_iff)

section \<open>msgpack\<close>

datatype object_type = OT_NIL | OT_BOOLEAN | OT_POSITIVE_INTEGER | OT_NEGATIVE_INTEGER | OT_FLOAT32 | OT_FLOAT64 | OT_STR | OT_BIN | OT_ARRAY | OT_MAP | OT_EXT

definition object_type_to_string :: "object_type \<Rightarrow> string" where
  "object_type_to_string t = (case t of
     OT_NIL \<Rightarrow> ''NIL'' | OT_BOOLEAN \<Rightarrow> ''BOOLEAN'' | OT_POSITIVE_INTEGER \<Rightarrow> ''POSITIVE_INTEGER''
   | OT_NEGATIVE_INTEGER \<Rightarrow> ''NEGATIVE_INTEGER'' | OT_FLOAT32 \<Rightarrow> ''FLOAT32'' | OT_FLOAT64 \<Rightarrow> ''FLOAT64''
   | OT_STR \<Rightarrow> ''STR'' | OT_BIN \<Rightarrow> ''BIN'' | OT_ARRAY \<Rightarrow> ''ARRAY'' | OT_MAP \<Rightarrow> ''MAP'' | OT_EXT \<Rightarrow> ''EXT'')"

record 'o msgpack =
  array_size :: "'o \<Rightarrow> nat"
  first_i64 :: "'o \<Rightarrow> int"
  elem_types :: "'o \<Rightarrow> object_type list"
  to_call :: "'o \<Rightarrow> (int \<times> u32 \<times> string \<times> 'o) option"
  to_notification :: "'o \<Rightarrow> (int \<times> string \<times> 'o) option"
  to_response :: "'o \<Rightarrow> (u32 \<times> u32 \<times> 'o \<times> 'o) option"
  to_string_obj :: "'o \<Rightarrow> string option"
  of_string_obj :: "string \<Rightarrow> 'o"
  nil_obj :: 'o
  is_nil :: "'o \<Rightarrow> bool"

text \<open>The message of the exception a failed conversion throws.\<close>

definition type_error :: rpc_exn where
  "type_error = Exn_cast ''std::bad_cast''"

definition convert :: "('o \<Rightarrow> 'a option) \<Rightarrow> 'o \<Rightarrow> ('a, 'w) io" where
  "convert c v = (case c v of None \<Rightarrow> io_throw type_error | Some x \<Rightarrow> io_return x)"

section \<open>The binding table\<close>

type_synonym ('p, 'o, 'w) adaptor = "'p \<Rightarrow> 'o \<Rightarrow> ('o, 'w) io"

text \<open>\<^verbatim>\<open>parent_\<close> is null or the table asked next.\<close>

datatype ('p, 'o, 'w) Dispatcher =
  Dispatcher (funcs: "string \<rightharpoonup> ('p, 'o, 'w) adaptor") (parent: "('p, 'o, 'w) Dispatcher option")

definition new_Dispatcher :: "('p, 'o, 'w) Dispatcher option \<Rightarrow> ('p, 'o, 'w) Dispatcher" where
  "new_Dispatcher p = Dispatcher Map.empty p"

fun locateHandler :: "('p, 'o, 'w) Dispatcher \<Rightarrow> string \<Rightarrow> ('p, 'o, 'w) adaptor option" where
  "locateHandler (Dispatcher fs p) name =
     (case fs name of
        Some f \<Rightarrow> Some f
      | None \<Rightarrow> (case p of Some d \<Rightarrow> locateHandler d name | None \<Rightarrow> None))"

definition isBound :: "('p, 'o, 'w) Dispatcher \<Rightarrow> string \<Rightarrow> bool" where
  "isBound d name \<longleftrightarrow> funcs d name \<noteq> None"

definition getBindings :: "('p, 'o, 'w) Dispatcher \<Rightarrow> string set" where
  "getBindings d = dom (funcs d)"

definition unbind :: "string \<Rightarrow> ('p, 'o, 'w) Dispatcher \<Rightarrow> ('p, 'o, 'w) Dispatcher" where
  "unbind name d = Dispatcher ((funcs d)(name := None)) (parent d)"

definition enforce_unique_name :: "string \<Rightarrow> ('p, 'o, 'w) Dispatcher \<Rightarrow> rpc_exn + unit" where
  "enforce_unique_name name d =
     (if funcs d name \<noteq> None then Inl (Exn_std (''RPC non unique binding for '' @ CHR 0x27 # name @ [CHR 0x27])) else Inr ())"

text \<open>
  \<^verbatim>\<open>bind\<close> with a finished adaptor: \<^verbatim>\<open>insert\<close> into the \<^verbatim>\<open>unordered_map\<close>. The eight overloads below build
  the adaptor from the function: with or without a result, with or without arguments, with or
  without the peer. They pass the expected number of arguments as the number found.
\<close>

definition bind_adaptor :: "string \<Rightarrow> ('p, 'o, 'w) adaptor \<Rightarrow> ('p, 'o, 'w) Dispatcher \<Rightarrow> rpc_exn + ('p, 'o, 'w) Dispatcher" where
  "bind_adaptor name a d =
     (case enforce_unique_name name d of
        Inl e \<Rightarrow> Inl e
      | Inr _ \<Rightarrow> Inr (Dispatcher ((funcs d)(name \<mapsto> a)) (parent d)))"

definition enforce_arg_count :: "string \<Rightarrow> nat \<Rightarrow> nat \<Rightarrow> (unit, 'w) io" where
  "enforce_arg_count func found expected =
     (if found \<noteq> expected
      then io_throw (Exn_std (''RPC argument missmatch for '' @ CHR 0x27 # func @ CHR 0x27 # '' - '' @ nat_to_string found @ '' != '' @ nat_to_string expected))
      else io_return ())"

definition bind_void_zero :: "'o msgpack \<Rightarrow> string \<Rightarrow> (unit, 'w) io \<Rightarrow> ('p, 'o, 'w) Dispatcher \<Rightarrow> rpc_exn + ('p, 'o, 'w) Dispatcher" where
  "bind_void_zero m name func = bind_adaptor name (\<lambda>p args.
     io_bind (enforce_arg_count name 0 (array_size m args)) (\<lambda>_.
     io_bind func (\<lambda>_. io_return (nil_obj m))))"

definition bind_void_args :: "'o msgpack \<Rightarrow> string \<Rightarrow> nat \<Rightarrow> ('o \<Rightarrow> 'a option) \<Rightarrow> ('a \<Rightarrow> (unit, 'w) io)
    \<Rightarrow> ('p, 'o, 'w) Dispatcher \<Rightarrow> rpc_exn + ('p, 'o, 'w) Dispatcher" where
  "bind_void_args m name n conv func = bind_adaptor name (\<lambda>p args.
     io_bind (enforce_arg_count name n (array_size m args)) (\<lambda>_.
     io_bind (convert conv args) (\<lambda>x.
     io_bind (func x) (\<lambda>_. io_return (nil_obj m)))))"

definition bind_result_zero :: "'o msgpack \<Rightarrow> string \<Rightarrow> ('r \<Rightarrow> 'o) \<Rightarrow> ('r, 'w) io
    \<Rightarrow> ('p, 'o, 'w) Dispatcher \<Rightarrow> rpc_exn + ('p, 'o, 'w) Dispatcher" where
  "bind_result_zero m name obj func = bind_adaptor name (\<lambda>p args.
     io_bind (enforce_arg_count name 0 (array_size m args)) (\<lambda>_.
     io_bind func (\<lambda>r. io_return (obj r))))"

definition bind_result_args :: "'o msgpack \<Rightarrow> string \<Rightarrow> nat \<Rightarrow> ('o \<Rightarrow> 'a option) \<Rightarrow> ('r \<Rightarrow> 'o) \<Rightarrow> ('a \<Rightarrow> ('r, 'w) io)
    \<Rightarrow> ('p, 'o, 'w) Dispatcher \<Rightarrow> rpc_exn + ('p, 'o, 'w) Dispatcher" where
  "bind_result_args m name n conv obj func = bind_adaptor name (\<lambda>p args.
     io_bind (enforce_arg_count name n (array_size m args)) (\<lambda>_.
     io_bind (convert conv args) (\<lambda>x.
     io_bind (func x) (\<lambda>r. io_return (obj r)))))"

definition bind_peer_void_zero :: "'o msgpack \<Rightarrow> string \<Rightarrow> ('p \<Rightarrow> (unit, 'w) io)
    \<Rightarrow> ('p, 'o, 'w) Dispatcher \<Rightarrow> rpc_exn + ('p, 'o, 'w) Dispatcher" where
  "bind_peer_void_zero m name func = bind_adaptor name (\<lambda>p args.
     io_bind (enforce_arg_count name 0 (array_size m args)) (\<lambda>_.
     io_bind (func p) (\<lambda>_. io_return (nil_obj m))))"

definition bind_peer_void_args :: "'o msgpack \<Rightarrow> string \<Rightarrow> nat \<Rightarrow> ('o \<Rightarrow> 'a option) \<Rightarrow> ('p \<Rightarrow> 'a \<Rightarrow> (unit, 'w) io)
    \<Rightarrow> ('p, 'o, 'w) Dispatcher \<Rightarrow> rpc_exn + ('p, 'o, 'w) Dispatcher" where
  "bind_peer_void_args m name n conv func = bind_adaptor name (\<lambda>p args.
     io_bind (enforce_arg_count name n (array_size m args)) (\<lambda>_.
     io_bind (convert conv args) (\<lambda>x.
     io_bind (func p x) (\<lambda>_. io_return (nil_obj m)))))"

definition bind_peer_result_zero :: "'o msgpack \<Rightarrow> string \<Rightarrow> ('r \<Rightarrow> 'o) \<Rightarrow> ('p \<Rightarrow> ('r, 'w) io)
    \<Rightarrow> ('p, 'o, 'w) Dispatcher \<Rightarrow> rpc_exn + ('p, 'o, 'w) Dispatcher" where
  "bind_peer_result_zero m name obj func = bind_adaptor name (\<lambda>p args.
     io_bind (enforce_arg_count name 0 (array_size m args)) (\<lambda>_.
     io_bind (func p) (\<lambda>r. io_return (obj r))))"

definition bind_peer_result_args :: "'o msgpack \<Rightarrow> string \<Rightarrow> nat \<Rightarrow> ('o \<Rightarrow> 'a option) \<Rightarrow> ('r \<Rightarrow> 'o) \<Rightarrow> ('p \<Rightarrow> 'a \<Rightarrow> ('r, 'w) io)
    \<Rightarrow> ('p, 'o, 'w) Dispatcher \<Rightarrow> rpc_exn + ('p, 'o, 'w) Dispatcher" where
  "bind_peer_result_args m name n conv obj func = bind_adaptor name (\<lambda>p args.
     io_bind (enforce_arg_count name n (array_size m args)) (\<lambda>_.
     io_bind (convert conv args) (\<lambda>x.
     io_bind (func p x) (\<lambda>r. io_return (obj r)))))"

section \<open>Dispatch\<close>

text \<open>What the dispatcher calls on the peer a message came from.\<close>

record ('p, 'o, 'w) peer_ops =
  p_dispatchResponse :: "'p \<Rightarrow> u32 \<Rightarrow> 'o \<Rightarrow> 'o \<Rightarrow> (unit, 'w) io"
  p_sendResponse :: "'p \<Rightarrow> u32 \<Rightarrow> 'o \<Rightarrow> (unit, 'w) io"
  p_sendErrorResponse :: "'p \<Rightarrow> u32 \<Rightarrow> 'o \<Rightarrow> (unit, 'w) io"

definition dispatch_call :: "'o msgpack \<Rightarrow> ('p, 'o, 'w) peer_ops \<Rightarrow> ('p, 'o, 'w) Dispatcher \<Rightarrow> 'p \<Rightarrow> 'o \<Rightarrow> (unit, 'w) io" where
  "dispatch_call m ops d s msg =
     (case to_call m msg of
        None \<Rightarrow> io_throw (Exn_std ''Bad message format'')
      | Some (typ, i, name, args) \<Rightarrow>
          if typ = 0 then
            (case locateHandler d name of
               Some f \<Rightarrow>
                 io_catch (io_bind (f s args) (\<lambda>result. p_sendResponse ops s i result))
                   (\<lambda>e. map_option (\<lambda>what. p_sendErrorResponse ops s i (of_string_obj m what)) (std_what e))
             | None \<Rightarrow> io_throw (Exn_std (''No binding found for '' @ name)))
          else io_throw (Exn_std (''Unrecognised message type: '' @ int_to_string typ)))"

text \<open>The argument types joined by commas, for the message of a failed conversion.\<close>

fun join_types :: "object_type list \<Rightarrow> string" where
  "join_types [] = ''''"
| "join_types [t] = object_type_to_string t"
| "join_types (t # ts) = object_type_to_string t @ '', '' @ join_types ts"

text \<open>The clauses of \<^verbatim>\<open>dispatch_notification\<close>; the first rethrows the address of the integer.\<close>

fun notification_exn :: "'o msgpack \<Rightarrow> string \<Rightarrow> 'o \<Rightarrow> rpc_exn \<Rightarrow> rpc_exn" where
  "notification_exn m name args (Exn_int n) = Exn_int_ptr n"
| "notification_exn m name args (Exn_cast s) = Exn_std (''Bad cast, got: '' @ join_types (elem_types m args))"
| "notification_exn m name args (Exn_std s) = Exn_std (''Exception for '' @ CHR 0x27 # name @ CHR 0x27 # '' - '' @ s)"
| "notification_exn m name args e = e"

definition dispatch_notification :: "'o msgpack \<Rightarrow> ('p, 'o, 'w) Dispatcher \<Rightarrow> 'p \<Rightarrow> 'o \<Rightarrow> (unit, 'w) io" where
  "dispatch_notification m d s msg =
     io_bind (convert (to_notification m) msg) (\<lambda>(_, name, args).
       case locateHandler d name of
         Some f \<Rightarrow> io_catch (io_bind (f s args) (\<lambda>_. io_return ())) (\<lambda>e. Some (io_throw (notification_exn m name args e)))
       | None \<Rightarrow> io_throw (Exn_std (''Missing handler for incoming message ('' @ name @ '')'')))"

definition dispatch :: "'o msgpack \<Rightarrow> ('p, 'o, 'w) peer_ops \<Rightarrow> ('p, 'o, 'w) Dispatcher \<Rightarrow> 'p \<Rightarrow> 'o \<Rightarrow> (unit, 'w) io" where
  "dispatch m ops d s msg =
     (if array_size m msg = 3 then dispatch_notification m d s msg
      else if array_size m msg = 4 then
        (if first_i64 m msg = 1 then
           (case to_response m msg of
              None \<Rightarrow> io_throw (Exn_std ''Bad response format'')
            | Some (_, i, err, args) \<Rightarrow> p_dispatchResponse ops s i err args)
         else dispatch_call m ops d s msg)
      else io_throw (Exn_std (''Unrecognised msgpack : '' @ nat_to_string (array_size m msg))))"

section \<open>Lookup\<close>

text \<open>The table as a function of names: the own bindings override those of the parent.\<close>

lemma locateHandler_parent:
  "locateHandler d = (case parent d of None \<Rightarrow> Map.empty | Some p \<Rightarrow> locateHandler p) ++ funcs d"
  by (cases d) (auto simp: map_add_def fun_eq_iff split: option.splits)

lemma bind_adaptor_cases:
  "bind_adaptor name a d =
     (if isBound d name then Inl (Exn_std (''RPC non unique binding for '' @ CHR 0x27 # name @ [CHR 0x27]))
      else Inr (Dispatcher ((funcs d)(name \<mapsto> a)) (parent d)))"
  by (simp add: bind_adaptor_def enforce_unique_name_def isBound_def)

lemma locateHandler_bind:
  assumes "bind_adaptor name a d = Inr d'"
  shows "locateHandler d' = (locateHandler d)(name \<mapsto> a)"
  using assms by (auto simp: bind_adaptor_cases locateHandler_parent [of d] locateHandler_parent [of d'] split: if_splits)

text \<open>What the users of a binding table rely on.\<close>

locale binding_table =
  fixes bind :: "string \<Rightarrow> 'a \<Rightarrow> 'd \<Rightarrow> 'e + 'd"
    and lookup :: "'d \<Rightarrow> string \<Rightarrow> 'a option"
  assumes lookup_bind: "bind k a d = Inr d' \<Longrightarrow> lookup d' = (lookup d)(k \<mapsto> a)"
begin

lemma lookup_last: "bind k a d = Inr d' \<Longrightarrow> lookup d' k = Some a"
  by (simp add: lookup_bind)

lemma lookup_before: "bind k a d = Inr d' \<Longrightarrow> k \<noteq> j \<Longrightarrow> lookup d' j = lookup d j"
  by (simp add: lookup_bind)

end

interpretation table: binding_table bind_adaptor locateHandler
  by unfold_locales (rule locateHandler_bind)

lemma locateHandler_unbind:
  "locateHandler (unbind name d) = (locateHandler d)(name :=
     (case parent d of None \<Rightarrow> None | Some p \<Rightarrow> locateHandler p name))"
  by (auto simp: fun_eq_iff unbind_def locateHandler_parent [of d] map_add_def split: option.splits)

end
