(* ===== verification/FTL_Peer.thy ===== *)
theory FTL_Peer
  imports FTL_Packet FTL_Dispatcher FTL_UUID FTL_Clock
begin

text \<open>
  The peer base class (\<^verbatim>\<open>peer.hpp\<close>, \<^verbatim>\<open>peer.cpp\<close>): outgoing calls with their futures, answers, the
  handshake, and the functions every peer binds.

  The state is the record \<open>PeerBase\<close>; its last field holds everything behind the virtual functions and
  the universe, which are reached through the record \<open>peer_env\<close>. The binding table is an argument,
  because the functions in it act on the peer. The call counter is static in the program; it is kept
  in the record, and calls on other peers are steps that advance it.
\<close>

section \<open>State\<close>

datatype NodeType = kInvalidNode | kNode | kWebService

datatype NodeStatus = kInvalidStatus | kConnecting | kConnected | kDisconnected | kReconnecting

text \<open>
  The state shared by a promise and its future. A promise that is destroyed unsatisfied stores a
  broken promise error.
\<close>

datatype 'v future = Pending | Value 'v | Failed string | Broken

text \<open>A stored callback: the conversion of the result and the promise it was made with.\<close>

record ('o, 'v, 'x) PeerBase =
  local_id :: int
  pb_id :: UUID
  pb_version :: u32
  pb_status :: NodeStatus
  rpc_callbacks :: "u32 \<rightharpoonup> ('o \<Rightarrow> 'v option) \<times> nat"
  promises :: "'v future list"
  rpcid :: u32
  handshake_sent :: bool
  pb_clock :: ClockInfo
  pb_env :: 'x

text \<open>A message that is packed into a send buffer.\<close>

datatype 'o rpc_msg = Msg_call u32 string 'o | Msg_notify string 'o | Msg_response u32 'o 'o

record ('o, 'v, 'x) peer_env =
  e_pack :: "'o rpc_msg \<Rightarrow> rpc_exn + u8 list"
  e_get_buffer :: "(unit, ('o, 'v, 'x) PeerBase) io"
  e_send_buffer :: "string \<Rightarrow> u8 list \<Rightarrow> (int, ('o, 'v, 'x) PeerBase) io"
  e_notifyError :: "Error \<Rightarrow> string \<Rightarrow> (unit, ('o, 'v, 'x) PeerBase) io"
  e_notifyConnect :: "(unit, ('o, 'v, 'x) PeerBase) io"
  e_close :: "bool \<Rightarrow> (unit, ('o, 'v, 'x) PeerBase) io"
  e_get_time :: "'x \<Rightarrow> int"
  e_sort :: "SyncEvent list \<Rightarrow> SyncEvent list"
  e_net_id :: UUID
  e_handshake_args :: "u64 \<Rightarrow> u32 \<Rightarrow> UUID \<Rightarrow> 'o"
  e_of_time :: "int \<Rightarrow> 'o"
  e_to_time_sync :: "'o \<Rightarrow> (int \<times> int \<times> int) option"

definition io_lift :: "rpc_exn + 'a \<Rightarrow> ('a, 'w) io" where
  "io_lift r = (case r of Inl e \<Rightarrow> io_throw e | Inr x \<Rightarrow> io_return x)"

section \<open>Sending\<close>

text \<open>The packing and sending that \<^verbatim>\<open>send\<close>, \<^verbatim>\<open>asyncCall\<close> and the answers share.\<close>

definition pack_and_send :: "('o, 'v, 'x) peer_env \<Rightarrow> string \<Rightarrow> 'o rpc_msg \<Rightarrow> (int, ('o, 'v, 'x) PeerBase) io" where
  "pack_and_send ev name msg = io_bind (io_lift (e_pack ev msg)) (\<lambda>buffer. e_send_buffer ev name buffer)"

definition peer_send :: "('o, 'v, 'x) peer_env \<Rightarrow> string \<Rightarrow> 'o \<Rightarrow> (int, ('o, 'v, 'x) PeerBase) io" where
  "peer_send ev name args = io_bind (e_get_buffer ev) (\<lambda>_.
     io_catch (pack_and_send ev name (Msg_notify name args)) (\<lambda>_. Some (io_return (- 1))))"

text \<open>A response tuple carries 1, the id, the error and the result.\<close>

definition sendResponse :: "'o msgpack \<Rightarrow> ('o, 'v, 'x) peer_env \<Rightarrow> u32 \<Rightarrow> 'o \<Rightarrow> (unit, ('o, 'v, 'x) PeerBase) io" where
  "sendResponse m ev i res = io_bind (e_get_buffer ev) (\<lambda>_.
     io_catch (io_bind (pack_and_send ev ''rpc'' (Msg_response i (nil_obj m) res)) (\<lambda>_. io_return ())) (\<lambda>_. Some (io_return ())))"

definition sendErrorResponse :: "'o msgpack \<Rightarrow> ('o, 'v, 'x) peer_env \<Rightarrow> u32 \<Rightarrow> 'o \<Rightarrow> (unit, ('o, 'v, 'x) PeerBase) io" where
  "sendErrorResponse m ev i res = io_bind (e_get_buffer ev) (\<lambda>_.
     io_catch (io_bind (pack_and_send ev ''rpc'' (Msg_response i res (nil_obj m))) (\<lambda>_. io_return ())) (\<lambda>_. Some (io_return ())))"

section \<open>Calls\<close>

text \<open>Setting a promise, and destroying the callback that owns it.\<close>

definition settle :: "nat \<Rightarrow> 'v future \<Rightarrow> ('o, 'v, 'x) PeerBase \<Rightarrow> ('o, 'v, 'x) PeerBase" where
  "settle k v p = p\<lparr>promises := (promises p)[k := v]\<rparr>"

definition drop_callback :: "u32 \<Rightarrow> ('o, 'v, 'x) PeerBase \<Rightarrow> ('o, 'v, 'x) PeerBase" where
  "drop_callback i p =
     (case rpc_callbacks p i of
        None \<Rightarrow> p
      | Some (conv, k) \<Rightarrow> settle k Broken (p\<lparr>rpc_callbacks := (rpc_callbacks p)(i := None)\<rparr>))"

text \<open>
  The part of \<^verbatim>\<open>asyncCall\<close> under the lock: a new promise, the next id, the callback stored under it.
  Assigning over a callback that is still stored destroys that one.
\<close>

definition register_call :: "('o \<Rightarrow> 'v option) \<Rightarrow> ('o, 'v, 'x) PeerBase \<Rightarrow> u32 \<times> nat \<times> ('o, 'v, 'x) PeerBase" where
  "register_call conv p =
     (let k = length (promises p);
          i = rpcid p;
          p' = drop_callback i (p\<lparr>promises := promises p @ [Pending], rpcid := i + 1\<rparr>) in
      (i, k, p'\<lparr>rpc_callbacks := (rpc_callbacks p')(i \<mapsto> (conv, k))\<rparr>))"

definition asyncCall :: "('o, 'v, 'x) peer_env \<Rightarrow> ('o \<Rightarrow> 'v option) \<Rightarrow> string \<Rightarrow> 'o \<Rightarrow> (nat, ('o, 'v, 'x) PeerBase) io" where
  "asyncCall ev conv name args = (\<lambda>p.
     case register_call conv p of (i, k, p') \<Rightarrow>
       io_bind (e_get_buffer ev) (\<lambda>_.
       io_bind (io_catch (io_bind (pack_and_send ev name (Msg_call i name args)) (\<lambda>_. io_return ())) (\<lambda>_. Some (io_return ())))
         (\<lambda>_. io_return k)) p')"

text \<open>\<^verbatim>\<open>call\<close>: what the wait of 1200 ms on the future gives, from the state of the future when it ends.\<close>

definition call_result :: "string \<Rightarrow> 'v future \<Rightarrow> rpc_exn + 'v" where
  "call_result name f = (case f of
     Pending \<Rightarrow> Inl (Exn_std (''Call timeout: '' @ name))
   | Value v \<Rightarrow> Inr v
   | Failed s \<Rightarrow> Inl (Exn_std s)
   | Broken \<Rightarrow> Inl (Exn_std ''std::future_error: Broken promise''))"

definition cancelCall :: "int \<Rightarrow> ('o, 'v, 'x) PeerBase \<Rightarrow> ('o, 'v, 'x) PeerBase" where
  "cancelCall i p = drop_callback (word_of_int i) p"

text \<open>The stored callback: the state of the promise after it and the exception it throws.\<close>

definition run_callback :: "'o msgpack \<Rightarrow> ('o \<Rightarrow> 'v option) \<Rightarrow> 'o \<Rightarrow> 'o \<Rightarrow> rpc_exn + 'v future" where
  "run_callback m conv res err =
     (if is_nil m err then (case conv res of Some v \<Rightarrow> Inr (Value v) | None \<Rightarrow> Inl type_error)
      else (case to_string_obj m err of Some s \<Rightarrow> Inr (Failed s) | None \<Rightarrow> Inl type_error))"

definition dispatchResponse :: "'o msgpack \<Rightarrow> ('o, 'v, 'x) peer_env \<Rightarrow> u32 \<Rightarrow> 'o \<Rightarrow> 'o \<Rightarrow> (unit, ('o, 'v, 'x) PeerBase) io" where
  "dispatchResponse m ev i err res = (\<lambda>p.
     case rpc_callbacks p i of
       None \<Rightarrow> e_notifyError ev kRPCResponse ''Missing RPC callback for result - discarding'' p
     | Some (conv, k) \<Rightarrow>
         (let p' = p\<lparr>rpc_callbacks := (rpc_callbacks p)(i := None)\<rparr> in
          case run_callback m conv res err of
            Inr v \<Rightarrow> (Inr (), settle k v p')
          | Inl e \<Rightarrow>
             (case std_what e of
                Some what \<Rightarrow> apsnd (settle k Broken) (e_notifyError ev kRPCResponse what p')
              | None \<Rightarrow> (Inl e, settle k Broken p'))))"

text \<open>The operations the dispatcher calls, for this peer.\<close>

definition base_ops :: "'o msgpack \<Rightarrow> ('o, 'v, 'x) peer_env \<Rightarrow> ('p, 'o, ('o, 'v, 'x) PeerBase) peer_ops" where
  "base_ops m ev = \<lparr>p_dispatchResponse = (\<lambda>_. dispatchResponse m ev), p_sendResponse = (\<lambda>_. sendResponse m ev),
     p_sendErrorResponse = (\<lambda>_. sendErrorResponse m ev)\<rparr>"

definition process_message :: "'o msgpack \<Rightarrow> ('o, 'v, 'x) peer_env \<Rightarrow> ('p, 'o, ('o, 'v, 'x) PeerBase) Dispatcher \<Rightarrow> 'p \<Rightarrow> 'o
    \<Rightarrow> (unit, ('o, 'v, 'x) PeerBase) io" where
  "process_message m ev d s msg =
     io_catch (dispatch m (base_ops m ev) d s msg)
       (\<lambda>e. map_option (\<lambda>what. e_notifyError ev kDispatchFailed what) (std_what e))"

section \<open>Handshake\<close>

definition kMagic :: u64 where "kMagic = 0x0009340053640912"

text \<open>\<^verbatim>\<open>FTL_VERSION_MAJOR\<close> and the others are set by the build.\<close>

definition kVersion :: "u32 \<Rightarrow> u32 \<Rightarrow> u32 \<Rightarrow> u32" where
  "kVersion major minor patch = push_bit 16 major + push_bit 8 minor + patch"

definition send_handshake :: "('o, 'v, 'x) peer_env \<Rightarrow> u32 \<Rightarrow> (int, ('o, 'v, 'x) PeerBase) io" where
  "send_handshake ev ver = (\<lambda>p.
     if pb_status p \<noteq> kConnecting then (Inl Abort, p)
     else peer_send ev ''__handshake__'' (e_handshake_args ev kMagic ver (e_net_id ev)) (p\<lparr>handshake_sent := True\<rparr>))"

definition process_handshake :: "('o, 'v, 'x) peer_env \<Rightarrow> u32 \<Rightarrow> u64 \<Rightarrow> u32 \<Rightarrow> UUID \<Rightarrow> (bool, ('o, 'v, 'x) PeerBase) io" where
  "process_handshake ev own_ver magic ver pid =
     (if magic \<noteq> kMagic then
        io_bind (e_notifyError ev kBadHandshake ''invalid magic during handshake'') (\<lambda>_. io_return False)
      else (\<lambda>p.
        let p1 = p\<lparr>pb_version := ver, pb_id := pid\<rparr> in
        io_bind (if handshake_sent p1 then io_return 0 else send_handshake ev own_ver) (\<lambda>_ p2.
          io_bind (e_notifyConnect ev) (\<lambda>_. io_return True) (p2\<lparr>pb_status := kConnected\<rparr>)) p1))"

text \<open>The overload that takes a message, used by the QUIC peers.\<close>

definition process_handshake_msg :: "('o, 'v, 'x) peer_env \<Rightarrow> ('o \<Rightarrow> (u32 \<times> string \<times> 'o) option) \<Rightarrow> ('o \<Rightarrow> (u64 \<times> u32 \<times> UUID) option)
    \<Rightarrow> u32 \<Rightarrow> 'o \<Rightarrow> (bool, ('o, 'v, 'x) PeerBase) io" where
  "process_handshake_msg ev as_message as_handshake own_ver msg =
     io_catch
       (io_bind (convert as_message msg) (\<lambda>(_, name, message).
          if name \<noteq> ''__handshake__'' then
            io_bind (e_notifyError ev kBadHandshake ''did not receive handshake'') (\<lambda>_. io_return False)
          else io_bind (convert as_handshake message) (\<lambda>(magic, ver, pid). process_handshake ev own_ver magic ver pid)))
       (\<lambda>e. map_option (\<lambda>_. io_bind (e_notifyError ev kBadHandshake ''invalid magic during handshake'') (\<lambda>_. io_return False)) (std_what e))"

text \<open>\<^verbatim>\<open>waitConnection\<close>: \<open>at_end\<close> is the status when the wait ends.\<close>

definition waitConnection :: "NodeStatus \<Rightarrow> NodeStatus \<Rightarrow> bool" where
  "waitConnection now at_end =
     (if now = kConnected then True else if now = kDisconnected then False else at_end = kConnected)"

definition getFTLMajor :: "('o, 'v, 'x) PeerBase \<Rightarrow> u8" where
  "getFTLMajor p = ucast (drop_bit 16 (pb_version p))"

definition getFTLMinor :: "('o, 'v, 'x) PeerBase \<Rightarrow> u8" where
  "getFTLMinor p = ucast (drop_bit 8 (pb_version p) AND 0xFF)"

definition getFTLPatch :: "('o, 'v, 'x) PeerBase \<Rightarrow> u8" where
  "getFTLPatch p = ucast (pb_version p AND 0xFF)"

definition peer_getRtt :: "('o, 'v, 'x) PeerBase \<Rightarrow> int res" where
  "peer_getRtt p = res_bind (getRtt (pb_clock p)) (\<lambda>r. Inr (cast_i32 r))"

section \<open>Construction\<close>

text \<open>The functions that the constructor binds, those of \<^verbatim>\<open>ClockInfo\<close> first.\<close>

definition bind_time_sync :: "'o msgpack \<Rightarrow> ('o, 'v, 'x) peer_env \<Rightarrow> ('p, 'o, ('o, 'v, 'x) PeerBase) Dispatcher
    \<Rightarrow> rpc_exn + ('p, 'o, ('o, 'v, 'x) PeerBase) Dispatcher" where
  "bind_time_sync m ev d =
     (case bind_result_zero m ''__get_time__'' (e_of_time ev) (\<lambda>p. (Inr (e_get_time ev (pb_env p)), p)) d of
        Inl e \<Rightarrow> Inl e
      | Inr d1 \<Rightarrow> bind_void_args m ''__update_time_sync__'' 3 (e_to_time_sync ev) (\<lambda>(a, b, r) p.
          (Inr (), p\<lparr>pb_clock := update_time_sync (e_sort ev) (e_get_time ev (pb_env p)) a b r (pb_clock p)\<rparr>)) d1)"

definition bind_base :: "'o msgpack \<Rightarrow> ('o, 'v, 'x) peer_env \<Rightarrow> ('p, 'o, ('o, 'v, 'x) PeerBase) Dispatcher
    \<Rightarrow> rpc_exn + ('p, 'o, ('o, 'v, 'x) PeerBase) Dispatcher" where
  "bind_base m ev d =
     (case bind_void_zero m ''__disconnect__'' (\<lambda>p. e_close ev False (p\<lparr>pb_status := kDisconnected\<rparr>)) d of
        Inl e \<Rightarrow> Inl e
      | Inr d1 \<Rightarrow> bind_result_zero m ''__ping__'' (e_of_time ev) (\<lambda>p. (Inr (e_get_time ev (pb_env p)), p)) d1)"

text \<open>\<open>ctr\<close> is the static counter of local ids, \<open>fresh\<close> the generated identifier, \<open>counter\<close> the call counter.\<close>

definition new_PeerBase :: "'o msgpack \<Rightarrow> ('o, 'v, 'x) peer_env \<Rightarrow> ('p, 'o, ('o, 'v, 'x) PeerBase) Dispatcher \<Rightarrow> int \<Rightarrow> UUID \<Rightarrow> u32 \<Rightarrow> u32 \<Rightarrow> 'x
    \<Rightarrow> rpc_exn + (('o, 'v, 'x) PeerBase \<times> ('p, 'o, ('o, 'v, 'x) PeerBase) Dispatcher)" where
  "new_PeerBase m ev universe ctr fresh counter garbage_version x =
     (case bind_time_sync m ev (new_Dispatcher (Some universe)) of
        Inl e \<Rightarrow> Inl e
      | Inr d1 \<Rightarrow>
         (case bind_base m ev d1 of
            Inl e \<Rightarrow> Inl e
          | Inr d2 \<Rightarrow> Inr (\<lparr>local_id = ctr, pb_id = fresh, pb_version = garbage_version, pb_status = kInvalidStatus,
              rpc_callbacks = Map.empty, promises = [], rpcid = counter, handshake_sent = False,
              pb_clock = new_ClockInfo 50, pb_env = x\<rparr>, d2)))"

end
