(* ===== verification/FTL_Rpc.thy ===== *)
theory FTL_Rpc
  imports FTL_Peer
begin

text \<open>
  Two connected peers: calls made by one, executed by the other, answered and delivered, in any
  order. The peers are those of \<open>FTL_Peer\<close>; the connection keeps the packed messages that are
  under way. What the msgpack library promises is the predicate \<open>msgpack_laws\<close>: the tuples that are
  packed are the tuples read.
\<close>

section \<open>The connection\<close>

record 's peer_wire =
  outbox :: "u8 list list"
  reported :: "(Error \<times> string) list"
  connects :: nat
  app :: 's

definition wire_send :: "string \<Rightarrow> u8 list \<Rightarrow> (int, ('o, 'v, 's peer_wire) PeerBase) io" where
  "wire_send name b = (\<lambda>p. (Inr 1, p\<lparr>pb_env := (pb_env p)\<lparr>outbox := outbox (pb_env p) @ [b]\<rparr>\<rparr>))"

definition wire_report :: "Error \<Rightarrow> string \<Rightarrow> (unit, ('o, 'v, 's peer_wire) PeerBase) io" where
  "wire_report e s = (\<lambda>p. (Inr (), p\<lparr>pb_env := (pb_env p)\<lparr>reported := reported (pb_env p) @ [(e, s)]\<rparr>\<rparr>))"

definition wire_connect :: "(unit, ('o, 'v, 's peer_wire) PeerBase) io" where
  "wire_connect = (\<lambda>p. (Inr (), p\<lparr>pb_env := (pb_env p)\<lparr>connects := connects (pb_env p) + 1\<rparr>\<rparr>))"

text \<open>An environment whose sending and reporting go to the connection; the rest is arbitrary.\<close>

definition on_wire :: "('o, 'v, 's peer_wire) peer_env \<Rightarrow> bool" where
  "on_wire ev \<longleftrightarrow> e_get_buffer ev = io_return () \<and> e_send_buffer ev = wire_send \<and> e_notifyError ev = wire_report \<and> e_notifyConnect ev = wire_connect"

definition msgpack_laws :: "'o msgpack \<Rightarrow> ('o rpc_msg \<Rightarrow> rpc_exn + u8 list) \<Rightarrow> (u8 list \<Rightarrow> 'o) \<Rightarrow> bool" where
  "msgpack_laws m pack unpack \<longleftrightarrow>
     (\<forall>i name args. \<exists>b. pack (Msg_call i name args) = Inr b \<and> array_size m (unpack b) = 4 \<and> first_i64 m (unpack b) = 0
        \<and> to_call m (unpack b) = Some (0, i, name, args))
   \<and> (\<forall>i err res. \<exists>b. pack (Msg_response i err res) = Inr b \<and> array_size m (unpack b) = 4 \<and> first_i64 m (unpack b) = 1
        \<and> to_response m (unpack b) = Some (1, i, err, res))
   \<and> is_nil m (nil_obj m) \<and> (\<forall>s. \<not> is_nil m (of_string_obj m s) \<and> to_string_obj m (of_string_obj m s) = Some s)"

section \<open>Runs\<close>

text \<open>
  What happened: the calls made, by promise, with the number of the id, and the executions, with the
  result of the function, or nothing when no function was bound.
\<close>

type_synonym ('o, 'v) made_call = "nat \<times> string \<times> 'o \<times> ('o \<Rightarrow> 'v option)"
type_synonym 'o rpc_execution = "u32 \<times> string \<times> 'o \<times> (rpc_exn + 'o) option"

definition execution :: "('p, 'o, 'w) Dispatcher \<Rightarrow> 'p \<Rightarrow> string \<Rightarrow> 'o \<Rightarrow> 'w \<Rightarrow> (rpc_exn + 'o) option" where
  "execution d q name args w = map_option (\<lambda>f. fst (f q args w)) (locateHandler d name)"

definition take_out :: "u8 list list \<Rightarrow> ('o, 'v, 's peer_wire) PeerBase \<Rightarrow> ('o, 'v, 's peer_wire) PeerBase" where
  "take_out bs p = p\<lparr>pb_env := (pb_env p)\<lparr>outbox := bs\<rparr>\<rparr>"

text \<open>
  \<open>rpc_run\<close>: the calling peer, the executing peer, the calls, the executions and the number of ids used
  so far. A call by another peer of the program uses up an id of the shared counter.
\<close>

inductive rpc_run ::
  "'o msgpack \<Rightarrow> ('o, 'v, 's peer_wire) peer_env \<Rightarrow> ('o, 'u, 't peer_wire) peer_env \<Rightarrow> (u8 list \<Rightarrow> 'o)
   \<Rightarrow> ('p, 'o, ('o, 'v, 's peer_wire) PeerBase) Dispatcher \<Rightarrow> ('q, 'o, ('o, 'u, 't peer_wire) PeerBase) Dispatcher \<Rightarrow> u32
   \<Rightarrow> ('o, 'v, 's peer_wire) PeerBase \<Rightarrow> ('o, 'u, 't peer_wire) PeerBase \<Rightarrow> ('o, 'v) made_call list \<Rightarrow> 'o rpc_execution list \<Rightarrow> nat \<Rightarrow> bool"
  for m ec es unpack dc ds id0 where
  start: "rpc_callbacks c = Map.empty \<Longrightarrow> promises c = [] \<Longrightarrow> rpcid c = id0 \<Longrightarrow> outbox (pb_env c) = [] \<Longrightarrow> outbox (pb_env s) = []
    \<Longrightarrow> rpc_run m ec es unpack dc ds id0 c s [] [] 0"
| call: "rpc_run m ec es unpack dc ds id0 c s cs xs n \<Longrightarrow> asyncCall ec conv name args c = (r, c')
    \<Longrightarrow> rpc_run m ec es unpack dc ds id0 c' s (cs @ [(n, name, args, conv)]) xs (Suc n)"
| other_call: "rpc_run m ec es unpack dc ds id0 c s cs xs n
    \<Longrightarrow> rpc_run m ec es unpack dc ds id0 (c\<lparr>rpcid := rpcid c + 1\<rparr>) s cs xs (Suc n)"
| execute: "rpc_run m ec es unpack dc ds id0 c s cs xs n \<Longrightarrow> outbox (pb_env c) = us @ b # vs
    \<Longrightarrow> to_call m (unpack b) = Some (typ, i, name, args) \<Longrightarrow> process_message m es ds q (unpack b) s = (r, s')
    \<Longrightarrow> rpc_run m ec es unpack dc ds id0 (take_out (us @ vs) c) s' cs (xs @ [(i, name, args, execution ds q name args s)]) n"
| answer: "rpc_run m ec es unpack dc ds id0 c s cs xs n \<Longrightarrow> outbox (pb_env s) = us @ b # vs
    \<Longrightarrow> process_message m ec dc p (unpack b) c = (r, c')
    \<Longrightarrow> rpc_run m ec es unpack dc ds id0 c' (take_out (us @ vs) s) cs xs n"
| cancel: "rpc_run m ec es unpack dc ds id0 c s cs xs n
    \<Longrightarrow> rpc_run m ec es unpack dc ds id0 (cancelCall i c) s cs xs n"

text \<open>Bound functions that send nothing themselves over the connection.\<close>

definition quiet :: "('q, 'o, ('o, 'u, 't peer_wire) PeerBase) Dispatcher \<Rightarrow> bool" where
  "quiet d \<longleftrightarrow> (\<forall>name f q args s. locateHandler d name = Some f \<longrightarrow> outbox (pb_env (snd (f q args s))) = outbox (pb_env s))"

text \<open>The answer a function's outcome gives rise to.\<close>

fun answer_of :: "'o msgpack \<Rightarrow> u32 \<Rightarrow> (rpc_exn + 'o) option \<Rightarrow> 'o rpc_msg option" where
  "answer_of m i (Some (Inr r)) = Some (Msg_response i (nil_obj m) r)"
| "answer_of m i (Some (Inl e)) = map_option (\<lambda>s. Msg_response i (of_string_obj m s) (nil_obj m)) (std_what e)"
| "answer_of m i None = None"

text \<open>The future a call ends with when its answer is delivered.\<close>

fun future_of :: "('o \<Rightarrow> 'v option) \<Rightarrow> (rpc_exn + 'o) option \<Rightarrow> 'v future" where
  "future_of conv (Some (Inr r)) = (case conv r of Some v \<Rightarrow> Value v | None \<Rightarrow> Broken)"
| "future_of conv (Some (Inl e)) = (case std_what e of Some s \<Rightarrow> Failed s | None \<Rightarrow> Pending)"
| "future_of conv None = Pending"

section \<open>One step on each side\<close>

lemma packed_call:
  assumes "msgpack_laws m (e_pack ev) unpack"
  obtains b where "e_pack ev (Msg_call i name args) = Inr b" "array_size m (unpack b) = 4" "first_i64 m (unpack b) = 0"
    "to_call m (unpack b) = Some (0, i, name, args)"
  using assms unfolding msgpack_laws_def by blast

lemma packed_response:
  assumes "msgpack_laws m (e_pack ev) unpack"
  obtains b where "e_pack ev (Msg_response i err res) = Inr b" "array_size m (unpack b) = 4" "first_i64 m (unpack b) = 1"
    "to_response m (unpack b) = Some (1, i, err, res)"
  using assms unfolding msgpack_laws_def by blast

lemma sendResponse_wire:
  assumes "on_wire ev" "e_pack ev (Msg_response i (nil_obj m) res) = Inr b"
  shows "sendResponse m ev i res s = (Inr (), snd (wire_send ''rpc'' b s))"
  using assms by (simp add: sendResponse_def pack_and_send_def io_catch_def io_bind_def io_lift_def on_wire_def wire_send_def)

lemma sendErrorResponse_wire:
  assumes "on_wire ev" "e_pack ev (Msg_response i err (nil_obj m)) = Inr b"
  shows "sendErrorResponse m ev i err s = (Inr (), snd (wire_send ''rpc'' b s))"
  using assms by (simp add: sendErrorResponse_def pack_and_send_def io_catch_def io_bind_def io_lift_def on_wire_def wire_send_def)

lemma outbox_wire_send [simp]: "outbox (pb_env (snd (wire_send name b p))) = outbox (pb_env p) @ [b]"
  by (simp add: wire_send_def)

lemma outbox_wire_report [simp]: "outbox (pb_env (snd (wire_report e t p))) = outbox (pb_env p)"
  by (simp add: wire_report_def)

text \<open>Executing a call adds the answer to the messages under way, if there is one.\<close>

lemma execute_outbox:
  assumes laws: "msgpack_laws m (e_pack ev) unpack" "on_wire ev" "quiet d"
    and b: "array_size m (unpack b) = 4" "first_i64 m (unpack b) = 0" "to_call m (unpack b) = Some (0, i, name, args)"
    and run: "process_message m ev d q (unpack b) s = (r, s')"
  shows "outbox (pb_env s') = outbox (pb_env s) @
    (case answer_of m i (execution d q name args s) of None \<Rightarrow> [] | Some msg \<Rightarrow> [projr (e_pack ev msg)])"
proof -
  have msg: "s' = snd (process_message m ev d q (unpack b) s)" using run by simp
  have rep: "e_notifyError ev = wire_report" using laws(2) by (simp add: on_wire_def)
  show ?thesis
  proof (cases "locateHandler d name")
    case None
    then show ?thesis
      by (simp add: msg process_message_def dispatch_def dispatch_call_def b io_catch_def execution_def rep)
  next
    case (Some f)
    obtain x s1 where f: "f q args s = (x, s1)" by (metis surj_pair)
    have o: "outbox (pb_env s1) = outbox (pb_env s)"
      using laws(3) Some f unfolding quiet_def by (metis snd_conv)
    show ?thesis
    proof (cases x)
      case (Inr res)
      obtain b' where "e_pack ev (Msg_response i (nil_obj m) res) = Inr b'"
        using packed_response [OF laws(1)] by metis
      then show ?thesis using Some f Inr o laws(2)
        by (simp add: msg process_message_def dispatch_def dispatch_call_def b io_catch_def io_bind_def execution_def
            base_ops_def sendResponse_wire)
    next
      case (Inl e)
      show ?thesis
      proof (cases "std_what e")
        case None
        then show ?thesis using Some f Inl o
          by (simp add: msg process_message_def dispatch_def dispatch_call_def b io_catch_def io_bind_def execution_def)
      next
        case (Some what)
        obtain b' where "e_pack ev (Msg_response i (of_string_obj m what) (nil_obj m)) = Inr b'"
          using packed_response [OF laws(1)] by metis
        moreover have "e \<noteq> Abort" using Some by auto
        ultimately show ?thesis using \<open>locateHandler d name = Some f\<close> f Inl o Some laws(2)
          by (simp add: msg process_message_def dispatch_def dispatch_call_def b io_catch_def io_bind_def execution_def
              base_ops_def sendErrorResponse_wire)
      qed
    qed
  qed
qed

text \<open>Delivering an answer settles the future of the call stored under its id, and nothing else.\<close>

lemma answer_effect:
  assumes laws: "msgpack_laws m pk unpack" "on_wire ev"
    and b: "array_size m (unpack b) = 4" "first_i64 m (unpack b) = 1" "to_response m (unpack b) = Some (1, i, err, res)"
    and a: "answer_of m i R = Some (Msg_response i err res)"
    and run: "process_message m ev d q (unpack b) c = (r, c')"
  shows "rpcid c' = rpcid c" "outbox (pb_env c') = outbox (pb_env c)"
    "rpc_callbacks c' = (rpc_callbacks c)(i := None)"
    "promises c' = (case rpc_callbacks c i of None \<Rightarrow> promises c | Some (conv, k) \<Rightarrow> (promises c)[k := future_of conv R])"
proof -
  have msg: "c' = snd (process_message m ev d q (unpack b) c)" using run by simp
  have rep: "e_notifyError ev = wire_report" using laws(2) by (simp add: on_wire_def)
  have disp: "process_message m ev d q (unpack b) c = dispatchResponse m ev i err res c"
  proof -
    have "\<exists>p. dispatchResponse m ev i err res c = (Inr (), p)"
      by (auto simp: dispatchResponse_def rep wire_report_def run_callback_def type_error_def Let_def split: option.splits)
    then show ?thesis by (auto simp: process_message_def dispatch_def b base_ops_def io_catch_def)
  qed
  have cb: "run_callback m conv res err = (case future_of conv R of Broken \<Rightarrow> Inl type_error | v \<Rightarrow> Inr v)" for conv
    using a laws(1) by (cases "(m, i, R)" rule: answer_of.cases)
      (auto simp: run_callback_def msgpack_laws_def split: option.splits)
  show "rpcid c' = rpcid c" "outbox (pb_env c') = outbox (pb_env c)"
      "rpc_callbacks c' = (rpc_callbacks c)(i := None)"
      "promises c' = (case rpc_callbacks c i of None \<Rightarrow> promises c | Some (conv, k) \<Rightarrow> (promises c)[k := future_of conv R])"
    unfolding msg disp
    by (auto simp: dispatchResponse_def rep wire_report_def cb type_error_def Let_def settle_def fun_upd_idem
        split: option.splits future.splits)
qed

text \<open>Making a call.\<close>

lemma asyncCall_effect:
  assumes "on_wire ev" "e_pack ev (Msg_call (rpcid c) name args) = Inr b" "rpc_callbacks c (rpcid c) = None"
    and "asyncCall ev conv name args c = (r, c')"
  shows "rpcid c' = rpcid c + 1" "outbox (pb_env c') = outbox (pb_env c) @ [b]" "promises c' = promises c @ [Pending]"
    "rpc_callbacks c' = (rpc_callbacks c)(rpcid c \<mapsto> (conv, length (promises c)))" "r = Inr (length (promises c))"
  using assms
  by (auto simp: asyncCall_def register_call_def drop_callback_def Let_def pack_and_send_def io_catch_def io_bind_def
      io_lift_def on_wire_def wire_send_def)

section \<open>The invariant of runs\<close>

definition call_id :: "u32 \<Rightarrow> ('o, 'v) made_call \<Rightarrow> u32" where
  "call_id id0 k = id0 + of_nat (fst k)"

definition call_msg :: "u32 \<Rightarrow> ('o, 'v) made_call \<Rightarrow> 'o rpc_msg" where
  "call_msg id0 k = (case k of (n, name, args, conv) \<Rightarrow> Msg_call (id0 + of_nat n) name args)"

definition executed :: "u32 \<Rightarrow> ('o, 'v) made_call \<Rightarrow> 'o rpc_execution list \<Rightarrow> (rpc_exn + 'o) option \<Rightarrow> bool" where
  "executed id0 k xs R = (case k of (n, name, args, conv) \<Rightarrow> (id0 + of_nat n, name, args, R) \<in> set xs)"

definition conv_of :: "('o, 'v) made_call \<Rightarrow> 'o \<Rightarrow> 'v option" where
  "conv_of k = snd (snd (snd k))"

lemma executed_append: "executed id0 k xs R \<Longrightarrow> executed id0 k (xs @ ys) R"
  by (auto simp: executed_def split: prod.splits)

text \<open>The answer to the execution \<open>R\<close> of the call \<open>k\<close> is under way.\<close>

definition answered_by :: "'o msgpack \<Rightarrow> ('o rpc_msg \<Rightarrow> rpc_exn + u8 list) \<Rightarrow> u32 \<Rightarrow> ('o, 'v) made_call \<Rightarrow> (rpc_exn + 'o) option \<Rightarrow> u8 list \<Rightarrow> bool" where
  "answered_by m pk id0 k R b = (\<exists>msg. answer_of m (call_id id0 k) R = Some msg \<and> pk msg = Inr b)"

definition ids_ok :: "('o, 'v) made_call list \<Rightarrow> nat \<Rightarrow> bool" where
  "ids_ok cs n \<longleftrightarrow> distinct (map fst cs) \<and> (\<forall>k \<in> set cs. fst k < n)"

lemma of_nat_u32_inject: "(of_nat a :: u32) = of_nat b \<Longrightarrow> a < 2 ^ 32 \<Longrightarrow> b < 2 ^ 32 \<Longrightarrow> a = b"
  by (simp add: word_of_nat_eq_iff take_bit_nat_eq_self)

lemma ids_ok_inj:
  assumes "ids_ok cs n" "n \<le> 2 ^ 32" "i < length cs" "j < length cs" "call_id id0 (cs ! i) = call_id id0 (cs ! j)"
  shows "i = j"
proof -
  have "fst (cs ! i) < n" "fst (cs ! j) < n" using assms(1,3,4) by (simp_all add: ids_ok_def)
  then have lt: "fst (cs ! i) < 2 ^ 32" "fst (cs ! j) < 2 ^ 32" using assms(2) by linarith+
  have "(of_nat (fst (cs ! i)) :: u32) = of_nat (fst (cs ! j))" using assms(5) by (simp add: call_id_def)
  then have "fst (cs ! i) = fst (cs ! j)" using lt by (rule of_nat_u32_inject)
  then show ?thesis using assms(1,3,4) by (simp add: ids_ok_def distinct_conv_nth) (metis nth_map)
qed

lemma fresh_id:
  assumes "ids_ok cs n" "n < 2 ^ 32" "k \<in> set cs"
  shows "call_id id0 k \<noteq> id0 + of_nat n"
proof
  assume "call_id id0 k = id0 + of_nat n"
  then have "(of_nat (fst k) :: u32) = of_nat n" by (simp add: call_id_def)
  moreover have "fst k < n" using assms by (simp add: ids_ok_def)
  ultimately show False using assms(2) of_nat_u32_inject [of "fst k" n] by simp
qed

text \<open>A call that is not answered yet: the request is under way, the answer is, or there is none.\<close>

definition waiting where
  "waiting m pc ps id0 c s xs k \<longleftrightarrow>
     (\<exists>b \<in> set (outbox (pb_env c)). pc (call_msg id0 k) = Inr b)
   \<or> (\<exists>R. executed id0 k xs R \<and> (answer_of m (call_id id0 k) R = None
        \<or> (\<exists>b \<in> set (outbox (pb_env s)). answered_by m ps id0 k R b)))"

definition promise_ok where
  "promise_ok m pc ps id0 c s xs k j \<longleftrightarrow> promises c ! j = Broken
   \<or> promises c ! j \<noteq> Pending \<and> (\<exists>R. executed id0 k xs R \<and> promises c ! j = future_of (conv_of k) R)
   \<or> promises c ! j = Pending \<and> rpc_callbacks c (call_id id0 k) = Some (conv_of k, j) \<and> waiting m pc ps id0 c s xs k"

definition rpc_inv where
  "rpc_inv m pc ps id0 c s cs xs n \<longleftrightarrow>
     rpcid c = id0 + of_nat n \<and> length (promises c) = length cs \<and> ids_ok cs n
   \<and> (\<forall>i conv j. rpc_callbacks c i = Some (conv, j) \<longrightarrow> j < length cs \<and> i = call_id id0 (cs ! j) \<and> conv = conv_of (cs ! j))
   \<and> (\<forall>b \<in> set (outbox (pb_env c)). \<exists>j < length cs. pc (call_msg id0 (cs ! j)) = Inr b)
   \<and> (\<forall>b \<in> set (outbox (pb_env s)). \<exists>j < length cs. \<exists>R. executed id0 (cs ! j) xs R \<and> answered_by m ps id0 (cs ! j) R b)
   \<and> (\<forall>j < length cs. promise_ok m pc ps id0 c s xs (cs ! j) j)"

lemma rpc_invD:
  assumes "rpc_inv m pc ps id0 c s cs xs n"
  shows "rpcid c = id0 + of_nat n" "length (promises c) = length cs" "ids_ok cs n"
    "\<And>i conv j. rpc_callbacks c i = Some (conv, j) \<Longrightarrow> j < length cs \<and> i = call_id id0 (cs ! j) \<and> conv = conv_of (cs ! j)"
    "\<And>b. b \<in> set (outbox (pb_env c)) \<Longrightarrow> \<exists>j < length cs. pc (call_msg id0 (cs ! j)) = Inr b"
    "\<And>b. b \<in> set (outbox (pb_env s)) \<Longrightarrow> \<exists>j < length cs. \<exists>R. executed id0 (cs ! j) xs R \<and> answered_by m ps id0 (cs ! j) R b"
    "\<And>j. j < length cs \<Longrightarrow> promise_ok m pc ps id0 c s xs (cs ! j) j"
  using assms unfolding rpc_inv_def by blast+

lemma rpc_inv_call:
  assumes inv: "rpc_inv m (e_pack ec) ps id0 c s cs xs n" and n: "Suc n \<le> 2 ^ 32"
    and laws: "msgpack_laws m (e_pack ec) unpack" "on_wire ec"
    and call: "asyncCall ec conv name args c = (r, c')"
  shows "rpc_inv m (e_pack ec) ps id0 c' s (cs @ [(n, name, args, conv)]) xs (Suc n)"
proof -
  let ?k = "(n, name, args, conv)"
  note I = rpc_invD [OF inv]
  obtain b where b: "e_pack ec (call_msg id0 ?k) = Inr b"
    using packed_call [OF laws(1), of "rpcid c" name args] I(1) by (auto simp: call_msg_def)
  have ids: "ids_ok (cs @ [?k]) (Suc n)" using I(3) by (auto simp: ids_ok_def less_Suc_eq)
  have new: "call_id id0 (cs ! j) \<noteq> rpcid c" if "j < length cs" for j
    using fresh_id [OF I(3)] n that I(1) by simp
  have none: "rpc_callbacks c (rpcid c) = None"
    using I(4) new by (metis not_None_eq surj_pair)
  note E = asyncCall_effect [OF laws(2) b [unfolded call_msg_def, simplified, folded I(1)] none call]
  have "promise_ok m (e_pack ec) ps id0 c' s xs ((cs @ [?k]) ! j) j" if "j < length (cs @ [?k])" for j
  proof (cases "j < length cs")
    case True
    have "promise_ok m (e_pack ec) ps id0 c s xs (cs ! j) j" by (rule I(7) [OF True])
    then show ?thesis
      using True new [OF True] I(2) by (auto simp: promise_ok_def waiting_def E nth_append)
  next
    case False
    then have "j = length cs" using that by simp
    then show ?thesis using b I(1,2) by (simp add: promise_ok_def waiting_def E call_id_def conv_of_def nth_append)
  qed
  moreover have "\<exists>j < length (cs @ [?k]). e_pack ec (call_msg id0 ((cs @ [?k]) ! j)) = Inr b'"
    if "b' \<in> set (outbox (pb_env c'))" for b'
    using that I(5) b unfolding E(2) by (auto simp: nth_append intro: exI [of _ "length cs"])
  moreover have "\<exists>j < length (cs @ [?k]). \<exists>R. executed id0 ((cs @ [?k]) ! j) xs R \<and> answered_by m ps id0 ((cs @ [?k]) ! j) R b'"
    if "b' \<in> set (outbox (pb_env s))" for b'
    using I(6) [OF that] by (auto simp: nth_append)
  moreover have "j < length (cs @ [?k]) \<and> i = call_id id0 ((cs @ [?k]) ! j) \<and> f = conv_of ((cs @ [?k]) ! j)"
    if "rpc_callbacks c' i = Some (f, j)" for i f j
    using that I(4) [of i f j] I(1,2) by (auto simp: E(4) nth_append call_id_def conv_of_def split: if_splits)
  ultimately show ?thesis
    using ids I(1,2) E(1,3) unfolding rpc_inv_def by (simp add: add.commute add.left_commute)
qed

lemma rpc_inv_other: "rpc_inv m pc ps id0 c s cs xs n \<Longrightarrow> rpc_inv m pc ps id0 (c\<lparr>rpcid := rpcid c + 1\<rparr>) s cs xs (Suc n)"
  by (auto simp: rpc_inv_def promise_ok_def waiting_def ids_ok_def less_Suc_eq)

lemma rpc_inv_cancel:
  assumes inv: "rpc_inv m pc ps id0 c s cs xs n" "n \<le> 2 ^ 32"
  shows "rpc_inv m pc ps id0 (cancelCall i c) s cs xs n"
proof (cases "rpc_callbacks c (word_of_int i)")
  case (Some y)
  then obtain f j where fj: "rpc_callbacks c (word_of_int i) = Some (f, j)" by (metis surj_pair)
  note I = rpc_invD [OF inv(1)]
  have j: "j < length cs" "word_of_int i = call_id id0 (cs ! j)" using I(4) [OF fj] by auto
  have c': "cancelCall i c = c\<lparr>rpc_callbacks := (rpc_callbacks c)(word_of_int i := None), promises := (promises c)[j := Broken]\<rparr>"
    by (simp add: cancelCall_def drop_callback_def fj settle_def)
  have "promise_ok m pc ps id0 (cancelCall i c) s xs (cs ! k) k" if k: "k < length cs" for k
  proof (cases "k = j")
    case False
    then have "call_id id0 (cs ! k) \<noteq> word_of_int i" using ids_ok_inj [OF I(3) inv(2) k j(1)] j(2) by auto
    then show ?thesis using I(7) [OF k] False by (simp add: c' promise_ok_def waiting_def)
  qed (use I(2) j in \<open>simp add: c' promise_ok_def\<close>)
  then show ?thesis using I unfolding rpc_inv_def by (simp add: c')
qed (use inv in \<open>simp add: cancelCall_def drop_callback_def\<close>)

lemma pack_call_inj:
  assumes "msgpack_laws m pk unpack" "pk (Msg_call i a x) = Inr b" "pk (Msg_call i' a' x') = Inr b"
  shows "i = i'"
  using assms unfolding msgpack_laws_def by (metis Pair_inject option.inject sum.inject(2))

lemma call_msg_inj:
  assumes "msgpack_laws m pk unpack" "pk (call_msg id0 k) = Inr b" "pk (call_msg id0 l) = Inr b"
  shows "call_id id0 k = call_id id0 l"
  using assms(2,3) pack_call_inj [OF assms(1)] unfolding call_msg_def call_id_def by (cases k; cases l) force

lemma pack_response_inj:
  assumes "msgpack_laws m pk unpack" "pk (Msg_response i a x) = Inr b" "pk (Msg_response i' a' x') = Inr b"
  shows "i = i'"
  using assms unfolding msgpack_laws_def by (metis Pair_inject option.inject sum.inject(2))

lemma answer_of_shape: "answer_of m i R = Some msg \<Longrightarrow> \<exists>err res. msg = Msg_response i err res"
  by (cases "(m, i, R)" rule: answer_of.cases) auto

text \<open>A call that waits keeps waiting when a message of another call is taken out and messages are added.\<close>

lemma waiting_mono:
  assumes "waiting m pc ps id0 c s xs k"
    and "\<And>b. b \<in> set (outbox (pb_env c)) \<Longrightarrow> pc (call_msg id0 k) = Inr b \<Longrightarrow> b \<in> set (outbox (pb_env c'))"
    and "\<And>R b. b \<in> set (outbox (pb_env s)) \<Longrightarrow> answered_by m ps id0 k R b \<Longrightarrow> b \<in> set (outbox (pb_env s'))"
    and "set xs \<subseteq> set xs'"
  shows "waiting m pc ps id0 c' s' xs' k"
proof -
  have "executed id0 k xs R \<Longrightarrow> executed id0 k xs' R" for R using assms(4) by (auto simp: executed_def split: prod.splits)
  then show ?thesis using assms(1-3) unfolding waiting_def by meson
qed

lemma rpc_inv_execute:
  assumes inv: "rpc_inv m (e_pack ec) (e_pack es) id0 c s cs xs n" and n: "n \<le> 2 ^ 32"
    and laws: "msgpack_laws m (e_pack ec) unpack" "msgpack_laws m (e_pack es) unpack" "on_wire es" "quiet ds"
    and b: "outbox (pb_env c) = us @ b # vs" "to_call m (unpack b) = Some (typ, i, name, args)"
    and run: "process_message m es ds q (unpack b) s = (r, s')"
  shows "rpc_inv m (e_pack ec) (e_pack es) id0 (take_out (us @ vs) c) s' cs (xs @ [(i, name, args, execution ds q name args s)]) n"
proof -
  note I = rpc_invD [OF inv]
  let ?R = "execution ds q name args s" and ?c = "take_out (us @ vs) c"
  let ?xs = "xs @ [(i, name, args, ?R)]"
  have c: "rpcid ?c = rpcid c" "promises ?c = promises c" "rpc_callbacks ?c = rpc_callbacks c" "outbox (pb_env ?c) = us @ vs"
    by (simp_all add: take_out_def)
  obtain j where j: "j < length cs" "e_pack ec (call_msg id0 (cs ! j)) = Inr b" using I(5) [of b] b(1) by auto
  obtain k nm a f where k: "cs ! j = (k, nm, a, f)" by (metis prod_cases4)
  obtain b' where "e_pack ec (Msg_call (id0 + of_nat k) nm a) = Inr b'" "array_size m (unpack b') = 4" "first_i64 m (unpack b') = 0"
      "to_call m (unpack b') = Some (0, id0 + of_nat k, nm, a)"
    using packed_call [OF laws(1)] by metis
  then have m: "array_size m (unpack b) = 4" "first_i64 m (unpack b) = 0" "to_call m (unpack b) = Some (0, i, name, args)"
      and eq: "i = id0 + of_nat k" "name = nm" "args = a"
    using j(2) b(2) by (simp_all add: k call_msg_def)
  note out = execute_outbox [OF laws(2-4) m run]
  have ex: "executed id0 (cs ! j) ?xs ?R" by (simp add: k executed_def eq)
  have i: "call_id id0 (cs ! j) = i" by (simp add: k call_id_def eq)
  have ans: "\<exists>b''. answered_by m (e_pack es) id0 (cs ! j) ?R b'' \<and> outbox (pb_env s') = outbox (pb_env s) @ [b'']"
    if "answer_of m i ?R \<noteq> None"
  proof -
    from that obtain err res where msg: "answer_of m i ?R = Some (Msg_response i err res)"
      using answer_of_shape [of m i ?R] by auto
    obtain b'' where "e_pack es (Msg_response i err res) = Inr b''" using packed_response [OF laws(2)] by metis
    then show ?thesis using out msg i by (simp add: answered_by_def)
  qed
  have sub: "set (outbox (pb_env s)) \<subseteq> set (outbox (pb_env s'))" using out by auto
  have ok: "promise_ok m (e_pack ec) (e_pack es) id0 ?c s' ?xs (cs ! l) l" if l: "l < length cs" for l
  proof -
    have "waiting m (e_pack ec) (e_pack es) id0 ?c s' ?xs (cs ! l)" if w: "waiting m (e_pack ec) (e_pack es) id0 c s xs (cs ! l)"
    proof (cases "l = j")
      case True
      then show ?thesis using ex ans i unfolding waiting_def by (metis in_set_conv_decomp)
    next
      case False
      have "\<not> e_pack ec (call_msg id0 (cs ! l)) = Inr b"
        using False ids_ok_inj [OF I(3) n l j(1)] call_msg_inj [OF laws(1) _ j(2)] by blast
      then show ?thesis using b(1) sub by (intro waiting_mono [OF w]) (auto simp: c)
    qed
    then show ?thesis using I(7) [OF l] executed_append unfolding promise_ok_def c by metis
  qed
  have ans': "\<exists>j < length cs. \<exists>R. executed id0 (cs ! j) ?xs R \<and> answered_by m (e_pack es) id0 (cs ! j) R b2"
    if "b2 \<in> set (outbox (pb_env s'))" for b2
  proof (cases "b2 \<in> set (outbox (pb_env s))")
    case True
    then show ?thesis using I(6) executed_append by metis
  next
    case False
    then have "answer_of m i ?R \<noteq> None" using that out by (auto split: option.splits)
    then obtain b3 where "answered_by m (e_pack es) id0 (cs ! j) ?R b3" "outbox (pb_env s') = outbox (pb_env s) @ [b3]"
      using ans by blast
    then show ?thesis using that False j(1) ex by (intro exI [of _ j]) auto
  qed
  have "\<And>b. b \<in> set (us @ vs) \<Longrightarrow> \<exists>j < length cs. e_pack ec (call_msg id0 (cs ! j)) = Inr b" using I(5) b(1) by simp
  then show ?thesis using ok ans' I(1-4) unfolding rpc_inv_def c by blast
qed

lemma rpc_inv_answer:
  assumes inv: "rpc_inv m (e_pack ec) (e_pack es) id0 c s cs xs n" and n: "n \<le> 2 ^ 32"
    and laws: "msgpack_laws m (e_pack ec) unpack" "msgpack_laws m (e_pack es) unpack" "on_wire ec"
    and b: "outbox (pb_env s) = us @ b # vs"
    and run: "process_message m ec dc p (unpack b) c = (r, c')"
  shows "rpc_inv m (e_pack ec) (e_pack es) id0 c' (take_out (us @ vs) s) cs xs n"
proof -
  note I = rpc_invD [OF inv]
  let ?s = "take_out (us @ vs) s"
  have s: "outbox (pb_env ?s) = us @ vs" by (simp add: take_out_def)
  obtain j R where j: "j < length cs" "executed id0 (cs ! j) xs R" "answered_by m (e_pack es) id0 (cs ! j) R b"
    using I(6) [of b] b by auto
  let ?i = "call_id id0 (cs ! j)"
  obtain err res where a: "answer_of m ?i R = Some (Msg_response ?i err res)" "e_pack es (Msg_response ?i err res) = Inr b"
    using j(3) answer_of_shape unfolding answered_by_def by metis
  obtain b' where "e_pack es (Msg_response ?i err res) = Inr b'" "array_size m (unpack b') = 4" "first_i64 m (unpack b') = 1"
      "to_response m (unpack b') = Some (1, ?i, err, res)"
    using packed_response [OF laws(2)] by metis
  then have m: "array_size m (unpack b) = 4" "first_i64 m (unpack b) = 1" "to_response m (unpack b) = Some (1, ?i, err, res)"
    using a(2) by simp_all
  note E = answer_effect [OF laws(1,3) m a(1) run]
  have fut: "future_of f R \<noteq> Pending" for f :: "'a \<Rightarrow> 'b option"
    using a(1) by (cases "(m, ?i, R)" rule: answer_of.cases) (auto split: option.splits)
  have other: "call_id id0 (cs ! l) \<noteq> ?i" if "l < length cs" "l \<noteq> j" for l
    using ids_ok_inj [OF I(3) n that(1) j(1)] that(2) by auto
  have ok: "promise_ok m (e_pack ec) (e_pack es) id0 c' ?s xs (cs ! l) l" if l: "l < length cs" for l
  proof (cases "l = j")
    case True
    show ?thesis
    proof (cases "rpc_callbacks c ?i")
      case None
      then have "promises c ! j \<noteq> Pending" using I(7) [OF j(1)] by (auto simp: promise_ok_def)
      then show ?thesis using I(7) [OF j(1)] True None by (auto simp: promise_ok_def E(4))
    next
      case (Some y)
      then obtain f l where fl: "rpc_callbacks c ?i = Some (f, l)" by (metis surj_pair)
      have "l = j" using I(4) [OF fl] ids_ok_inj [OF I(3) n _ j(1), of l id0] by simp
      then have "rpc_callbacks c ?i = Some (conv_of (cs ! j), j)" using I(4) [OF fl] fl by simp
      then show ?thesis using True j(1,2) I(2) fut [of "conv_of (cs ! j)"] by (auto simp: promise_ok_def E(4))
    qed
  next
    case False
    have "k = j" if "rpc_callbacks c ?i = Some (f, k)" for f k
      using I(4) [OF that] ids_ok_inj [OF I(3) n _ j(1), of k id0] by simp
    then have p: "promises c' ! l = promises c ! l"
      using False by (cases "rpc_callbacks c ?i") (auto simp: E(4))
    have "waiting m (e_pack ec) (e_pack es) id0 c' ?s xs (cs ! l)" if w: "waiting m (e_pack ec) (e_pack es) id0 c s xs (cs ! l)"
    proof (intro waiting_mono [OF w])
      fix R' b2 assume b2: "b2 \<in> set (outbox (pb_env s))" "answered_by m (e_pack es) id0 (cs ! l) R' b2"
      then have "b2 \<noteq> b"
        using pack_response_inj [OF laws(2) a(2)] other [OF l False] answer_of_shape unfolding answered_by_def by metis
      then show "b2 \<in> set (outbox (pb_env ?s))" using b b2(1) by (auto simp: s)
    qed (simp_all add: E(2))
    then show ?thesis using I(7) [OF l] other [OF l False] by (auto simp: promise_ok_def p E(3))
  qed
  have "\<And>b. b \<in> set (us @ vs) \<Longrightarrow> \<exists>j < length cs. \<exists>R. executed id0 (cs ! j) xs R \<and> answered_by m (e_pack es) id0 (cs ! j) R b"
    using I(6) b by simp
  moreover have "\<And>i f j. rpc_callbacks c' i = Some (f, j) \<Longrightarrow> j < length cs \<and> i = call_id id0 (cs ! j) \<and> f = conv_of (cs ! j)"
    using I(4) by (auto simp: E(3) split: if_splits)
  moreover have "length (promises c') = length cs" using I(2) by (auto simp: E(4) split: option.splits)
  ultimately show ?thesis using ok I(1,3,5) unfolding rpc_inv_def s E(1,2) by blast
qed

lemma rpc_run_inv:
  assumes "rpc_run m ec es unpack dc ds id0 c s cs xs n" "n \<le> 2 ^ 32"
    and "msgpack_laws m (e_pack ec) unpack" "msgpack_laws m (e_pack es) unpack" "on_wire ec" "on_wire es" "quiet ds"
  shows "rpc_inv m (e_pack ec) (e_pack es) id0 c s cs xs n"
  using assms
proof (induction rule: rpc_run.induct)
  case (start c s)
  then show ?case by (simp add: rpc_inv_def ids_ok_def)
next
  case (call c s cs xs n conv name args r c')
  then show ?case using rpc_inv_call [of m ec "e_pack es" id0 c s cs xs n] by simp
next
  case (other_call c s cs xs n)
  then show ?case using rpc_inv_other by simp
next
  case (execute c s cs xs n us b vs ty i name args q r s')
  then show ?case using rpc_inv_execute by metis
next
  case (answer c s cs xs n us b vs p r c')
  then show ?case using rpc_inv_answer by metis
next
  case (cancel c s cs xs n i)
  then show ?case using rpc_inv_cancel by metis
qed

section \<open>Futures get their own answers\<close>

text \<open>
  C1: In every interleaving of calls, executions, deliveries and cancellations with at most \<open>2^32\<close> ids
  used, the future of a call is unsettled, broken, or holds the outcome of an execution of that very
  call on the other side, whatever the order of the answers; and when no message is under way any
  more, a call that is still unsettled was executed and has no answer: no function was bound to the
  name, or the function threw something that is not a standard exception.
\<close>

theorem rpc_futures_correct:
  assumes run: "rpc_run m ec es unpack dc ds id0 c s cs xs n" "n \<le> 4294967296"
    and laws: "msgpack_laws m (e_pack ec) unpack" "msgpack_laws m (e_pack es) unpack" "on_wire ec" "on_wire es" "quiet ds"
    and j: "j < length cs" "cs ! j = (k, name, args, conv)"
  shows "(promises c ! j = Pending \<or> promises c ! j = Broken
      \<or> (\<exists>R. (id0 + of_nat k, name, args, R) \<in> set xs \<and> promises c ! j = future_of conv R))
    \<and> (outbox (pb_env c) = [] \<and> outbox (pb_env s) = [] \<and> promises c ! j = Pending \<longrightarrow>
        (\<exists>R. (id0 + of_nat k, name, args, R) \<in> set xs \<and> answer_of m (id0 + of_nat k) R = None))"
proof -
  have "rpc_inv m (e_pack ec) (e_pack es) id0 c s cs xs n" using rpc_run_inv [OF run(1) _ laws] run(2) by simp
  then have "promise_ok m (e_pack ec) (e_pack es) id0 c s xs (cs ! j) j" using j(1) by (rule rpc_invD(7))
  then show ?thesis
    using j(2) by (auto simp: promise_ok_def waiting_def executed_def conv_of_def call_id_def)
qed

section \<open>An example\<close>

text \<open>A concrete encoding: bytes as objects, strings escaped, ids as eight bytes.\<close>

fun enc_bytes :: "u8 list \<Rightarrow> u8 list" where
  "enc_bytes [] = [0]"
| "enc_bytes (b # bs) = 1 # b # enc_bytes bs"

fun dec_bytes :: "u8 list \<Rightarrow> u8 list \<times> u8 list" where
  "dec_bytes (x # b # bs) = (if x = 1 then (case dec_bytes bs of (s, r) \<Rightarrow> (b # s, r)) else ([], b # bs))"
| "dec_bytes _ = ([], [])"

lemma dec_enc_bytes: "dec_bytes (enc_bytes bs @ r) = (bs, r)"
proof (induction bs)
  case Nil
  then show ?case by (cases r) simp_all
qed simp

definition enc_id :: "u32 \<Rightarrow> u8 list" where
  "enc_id i = [ucast (drop_bit 24 i), ucast (drop_bit 16 i), ucast (drop_bit 8 i), ucast i]"

definition dec_id :: "u8 list \<Rightarrow> u32" where
  "dec_id bs = push_bit 24 (ucast (bs ! 0)) OR push_bit 16 (ucast (bs ! 1)) OR push_bit 8 (ucast (bs ! 2)) OR ucast (bs ! 3)"

lemma length_enc_id [simp]: "length (enc_id i) = 4"
  by (simp add: enc_id_def)

lemma dec_enc_id: "dec_id (enc_id i @ r) = i"
proof (rule bit_word_eqI)
  fix n assume n: "n < LENGTH(32)"
  consider "n < 8" | "8 \<le> n" "n < 16" | "16 \<le> n" "n < 24" | "24 \<le> n" "n < 32" using n by fastforce
  then show "bit (dec_id (enc_id i @ r)) n = bit i n"
    by cases (auto simp: dec_id_def enc_id_def bit_simps)
qed

fun ex_pack :: "u8 list rpc_msg \<Rightarrow> rpc_exn + u8 list" where
  "ex_pack (Msg_call i name args) = Inr (0 # enc_id i @ enc_bytes (str_bytes name) @ args)"
| "ex_pack (Msg_response i err res) = Inr (1 # enc_id i @ enc_bytes err @ res)"
| "ex_pack (Msg_notify name args) = Inr (2 # enc_bytes (str_bytes name) @ args)"

definition ex_msgpack :: "(u8 list) msgpack" where
  "ex_msgpack = \<lparr>array_size = (\<lambda>b. if hd b = 2 then 3 else 4), first_i64 = (\<lambda>b. uint (hd b)), elem_types = (\<lambda>b. []),
     to_call = (\<lambda>b. case dec_bytes (drop 5 b) of (s, r) \<Rightarrow> Some (0, dec_id (tl b), bytes_str s, r)),
     to_notification = (\<lambda>b. case dec_bytes (tl b) of (s, r) \<Rightarrow> Some (0, bytes_str s, r)),
     to_response = (\<lambda>b. case dec_bytes (drop 5 b) of (s, r) \<Rightarrow> Some (1, dec_id (tl b), s, r)),
     to_string_obj = (\<lambda>b. if b = [] then None else Some (bytes_str (tl b))),
     of_string_obj = (\<lambda>s. 7 # str_bytes s), nil_obj = [], is_nil = (\<lambda>b. b = [])\<rparr>"

lemma ex_laws: "msgpack_laws ex_msgpack ex_pack (\<lambda>b. b)"
  by (simp add: msgpack_laws_def ex_msgpack_def dec_enc_id dec_enc_bytes)

definition ex_env :: "(u8 list, 'v, 's peer_wire) peer_env" where
  "ex_env = \<lparr>e_pack = ex_pack, e_get_buffer = io_return (), e_send_buffer = wire_send, e_notifyError = wire_report, e_notifyConnect = wire_connect,
     e_close = (\<lambda>_ p. (Inr (), p)), e_get_time = (\<lambda>_. 0), e_sort = sort_key se_rtt, e_net_id = uuid_of_int 1,
     e_handshake_args = (\<lambda>a b u. u), e_of_time = (\<lambda>t. []), e_to_time_sync = (\<lambda>_. None)\<rparr>"

lemma ex_env_wire: "on_wire ex_env"
  by (simp add: on_wire_def ex_env_def)

definition ex_peer :: "(u8 list, u8 list, unit peer_wire) PeerBase" where
  "ex_peer = \<lparr>local_id = 0, pb_id = uuid_of_int 1, pb_version = 0, pb_status = kConnected, rpc_callbacks = Map.empty, promises = [],
     rpcid = 0, handshake_sent = True, pb_clock = new_ClockInfo 50,
     pb_env = \<lparr>outbox = [], reported = [], connects = 0, app = ()\<rparr>\<rparr>"

definition ex_server :: "(unit, u8 list, (u8 list, u8 list, unit peer_wire) PeerBase) Dispatcher" where
  "ex_server = Dispatcher [''rev'' \<mapsto> (\<lambda>q args s. (Inr (rev args), s))] None"

lemma ex_server_quiet: "quiet ex_server"
  by (auto simp: quiet_def ex_server_def split: if_splits)

definition ex_called :: "(u8 list, u8 list, unit peer_wire) PeerBase" where
  "ex_called = snd (asyncCall ex_env Some ''rev'' [1, 2, 3] ex_peer)"

definition ex_request :: "u8 list" where
  "ex_request = hd (outbox (pb_env ex_called))"

definition ex_executed :: "(u8 list, u8 list, unit peer_wire) PeerBase" where
  "ex_executed = snd (process_message ex_msgpack ex_env ex_server () ex_request ex_peer)"

definition ex_answer :: "u8 list" where
  "ex_answer = hd (outbox (pb_env ex_executed))"

definition ex_answered :: "(u8 list, u8 list, unit peer_wire) PeerBase" where
  "ex_answered = snd (process_message ex_msgpack ex_env ex_server () ex_answer (take_out [] ex_called))"

lemma ex_steps:
  "outbox (pb_env ex_called) = [] @ ex_request # []"
  "to_call ex_msgpack ex_request = Some (0, 0, ''rev'', [1, 2, 3])"
  "outbox (pb_env ex_executed) = [] @ ex_answer # []"
  "execution ex_server () ''rev'' [1, 2, 3] ex_peer = Some (Inr [3, 2, 1])"
  "promises ex_answered = [Value [3, 2, 1]]"
  by code_simp+

lemma ex_run:
  "rpc_run ex_msgpack ex_env ex_env (\<lambda>b. b) ex_server ex_server 0 ex_answered (take_out [] ex_executed)
     [(0, ''rev'', [1, 2, 3], Some)] [(0, ''rev'', [1, 2, 3], Some (Inr [3, 2, 1]))] 1"
proof -
  let ?run = "rpc_run ex_msgpack ex_env ex_env (\<lambda>b. b) ex_server ex_server 0"
  have "?run ex_peer ex_peer [] [] 0" by (rule rpc_run.start) (simp_all add: ex_peer_def)
  then have "?run ex_called ex_peer ([] @ [(0, ''rev'', [1, 2, 3], Some)]) [] (Suc 0)"
    by (rule rpc_run.call) (simp add: ex_called_def prod_eq_iff)
  from rpc_run.execute [OF this ex_steps(1,2), of "()" "fst (process_message ex_msgpack ex_env ex_server () ex_request ex_peer)" ex_executed]
  have "?run (take_out [] ex_called) ex_executed [(0, ''rev'', [1, 2, 3], Some)] [(0, ''rev'', [1, 2, 3], Some (Inr [3, 2, 1]))] 1"
    by (simp add: ex_executed_def ex_steps(4) prod_eq_iff)
  from rpc_run.answer [OF this ex_steps(3), of "()" "fst (process_message ex_msgpack ex_env ex_server () ex_answer (take_out [] ex_called))" ex_answered]
  show ?thesis by (simp add: ex_answered_def prod_eq_iff)
qed

theorem rpc_futures_correct_witness:
  "promises ex_answered ! 0 = Value [3, 2, 1] \<and>
   (promises ex_answered ! 0 = Pending \<or> promises ex_answered ! 0 = Broken
      \<or> (\<exists>R. (0, ''rev'', [1, 2, 3], R) \<in> {(0, ''rev'', [1, 2, 3], Some (Inr [3, 2, 1]))} \<and> promises ex_answered ! 0 = future_of Some R))"
  using rpc_futures_correct [OF ex_run _ _ _ ex_env_wire ex_env_wire ex_server_quiet, of 0] ex_laws ex_steps(5)
  by (simp add: ex_env_def)

end
