(* ===== verification/FTL_RecvJobs.thy ===== *)
theory FTL_RecvJobs
  imports FTL_Prelude "HOL-Library.Multiset"
begin

text \<open>
  How a TCP peer hands received data to the thread pool (\<^verbatim>\<open>PeerTcp::recv\<close>, \<^verbatim>\<open>_createJob\<close> and \<^verbatim>\<open>_data\<close> in
  \<^verbatim>\<open>peer_tcp.cpp\<close>). The network thread appends to the receive buffer, clears the flag \<^verbatim>\<open>recv_checked_\<close>
  and starts a job unless the flag \<^verbatim>\<open>already_processing_\<close> is set; a job takes messages from the buffer and
  dispatches them until there is none, and then gives the flag back.

  Every operation on one of the atomic flags, taking a message under the mutex of the buffer, and the
  dispatch of a message is one step; the steps of the network thread and of the jobs interleave
  freely. The thread pool starts jobs in the order they were pushed, at most \<open>threads\<close> at a time.
\<close>

section \<open>State\<close>

text \<open>The next complete message of the buffer, or data on which the unpacker throws.\<close>

datatype 'm packet = Good 'm | Bad

text \<open>Where a job is; the comments of the steps below name the code.\<close>

datatype 'm job = J_queued | J_start | J_checked | J_have 'm | J_empty | J_apcleared | J_rcwon | J_end | J_done

datatype net_pc = N_idle | N_consumed | N_cleared

record 'm recv_state =
  net_pc :: net_pc
  already_processing :: bool
  recv_checked :: bool
  recv_buf :: "'m packet list"
  recv_jobs :: "'m job list"
  dispatched :: "'m list"
  sock_open :: bool

definition recv_init :: "'m recv_state" where
  "recv_init = \<lparr>net_pc = N_idle, already_processing = False, recv_checked = False, recv_buf = [], recv_jobs = [],
     dispatched = [], sock_open = True\<rparr>"

section \<open>Steps\<close>

text \<open>
  \<^verbatim>\<open>recv\<close> in the network thread: \<^verbatim>\<open>buffer_consumed\<close> after the read, with the messages that the new data
  completes; \<^verbatim>\<open>recv_checked_.clear()\<close>; \<^verbatim>\<open>already_processing_.test_and_set()\<close> and \<^verbatim>\<open>_createJob\<close>.
\<close>

definition net_arrive :: "'m packet list \<Rightarrow> 'm recv_state \<Rightarrow> 'm recv_state option" where
  "net_arrive ps s = (if net_pc s = N_idle \<and> sock_open s
     then Some (s\<lparr>net_pc := N_consumed, recv_buf := recv_buf s @ ps\<rparr>) else None)"

definition net_step :: "'m recv_state \<Rightarrow> 'm recv_state option" where
  "net_step s = (case net_pc s of
     N_idle \<Rightarrow> None
   | N_consumed \<Rightarrow> Some (s\<lparr>net_pc := N_cleared, recv_checked := False\<rparr>)
   | N_cleared \<Rightarrow> Some (if already_processing s then s\<lparr>net_pc := N_idle\<rparr>
       else s\<lparr>net_pc := N_idle, already_processing := True, recv_jobs := recv_jobs s @ [J_queued]\<rparr>))"

text \<open>
  One step of a running job: \<^verbatim>\<open>_data\<close> sets \<^verbatim>\<open>recv_checked_\<close>; takes a message (\<^verbatim>\<open>_has_next\<close> is false on a
  closed socket; an exception closes the peer and ends the loop); dispatches it and returns true; or
  finds none, clears \<^verbatim>\<open>already_processing_\<close>, tests and sets \<^verbatim>\<open>recv_checked_\<close>, then tests and sets
  \<^verbatim>\<open>already_processing_\<close>. After the loop the job clears \<^verbatim>\<open>already_processing_\<close> once more.

  The handlers of messages throw standard exceptions only, which \<^verbatim>\<open>process_message_\<close> catches; one that throws
  something else would leave the job, and with it the thread of the pool.
\<close>

fun job_step :: "'m job \<Rightarrow> 'm recv_state \<Rightarrow> ('m job \<times> 'm recv_state) option" where
  "job_step J_start s = Some (J_checked, s\<lparr>recv_checked := True\<rparr>)"
| "job_step J_checked s =
     (if \<not> sock_open s then Some (J_empty, s)
      else case recv_buf s of
        [] \<Rightarrow> Some (J_empty, s)
      | Good x # ps \<Rightarrow> Some (J_have x, s\<lparr>recv_buf := ps\<rparr>)
      | Bad # ps \<Rightarrow> Some (J_end, s\<lparr>sock_open := False\<rparr>))"
| "job_step (J_have x) s = Some (J_start, s\<lparr>dispatched := dispatched s @ [x]\<rparr>)"
| "job_step J_empty s = Some (J_apcleared, s\<lparr>already_processing := False\<rparr>)"
| "job_step J_apcleared s =
     Some (if recv_checked s then J_end else J_rcwon, s\<lparr>recv_checked := True\<rparr>)"
| "job_step J_rcwon s =
     Some (if already_processing s then J_end else J_start, s\<lparr>already_processing := True\<rparr>)"
| "job_step J_end s = Some (J_done, s\<lparr>already_processing := False\<rparr>)"
| "job_step J_queued s = None"
| "job_step J_done s = None"

definition running :: "'m job \<Rightarrow> bool" where
  "running j \<longleftrightarrow> j \<noteq> J_queued \<and> j \<noteq> J_done"

text \<open>The pool starts the first queued job when a thread is free.\<close>

definition pool_start :: "nat \<Rightarrow> nat \<Rightarrow> 'm recv_state \<Rightarrow> 'm recv_state option" where
  "pool_start threads i s =
     (if i < length (recv_jobs s) \<and> recv_jobs s ! i = J_queued \<and> J_queued \<notin> set (take i (recv_jobs s))
         \<and> length (filter running (recv_jobs s)) < threads
      then Some (s\<lparr>recv_jobs := (recv_jobs s)[i := J_start]\<rparr>) else None)"

definition run_job :: "nat \<Rightarrow> 'm recv_state \<Rightarrow> 'm recv_state option" where
  "run_job i s =
     (if i < length (recv_jobs s)
      then map_option (\<lambda>(j, s'). s'\<lparr>recv_jobs := (recv_jobs s)[i := j]\<rparr>) (job_step (recv_jobs s ! i) s)
      else None)"

datatype 'm recv_event = Arrive "'m packet list" | Net | Start nat | Job nat

fun recv_do :: "nat \<Rightarrow> 'm recv_event \<Rightarrow> 'm recv_state \<Rightarrow> 'm recv_state option" where
  "recv_do threads (Arrive ps) s = net_arrive ps s"
| "recv_do threads Net s = net_step s"
| "recv_do threads (Start i) s = pool_start threads i s"
| "recv_do threads (Job i) s = run_job i s"

fun recv_exec :: "nat \<Rightarrow> 'm recv_event list \<Rightarrow> 'm recv_state \<Rightarrow> 'm recv_state option" where
  "recv_exec threads [] s = Some s"
| "recv_exec threads (e # es) s = (case recv_do threads e s of None \<Rightarrow> None | Some s' \<Rightarrow> recv_exec threads es s')"

text \<open>The messages that arrived, and those taken out of the buffer and not dispatched yet.\<close>

fun arrived :: "'m recv_event list \<Rightarrow> 'm packet list" where
  "arrived [] = []"
| "arrived (Arrive ps # es) = ps @ arrived es"
| "arrived (_ # es) = arrived es"

definition in_hand :: "'m recv_state \<Rightarrow> 'm list" where
  "in_hand s = List.map_filter (\<lambda>j. case j of J_have x \<Rightarrow> Some x | _ \<Rightarrow> None) (recv_jobs s)"

text \<open>Nothing is running: the network thread waits for data and every job has ended.\<close>

definition quiescent :: "'m recv_state \<Rightarrow> bool" where
  "quiescent s \<longleftrightarrow> net_pc s = N_idle \<and> list_all (\<lambda>j. j = J_done) (recv_jobs s)"

section \<open>Two threads\<close>

text \<open>
  The schedule that strands a message: a first job is stopped between its two flags while a second
  one runs; it then takes the notice of the new data away from the second one.
\<close>

definition stranding :: "'m \<Rightarrow> 'm \<Rightarrow> 'm \<Rightarrow> 'm recv_event list" where
  "stranding a b c =
     [Arrive [Good a], Net, Net, Start 0, Job 0, Job 0, Job 0, Job 0, Job 0, Job 0,
      Arrive [Good b], Net, Net, Start 1, Job 1, Job 1, Job 1, Job 1, Job 1,
      Arrive [Good c], Net, Net, Job 0, Job 0, Job 1, Job 1, Job 0, Job 1]"

text \<open>
  The schedule that swaps two messages: the last action of the first job clears the flag under which
  the second one runs, so a third is started beside it.
\<close>

definition swapping :: "'m \<Rightarrow> 'm \<Rightarrow> 'm recv_event list" where
  "swapping a b =
     [Arrive [], Net, Net, Start 0, Job 0, Job 0, Job 0,
      Arrive [Good a], Net, Net, Start 1, Job 0, Job 0, Job 0, Job 1, Job 1,
      Arrive [Good b], Net, Net, Start 2, Job 2, Job 2, Job 2, Job 1]"

text \<open>
  With two pool threads a message can be left in the buffer with nobody going to look at it: the
  network thread waits for more data, every job has ended, and the connection is open. And a later
  message can be dispatched before an earlier one.
\<close>

theorem recv_two_threads:
  "(\<exists>s. recv_exec 2 (stranding a b c) recv_init = Some s \<and> quiescent s \<and> sock_open s \<and> recv_buf s = [Good c]
      \<and> dispatched s = [a, b])
   \<and> (\<exists>s. recv_exec 2 (swapping a b) recv_init = Some s \<and> dispatched s = [b, a])"
proof
  show "\<exists>s. recv_exec 2 (stranding a b c) recv_init = Some s \<and> quiescent s \<and> sock_open s \<and> recv_buf s = [Good c]
      \<and> dispatched s = [a, b]"
    by (simp add: stranding_def recv_init_def net_arrive_def net_step_def pool_start_def run_job_def running_def quiescent_def)
  show "\<exists>s. recv_exec 2 (swapping a b) recv_init = Some s \<and> dispatched s = [b, a]"
    by (simp add: swapping_def recv_init_def net_arrive_def net_step_def pool_start_def run_job_def running_def)
qed

section \<open>Every message is dispatched at most once\<close>

lemma recv_exec_snoc:
  "recv_exec threads (es @ [e]) s = Option.bind (recv_exec threads es s) (recv_do threads e)"
  by (induction es arbitrary: s) (auto split: option.splits)

lemma arrived_append [simp]: "arrived (es @ fs) = arrived es @ arrived fs"
  by (induction es rule: arrived.induct) auto

text \<open>Induction over the events of a run, the last one first.\<close>

lemma recv_exec_induct [consumes 1, case_names init step]:
  assumes "recv_exec threads es s0 = Some s"
    and "P [] s0"
    and "\<And>es s e s'. recv_exec threads es s0 = Some s \<Longrightarrow> P es s \<Longrightarrow> recv_do threads e s = Some s' \<Longrightarrow> P (es @ [e]) s'"
  shows "P es s"
  using assms(1)
proof (induction es arbitrary: s rule: rev_induct)
  case (snoc e es)
  then obtain t where "recv_exec threads es s0 = Some t" "recv_do threads e t = Some s"
    by (auto simp: recv_exec_snoc bind_eq_Some_conv)
  then show ?case using snoc.IH assms(3) by blast
qed (use assms(2) in simp)

definition hand :: "'m job \<Rightarrow> 'm list" where
  "hand j = (case j of J_have x \<Rightarrow> [x] | _ \<Rightarrow> [])"

lemma hand_simps [simp]:
  "hand (J_have x) = [x]" "hand J_queued = []" "hand J_start = []" "hand J_checked = []" "hand J_empty = []"
  "hand J_apcleared = []" "hand J_rcwon = []" "hand J_end = []" "hand J_done = []"
  by (simp_all add: hand_def)

lemma in_hand_concat: "in_hand s = concat (map hand (recv_jobs s))"
proof -
  have "List.map_filter (\<lambda>j. case j of J_have x \<Rightarrow> Some x | _ \<Rightarrow> None) js = concat (map hand js)" for js :: "'a job list"
    by (induction js) (auto simp: map_filter_simps hand_def split: job.splits)
  then show ?thesis by (simp add: in_hand_def)
qed

lemma mset_hand_update:
  assumes "i < length js"
  shows "mset (concat (map hand (js[i := j]))) + mset (hand (js ! i)) = mset (concat (map hand js)) + mset (hand j)"
  using assms
proof (induction js arbitrary: i)
  case (Cons k js)
  then show ?case by (cases i) (auto simp: algebra_simps)
qed simp

lemma add_cross_cancel:
  fixes a h c c' d d' x :: "'a multiset"
  assumes "d' + a = d + h + x" "c' + h = c + a"
  shows "d + c + x = d' + c'"
proof -
  have "(d + c + x) + (a + h) = (d + h + x) + (c + a)" by (simp add: ac_simps)
  also have "\<dots> = (d' + a) + (c' + h)" by (simp only: assms)
  also have "\<dots> = (d' + c') + (a + h)" by (simp add: ac_simps)
  finally show ?thesis by simp
qed

lemma job_step_messages:
  assumes "job_step j s = Some (j', s')"
  shows "\<exists>xs. recv_buf s = map Good xs @ recv_buf s' \<and> mset (dispatched s') + mset (hand j') = mset (dispatched s) + mset (hand j) + mset xs
    \<and> recv_jobs s' = recv_jobs s"
proof (cases "(j, s)" rule: job_step.cases)
  case (2 t)
  then show ?thesis using assms by (auto split: if_splits list.splits packet.splits intro: exI [of _ "[]"] exI [of _ "[_]"])
qed (use assms in \<open>auto split: if_splits\<close>)

text \<open>
  C20: Whatever the number of threads and the schedule, the messages taken from the buffer are a prefix
  of those that arrived, and each of them has been dispatched once or is in the hands of one job.
\<close>

theorem recv_exactly_once:
  assumes "recv_exec threads es recv_init = Some s"
  shows "\<exists>taken. arrived es = map Good taken @ recv_buf s \<and> mset taken = mset (dispatched s) + mset (in_hand s)"
  using assms
proof (induction rule: recv_exec_induct)
  case init
  then show ?case by (simp add: recv_init_def in_hand_def)
next
  case (step es s e s')
  then obtain taken where t: "arrived es = map Good taken @ recv_buf s" "mset taken = mset (dispatched s) + mset (in_hand s)"
    by blast
  show ?case
  proof (cases e)
    case (Job i)
    then obtain j t' where i: "i < length (recv_jobs s)" "job_step (recv_jobs s ! i) s = Some (j, t')"
        "s' = t'\<lparr>recv_jobs := (recv_jobs s)[i := j]\<rparr>"
      using step.hyps(2) by (auto simp: run_job_def split: if_splits)
    obtain xs where xs: "recv_buf s = map Good xs @ recv_buf t'"
        "mset (dispatched t') + mset (hand j) = mset (dispatched s) + mset (hand (recv_jobs s ! i)) + mset xs"
      using job_step_messages [OF i(2)] by blast
    have "mset (taken @ xs) = mset (dispatched s') + mset (in_hand s')"
      using t(2) add_cross_cancel [OF xs(2) mset_hand_update [OF i(1), of j]] by (simp add: i(3) in_hand_concat)
    then show ?thesis using t(1) xs(1) i(3) Job by (intro exI [of _ "taken @ xs"]) simp
  next
    case (Start i)
    then show ?thesis using step.hyps(2) t mset_hand_update [of i "recv_jobs s" J_start]
      by (auto simp: pool_start_def in_hand_concat split: if_splits intro!: exI [of _ taken])
  next
    case Net
    then show ?thesis using step.hyps(2) t
      by (auto simp: net_step_def in_hand_concat split: net_pc.splits if_splits intro!: exI [of _ taken])
  next
    case (Arrive ps)
    then show ?thesis using step.hyps(2) t by (auto simp: net_arrive_def in_hand_concat split: if_splits intro!: exI [of _ taken])
  qed
qed

theorem recv_exactly_once_witness:
  "\<exists>taken. arrived (swapping (1 :: nat) 2) = map Good taken @ [] \<and> mset taken = mset [2, 1] + mset []"
proof -
  obtain s where s: "recv_exec 2 (swapping (1 :: nat) 2) recv_init = Some s" "dispatched s = [2, 1]" "recv_buf s = []" "in_hand s = []"
    by (simp add: swapping_def recv_init_def net_arrive_def net_step_def pool_start_def run_job_def running_def in_hand_concat)
  show ?thesis using recv_exactly_once [OF s(1)] s(2-4) by simp
qed

section \<open>One thread\<close>

text \<open>The jobs of a pool with one thread: some have ended, at most one is running, the others wait.\<close>

definition in_turn :: "'m recv_state \<Rightarrow> nat \<Rightarrow> 'm job list \<Rightarrow> nat \<Rightarrow> bool" where
  "in_turn s d r q \<longleftrightarrow> recv_jobs s = replicate d J_done @ r @ replicate q J_queued \<and> (r = [] \<or> (\<exists>j. r = [j] \<and> running j))"

text \<open>A job that has given the flag up leaves it set only when another job was pushed.\<close>

definition flag_held :: "'m recv_state \<Rightarrow> 'm job list \<Rightarrow> nat \<Rightarrow> bool" where
  "flag_held s r q \<longleftrightarrow> (already_processing s \<longrightarrow> 0 < q \<or> (\<exists>j. r = [j] \<and> j \<noteq> J_apcleared \<and> j \<noteq> J_rcwon \<and> j \<noteq> J_end))"

text \<open>Data in the buffer will be looked at.\<close>

definition covered :: "'m recv_state \<Rightarrow> 'm job list \<Rightarrow> nat \<Rightarrow> bool" where
  "covered s r q \<longleftrightarrow> (recv_buf s \<noteq> [] \<longrightarrow> net_pc s = N_consumed \<or> net_pc s = N_cleared \<and> \<not> already_processing s \<or> 0 < q
     \<or> (\<exists>j. r = [j] \<and> (j = J_start \<or> j = J_checked \<or> j = J_rcwon \<or> (\<exists>x. j = J_have x)
          \<or> (j = J_empty \<or> j = J_apcleared) \<and> \<not> recv_checked s)))"

definition seq_inv :: "'m packet list \<Rightarrow> 'm recv_state \<Rightarrow> bool" where
  "seq_inv ps s \<longleftrightarrow> (\<exists>d r q. in_turn s d r q \<and> ps = map Good (dispatched s @ concat (map hand r)) @ recv_buf s
     \<and> (sock_open s \<longrightarrow> flag_held s r q \<and> covered s r q))"

lemma seq_invI:
  assumes "in_turn s d r q" "ps = map Good (dispatched s @ concat (map hand r)) @ recv_buf s"
    "sock_open s \<Longrightarrow> flag_held s r q" "sock_open s \<Longrightarrow> covered s r q"
  shows "seq_inv ps s"
  using assms unfolding seq_inv_def by blast

lemma nth_in_turn:
  "i < length (replicate d x @ [j] @ replicate q y) \<Longrightarrow>
     (replicate d x @ [j] @ replicate q y) ! i = (if i < d then x else if i = d then j else y)"
  by (auto simp: nth_append nth_Cons' not_less)

lemma job_turn:
  assumes "in_turn s d r q" "run_job i s = Some s'"
  obtains j j' t where "r = [j]" "job_step j s = Some (j', t)"
    "s' = t\<lparr>recv_jobs := replicate d J_done @ [j'] @ replicate q J_queued\<rparr>"
proof -
  obtain k t where i: "i < length (recv_jobs s)" "job_step (recv_jobs s ! i) s = Some (k, t)"
      "s' = t\<lparr>recv_jobs := (recv_jobs s)[i := k]\<rparr>"
    using assms(2) by (auto simp: run_job_def split: if_splits)
  have run: "recv_jobs s ! i \<noteq> J_done" "recv_jobs s ! i \<noteq> J_queued" using i(2) by auto
  from assms(1) have jobs: "recv_jobs s = replicate d J_done @ r @ replicate q J_queued" by (simp add: in_turn_def)
  show ?thesis
  proof (cases "r = []")
    case True
    then show ?thesis using run i(1) jobs by (auto simp: nth_append split: if_splits)
  next
    case False
    then obtain j where r: "r = [j]" using assms(1) by (auto simp: in_turn_def)
    then have "i = d" using run i(1) nth_in_turn [of i d J_done j q J_queued] jobs by (auto split: if_splits)
    then show ?thesis using that [OF r, of k t] i jobs r by (simp add: nth_append list_update_append)
  qed
qed

lemma seq_inv_job:
  assumes "seq_inv ps s" "run_job i s = Some s'"
  shows "seq_inv ps s'"
proof -
  obtain d r q where I: "in_turn s d r q" "ps = map Good (dispatched s @ concat (map hand r)) @ recv_buf s"
      "sock_open s \<longrightarrow> flag_held s r q \<and> covered s r q"
    using assms(1) by (auto simp: seq_inv_def)
  obtain j j' t where j: "r = [j]" "job_step j s = Some (j', t)"
      "s' = t\<lparr>recv_jobs := replicate d J_done @ [j'] @ replicate q J_queued\<rparr>"
    using job_turn [OF I(1) assms(2)] by metis
  have run: "running j" using I(1) j(1) by (auto simp: in_turn_def)
  show ?thesis
  proof (cases "j' = J_done")
    case True
    then have "j = J_end" using j(2) by (cases "(j, s)" rule: job_step.cases) (auto split: if_splits list.splits packet.splits)
    then have "in_turn s' (Suc d) [] q" "t = s\<lparr>already_processing := False\<rparr>"
      using j True by (simp_all add: in_turn_def replicate_append_same [symmetric])
    then show ?thesis using I(2,3) j(1,3) \<open>j = J_end\<close>
      unfolding seq_inv_def by (intro exI [of _ "Suc d"] exI [of _ "[]"] exI [of _ q]) (auto simp: flag_held_def covered_def)
  next
    case False
    then have turn: "in_turn s' d [j'] q" using j(2) run
      by (cases "(j, s)" rule: job_step.cases) (auto simp: in_turn_def running_def j(3) split: if_splits list.splits packet.splits)
    moreover have "ps = map Good (dispatched s' @ hand j') @ recv_buf s'
        \<and> (sock_open s' \<longrightarrow> flag_held s' [j'] q \<and> covered s' [j'] q)"
      using j(2) I(2,3) by (cases "(j, s)" rule: job_step.cases)
        (auto simp: j(1,3) flag_held_def covered_def split: if_splits list.splits packet.splits)
    ultimately show ?thesis unfolding seq_inv_def by (intro exI [of _ d] exI [of _ "[j']"] exI [of _ q]) simp
  qed
qed

lemma seq_inv_start:
  assumes "seq_inv ps s" "pool_start 1 i s = Some s'"
  shows "seq_inv ps s'"
proof -
  obtain d r q where I: "in_turn s d r q" "ps = map Good (dispatched s @ concat (map hand r)) @ recv_buf s"
      "sock_open s \<longrightarrow> flag_held s r q \<and> covered s r q"
    using assms(1) by (auto simp: seq_inv_def)
  have st: "i < length (recv_jobs s)" "recv_jobs s ! i = J_queued" "J_queued \<notin> set (take i (recv_jobs s))"
      "filter running (recv_jobs s) = []" "s' = s\<lparr>recv_jobs := (recv_jobs s)[i := J_start]\<rparr>"
    using assms(2) by (auto simp: pool_start_def split: if_splits)
  have "r = []" using I(1) st(4) by (auto simp: in_turn_def)
  then have jobs: "recv_jobs s = replicate d J_done @ replicate q J_queued" using I(1) by (simp add: in_turn_def)
  have "\<not> i < d" using st(1,2) jobs by (auto simp: nth_append)
  moreover have "\<not> d < i" using st(1,3) jobs by (auto simp: take_Cons' set_replicate_conv_if split: if_splits)
  ultimately have "i = d" by simp
  moreover obtain q' where q: "q = Suc q'" using st(1) jobs \<open>i = d\<close> by (cases q) auto
  ultimately have "recv_jobs s' = replicate d J_done @ [J_start] @ replicate q' J_queued"
    using st(5) jobs by (simp add: list_update_append)
  then show ?thesis using I(2,3) \<open>r = []\<close> st(5)
    unfolding seq_inv_def by (intro exI [of _ d] exI [of _ "[J_start]"] exI [of _ q'])
      (auto simp: in_turn_def running_def flag_held_def covered_def)
qed

lemma seq_inv_net:
  assumes "seq_inv ps s" "net_step s = Some s'"
  shows "seq_inv ps s'"
proof -
  obtain d r q where I: "in_turn s d r q" "ps = map Good (dispatched s @ concat (map hand r)) @ recv_buf s"
      "sock_open s \<longrightarrow> flag_held s r q \<and> covered s r q"
    using assms(1) by (auto simp: seq_inv_def)
  show ?thesis
  proof (cases "net_pc s = N_cleared \<and> \<not> already_processing s")
    case True
    then have s': "s' = s\<lparr>net_pc := N_idle, already_processing := True, recv_jobs := recv_jobs s @ [J_queued]\<rparr>"
      using assms(2) by (simp add: net_step_def)
    show ?thesis
    proof (rule seq_invI)
      show "in_turn s' d r (Suc q)" using I(1) by (simp add: s' in_turn_def replicate_append_same [symmetric])
    qed (use I(2) in \<open>simp_all add: s' flag_held_def covered_def\<close>)
  next
    case False
    then consider "net_pc s = N_consumed" "s' = s\<lparr>net_pc := N_cleared, recv_checked := False\<rparr>"
      | "net_pc s = N_cleared" "already_processing s" "s' = s\<lparr>net_pc := N_idle\<rparr>"
      using assms(2) by (auto simp: net_step_def split: net_pc.splits)
    then show ?thesis
    proof cases
      case 1
      have "covered s' r q" if "flag_held s r q"
      proof -
        have "j = J_start \<or> j = J_checked \<or> (\<exists>x. j = J_have x) \<or> j = J_empty"
          if "running j" "j \<noteq> J_apcleared" "j \<noteq> J_rcwon" "j \<noteq> J_end" for j :: "'a job"
          using that by (cases j) (auto simp: running_def)
        then show ?thesis using that I(1) by (auto simp: 1 flag_held_def covered_def in_turn_def)
      qed
      then show ?thesis using I by (intro seq_invI [of s' d r q]) (simp_all add: 1 in_turn_def flag_held_def)
    next
      case 2
      then show ?thesis using I by (intro seq_invI [of s' d r q]) (simp_all add: in_turn_def flag_held_def covered_def)
    qed
  qed
qed

lemma seq_inv_arrive:
  assumes "seq_inv ps s" "net_arrive qs s = Some s'"
  shows "seq_inv (ps @ qs) s'"
proof -
  obtain d r q where I: "in_turn s d r q" "ps = map Good (dispatched s @ concat (map hand r)) @ recv_buf s"
      "sock_open s \<longrightarrow> flag_held s r q \<and> covered s r q"
    using assms(1) by (auto simp: seq_inv_def)
  moreover have "s' = s\<lparr>net_pc := N_consumed, recv_buf := recv_buf s @ qs\<rparr>"
    using assms(2) by (simp add: net_arrive_def split: if_splits)
  ultimately show ?thesis by (intro seq_invI [of s' d r q]) (simp_all add: in_turn_def flag_held_def covered_def)
qed

lemma recv_exec_seq_inv: "recv_exec 1 es recv_init = Some s \<Longrightarrow> seq_inv (arrived es) s"
proof (induction rule: recv_exec_induct)
  case init
  have "in_turn (recv_init :: 'a recv_state) 0 [] 0" by (simp add: in_turn_def recv_init_def)
  then show ?case unfolding seq_inv_def
    by (intro exI [of _ 0] exI [of _ "[]"]) (simp add: flag_held_def covered_def recv_init_def)
next
  case (step es s e s')
  then show ?case
    by (cases e) (auto intro: seq_inv_job seq_inv_start seq_inv_net seq_inv_arrive)
qed

text \<open>
  C2: With one pool thread the messages are dispatched in the order in which they arrived, under every
  interleaving with the network thread, and no message is left behind: when nothing is running and
  the connection is open, all messages that arrived have been dispatched.
\<close>

theorem recv_one_thread:
  assumes "recv_exec 1 es recv_init = Some s"
  shows "arrived es = map Good (dispatched s @ in_hand s) @ recv_buf s
    \<and> (quiescent s \<and> sock_open s \<longrightarrow> arrived es = map Good (dispatched s))"
proof -
  obtain d r q where I: "in_turn s d r q" "arrived es = map Good (dispatched s @ concat (map hand r)) @ recv_buf s"
      "sock_open s \<longrightarrow> flag_held s r q \<and> covered s r q"
    using recv_exec_seq_inv [OF assms] by (auto simp: seq_inv_def)
  have "in_hand s = concat (map hand r)" using I(1) by (simp add: in_hand_concat in_turn_def)
  moreover have "arrived es = map Good (dispatched s)" if "quiescent s" "sock_open s"
  proof -
    have "r = []" "q = 0" using that(1) I(1) by (auto simp: quiescent_def in_turn_def running_def list_all_iff)
    then show ?thesis using I(2,3) that by (auto simp: covered_def quiescent_def)
  qed
  ultimately show ?thesis using I(2) by simp
qed

theorem recv_one_thread_witness:
  "\<exists>s. recv_exec 1 [Arrive [Good (1 :: nat)], Net, Net, Start 0, Job 0, Job 0, Job 0, Job 0, Job 0, Job 0, Job 0, Job 0] recv_init = Some s
    \<and> map Good (dispatched s) = [Good 1]"
proof -
  let ?es = "[Arrive [Good (1 :: nat)], Net, Net, Start 0, Job 0, Job 0, Job 0, Job 0, Job 0, Job 0, Job 0, Job 0]"
  define s :: "nat recv_state" where "s = \<lparr>net_pc = N_idle, already_processing = False, recv_checked = True, recv_buf = [],
    recv_jobs = [J_done], dispatched = [1], sock_open = True\<rparr>"
  have run: "recv_exec 1 ?es recv_init = Some s" unfolding s_def by code_simp
  have "quiescent s" "sock_open s" by (simp_all add: s_def quiescent_def)
  with recv_one_thread [OF run] have "arrived ?es = map Good (dispatched s)" by blast
  then have "map Good (dispatched s) = [Good 1]" by (simp only: arrived.simps append_Nil2)
  with run show ?thesis by (intro exI [of _ s] conjI)
qed

end
