(* ===== verification/FTL_PeerTcp.thy ===== *)
theory FTL_PeerTcp
  imports FTL_Rpc FTL_Connection
begin

text \<open>
  Peers over a socket (\<^verbatim>\<open>peer_tcp.hpp\<close>, \<^verbatim>\<open>peer_tcp.cpp\<close>): connecting, the status of the connection, sending
  a buffer, receiving into the unpacker, closing and reconnecting. The hand-over of received data to
  the thread pool is in \<open>FTL_RecvJobs\<close>.

  The socket connection is a value of type \<open>'k\<close> with the operations \<open>sock_ops\<close> (TCP, TLS and WebSocket
  connections share them); calls on the universe are outputs in the order they are made. The state
  is the \<open>PeerBase\<close> record with the members of \<^verbatim>\<open>PeerTcp\<close> in its environment. \<^verbatim>\<open>sock_\<close> is not null once
  the constructor has returned.
\<close>

section \<open>State\<close>

datatype tcp_out = Out_notifyError Error string | Out_notifyConnect | Out_notifyDisconnect

record 'k tcp =
  tsock :: 'k
  outgoing :: bool
  can_reconnect :: bool
  recv_capacity :: nat
  recv_buf_max :: nat
  recv_data :: "u8 list"
  send_locks :: nat
  tx_bytes :: u64
  rx_bytes :: u64
  tcp_outs :: "tcp_out list"

record ('o, 'k) sock_ops =
  k_is_valid :: "'k \<Rightarrow> bool"
  k_close :: "'k \<Rightarrow> 'k"
  k_recv :: "nat \<Rightarrow> 'k \<Rightarrow> (string + int \<times> u8 list) \<times> 'k"
  k_writev :: "u8 list \<Rightarrow> 'k \<Rightarrow> (string + int) \<times> 'k"
  k_getSocketError :: "'k \<Rightarrow> int \<times> 'k"
  k_is_fatal :: "int \<Rightarrow> bool"
  k_create :: "string + 'k"
  k_set_options :: "'k \<Rightarrow> 'k"
  k_connect :: "'k \<Rightarrow> (string + unit) \<times> 'k"
  k_prepare_next :: "u8 list \<Rightarrow> bool \<times> nat \<times> u8 list"
  k_next :: "u8 list \<Rightarrow> string + ('o \<times> u8 list) option"

type_synonym ('o, 'v, 'k) PeerTcp = "('o, 'v, 'k tcp) PeerBase"

definition upd_tcp :: "('k tcp \<Rightarrow> 'k tcp) \<Rightarrow> ('o, 'v, 'k) PeerTcp \<Rightarrow> ('o, 'v, 'k) PeerTcp" where
  "upd_tcp f p = p\<lparr>pb_env := f (pb_env p)\<rparr>"

definition upd_sock :: "('k \<Rightarrow> 'k) \<Rightarrow> ('o, 'v, 'k) PeerTcp \<Rightarrow> ('o, 'v, 'k) PeerTcp" where
  "upd_sock f = upd_tcp (\<lambda>t. t\<lparr>tsock := f (tsock t)\<rparr>)"

definition emit :: "tcp_out \<Rightarrow> ('o, 'v, 'k) PeerTcp \<Rightarrow> ('o, 'v, 'k) PeerTcp" where
  "emit x = upd_tcp (\<lambda>t. t\<lparr>tcp_outs := tcp_outs t @ [x]\<rparr>)"

definition sock_valid :: "('o, 'k) sock_ops \<Rightarrow> ('o, 'v, 'k) PeerTcp \<Rightarrow> bool" where
  "sock_valid so p = k_is_valid so (tsock (pb_env p))"

definition tcp_isConnected :: "('o, 'k) sock_ops \<Rightarrow> ('o, 'v, 'k) PeerTcp \<Rightarrow> bool" where
  "tcp_isConnected so p \<longleftrightarrow> sock_valid so p \<and> pb_status p = kConnected"

definition tcp_isValid :: "('o, 'k) sock_ops \<Rightarrow> ('o, 'v, 'k) PeerTcp \<Rightarrow> bool" where
  "tcp_isValid so p \<longleftrightarrow> sock_valid so p \<and> (pb_status p = kConnected \<or> pb_status p = kConnecting)"

definition tcp_getType :: "scheme_t \<Rightarrow> NodeType" where
  "tcp_getType s = (if s = SCHEME_WS \<or> s = SCHEME_WSS then kWebService else kNode)"

section \<open>Closing\<close>

text \<open>\<^verbatim>\<open>_close\<close>, without telling the other side.\<close>

definition tcp_close_raw :: "('o, 'k) sock_ops \<Rightarrow> bool \<Rightarrow> ('o, 'v, 'k) PeerTcp \<Rightarrow> ('o, 'v, 'k) PeerTcp" where
  "tcp_close_raw so retry p =
     (if pb_status p \<noteq> kConnected \<and> pb_status p \<noteq> kConnecting then p
      else
        let p1 = p\<lparr>pb_status := (if retry \<and> can_reconnect (pb_env p) then kReconnecting else kDisconnected)\<rparr> in
        if sock_valid so p1 then upd_sock (k_close so) (emit Out_notifyDisconnect p1) else p1)"

text \<open>\<^verbatim>\<open>rawClose\<close>, after the wait for the jobs.\<close>

definition rawClose :: "('o, 'k) sock_ops \<Rightarrow> ('o, 'v, 'k) PeerTcp \<Rightarrow> ('o, 'v, 'k) PeerTcp" where
  "rawClose so p = upd_sock (k_close so) (p\<lparr>pb_status := kDisconnected\<rparr>)"

definition tcp_shutdown :: "('o, 'k) sock_ops \<Rightarrow> ('o, 'v, 'k) PeerTcp \<Rightarrow> ('o, 'v, 'k) PeerTcp" where
  "tcp_shutdown so = rawClose so"

definition noReconnect :: "('o, 'v, 'k) PeerTcp \<Rightarrow> ('o, 'v, 'k) PeerTcp" where
  "noReconnect = upd_tcp (\<lambda>t. t\<lparr>can_reconnect := False\<rparr>)"

section \<open>Sending\<close>

text \<open>\<^verbatim>\<open>get_buffer_\<close> locks the send mutex, \<^verbatim>\<open>set_buffer_\<close> unlocks it.\<close>

definition tcp_get_buffer :: "('o, 'v, 'k) PeerTcp \<Rightarrow> ('o, 'v, 'k) PeerTcp" where
  "tcp_get_buffer = upd_tcp (\<lambda>t. t\<lparr>send_locks := send_locks t + 1\<rparr>)"

definition tcp_set_buffer :: "('o, 'v, 'k) PeerTcp \<Rightarrow> ('o, 'v, 'k) PeerTcp" where
  "tcp_set_buffer = upd_tcp (\<lambda>t. t\<lparr>send_locks := send_locks t - 1\<rparr>)"

definition add_tx :: "int \<Rightarrow> ('o, 'v, 'k) PeerTcp \<Rightarrow> ('o, 'v, 'k) PeerTcp" where
  "add_tx c = upd_tcp (\<lambda>t. t\<lparr>tx_bytes := tx_bytes t + word_of_int c\<rparr>)"

definition tcp_send_buffer :: "('o, 'k) sock_ops \<Rightarrow> u8 list \<Rightarrow> ('o, 'v, 'k) PeerTcp \<Rightarrow> int \<times> ('o, 'v, 'k) PeerTcp" where
  "tcp_send_buffer so buffer p =
     (if \<not> sock_valid so p then (- 1, p)
      else case k_writev so buffer (tsock (pb_env p)) of
        (Inr c, k) \<Rightarrow>
          (let p1 = upd_sock (\<lambda>_. k) p in
           if c \<le> 0 then (c, tcp_set_buffer (emit (Out_notifyError kSocketError ''writev() failed'') p1))
           else
             let p2 = (if c \<noteq> int (length buffer)
                       then tcp_close_raw so True (emit (Out_notifyError kSocketError ''writev(): incomplete send'') p1) else p1) in
             (1, add_tx c (tcp_set_buffer p2)))
      | (Inl what, k) \<Rightarrow>
          (1, add_tx 0 (tcp_set_buffer (tcp_close_raw so True (emit (Out_notifyError kSocketError what) (upd_sock (\<lambda>_. k) p))))))"

text \<open>
  The virtual functions of the base class for a socket peer; \<open>ev\<close> gives the packing and the functions of
  the rest of the program.
\<close>

definition tcp_send_env :: "('o, 'k) sock_ops \<Rightarrow> ('o, 'v, 'k tcp) peer_env \<Rightarrow> ('o, 'v, 'k tcp) peer_env" where
  "tcp_send_env so ev = ev\<lparr>
     e_get_buffer := (\<lambda>p. (Inr (), tcp_get_buffer p)),
     e_send_buffer := (\<lambda>name b p. case tcp_send_buffer so b p of (c, p') \<Rightarrow> (Inr c, p')),
     e_notifyError := (\<lambda>e s p. (Inr (), emit (Out_notifyError e s) p)),
     e_notifyConnect := (\<lambda>p. (Inr (), emit Out_notifyConnect p))\<rparr>"

definition tcp_close :: "('o, 'k) sock_ops \<Rightarrow> ('o, 'v, 'k tcp) peer_env \<Rightarrow> 'o \<Rightarrow> bool \<Rightarrow> ('o, 'v, 'k) PeerTcp \<Rightarrow> ('o, 'v, 'k) PeerTcp" where
  "tcp_close so ev no_args retry p =
     tcp_close_raw so retry
       (if sock_valid so p \<and> pb_status p = kConnected then snd (peer_send (tcp_send_env so ev) ''__disconnect__'' no_args p) else p)"

definition tcp_env :: "('o, 'k) sock_ops \<Rightarrow> ('o, 'v, 'k tcp) peer_env \<Rightarrow> 'o \<Rightarrow> ('o, 'v, 'k tcp) peer_env" where
  "tcp_env so ev no_args = (tcp_send_env so ev)\<lparr>e_close := (\<lambda>retry p. (Inr (), tcp_close so ev no_args retry p))\<rparr>"

definition ECONNRESET :: int where "ECONNRESET = 104"

definition socketError :: "('o, 'k) sock_ops \<Rightarrow> ('o, 'v, 'k) PeerTcp \<Rightarrow> bool \<times> ('o, 'v, 'k) PeerTcp" where
  "socketError so p =
     (case k_getSocketError so (tsock (pb_env p)) of (errcode, k) \<Rightarrow>
        let p1 = upd_sock (\<lambda>_. k) p in
        if \<not> k_is_fatal so errcode then (False, p1)
        else if errcode = ECONNRESET then (True, tcp_close_raw so True p1)
        else (True, tcp_close_raw so True (emit (Out_notifyError kSocketError (''Socket error: '' @ int_to_string errcode)) p1)))"

section \<open>Receiving\<close>

definition kMaxMessage :: nat where "kMaxMessage = 4 * 1024 * 1024"
definition kDefaultMessage :: nat where "kDefaultMessage = 512 * 1024"

text \<open>
  \<^verbatim>\<open>recv\<close>: the result says whether data was appended, after which the flags of \<open>FTL_RecvJobs\<close> are handled. A
  result of zero on a connection that is still valid ends the process.
\<close>

definition grow_buffer :: "int \<Rightarrow> nat \<Rightarrow> ('o, 'v, 'k) PeerTcp \<Rightarrow> ('o, 'v, 'k) PeerTcp" where
  "grow_buffer rc cap p =
     (let p1 = (if rc \<ge> cast_i32 (int cap - 1)
                then upd_tcp (\<lambda>t. if recv_buf_max t < kMaxMessage then t\<lparr>recv_buf_max := recv_buf_max t + 512 * 1024\<rparr> else t)
                  (emit (Out_notifyError kBufferSize ''Too much data received'') p)
                else p) in
      if cap < recv_buf_max (pb_env p1) div 10 then emit (Out_notifyError kBufferSize ''Buffer is at capacity'') p1 else p1)"

definition tcp_recv :: "('o, 'k) sock_ops \<Rightarrow> ('o, 'v, 'k tcp) peer_env \<Rightarrow> 'o \<Rightarrow> ('o, 'v, 'k) PeerTcp \<Rightarrow> (bool \<times> ('o, 'v, 'k) PeerTcp) res" where
  "tcp_recv so ev no_args p =
     (if \<not> sock_valid so p \<or> pb_status p = kDisconnected then Inr (False, p)
      else
        let p1 = (if recv_capacity (pb_env p) < recv_buf_max (pb_env p)
                  then upd_tcp (\<lambda>t. t\<lparr>recv_capacity := recv_buf_max t\<rparr>) p else p);
            cap = recv_capacity (pb_env p1) in
        case k_recv so cap (tsock (pb_env p1)) of
          (Inl what, k) \<Rightarrow>
            Inr (False, tcp_close so ev no_args True (emit (Out_notifyError kSocketError what) (upd_sock (\<lambda>_. k) p1)))
        | (Inr (rc, bytes), k) \<Rightarrow>
            (let p2 = grow_buffer rc cap (upd_sock (\<lambda>_. k) p1) in
             if rc = 0 then (if sock_valid so p2 then Inl Check_failed else Inr (False, p2))
             else if rc < 0 then Inr (False, tcp_close so ev no_args True (upd_sock (k_close so) p2))
             else Inr (True, upd_tcp (\<lambda>t. t\<lparr>rx_bytes := rx_bytes t + word_of_int rc, recv_data := recv_data t @ bytes,
                               recv_capacity := recv_capacity t - length bytes\<rparr>) p2)))"

definition has_next :: "('o, 'k) sock_ops \<Rightarrow> ('o, 'v, 'k) PeerTcp \<Rightarrow> bool \<times> ('o, 'v, 'k) PeerTcp" where
  "has_next so p =
     (if \<not> sock_valid so p then (False, p)
      else case k_prepare_next so (recv_data (pb_env p)) of (b, skip, bytes) \<Rightarrow>
        (b, upd_tcp (\<lambda>t. t\<lparr>recv_data := (if b then drop skip bytes else bytes)\<rparr>) p))"

text \<open>The part of \<^verbatim>\<open>_data\<close> that takes a message out of the buffer.\<close>

definition next_message :: "('o, 'k) sock_ops \<Rightarrow> ('o, 'v, 'k) PeerTcp \<Rightarrow> (string + 'o option) \<times> ('o, 'v, 'k) PeerTcp" where
  "next_message so p =
     (case has_next so p of
        (False, p') \<Rightarrow> (Inr None, p')
      | (True, p') \<Rightarrow>
         (case k_next so (recv_data (pb_env p')) of
            Inl what \<Rightarrow> (Inl what, tcp_close_raw so False (emit (Out_notifyError kPacketFailure what) p'))
          | Inr None \<Rightarrow> (Inr None, p')
          | Inr (Some (msg, rest)) \<Rightarrow> (Inr (Some msg), upd_tcp (\<lambda>t. t\<lparr>recv_data := rest\<rparr>) p')))"

section \<open>Connecting\<close>

definition tcp_bind_rpc :: "'o msgpack \<Rightarrow> ('o, 'v, 'k tcp) peer_env \<Rightarrow> ('o \<Rightarrow> (u64 \<times> u32 \<times> UUID) option) \<Rightarrow> u32
    \<Rightarrow> ('p, 'o, ('o, 'v, 'k) PeerTcp) Dispatcher \<Rightarrow> rpc_exn + ('p, 'o, ('o, 'v, 'k) PeerTcp) Dispatcher" where
  "tcp_bind_rpc m ev as_handshake own_ver =
     bind_void_args m ''__handshake__'' 3 as_handshake (\<lambda>(magic, ver, pid).
       io_bind (process_handshake ev own_ver magic ver pid) (\<lambda>_. io_return ()))"

text \<open>\<^verbatim>\<open>_connect\<close>: an exception leaves the socket that was created; \<open>None\<close> is success.\<close>

definition peer_connect :: "('o, 'k) sock_ops \<Rightarrow> ('o, 'v, 'k) PeerTcp \<Rightarrow> string option \<times> ('o, 'v, 'k) PeerTcp" where
  "peer_connect so p =
     (case k_create so of
        Inl what \<Rightarrow> (Some what, p)
      | Inr k \<Rightarrow>
         (case k_connect so (k_set_options so k) of
            (Inl what, k') \<Rightarrow> (Some what, upd_sock (\<lambda>_. k') p)
          | (Inr _, k') \<Rightarrow> (None, (upd_sock (\<lambda>_. k') p)\<lparr>pb_status := kConnecting\<rparr>)))"

definition tcp_reconnect :: "('o, 'k) sock_ops \<Rightarrow> ('o, 'v, 'k tcp) peer_env \<Rightarrow> 'o \<Rightarrow> ('o, 'v, 'k) PeerTcp \<Rightarrow> bool \<times> ('o, 'v, 'k) PeerTcp" where
  "tcp_reconnect so ev no_args p =
     (if pb_status p \<noteq> kConnecting \<or> \<not> can_reconnect (pb_env p) then (False, p)
      else case peer_connect so (upd_tcp (\<lambda>t. t\<lparr>recv_data := []\<rparr>) p) of
        (None, p') \<Rightarrow> (True, p')
      | (Some what, p') \<Rightarrow> (False, tcp_close so ev no_args True (emit (Out_notifyError kReconnectionFailed what) p')))"

definition tcp_start :: "('o, 'k) sock_ops \<Rightarrow> ('o, 'v, 'k tcp) peer_env \<Rightarrow> 'o \<Rightarrow> u32 \<Rightarrow> (unit, ('o, 'v, 'k) PeerTcp) io" where
  "tcp_start so ev no_args own_ver = (\<lambda>p.
     if outgoing (pb_env p) then (Inr (), p)
     else io_bind (send_handshake (tcp_env so ev no_args) own_ver) (\<lambda>_. io_return ()) p)"

text \<open>The members as the two constructors set them, around the base class.\<close>

definition incoming_tcp :: "'k \<Rightarrow> 'k tcp" where
  "incoming_tcp k = \<lparr>tsock = k, outgoing = False, can_reconnect = False, recv_capacity = 0, recv_buf_max = kDefaultMessage,
     recv_data = [], send_locks = 0, tx_bytes = 0, rx_bytes = 0, tcp_outs = []\<rparr>"

definition outgoing_tcp :: "'k \<Rightarrow> 'k tcp" where
  "outgoing_tcp k = (incoming_tcp k)\<lparr>outgoing := True, can_reconnect := True\<rparr>"

definition new_incoming :: "('o, 'k) sock_ops \<Rightarrow> 'k \<Rightarrow> ('o, 'v, 'k) PeerTcp \<Rightarrow> ('o, 'v, 'k) PeerTcp" where
  "new_incoming so k base = base\<lparr>pb_status := kConnecting, pb_env := incoming_tcp (k_set_options so k)\<rparr>"

definition new_outgoing :: "('o, 'k) sock_ops \<Rightarrow> 'k \<Rightarrow> ('o, 'v, 'k) PeerTcp \<Rightarrow> string + ('o, 'v, 'k) PeerTcp" where
  "new_outgoing so no_sock base =
     (case peer_connect so (base\<lparr>pb_status := kConnecting, pb_env := outgoing_tcp no_sock\<rparr>) of
        (None, p) \<Rightarrow> Inr p
      | (Some what, _) \<Rightarrow> Inl what)"

section \<open>What the peer relies on\<close>

text \<open>
  The contract of a connection: closing makes it invalid, and, for a plain socket, writing does not
  change whether it is valid.
\<close>

definition disconnects :: "('o, 'v, 'k) PeerTcp \<Rightarrow> nat" where
  "disconnects p = length (filter (\<lambda>x. x = Out_notifyDisconnect) (tcp_outs (pb_env p)))"

definition active :: "('o, 'v, 'k) PeerTcp \<Rightarrow> bool" where
  "active p \<longleftrightarrow> pb_status p = kConnected \<or> pb_status p = kConnecting"

lemma upd_simps [simp]:
  "pb_status (upd_tcp f p) = pb_status p" "pb_env (upd_tcp f p) = f (pb_env p)"
  "pb_status (upd_sock g p) = pb_status p" "pb_env (upd_sock g p) = (pb_env p)\<lparr>tsock := g (tsock (pb_env p))\<rparr>"
  "pb_status (emit x p) = pb_status p" "pb_env (emit x p) = (pb_env p)\<lparr>tcp_outs := tcp_outs (pb_env p) @ [x]\<rparr>"
  by (simp_all add: upd_tcp_def upd_sock_def emit_def)

lemma buffer_simps [simp]:
  "pb_status (tcp_get_buffer p) = pb_status p" "pb_env (tcp_get_buffer p) = (pb_env p)\<lparr>send_locks := send_locks (pb_env p) + 1\<rparr>"
  "pb_status (tcp_set_buffer p) = pb_status p" "pb_env (tcp_set_buffer p) = (pb_env p)\<lparr>send_locks := send_locks (pb_env p) - 1\<rparr>"
  "pb_status (add_tx c p) = pb_status p" "pb_env (add_tx c p) = (pb_env p)\<lparr>tx_bytes := tx_bytes (pb_env p) + word_of_int c\<rparr>"
  by (simp_all add: tcp_get_buffer_def tcp_set_buffer_def add_tx_def)

lemma upd_trivial [simp]: "add_tx 0 p = p" "upd_tcp (\<lambda>t. t) p = p"
  by (simp_all add: add_tx_def upd_tcp_def)

text \<open>The peer is as usable as before, or was closed for a reconnect with one notification.\<close>

definition kept_or_closed :: "('o, 'k) sock_ops \<Rightarrow> ('o, 'v, 'k) PeerTcp \<Rightarrow> ('o, 'v, 'k) PeerTcp \<Rightarrow> bool" where
  "kept_or_closed so p p' \<longleftrightarrow> can_reconnect (pb_env p') = can_reconnect (pb_env p)
     \<and> (pb_status p' = pb_status p \<and> sock_valid so p' \<and> disconnects p' = disconnects p
      \<or> pb_status p' = (if can_reconnect (pb_env p) then kReconnecting else kDisconnected) \<and> \<not> sock_valid so p'
        \<and> disconnects p' = disconnects p + 1)"

lemma grow_buffer_simps [simp]:
  "tsock (pb_env (grow_buffer rc n q)) = tsock (pb_env q)" "pb_status (grow_buffer rc n q) = pb_status q"
  "can_reconnect (pb_env (grow_buffer rc n q)) = can_reconnect (pb_env q)" "disconnects (grow_buffer rc n q) = disconnects q"
  by (simp_all add: grow_buffer_def Let_def disconnects_def)

lemma disconnects_sock [simp]: "disconnects (upd_sock f p) = disconnects p"
  by (simp add: disconnects_def)

lemma disconnects_capacity: "disconnects (upd_tcp (\<lambda>t. t\<lparr>recv_capacity := f t\<rparr>) p) = disconnects p"
  by (simp add: disconnects_def)

locale closing_socket =
  fixes so :: "('o, 'k) sock_ops"
  assumes close_invalid: "\<not> k_is_valid so (k_close so k)"
begin

text \<open>A connection whose read returns a negative count is closed, without a notification by the peer.\<close>

lemma recv_closed:
  assumes "sock_valid so p" "active p" "\<And>n. \<exists>d k. k_recv so n (tsock (pb_env p)) = (Inr (rc, d), k)" "rc < 0"
  shows "\<exists>p'. tcp_recv so ev na p = Inr (False, p') \<and> \<not> sock_valid so p' \<and> disconnects p' = disconnects p
    \<and> pb_status p' = (if can_reconnect (pb_env p) then kReconnecting else kDisconnected)"
proof -
  let ?p1 = "if recv_capacity (pb_env p) < recv_buf_max (pb_env p) then upd_tcp (\<lambda>t. t\<lparr>recv_capacity := recv_buf_max t\<rparr>) p else p"
  obtain d k where k: "k_recv so (recv_capacity (pb_env ?p1)) (tsock (pb_env p)) = (Inr (rc, d), k)" using assms(3) by blast
  let ?p2 = "grow_buffer rc (recv_capacity (pb_env ?p1)) (upd_sock (\<lambda>_. k) ?p1)"
  let ?p3 = "upd_sock (k_close so) ?p2"
  have v: "\<not> sock_valid so ?p3" by (simp add: sock_valid_def close_invalid)
  have r: "tcp_recv so ev na p = Inr (False, tcp_close so ev na True ?p3)"
    using assms(1,2,4) k by (auto simp: tcp_recv_def Let_def active_def)
  have "disconnects ?p3 = disconnects p" by (simp add: disconnects_capacity)
  moreover have "tcp_close so ev na True ?p3 = ?p3\<lparr>pb_status := (if can_reconnect (pb_env p) then kReconnecting else kDisconnected)\<rparr>"
    using v assms(2) by (auto simp: tcp_close_def tcp_close_raw_def sock_valid_def active_def Let_def)
  ultimately show ?thesis using v r by (auto simp: sock_valid_def disconnects_def)
qed

end

locale peer_socket = closing_socket +
  assumes writev_valid: "k_is_valid so (snd (k_writev so b k)) = k_is_valid so k"
begin

lemma close_raw_effect:
  "\<not> active p \<Longrightarrow> tcp_close_raw so retry p = p"
  "active p \<Longrightarrow> pb_status (tcp_close_raw so retry p) = (if retry \<and> can_reconnect (pb_env p) then kReconnecting else kDisconnected)"
  "active p \<Longrightarrow> \<not> sock_valid so (tcp_close_raw so retry p)"
  "active p \<Longrightarrow> disconnects (tcp_close_raw so retry p) = disconnects p + (if sock_valid so p then 1 else 0)"
  "can_reconnect (pb_env (tcp_close_raw so retry p)) = can_reconnect (pb_env p)"
  "send_locks (pb_env (tcp_close_raw so retry p)) = send_locks (pb_env p)"
  by (auto simp: tcp_close_raw_def active_def sock_valid_def disconnects_def Let_def close_invalid)

lemma send_buffer_cases:
  assumes "sock_valid so p" "tcp_send_buffer so b p = (c, p')"
  obtains (kept) k outs x where "k_is_valid so k" "Out_notifyDisconnect \<notin> set outs"
    "p' = add_tx x (tcp_set_buffer (upd_tcp (\<lambda>t. t\<lparr>tcp_outs := tcp_outs t @ outs\<rparr>) (upd_sock (\<lambda>_. k) p)))"
  | (closed) k e x where "k_is_valid so k"
    "p' = add_tx x (tcp_set_buffer (tcp_close_raw so True (emit (Out_notifyError kSocketError e) (upd_sock (\<lambda>_. k) p))))"
proof -
  obtain r k where w: "k_writev so b (tsock (pb_env p)) = (r, k)" by (metis surj_pair)
  have k: "k_is_valid so k" using writev_valid [of b "tsock (pb_env p)"] assms(1) w by (simp add: sock_valid_def)
  show ?thesis
  proof (cases r)
    case (Inl what)
    then show ?thesis using closed [OF k, of 0 what] assms w by (simp add: tcp_send_buffer_def)
  next
    case (Inr n)
    show ?thesis
    proof (cases "n \<le> 0 \<or> n = int (length b)")
      case True
      then show ?thesis
        using kept [OF k, of "[Out_notifyError kSocketError ''writev() failed'']" 0] kept [OF k, of "[]" n] assms w Inr
        by (auto simp: tcp_send_buffer_def Let_def emit_def split: if_splits)
    next
      case False
      then show ?thesis using closed [OF k, of n "''writev(): incomplete send''"] assms w Inr
        by (auto simp: tcp_send_buffer_def Let_def)
    qed
  qed
qed

text \<open>Sending on an active peer with a valid socket.\<close>

lemma send_buffer_effect:
  assumes "active p" "sock_valid so p" "tcp_send_buffer so b p = (c, p')"
  shows "kept_or_closed so p p' \<and> send_locks (pb_env p') = send_locks (pb_env p) - 1"
  using assms(2,3)
proof (cases rule: send_buffer_cases)
  case (kept k outs x)
  then have "filter (\<lambda>x. x = Out_notifyDisconnect) outs = []" by (auto simp: filter_empty_conv)
  then show ?thesis using kept by (simp add: kept_or_closed_def sock_valid_def disconnects_def)
next
  case (closed k e x)
  let ?q = "emit (Out_notifyError kSocketError e) (upd_sock (\<lambda>_. k) p)"
  have q: "active ?q" "sock_valid so ?q" "disconnects ?q = disconnects p" "can_reconnect (pb_env ?q) = can_reconnect (pb_env p)"
    using assms(1) closed(1) by (simp_all add: active_def sock_valid_def disconnects_def)
  show ?thesis using close_raw_effect [where p = ?q and retry = True] q closed(2)
    by (simp add: kept_or_closed_def sock_valid_def disconnects_def)
qed

text \<open>The same for \<^verbatim>\<open>send\<close> of the base class, which takes the lock first.\<close>

lemma peer_send_pack:
  "snd (peer_send (tcp_send_env so ev) name args p) =
     (case e_pack ev (Msg_notify name args) of Inl _ \<Rightarrow> tcp_get_buffer p | Inr b \<Rightarrow> snd (tcp_send_buffer so b (tcp_get_buffer p)))"
  by (simp add: peer_send_def tcp_send_env_def pack_and_send_def io_bind_def io_lift_def io_catch_def split: sum.splits prod.splits)

lemma peer_send_effect:
  assumes "active p" "sock_valid so p"
  shows "kept_or_closed so p (snd (peer_send (tcp_send_env so ev) name args p))"
proof (cases "e_pack ev (Msg_notify name args)")
  case (Inl e)
  then show ?thesis using assms(2) by (simp add: peer_send_pack kept_or_closed_def sock_valid_def disconnects_def)
next
  case (Inr b)
  let ?p = "tcp_get_buffer p"
  have g: "active ?p" "sock_valid so ?p" "disconnects ?p = disconnects p"
    using assms by (simp_all add: active_def sock_valid_def disconnects_def)
  obtain c p' where "tcp_send_buffer so b ?p = (c, p')" by (metis surj_pair)
  then show ?thesis using send_buffer_effect [OF g(1,2), of b c p'] g(3) Inr by (simp add: peer_send_pack kept_or_closed_def)
qed

lemma close_inactive: "\<not> active p \<Longrightarrow> tcp_close so ev na retry p = p"
  by (simp add: tcp_close_def active_def tcp_close_raw_def)

lemma close_effect:
  assumes "active p"
  shows "let p' = tcp_close so ev na retry p in
    \<not> sock_valid so p' \<and> disconnects p' = disconnects p + (if sock_valid so p then 1 else 0)
    \<and> (pb_status p' = kDisconnected \<or> pb_status p' = kReconnecting \<and> can_reconnect (pb_env p))
    \<and> (retry \<and> can_reconnect (pb_env p) \<longrightarrow> pb_status p' = kReconnecting)"
proof (cases "sock_valid so p \<and> pb_status p = kConnected")
  case True
  let ?q = "snd (peer_send (tcp_send_env so ev) ''__disconnect__'' na p)"
  have p': "tcp_close so ev na retry p = tcp_close_raw so retry ?q" using True by (simp add: tcp_close_def)
  have "kept_or_closed so p ?q" using peer_send_effect [OF assms(1)] True by blast
  then consider (kept) "active ?q" "sock_valid so ?q" "disconnects ?q = disconnects p" "can_reconnect (pb_env ?q) = can_reconnect (pb_env p)"
    | (closed) "\<not> active ?q" "\<not> sock_valid so ?q" "disconnects ?q = disconnects p + 1"
      "pb_status ?q = (if can_reconnect (pb_env p) then kReconnecting else kDisconnected)"
    using assms(1) True by (auto simp: kept_or_closed_def active_def split: if_splits)
  then show ?thesis
  proof cases
    case kept
    then show ?thesis using close_raw_effect(2-4) [OF kept(1), of retry] True unfolding p' by (auto simp: Let_def)
  next
    case closed
    then show ?thesis using close_raw_effect(1) [OF closed(1), of retry] True unfolding p' by (simp add: Let_def)
  qed
next
  case False
  then have "tcp_close so ev na retry p = tcp_close_raw so retry p" by (auto simp: tcp_close_def)
  then show ?thesis using close_raw_effect(2-4) [OF assms(1), of retry] by (auto simp: Let_def)
qed

text \<open>The lock of the send buffer after \<^verbatim>\<open>send\<close>, for a message that can be packed.\<close>

lemma send_lock:
  assumes "e_pack ev (Msg_notify name args) = Inr b" "active p"
  shows "send_locks (pb_env (snd (peer_send (tcp_send_env so ev) name args p))) =
    send_locks (pb_env p) + (if sock_valid so p then 0 else 1)"
proof (cases "sock_valid so p")
  case True
  obtain c p' where "tcp_send_buffer so b (tcp_get_buffer p) = (c, p')" by (metis surj_pair)
  moreover have "active (tcp_get_buffer p)" "sock_valid so (tcp_get_buffer p)" using assms(2) True by (simp_all add: active_def sock_valid_def)
  ultimately show ?thesis using send_buffer_effect [of "tcp_get_buffer p" b c p'] assms(1) True by (simp add: peer_send_pack)
next
  case False
  then show ?thesis using assms(1) by (simp add: peer_send_pack tcp_send_buffer_def sock_valid_def)
qed

end

section \<open>Over a TCP connection\<close>

text \<open>
  The operations of \<open>FTL_Connection\<close> as a connection of a peer: its state is the connection and the state
  of the operating system. \<open>wr\<close> is the scatter write where it returns; the others are set-up.
\<close>

fun exn_what :: "exn \<Rightarrow> string" where
  "exn_what (FTL_Error s) = s"
| "exn_what (Std_exception s) = s"
| "exn_what _ = []"

definition connection_ops :: "('a, 'w) sys \<Rightarrow> (u8 list \<Rightarrow> 'a SocketConnection \<Rightarrow> 'w \<Rightarrow> (string + int) \<times> 'w) \<Rightarrow> ('a SocketConnection \<Rightarrow> 'w \<Rightarrow> int)
    \<Rightarrow> (string + 'a SocketConnection \<times> 'w) \<Rightarrow> ('a SocketConnection \<times> 'w \<Rightarrow> (string + unit) \<times> ('a SocketConnection \<times> 'w))
    \<Rightarrow> (u8 list \<Rightarrow> string + ('o \<times> u8 list) option) \<Rightarrow> ('o, 'a SocketConnection \<times> 'w) sock_ops" where
  "connection_ops y wr er cr cn nx = \<lparr>
     k_is_valid = (\<lambda>(c, w). conn_is_valid c),
     k_close = (\<lambda>(c, w). snd (conn_close y c w)),
     k_recv = (\<lambda>n (c, w). case conn_recv y n c w of
         (Inl e, w') \<Rightarrow> (Inl (exn_what e), (c, w'))
       | (Inr r, w') \<Rightarrow> (Inr r, (c, w'))),
     k_writev = (\<lambda>b (c, w). case wr b c w of (r, w') \<Rightarrow> (r, (c, w'))),
     k_getSocketError = (\<lambda>(c, w). (er c w, (c, w))),
     k_is_fatal = (\<lambda>e. is_fatal 0 e),
     k_create = cr,
     k_set_options = (\<lambda>k. k),
     k_connect = cn,
     k_prepare_next = (\<lambda>bs. (True, 0, bs)),
     k_next = nx\<rparr>"

lemma conn_close_invalid: "\<not> conn_is_valid (fst (snd (conn_close y c w)))"
  by (auto simp: conn_is_valid_def conn_close_def socket_close_def socket_is_open_def socket_is_valid_def split: prod.splits)

interpretation conn: peer_socket "connection_ops y wr er cr cn nx" for y wr er cr cn nx
proof
  fix k b
  show "\<not> k_is_valid (connection_ops y wr er cr cn nx) (k_close (connection_ops y wr er cr cn nx) k)"
    using conn_close_invalid by (cases k) (simp add: connection_ops_def case_prod_beta)
  show "k_is_valid (connection_ops y wr er cr cn nx) (snd (k_writev (connection_ops y wr er cr cn nx) b k)) =
      k_is_valid (connection_ops y wr er cr cn nx) k"
    by (cases k) (simp add: connection_ops_def case_prod_beta)
qed

text \<open>
  Closing a peer over a TCP connection: a peer that is not connected or connecting is unchanged;
  otherwise the socket is closed, the peer is disconnected or, only if it may, waits for a reconnect
  (always when this was asked for), and the universe is notified once if the socket was still open.
\<close>

theorem tcp_close_notifies_once:
  assumes "so = connection_ops y wr er cr cn nx" "p' = tcp_close so ev na retry p"
  shows "(\<not> active p \<longrightarrow> p' = p)
    \<and> (active p \<longrightarrow> \<not> sock_valid so p' \<and> disconnects p' = disconnects p + (if sock_valid so p then 1 else 0)
        \<and> (pb_status p' = kDisconnected \<or> pb_status p' = kReconnecting \<and> can_reconnect (pb_env p))
        \<and> (retry \<and> can_reconnect (pb_env p) \<longrightarrow> pb_status p' = kReconnecting))"
  using conn.close_effect [of p] conn.close_inactive [of p] unfolding assms by (simp add: Let_def)

text \<open>Example data: an open connection on the recording operating system, and a peer on it.\<close>

definition trickling_sys :: "(unit, u8 list) sys" where
  "trickling_sys = \<lparr>sys_socket = (\<lambda>w. (3, w)), sys_recv = (\<lambda>f n w. (0, [], w)),
     sys_send = (\<lambda>f b w. (0, w)), sys_writev = (\<lambda>f b w. (int (min 3 (length (concat b))), w @ take 3 (concat b))),
     sys_bind = (\<lambda>f a w. (0, w)), sys_listen = (\<lambda>f n w. (0, w)), sys_accept = (\<lambda>f w. (-1, (), w)),
     sys_connect = (\<lambda>f a w. (-1, w)), sys_select = (\<lambda>f t w. (0, False, w)), sys_close = (\<lambda>f w. (0, w)),
     sys_getfl = (\<lambda>f w. False), sys_setfl = (\<lambda>f b w. w), sys_getsockname = (\<lambda>f w. ()),
     sys_errno = (\<lambda>w. 0), sys_strerror = (\<lambda>n. [])\<rparr>"

definition ex_conn :: "unit SocketConnection \<times> u8 list" where
  "ex_conn = (\<lparr>sock = \<lparr>sock_status = ST_OPEN, sock_fd = 3\<rparr>, addr = ()\<rparr>, [])"

definition ex_ops :: "(u8 list, unit SocketConnection \<times> u8 list) sock_ops" where
  "ex_ops = connection_ops trickling_sys (\<lambda>b c w. (Inr (int (length b)), w @ b)) (\<lambda>c w. 0) (Inr ex_conn) (\<lambda>k. (Inr (), k)) (\<lambda>b. Inr None)"

definition ex_tcp_env :: "(u8 list, unit, (unit SocketConnection \<times> u8 list) tcp) peer_env" where
  "ex_tcp_env = \<lparr>e_pack = ex_pack, e_get_buffer = io_return (), e_send_buffer = (\<lambda>_ _. io_return 0), e_notifyError = (\<lambda>_ _. io_return ()),
     e_notifyConnect = io_return (), e_close = (\<lambda>_. io_return ()), e_get_time = (\<lambda>_. 0), e_sort = sort_key se_rtt,
     e_net_id = uuid_of_int 1, e_handshake_args = (\<lambda>a b u. u), e_of_time = (\<lambda>t. []), e_to_time_sync = (\<lambda>_. None)\<rparr>"

definition ex_tcp_peer :: "NodeStatus \<Rightarrow> (u8 list, unit, unit SocketConnection \<times> u8 list) PeerTcp" where
  "ex_tcp_peer st = \<lparr>local_id = 0, pb_id = uuid_of_int 2, pb_version = 0, pb_status = st, rpc_callbacks = Map.empty, promises = [],
     rpcid = 0, handshake_sent = False, pb_clock = new_ClockInfo 50, pb_env = outgoing_tcp ex_conn\<rparr>"

theorem tcp_close_notifies_once_witness:
  "disconnects (tcp_close ex_ops ex_tcp_env [] True (ex_tcp_peer kConnected)) = 1
   \<and> pb_status (tcp_close ex_ops ex_tcp_env [] True (ex_tcp_peer kConnected)) = kReconnecting"
proof -
  have "active (ex_tcp_peer kConnected)" "disconnects (ex_tcp_peer kConnected) = 0" "sock_valid ex_ops (ex_tcp_peer kConnected)"
      "can_reconnect (pb_env (ex_tcp_peer kConnected))"
    by (simp_all add: active_def ex_tcp_peer_def disconnects_def outgoing_tcp_def incoming_tcp_def sock_valid_def ex_ops_def
        connection_ops_def ex_conn_def conn_is_valid_def socket_is_open_def)
  then show ?thesis
    using tcp_close_notifies_once [OF ex_ops_def refl, where p = "ex_tcp_peer kConnected" and ev = ex_tcp_env and na = "[]" and retry = True] by simp
qed

section \<open>The send buffer\<close>

text \<open>
  Sending a message leaves the lock of the send buffer as it was when the socket is open, and leaves
  it locked when the socket is not.
\<close>

theorem tcp_send_keeps_lock:
  assumes "so = connection_ops y wr er cr cn nx" "e_pack ev (Msg_notify name args) = Inr b" "active p"
  shows "send_locks (pb_env (snd (peer_send (tcp_send_env so ev) name args p))) =
    send_locks (pb_env p) + (if sock_valid so p then 0 else 1)"
  unfolding assms(1) using assms(2,3) by (rule conn.send_lock)

theorem tcp_send_keeps_lock_witness:
  "send_locks (pb_env (snd (peer_send (tcp_send_env ex_ops ex_tcp_env) ''f'' [] (upd_sock (k_close ex_ops) (ex_tcp_peer kConnected))))) = 1"
proof -
  let ?p = "upd_sock (k_close ex_ops) (ex_tcp_peer kConnected)"
  have "active ?p" "\<not> sock_valid ex_ops ?p" "send_locks (pb_env ?p) = 0"
    by (simp_all add: active_def ex_tcp_peer_def outgoing_tcp_def incoming_tcp_def sock_valid_def ex_ops_def conn.close_invalid)
  moreover have "e_pack ex_tcp_env (Msg_notify ''f'' []) = ex_pack (Msg_notify ''f'' [])" by (simp add: ex_tcp_env_def)
  ultimately show ?thesis
    using tcp_send_keeps_lock [OF ex_ops_def, of ex_tcp_env "''f''" "[]" _ ?p] by simp
qed

section \<open>Receiving\<close>

text \<open>
  A read that fails with an error that is not fatal (interrupted, or no data) on an open connection
  ends the process: the connection reports it as zero bytes, and the peer takes zero bytes to mean that
  the connection is closed.
\<close>

theorem tcp_recv_interrupted:
  assumes so: "so = connection_ops y wr er cr cn nx" and p: "sock_valid so p" "pb_status p \<noteq> kDisconnected"
    and k: "tsock (pb_env p) = (c, w)" "\<And>n. sys_recv y (sock_fd (sock c)) n w = (r, d, w')" "r < 0" "\<not> is_fatal (sys_errno y w') 0"
  shows "tcp_recv so ev na p = Inl Check_failed"
proof -
  have rc: "k_recv so n (c, w) = (Inr (0, []), (c, w'))" for n
    using k(2-4) by (simp add: so connection_ops_def conn_recv_def)
  have "k_is_valid so (c, w')" using p(1) k(1) by (simp add: so sock_valid_def connection_ops_def)
  then show ?thesis using p k(1) rc by (simp add: tcp_recv_def Let_def sock_valid_def)
qed

text \<open>
  A connection that the other side closes: the peer that reads it is closed and waits for a reconnect
  if it may. It does not notify the universe itself, which does so when it removes the peer.
\<close>

theorem tcp_recv_remote_close:
  assumes so: "so = connection_ops y wr er cr cn nx" and p: "sock_valid so p" "active p"
    and k: "tsock (pb_env p) = (c, w)" "\<And>n. sys_recv y (sock_fd (sock c)) n w = (0, [], w')"
  shows "\<exists>p'. tcp_recv so ev na p = Inr (False, p') \<and> \<not> sock_valid so p' \<and> disconnects p' = disconnects p
    \<and> pb_status p' = (if can_reconnect (pb_env p) then kReconnecting else kDisconnected)"
proof -
  have "\<exists>d k. k_recv so n (tsock (pb_env p)) = (Inr (- 1, d), k)" for n
    using k by (simp add: so connection_ops_def conn_recv_def)
  from conn.recv_closed [OF p [unfolded so] this [unfolded so]] show ?thesis by (simp add: so)
qed

theorem tcp_recv_remote_close_witness:
  "\<exists>p'. tcp_recv ex_ops ex_tcp_env [] (ex_tcp_peer kConnected) = Inr (False, p') \<and> pb_status p' = kReconnecting \<and> disconnects p' = 0"
proof -
  have "sock_valid ex_ops (ex_tcp_peer kConnected)" "active (ex_tcp_peer kConnected)" "disconnects (ex_tcp_peer kConnected) = 0"
    "tsock (pb_env (ex_tcp_peer kConnected)) = ex_conn" "can_reconnect (pb_env (ex_tcp_peer kConnected))"
    by (simp_all add: sock_valid_def ex_ops_def connection_ops_def ex_tcp_peer_def outgoing_tcp_def incoming_tcp_def ex_conn_def
      conn_is_valid_def socket_is_open_def active_def disconnects_def)
  moreover have "sys_recv trickling_sys fd n w = (0, [], w)" for fd n w by (simp add: trickling_sys_def)
  ultimately show ?thesis
    using tcp_recv_remote_close [OF ex_ops_def, of "ex_tcp_peer kConnected" "fst ex_conn" "snd ex_conn" "snd ex_conn" ex_tcp_env "[]"] by auto
qed

definition interrupted_sys :: "(unit, u8 list) sys" where
  "interrupted_sys = trickling_sys\<lparr>sys_recv := (\<lambda>fd n w. (- 1, [], w)), sys_errno := (\<lambda>w. EINTR)\<rparr>"

theorem tcp_recv_interrupted_witness:
  "tcp_recv (connection_ops interrupted_sys (\<lambda>b c w. (Inr (int (length b)), w @ b)) (\<lambda>c w. 0) (Inr ex_conn) (\<lambda>k. (Inr (), k)) (\<lambda>b. Inr None))
     ex_tcp_env [] (ex_tcp_peer kConnected) = Inl Check_failed"
  by (rule tcp_recv_interrupted [OF refl, where r = "- 1"])
    (simp_all add: sock_valid_def connection_ops_def ex_tcp_peer_def outgoing_tcp_def incoming_tcp_def ex_conn_def
      conn_is_valid_def socket_is_open_def interrupted_sys_def is_fatal_def)

section \<open>Handshake\<close>

text \<open>A connection that takes every write whole and records it; reconnecting gives a new one.\<close>

definition wire_ops :: "('a, u8 list list) sys \<Rightarrow> 'a SocketConnection \<Rightarrow> (u8 list \<Rightarrow> string + ('o \<times> u8 list) option)
    \<Rightarrow> ('o, 'a SocketConnection \<times> u8 list list) sock_ops" where
  "wire_ops y c0 nx = connection_ops y (\<lambda>b c w. (Inr (int (length b)), w @ [b])) (\<lambda>_ _. 0) (Inr (c0, [])) (\<lambda>k. (Inr (), k)) nx"

definition written :: "('o, 'v, 'a SocketConnection \<times> u8 list list) PeerTcp \<Rightarrow> u8 list list" where
  "written p = snd (tsock (pb_env p))"

definition handshake_msg :: "('o, 'v, 'x) peer_env \<Rightarrow> u32 \<Rightarrow> 'o rpc_msg" where
  "handshake_msg ev ver = Msg_notify ''__handshake__'' (e_handshake_args ev kMagic ver (e_net_id ev))"

lemma wire_send:
  assumes "so = wire_ops y c0 nx" "sock_valid so p" "b \<noteq> []"
  shows "tcp_send_buffer so b p = (1, add_tx (int (length b)) (tcp_set_buffer (upd_sock (\<lambda>k. (fst k, snd k @ [b])) p)))"
  using assms(2,3) by (cases "tsock (pb_env p)")
    (simp add: assms(1) tcp_send_buffer_def wire_ops_def connection_ops_def sock_valid_def upd_sock_def upd_tcp_def)

lemma send_handshake_wire:
  assumes "so = wire_ops y c0 nx" "sock_valid so p" "pb_status p = kConnecting" "e_pack ev (handshake_msg ev ver) = Inr b" "b \<noteq> []"
  obtains r p' where "send_handshake (tcp_env so ev na) ver p = (Inr r, p')" "written p' = written p @ [b]" "handshake_sent p'"
    "pb_status p' = kConnecting" "sock_valid so p'" "pb_id p' = pb_id p" "can_reconnect (pb_env p') = can_reconnect (pb_env p)"
proof -
  let ?q = "tcp_get_buffer (p\<lparr>handshake_sent := True\<rparr>)"
  have q: "sock_valid so ?q" using assms(2) by (simp add: sock_valid_def)
  have "send_handshake (tcp_env so ev na) ver p = (Inr 1, snd (tcp_send_buffer so b ?q))"
    using assms(3,4) by (simp add: send_handshake_def peer_send_def pack_and_send_def tcp_env_def tcp_send_env_def io_bind_def
        io_lift_def io_catch_def handshake_msg_def wire_send [OF assms(1) q assms(5)])
  then show ?thesis
    using that assms(2,3) unfolding wire_send [OF assms(1) q assms(5)]
    by (cases "tsock (pb_env p)") (simp add: written_def sock_valid_def add_tx_def tcp_set_buffer_def tcp_get_buffer_def
        upd_sock_def upd_tcp_def assms(1) wire_ops_def connection_ops_def)
qed

lemma process_handshake_wire:
  assumes "so = wire_ops y c0 nx" "sock_valid so p" "pb_status p = kConnecting" "e_pack ev (handshake_msg ev own) = Inr b" "b \<noteq> []"
  obtains p' where "process_handshake (tcp_env so ev na) own kMagic ver pid p = (Inr True, p')" "pb_status p' = kConnected"
    "pb_id p' = pid" "written p' = written p @ (if handshake_sent p then [] else [b])" "handshake_sent p'"
    "sock_valid so p'" "can_reconnect (pb_env p') = can_reconnect (pb_env p)"
proof (cases "handshake_sent p")
  case True
  then show ?thesis using that assms(2)
    by (simp add: process_handshake_def Let_def io_bind_def tcp_env_def tcp_send_env_def written_def sock_valid_def emit_def upd_tcp_def)
next
  case False
  let ?p = "p\<lparr>pb_version := ver, pb_id := pid\<rparr>"
  have "sock_valid so ?p" "pb_status ?p = kConnecting" using assms(2,3) by (simp_all add: sock_valid_def)
  then obtain r p' where "send_handshake (tcp_env so ev na) own ?p = (Inr r, p')" "written p' = written ?p @ [b]" "handshake_sent p'"
      "pb_status p' = kConnecting" "sock_valid so p'" "pb_id p' = pb_id ?p" "can_reconnect (pb_env p') = can_reconnect (pb_env ?p)"
    using send_handshake_wire [OF assms(1) _ _ assms(4,5)] by blast
  then show ?thesis using that [of "emit Out_notifyConnect (p'\<lparr>pb_status := kConnected\<rparr>)"] False
    by (simp add: process_handshake_def Let_def io_bind_def tcp_env_def tcp_send_env_def written_def sock_valid_def emit_def upd_tcp_def)
qed

text \<open>
  C19: The listening side sends its handshake, the connecting side answers with its own, and both are then
  connected, know the identifier of the other, and have sent exactly one message. When the connecting
  side loses the connection and reconnects, it answers the handshake of the new connection with nothing,
  so the listening side of that connection never receives one.
\<close>

theorem handshake_exchange:
  assumes so: "so = wire_ops y c0 nx" "conn_is_valid c0"
    and l: "pb_status l = kConnecting" "\<not> handshake_sent l" "sock_valid so l" "\<not> outgoing (pb_env l)"
    and c: "pb_status c = kConnecting" "\<not> handshake_sent c" "sock_valid so c" "can_reconnect (pb_env c)"
    and msgs: "e_pack el (handshake_msg el vl) = Inr bl" "bl \<noteq> []" "e_pack ec (handshake_msg ec vc) = Inr bc" "bc \<noteq> []"
    and l1: "tcp_start so el na vl l = (r1, l1)"
    and c1: "process_handshake (tcp_env so ec na) vc kMagic vl (e_net_id el) c = (r2, c1)"
    and l2: "process_handshake (tcp_env so el na) vl kMagic vc (e_net_id ec) l1 = (r3, l2)"
    and lost: "tcp_reconnect so ec na ((tcp_close_raw so True c1)\<lparr>pb_status := kConnecting\<rparr>) = (r4, c2)"
    and c3: "process_handshake (tcp_env so ec na) vc kMagic vl (e_net_id el) c2 = (r5, c3)"
  shows "pb_status l2 = kConnected \<and> pb_id l2 = e_net_id ec \<and> written l2 = written l @ [bl]
    \<and> pb_status c1 = kConnected \<and> pb_id c1 = e_net_id el \<and> written c1 = written c @ [bc]
    \<and> r4 = True \<and> pb_status c3 = kConnected \<and> written c3 = []"
proof -
  obtain q r where "send_handshake (tcp_env so el na) vl l = (Inr r, q)" and q: "written q = written l @ [bl]" "handshake_sent q"
      "pb_status q = kConnecting" "sock_valid so q"
    using send_handshake_wire [OF so(1) l(3,1) msgs(1,2)] by blast
  then have "l1 = q" using l1 l(4) by (simp add: tcp_start_def io_bind_def)
  then have L: "pb_status l2 = kConnected \<and> pb_id l2 = e_net_id ec \<and> written l2 = written l @ [bl]"
    using process_handshake_wire [OF so(1) q(4,3) msgs(1,2), of na vc "e_net_id ec"] l2 q(1,2) by auto
  have C: "pb_status c1 = kConnected" "pb_id c1 = e_net_id el" "written c1 = written c @ [bc]" "handshake_sent c1"
      "can_reconnect (pb_env c1)" "sock_valid so c1"
    using process_handshake_wire [OF so(1) c(3,1) msgs(3,4), of na vl "e_net_id el"] c1 c(2,4) by auto
  let ?d = "tcp_close_raw so True c1"
  have d: "handshake_sent ?d" "can_reconnect (pb_env ?d)" using C by (simp_all add: tcp_close_raw_def Let_def upd_sock_def upd_tcp_def emit_def)
  have c2: "r4 = True \<and> c2 = (upd_sock (\<lambda>_. (c0, [])) (upd_tcp (\<lambda>t. t\<lparr>recv_data := []\<rparr>) (?d\<lparr>pb_status := kConnecting\<rparr>)))\<lparr>pb_status := kConnecting\<rparr>"
    using lost d(2) by (simp add: tcp_reconnect_def peer_connect_def so(1) wire_ops_def connection_ops_def)
  then have "sock_valid so c2" "pb_status c2 = kConnecting" "handshake_sent c2" "written c2 = []"
    using so d(1) by (simp_all add: sock_valid_def written_def wire_ops_def connection_ops_def upd_sock_def upd_tcp_def)
  then show ?thesis
    using process_handshake_wire [OF so(1) _ _ msgs(3,4), of c2 na vl "e_net_id el"] c3 L C(1-3) c2 by auto
qed

definition hs_conn :: "unit SocketConnection" where
  "hs_conn = \<lparr>sock = \<lparr>sock_status = ST_OPEN, sock_fd = 3\<rparr>, addr = ()\<rparr>"

definition hs_sys :: "(unit, u8 list list) sys" where
  "hs_sys = \<lparr>sys_socket = (\<lambda>w. (3, w)), sys_recv = (\<lambda>f n w. (0, [], w)), sys_send = (\<lambda>f b w. (int (length b), w @ [b])),
     sys_writev = (\<lambda>f bs w. (int (length (concat bs)), w @ bs)), sys_bind = (\<lambda>f a w. (0, w)), sys_listen = (\<lambda>f n w. (0, w)),
     sys_accept = (\<lambda>f w. (4, (), w)), sys_connect = (\<lambda>f a w. (0, w)), sys_select = (\<lambda>f t w. (1, False, w)),
     sys_close = (\<lambda>f w. (0, w)), sys_getfl = (\<lambda>f w. False), sys_setfl = (\<lambda>f b w. w), sys_getsockname = (\<lambda>f w. ()),
     sys_errno = (\<lambda>w. 0), sys_strerror = (\<lambda>e. [])\<rparr>"

definition hs_env :: "UUID \<Rightarrow> (u8 list, unit, (unit SocketConnection \<times> u8 list list) tcp) peer_env" where
  "hs_env u = \<lparr>e_pack = ex_pack, e_get_buffer = io_return (), e_send_buffer = (\<lambda>_ _. io_return 0), e_notifyError = (\<lambda>_ _. io_return ()),
     e_notifyConnect = io_return (), e_close = (\<lambda>_. io_return ()), e_get_time = (\<lambda>_. 0), e_sort = sort_key se_rtt,
     e_net_id = u, e_handshake_args = (\<lambda>a b u. u), e_of_time = (\<lambda>t. []), e_to_time_sync = (\<lambda>_. None)\<rparr>"

definition hs_peer :: "(unit SocketConnection \<times> u8 list list) tcp \<Rightarrow> (u8 list, unit, unit SocketConnection \<times> u8 list list) PeerTcp" where
  "hs_peer t = \<lparr>local_id = 0, pb_id = uuid_of_int 0, pb_version = 0, pb_status = kConnecting, rpc_callbacks = Map.empty, promises = [],
     rpcid = 0, handshake_sent = False, pb_clock = new_ClockInfo 50, pb_env = t\<rparr>"

theorem handshake_exchange_witness:
  "let so = wire_ops hs_sys hs_conn (\<lambda>_. Inr None);
       (r1, l1) = tcp_start so (hs_env (uuid_of_int 1)) [] 0 (hs_peer (incoming_tcp (hs_conn, [])));
       (r2, c1) = process_handshake (tcp_env so (hs_env (uuid_of_int 2)) []) 0 kMagic 0 (uuid_of_int 1) (hs_peer (outgoing_tcp (hs_conn, [])));
       (r3, l2) = process_handshake (tcp_env so (hs_env (uuid_of_int 1)) []) 0 kMagic 0 (uuid_of_int 2) l1
     in pb_status l2 = kConnected \<and> pb_id l2 = uuid_of_int 2 \<and> length (written l2) = 1 \<and> length (written c1) = 1"
proof -
  let ?so = "wire_ops hs_sys hs_conn (\<lambda>_. Inr None) :: (u8 list, unit SocketConnection \<times> u8 list list) sock_ops"
  let ?l = "hs_peer (incoming_tcp (hs_conn, []))" and ?c = "hs_peer (outgoing_tcp (hs_conn, []))"
  let ?el = "hs_env (uuid_of_int 1)" and ?ec = "hs_env (uuid_of_int 2)"
  obtain r1 l1 where l1: "tcp_start ?so ?el [] 0 ?l = (r1, l1)" by (metis surj_pair)
  obtain r2 c1 where c1: "process_handshake (tcp_env ?so ?ec []) 0 kMagic 0 (e_net_id ?el) ?c = (r2, c1)" by (metis surj_pair)
  obtain r3 l2 where l2: "process_handshake (tcp_env ?so ?el []) 0 kMagic 0 (e_net_id ?ec) l1 = (r3, l2)" by (metis surj_pair)
  obtain r4 c2 where c2: "tcp_reconnect ?so ?ec [] ((tcp_close_raw ?so True c1)\<lparr>pb_status := kConnecting\<rparr>) = (r4, c2)" by (metis surj_pair)
  obtain r5 c3 where c3: "process_handshake (tcp_env ?so ?ec []) 0 kMagic 0 (e_net_id ?el) c2 = (r5, c3)" by (metis surj_pair)
  obtain bl where bl: "e_pack ?el (handshake_msg ?el 0) = Inr bl" "bl \<noteq> []" by (simp add: hs_env_def handshake_msg_def)
  obtain bc where bc: "e_pack ?ec (handshake_msg ?ec 0) = Inr bc" "bc \<noteq> []" by (simp add: hs_env_def handshake_msg_def)
  have v: "conn_is_valid hs_conn" by (simp add: hs_conn_def conn_is_valid_def socket_is_open_def)
  have p: "pb_status ?l = kConnecting" "\<not> handshake_sent ?l" "sock_valid ?so ?l" "\<not> outgoing (pb_env ?l)"
      "pb_status ?c = kConnecting" "\<not> handshake_sent ?c" "sock_valid ?so ?c" "can_reconnect (pb_env ?c)"
      "written ?l = []" "written ?c = []"
    using v by (simp_all add: hs_peer_def incoming_tcp_def outgoing_tcp_def sock_valid_def wire_ops_def connection_ops_def written_def)
  have ids: "e_net_id ?el = uuid_of_int 1" "e_net_id ?ec = uuid_of_int 2" by (simp_all add: hs_env_def)
  show ?thesis
    using handshake_exchange [OF refl v p(1-8) bl bc l1 c1 l2 c2 c3] p(9,10) l1 c1 l2 ids by (simp add: Let_def)
qed

end
