(* ===== verification/FTL_Universe.thy ===== *)
theory FTL_Universe
  imports FTL_Peer FTL_URI
begin

text \<open>
  The universe (\<^verbatim>\<open>universe.hpp\<close>, \<^verbatim>\<open>universe.cpp\<close>): the table of peers with its indices by URI and by
  identifier, connecting, removing and reconnecting peers, and the calls over all peers.

  A peer is reached by a pointer (a number) into \<open>heap\<close>, which holds what the universe reads of it;
  \<open>u_valid\<close> is the result of \<^verbatim>\<open>isValid()\<close>. The map of identifiers is a \<^verbatim>\<open>std::map\<close> ordered by
  \<^verbatim>\<open>operator<\<close> of \<^verbatim>\<open>UUID\<close>, so its keys are identifiers up to the first zero byte (see \<open>FTL_UUID\<close>).
  Triggered callbacks are outputs. The mutex only orders the operations and is left out.
\<close>

section \<open>State\<close>

record upeer =
  u_uri :: string
  u_id :: UUID
  u_local_id :: int
  u_status :: NodeStatus
  u_valid :: bool
  u_tcp :: bool
  u_type :: NodeType

datatype universe_out = On_connect nat | On_disconnect nat | On_error "nat option" Error string

record ReconnectInfo =
  tries :: int
  rpeer :: nat

record Universe =
  u_active :: bool
  peers :: "nat option list"
  heap :: "nat \<Rightarrow> upeer"
  peer_by_uri :: "string \<rightharpoonup> nat"
  peer_ids :: "u8 list \<rightharpoonup> nat"
  listeners :: "int list"
  reconnects :: "ReconnectInfo list"
  garbage :: "nat list"
  reconnect_attempts :: int
  connection_count :: int
  phase :: nat
  tcp_send_buffer_size :: nat
  tcp_recv_buffer_size :: nat
  ws_send_buffer_size :: nat
  ws_recv_buffer_size :: nat
  u_outs :: "universe_out list"

definition uuid_key :: "UUID \<Rightarrow> u8 list" where
  "uuid_key u = takeWhile (\<lambda>b. b \<noteq> 0) u"

definition kDefaultMaxConnections :: nat where "kDefaultMaxConnections = 10"

definition default_buffer_size :: nat where "default_buffer_size = 32 * 1024 * 1024"

definition new_Universe :: "(nat \<Rightarrow> upeer) \<Rightarrow> Universe" where
  "new_Universe h = \<lparr>u_active = True, peers = replicate kDefaultMaxConnections None, heap = h, peer_by_uri = Map.empty,
     peer_ids = Map.empty, listeners = [], reconnects = [], garbage = [], reconnect_attempts = 5, connection_count = 0, phase = 0,
     tcp_send_buffer_size = default_buffer_size, tcp_recv_buffer_size = default_buffer_size,
     ws_send_buffer_size = default_buffer_size, ws_recv_buffer_size = default_buffer_size, u_outs = []\<rparr>"

definition u_emit :: "universe_out \<Rightarrow> Universe \<Rightarrow> Universe" where
  "u_emit x u = u\<lparr>u_outs := u_outs u @ [x]\<rparr>"

section \<open>Buffer sizes\<close>

definition is_ws :: "scheme_t \<Rightarrow> bool" where
  "is_ws s \<longleftrightarrow> s = SCHEME_WS \<or> s = SCHEME_WSS"

definition getSendBufferSize :: "scheme_t \<Rightarrow> Universe \<Rightarrow> nat" where
  "getSendBufferSize s u = (if is_ws s then ws_send_buffer_size u else tcp_send_buffer_size u)"

definition getRecvBufferSize :: "scheme_t \<Rightarrow> Universe \<Rightarrow> nat" where
  "getRecvBufferSize s u = (if is_ws s then ws_recv_buffer_size u else tcp_recv_buffer_size u)"

definition setSendBufferSize :: "scheme_t \<Rightarrow> nat \<Rightarrow> Universe \<Rightarrow> Universe" where
  "setSendBufferSize s sz u =
     (if s = SCHEME_NONE then u
      else if is_ws s then u\<lparr>ws_send_buffer_size := (if sz > 0 then sz else default_buffer_size)\<rparr>
      else u\<lparr>tcp_send_buffer_size := (if sz > 0 then sz else default_buffer_size)\<rparr>)"

definition setRecvBufferSize :: "scheme_t \<Rightarrow> nat \<Rightarrow> Universe \<Rightarrow> Universe" where
  "setRecvBufferSize s sz u =
     (if is_ws s then u\<lparr>ws_recv_buffer_size := (if sz > 0 then sz else default_buffer_size)\<rparr>
      else u\<lparr>tcp_recv_buffer_size := (if sz > 0 then sz else default_buffer_size)\<rparr>)"

section \<open>Look-up\<close>

text \<open>\<^verbatim>\<open>vector::resize\<close>: slots beyond the new size are dropped, new ones are null.\<close>

definition setMaxConnections :: "nat \<Rightarrow> Universe \<Rightarrow> Universe" where
  "setMaxConnections m u = u\<lparr>peers := take m (peers u) @ replicate (m - length (peers u)) None\<rparr>"

definition findPeer :: "nat \<Rightarrow> Universe \<Rightarrow> nat option" where
  "findPeer p u = (if Some p \<in> set (peers u) then Some p else None)"

text \<open>A slot number read out of a map may lie outside the vector, which has no defined behaviour.\<close>

definition slot :: "nat \<Rightarrow> Universe \<Rightarrow> (nat option) res" where
  "slot i u = (if i < length (peers u) then Inr (peers u ! i) else Inl Undefined_behaviour)"

definition getPeer :: "UUID \<Rightarrow> Universe \<Rightarrow> (nat option) res" where
  "getPeer i u = (case peer_ids u (uuid_key i) of None \<Rightarrow> Inr None | Some ix \<Rightarrow> slot ix u)"

definition getPeer_local :: "int \<Rightarrow> Universe \<Rightarrow> nat option" where
  "getPeer_local i u = (case find (\<lambda>x. case x of Some p \<Rightarrow> u_local_id (heap u p) = i | None \<Rightarrow> False) (peers u) of
     Some x \<Rightarrow> x | None \<Rightarrow> None)"

definition getWebService :: "Universe \<Rightarrow> nat option" where
  "getWebService u = (case find (\<lambda>x. case x of Some p \<Rightarrow> u_type (heap u p) = kWebService | None \<Rightarrow> False) (peers u) of
     Some x \<Rightarrow> x | None \<Rightarrow> None)"

definition getPeers :: "Universe \<Rightarrow> nat list" where
  "getPeers u = List.map_filter (\<lambda>x. x) (peers u)"

definition u_isConnected :: "string \<Rightarrow> Universe \<Rightarrow> bool" where
  "u_isConnected base_uri u \<longleftrightarrow> peer_by_uri u base_uri \<noteq> None"

section \<open>Inserting and removing\<close>

fun free_slot :: "nat option list \<Rightarrow> nat option" where
  "free_slot [] = None"
| "free_slot (None # xs) = Some 0"
| "free_slot (Some _ # xs) = map_option Suc (free_slot xs)"

definition upd_peer :: "nat \<Rightarrow> (upeer \<Rightarrow> upeer) \<Rightarrow> Universe \<Rightarrow> Universe" where
  "upd_peer p f u = u\<lparr>heap := (heap u)(p := f (heap u p))\<rparr>"

definition insertPeer :: "nat \<Rightarrow> Universe \<Rightarrow> Universe res" where
  "insertPeer p u =
     (if findPeer p u \<noteq> None then Inr u
      else case free_slot (peers u) of
        None \<Rightarrow> Inl (FTL_Error ''Too many connections'')
      | Some i \<Rightarrow> Inr (upd_peer p (\<lambda>x. x\<lparr>u_local_id := int i\<rparr>) (u\<lparr>connection_count := connection_count u + 1,
            peers := (peers u)[i := Some p],
            peer_by_uri := (peer_by_uri u)(u_uri (heap u p) \<mapsto> i),
            peer_ids := (peer_ids u)(uuid_key (u_id (heap u p)) \<mapsto> i)\<rparr>)))"

definition removable :: "upeer \<Rightarrow> bool" where
  "removable x \<longleftrightarrow> \<not> u_valid x \<or> u_status x = kReconnecting \<or> u_status x = kDisconnected"

text \<open>
  \<^verbatim>\<open>removePeer_\<close> on the slot \<open>i\<close>. \<open>iter\<close> is the order in which the \<^verbatim>\<open>unordered_map\<close> of URIs is iterated; the first
  entry whose slot holds the peer is erased.
\<close>

definition erase_uri :: "string list \<Rightarrow> nat \<Rightarrow> Universe \<Rightarrow> (string \<rightharpoonup> nat)" where
  "erase_uri iter p u =
     (case find (\<lambda>s. case peer_by_uri u s of Some j \<Rightarrow> j < length (peers u) \<and> peers u ! j = Some p | None \<Rightarrow> False) iter of
        Some s \<Rightarrow> (peer_by_uri u)(s := None)
      | None \<Rightarrow> peer_by_uri u)"

definition removePeer :: "string list \<Rightarrow> nat \<Rightarrow> Universe \<Rightarrow> Universe" where
  "removePeer iter i u =
     (case peers u ! i of
        None \<Rightarrow> u
      | Some p \<Rightarrow>
          if removable (heap u p) then
            (let u1 = u\<lparr>peer_ids := (peer_ids u)(uuid_key (u_id (heap u p)) := None), peer_by_uri := erase_uri iter p u\<rparr>;
                 u2 = (if u_status (heap u p) = kReconnecting
                       then (if u_tcp (heap u p) then u1\<lparr>reconnects := reconnects u1 @ [\<lparr>tries = reconnect_attempts u1, rpeer = p\<rparr>]\<rparr> else u1)
                       else u1\<lparr>garbage := garbage u1 @ [p]\<rparr>) in
             u_emit (On_disconnect p) (u2\<lparr>connection_count := connection_count u2 - 1, peers := (peers u2)[i := None]\<rparr>))
          else u)"

text \<open>\<^verbatim>\<open>_cleanupPeers\<close>; the map of URIs may be iterated in a different order each time.\<close>

fun cleanup_from :: "(Universe \<Rightarrow> string list) \<Rightarrow> nat list \<Rightarrow> Universe \<Rightarrow> Universe" where
  "cleanup_from iter [] u = u"
| "cleanup_from iter (i # is) u = cleanup_from iter is (removePeer (iter u) i u)"

definition cleanupPeers :: "(Universe \<Rightarrow> string list) \<Rightarrow> Universe \<Rightarrow> Universe" where
  "cleanupPeers iter u = cleanup_from iter [0..<length (peers u)] u"

section \<open>Notifications\<close>

definition notifyConnect :: "nat \<Rightarrow> Universe \<Rightarrow> Universe" where
  "notifyConnect p u =
     (if findPeer p u = None then u
      else u_emit (On_connect p) (u\<lparr>peer_ids := (peer_ids u)(uuid_key (u_id (heap u p)) \<mapsto> nat (u_local_id (heap u p)))\<rparr>))"

definition notifyDisconnect :: "nat \<Rightarrow> Universe \<Rightarrow> Universe" where
  "notifyDisconnect p u = (if findPeer p u = None then u else u_emit (On_disconnect p) u)"

definition notifyError :: "nat option \<Rightarrow> Error \<Rightarrow> string \<Rightarrow> Universe \<Rightarrow> Universe" where
  "notifyError p e s u = u_emit (On_error (case p of None \<Rightarrow> None | Some q \<Rightarrow> findPeer q u) e s) u"

section \<open>Connecting\<close>

definition is_local_host :: "string \<Rightarrow> bool" where
  "is_local_host h \<longleftrightarrow> h = ''localhost'' \<or> h = ''127.0.0.1''"

text \<open>
  \<^verbatim>\<open>connect\<close>: \<open>mk\<close> is the construction of the peer, which gives a new pointer with the peer at it or throws.
\<close>

definition u_connect :: "(Universe \<Rightarrow> (nat \<times> Universe) res) \<Rightarrow> string \<Rightarrow> string \<Rightarrow> int \<Rightarrow> Universe \<Rightarrow> (nat option \<times> Universe) res" where
  "u_connect mk base_uri host port u =
     (case peer_by_uri u base_uri of
        Some i \<Rightarrow> res_bind (slot i u) (\<lambda>x. Inr (x, u))
      | None \<Rightarrow>
          if is_local_host host \<and> port \<in> set (listeners u) then Inl (FTL_Error ''Cannot connect to self'')
          else res_bind (mk u) (\<lambda>(p, u1). res_bind (insertPeer p u1) (\<lambda>u2. Inr (Some p, u2))))"

definition injectFakePeer :: "nat \<Rightarrow> Universe \<Rightarrow> (nat \<times> Universe) res" where
  "injectFakePeer p u = res_bind (insertPeer p u) (\<lambda>u'. CHECK (u_status (heap u' p) \<noteq> kInvalidStatus) (p, u'))"

text \<open>
  The handling of one entry of \<^verbatim>\<open>reconnects_\<close> in \<^verbatim>\<open>_periodic\<close>; \<open>host\<close> and \<open>port\<close> are those of the URI of the peer,
  \<open>reconn\<close> is \<^verbatim>\<open>PeerTcp::reconnect\<close> on it. An exception of \<^verbatim>\<open>insertPeer_\<close> leaves the function.
\<close>

definition reconnect_one :: "(nat \<Rightarrow> string \<times> int) \<Rightarrow> (nat \<Rightarrow> Universe \<Rightarrow> Universe) \<Rightarrow> Universe \<Rightarrow> Universe res" where
  "reconnect_one addr reconn u =
     (case reconnects u of
        [] \<Rightarrow> Inr u
      | r # rs \<Rightarrow>
         (case addr (rpeer r) of (host, port) \<Rightarrow>
            if is_local_host host \<and> port \<in> set (listeners u)
            then Inr ((notifyError None kSelfConnect ''Cannot connect to self'' u)\<lparr>garbage := garbage u @ [rpeer r], reconnects := rs\<rparr>)
            else res_bind (insertPeer (rpeer r) u) (\<lambda>u1.
              Inr (reconn (rpeer r) ((upd_peer (rpeer r) (\<lambda>x. x\<lparr>u_status := kConnecting\<rparr>) u1)\<lparr>reconnects := rs\<rparr>)))))"

fun reconnect_all :: "(nat \<Rightarrow> string \<times> int) \<Rightarrow> (nat \<Rightarrow> Universe \<Rightarrow> Universe) \<Rightarrow> nat \<Rightarrow> Universe \<Rightarrow> Universe res" where
  "reconnect_all addr reconn 0 u = Inr u"
| "reconnect_all addr reconn (Suc n) u = res_bind (reconnect_one addr reconn u) (reconnect_all addr reconn n)"

text \<open>\<^verbatim>\<open>_garbage\<close> drops the peers when the thread pool is idle.\<close>

definition collect_garbage :: "bool \<Rightarrow> Universe \<Rightarrow> Universe" where
  "collect_garbage idle u = (if idle then u\<lparr>garbage := []\<rparr> else u)"

definition u_periodic :: "(nat \<Rightarrow> string \<times> int) \<Rightarrow> (nat \<Rightarrow> Universe \<Rightarrow> Universe) \<Rightarrow> bool \<Rightarrow> Universe \<Rightarrow> Universe res" where
  "u_periodic addr reconn idle u =
     res_bind (reconnect_all addr reconn (length (reconnects u)) u) (\<lambda>u1.
       Inr (if garbage u1 \<noteq> [] then collect_garbage idle u1 else u1))"

text \<open>The order in which \<^verbatim>\<open>_run\<close> looks at the slots, and its last action.\<close>

definition poll_order :: "Universe \<Rightarrow> nat list" where
  "poll_order u = map (\<lambda>p. (p + phase u) mod length (peers u)) [0..<length (peers u)]"

definition run_end :: "Universe \<Rightarrow> Universe" where
  "run_end u = u\<lparr>garbage := [], reconnects := [], peers := [], peer_by_uri := Map.empty, peer_ids := Map.empty, listeners := []\<rparr>"

section \<open>Calls over the peers\<close>

text \<open>
  The futures of the calls to the peers in turn, as they are when the wait on each ends. \<^verbatim>\<open>get\<close> throws what
  the future holds.
\<close>

fun findOne :: "string \<Rightarrow> ('v option) future list \<Rightarrow> rpc_exn + 'v option" where
  "findOne name [] = Inr None"
| "findOne name (f # fs) = (if f = Pending then findOne name fs else call_result name f)"

fun findAll :: "string \<Rightarrow> ('v list) future list \<Rightarrow> rpc_exn + 'v list" where
  "findAll name [] = Inr []"
| "findAll name (f # fs) =
     (if f = Pending then findAll name fs
      else case call_result name f of
        Inl e \<Rightarrow> Inl e
      | Inr v \<Rightarrow> (case findAll name fs of Inl e \<Rightarrow> Inl e | Inr vs \<Rightarrow> Inr (v @ vs)))"

text \<open>\<^verbatim>\<open>broadcast\<close>: the peers that \<^verbatim>\<open>waitConnection\<close> accepts are sent the message.\<close>

fun broadcast_to :: "(nat \<Rightarrow> 'w \<Rightarrow> bool) \<Rightarrow> (nat \<Rightarrow> 'w \<Rightarrow> 'w) \<Rightarrow> nat option list \<Rightarrow> 'w \<Rightarrow> 'w" where
  "broadcast_to wait send [] w = w"
| "broadcast_to wait send (None # ps) w = broadcast_to wait send ps w"
| "broadcast_to wait send (Some p # ps) w = broadcast_to wait send ps (if wait p w then send p w else w)"

text \<open>\<^verbatim>\<open>send\<close>: the result of \<^verbatim>\<open>Peer::send\<close> is not looked at; an exception gives false.\<close>

definition u_send :: "(nat \<Rightarrow> bool) \<Rightarrow> (nat \<Rightarrow> (int, 'w) io) \<Rightarrow> UUID \<Rightarrow> Universe \<Rightarrow> ((bool, 'w) io) res" where
  "u_send connected send pid u = res_bind (getPeer pid u) (\<lambda>x. Inr (
     case x of
       None \<Rightarrow> io_return False
     | Some p \<Rightarrow> if \<not> connected p then io_return False
         else io_catch (io_bind (send p) (\<lambda>_. io_return True)) (\<lambda>e. map_option (\<lambda>_. io_return False) (std_what e))))"

definition u_call_target :: "(nat \<Rightarrow> bool) \<Rightarrow> UUID \<Rightarrow> Universe \<Rightarrow> nat res" where
  "u_call_target connected pid u = res_bind (getPeer pid u) (\<lambda>x.
     case x of
       None \<Rightarrow> Inl (FTL_Error (''Attempting to call an unknown peer : '' @ uuid_to_string pid))
     | Some p \<Rightarrow> if connected p then Inr p else Inl (FTL_Error (''Attempting to call an disconnected peer : '' @ uuid_to_string pid)))"

definition waitConnections :: "(nat \<Rightarrow> bool) \<Rightarrow> Universe \<Rightarrow> int" where
  "waitConnections wait u = int (length (filter wait (getPeers u)))"

section \<open>The table of peers\<close>

definition univ_inv :: "Universe \<Rightarrow> bool" where
  "univ_inv u \<longleftrightarrow> connection_count u = int (length (getPeers u)) \<and> distinct (getPeers u)
   \<and> (\<forall>i p. i < length (peers u) \<and> peers u ! i = Some p \<longrightarrow> u_local_id (heap u p) = int i)
   \<and> (\<forall>s i. peer_by_uri u s = Some i \<longrightarrow> i < length (peers u) \<and> (\<exists>p. peers u ! i = Some p \<and> u_uri (heap u p) = s))"

lemma univ_inv_uri:
  "univ_inv u \<Longrightarrow> peer_by_uri u s = Some i \<Longrightarrow> i < length (peers u) \<and> (\<exists>p. peers u ! i = Some p \<and> u_uri (heap u p) = s)"
  by (simp add: univ_inv_def)

lemma univ_inv_local: "univ_inv u \<Longrightarrow> i < length (peers u) \<Longrightarrow> peers u ! i = Some p \<Longrightarrow> u_local_id (heap u p) = int i"
  by (simp add: univ_inv_def)

lemma getPeers_simps [simp]:
  "List.map_filter (\<lambda>x. x) [] = []" "List.map_filter (\<lambda>x. x) (None # xs) = List.map_filter (\<lambda>x. x) xs"
  "List.map_filter (\<lambda>x. x) (Some p # xs) = p # List.map_filter (\<lambda>x. x) xs"
  by (simp_all add: map_filter_simps)

lemma set_map_filter_id: "set (List.map_filter (\<lambda>x. x) xs) = {p. Some p \<in> set xs}"
  by (induction xs) (auto simp: map_filter_simps split: option.splits)

lemma in_getPeers: "p \<in> set (getPeers u) \<longleftrightarrow> Some p \<in> set (peers u)"
  by (simp add: getPeers_def set_map_filter_id)

lemma free_slot_Some:
  "free_slot xs = Some i \<Longrightarrow> i < length xs \<and> xs ! i = None"
proof (induction xs arbitrary: i rule: free_slot.induct)
  case (3 a xs)
  then show ?case by (cases i) auto
qed auto

lemma free_slot_None: "free_slot xs = None \<longleftrightarrow> None \<notin> set xs"
  by (induction xs rule: free_slot.induct) auto

lemma map_filter_insert:
  assumes "i < length xs" "xs ! i = None"
  shows "length (List.map_filter (\<lambda>x. x) (xs[i := Some p])) = Suc (length (List.map_filter (\<lambda>x. x) xs))"
    "distinct (List.map_filter (\<lambda>x. x) (xs[i := Some p])) \<longleftrightarrow> distinct (List.map_filter (\<lambda>x. x) xs) \<and> Some p \<notin> set xs"
  using assms
proof (induction xs arbitrary: i)
  case (Cons a xs)
  case 1
  then show ?case using Cons by (cases i; cases a) auto
next
  case (Cons a xs)
  case 2
  have s: "Some q \<in> set (xs[j := Some p]) \<longleftrightarrow> q = p \<or> Some q \<in> set xs" if "j < length xs" "xs ! j = None" for q j
    using that by (auto simp: in_set_conv_nth nth_list_update split: if_splits) (metis option.discI)
  show ?case using 2 Cons s by (cases i; cases a) (auto simp: set_map_filter_id)
qed simp_all

lemma map_filter_delete:
  assumes "i < length xs" "xs ! i = Some p" "distinct (List.map_filter (\<lambda>x. x) xs)"
  shows "Suc (length (List.map_filter (\<lambda>x. x) (xs[i := None]))) = length (List.map_filter (\<lambda>x. x) xs)"
    "distinct (List.map_filter (\<lambda>x. x) (xs[i := None]))"
proof -
  have b: "i < length (xs[i := None])" "(xs[i := None]) ! i = None" "(xs[i := None])[i := Some p] = xs"
    using assms(1,2) by (simp_all add: list_update_same_conv)
  show "Suc (length (List.map_filter (\<lambda>x. x) (xs[i := None]))) = length (List.map_filter (\<lambda>x. x) xs)"
      "distinct (List.map_filter (\<lambda>x. x) (xs[i := None]))"
    using map_filter_insert [OF b(1,2), of p] assms(3) unfolding b(3) by simp_all
qed

text \<open>Two slots never hold the same peer.\<close>

lemma distinct_slots:
  assumes "univ_inv u" "i < length (peers u)" "peers u ! i = Some p" "j < length (peers u)" "peers u ! j = Some p"
  shows "i = j"
  using assms unfolding univ_inv_def by (metis of_nat_eq_iff)

lemma univ_inv_new: "univ_inv (new_Universe h)"
proof -
  have "List.map_filter (\<lambda>x. x) (replicate n None) = ([] :: nat list)" for n by (induction n) auto
  then show ?thesis by (auto simp: univ_inv_def new_Universe_def getPeers_def)
qed

lemma univ_inv_insert:
  assumes inv: "univ_inv u" and ins: "insertPeer p u = Inr u'"
  shows "univ_inv u'"
proof (cases "findPeer p u = None")
  case True
  then have new: "Some p \<notin> set (peers u)" by (simp add: findPeer_def split: if_splits)
  obtain i where i: "free_slot (peers u) = Some i"
      "u' = upd_peer p (\<lambda>x. x\<lparr>u_local_id := int i\<rparr>) (u\<lparr>connection_count := connection_count u + 1, peers := (peers u)[i := Some p],
         peer_by_uri := (peer_by_uri u)(u_uri (heap u p) \<mapsto> i), peer_ids := (peer_ids u)(uuid_key (u_id (heap u p)) \<mapsto> i)\<rparr>)"
    using ins True by (auto simp: insertPeer_def split: option.splits)
  note f = free_slot_Some [OF i(1)]
  have other: "q \<noteq> p" if "j < length (peers u)" "peers u ! j = Some q" for j q using that new nth_mem by metis
  have used: "j \<noteq> i" if "peer_by_uri u s = Some j" for s j using univ_inv_uri [OF inv that] f by auto
  show ?thesis
    unfolding univ_inv_def
  proof (intro conjI allI impI)
    show "connection_count u' = int (length (getPeers u'))"
      using inv f by (simp add: i(2) upd_peer_def getPeers_def univ_inv_def map_filter_insert)
    show "distinct (getPeers u')"
      using inv f new by (simp add: i(2) upd_peer_def getPeers_def univ_inv_def map_filter_insert)
  next
    fix j q assume "j < length (peers u') \<and> peers u' ! j = Some q"
    then show "u_local_id (heap u' q) = int j"
      using inv f other by (cases "j = i") (auto simp: i(2) upd_peer_def univ_inv_def)
  next
    fix s j assume s: "peer_by_uri u' s = Some j"
    show "j < length (peers u')"
      using s inv f by (auto simp: i(2) upd_peer_def univ_inv_def split: if_splits)
    show "\<exists>q. peers u' ! j = Some q \<and> u_uri (heap u' q) = s"
    proof (cases "s = u_uri (heap u p)")
      case True
      then show ?thesis using s f by (simp add: i(2) upd_peer_def)
    next
      case False
      then have j: "peer_by_uri u s = Some j" using s by (simp add: i(2) upd_peer_def)
      then obtain q where "j < length (peers u)" "peers u ! j = Some q" "u_uri (heap u q) = s" using inv unfolding univ_inv_def by blast
      then show ?thesis using used [OF j] other by (simp add: i(2) upd_peer_def)
    qed
  qed
next
  case False
  then show ?thesis using assms by (simp add: insertPeer_def)
qed

lemma univ_inv_remove:
  assumes inv: "univ_inv u" and i: "i < length (peers u)" and iter: "set iter = dom (peer_by_uri u)"
  shows "univ_inv (removePeer iter i u)"
proof (cases "\<exists>p. peers u ! i = Some p \<and> removable (heap u p)")
  case True
  then obtain p where p: "peers u ! i = Some p" "removable (heap u p)" by blast
  let ?u = "removePeer iter i u"
  have u': "peers ?u = (peers u)[i := None]" "heap ?u = heap u" "peer_by_uri ?u = erase_uri iter p u"
      "connection_count ?u = connection_count u - 1"
    using p by (simp_all add: removePeer_def Let_def u_emit_def)
  have slot_p: "peers u ! j = Some p \<and> j < length (peers u) \<longleftrightarrow> j = i" for j using distinct_slots [OF inv i p(1)] i p(1) by blast
  have gone: "j \<noteq> i \<and> peer_by_uri u s = Some j" if s: "erase_uri iter p u s = Some j" for s j
  proof -
    let ?P = "\<lambda>s. case peer_by_uri u s of Some j \<Rightarrow> j < length (peers u) \<and> peers u ! j = Some p | None \<Rightarrow> False"
    have P: "?P t \<longleftrightarrow> peer_by_uri u t = Some i" for t using slot_p by (auto split: option.splits)
    show ?thesis
    proof (cases "find ?P iter")
      case None
      then have "\<forall>t \<in> set iter. \<not> ?P t" by (simp add: find_None_iff)
      then show ?thesis using s None iter unfolding P by (auto simp: erase_uri_def P)
    next
      case (Some t)
      then have t: "peer_by_uri u t = Some i" using P by (auto simp: find_Some_iff)
      have "s \<noteq> t" "peer_by_uri u s = Some j" using s Some by (auto simp: erase_uri_def split: if_splits)
      moreover have "j \<noteq> i"
        using univ_inv_uri [OF inv t] univ_inv_uri [OF inv calculation(2)] calculation(1) p(1) by auto
      ultimately show ?thesis by simp
    qed
  qed
  show ?thesis
    unfolding univ_inv_def u'
  proof (intro conjI allI impI)
    show "connection_count u - 1 = int (length (getPeers ?u))" "distinct (getPeers ?u)"
      using inv map_filter_delete [OF i p(1)] by (auto simp: getPeers_def u' univ_inv_def)
  next
    fix j q assume "j < length ((peers u)[i := None]) \<and> (peers u)[i := None] ! j = Some q"
    then show "u_local_id (heap u q) = int j" using inv i by (cases "j = i") (auto simp: univ_inv_def)
  next
    fix s j assume "erase_uri iter p u s = Some j"
    with gone have "j \<noteq> i" "peer_by_uri u s = Some j" by blast+
    then show "j < length ((peers u)[i := None])" "\<exists>q. (peers u)[i := None] ! j = Some q \<and> u_uri (heap u q) = s"
      using inv by (auto simp: univ_inv_def)
  qed
next
  case False
  then have "removePeer iter i u = u" by (auto simp: removePeer_def split: option.splits)
  then show ?thesis using inv by simp
qed

section \<open>Reachable tables\<close>

text \<open>A change of a peer by the peer itself (handshake, status, socket): the URI and the slot stay.\<close>

definition own_change :: "(upeer \<Rightarrow> upeer) \<Rightarrow> bool" where
  "own_change f \<longleftrightarrow> (\<forall>x. u_uri (f x) = u_uri x \<and> u_local_id (f x) = u_local_id x)"

text \<open>
  One operation on the table; the label is the peer it is about, if any. The number of slots may change as long as
  no slot in use is dropped (\<open>shrink_breaks_table\<close> shows what happens otherwise).
\<close>

inductive univ_step :: "nat option \<Rightarrow> Universe \<Rightarrow> Universe \<Rightarrow> bool" where
  ins: "insertPeer p u = Inr u' \<Longrightarrow> univ_step (Some p) u u'"
| rem: "i < length (peers u) \<Longrightarrow> peers u ! i = Some p \<Longrightarrow> set iter = dom (peer_by_uri u) \<Longrightarrow> univ_step (Some p) u (removePeer iter i u)"
| conn: "univ_step (Some p) u (notifyConnect p u)"
| disc: "univ_step (Some p) u (notifyDisconnect p u)"
| err: "univ_step None u (notifyError q e s u)"
| change: "own_change f \<Longrightarrow> univ_step (Some p) u (upd_peer p f u)"
| resize: "\<forall>i < length (peers u). m \<le> i \<longrightarrow> peers u ! i = None \<Longrightarrow> univ_step None u (setMaxConnections m u)"

inductive univ_reach :: "(nat \<Rightarrow> upeer) \<Rightarrow> Universe \<Rightarrow> bool" for h where
  new: "univ_reach h (new_Universe h)"
| step: "univ_reach h u \<Longrightarrow> univ_step l u u' \<Longrightarrow> univ_reach h u'"

lemma univ_inv_same:
  assumes "univ_inv u" "peers u' = peers u" "peer_by_uri u' = peer_by_uri u" "connection_count u' = connection_count u"
    "\<And>q. u_uri (heap u' q) = u_uri (heap u q)" "\<And>q. u_local_id (heap u' q) = u_local_id (heap u q)"
  shows "univ_inv u'"
  using assms by (simp add: univ_inv_def getPeers_def)

lemma univ_inv_change:
  assumes "univ_inv u" "own_change f"
  shows "univ_inv (upd_peer p f u)"
  using assms by (intro univ_inv_same [OF assms(1)]) (auto simp: own_change_def upd_peer_def)

lemma map_filter_nones: "\<forall>x \<in> set ys. x = None \<Longrightarrow> List.map_filter (\<lambda>x. x) (xs @ ys) = (List.map_filter (\<lambda>x. x) xs :: nat list)"
proof (induction xs)
  case Nil
  then show ?case by (induction ys) auto
next
  case (Cons a xs)
  then show ?case by (cases a) auto
qed

lemma resize_slots:
  assumes "\<forall>i < length (peers u). m \<le> i \<longrightarrow> peers u ! i = None"
  shows "i < length (peers (setMaxConnections m u)) \<and> peers (setMaxConnections m u) ! i = Some p \<longleftrightarrow> i < length (peers u) \<and> peers u ! i = Some p"
  using assms by (auto simp: setMaxConnections_def nth_append not_less)

lemma univ_inv_resize:
  assumes "univ_inv u" "\<forall>i < length (peers u). m \<le> i \<longrightarrow> peers u ! i = None"
  shows "univ_inv (setMaxConnections m u)"
proof -
  have "\<forall>x \<in> set (drop m (peers u)). x = None" using assms(2) by (auto simp: in_set_conv_nth)
  then have "List.map_filter (\<lambda>x. x) (peers u) = (List.map_filter (\<lambda>x. x) (take m (peers u)) :: nat list)"
    using map_filter_nones [of "drop m (peers u)" "take m (peers u)"] by simp
  then have "getPeers (setMaxConnections m u) = getPeers u" by (simp add: getPeers_def setMaxConnections_def map_filter_nones)
  moreover have "heap (setMaxConnections m u) = heap u" "peer_by_uri (setMaxConnections m u) = peer_by_uri u"
      "connection_count (setMaxConnections m u) = connection_count u" by (simp_all add: setMaxConnections_def)
  moreover have "i < length (peers (setMaxConnections m u)) \<and> (\<exists>p. peers (setMaxConnections m u) ! i = Some p \<and> P p)
      \<longleftrightarrow> i < length (peers u) \<and> (\<exists>p. peers u ! i = Some p \<and> P p)" for i P
    using resize_slots [OF assms(2)] by blast
  ultimately show ?thesis using assms(1) resize_slots [OF assms(2)] by (simp add: univ_inv_def)
qed

lemma univ_inv_step: "univ_step l u u' \<Longrightarrow> univ_inv u \<Longrightarrow> univ_inv u'"
proof (induction rule: univ_step.induct)
  case (conn p u)
  then show ?case by (rule univ_inv_same) (simp_all add: notifyConnect_def u_emit_def)
next
  case (disc p u)
  then show ?case by (rule univ_inv_same) (simp_all add: notifyDisconnect_def u_emit_def)
next
  case (err u q e s)
  then show ?case by (rule univ_inv_same) (simp_all add: notifyError_def u_emit_def)
qed (auto intro: univ_inv_insert univ_inv_remove univ_inv_change univ_inv_resize)

lemma univ_reach_inv: "univ_reach h u \<Longrightarrow> univ_inv u"
  by (induction rule: univ_reach.induct) (auto intro: univ_inv_new univ_inv_step)

lemma getPeer_local_slot:
  assumes "univ_inv u" "i < length (peers u)"
  shows "getPeer_local (int i) u = peers u ! i"
proof -
  let ?P = "\<lambda>x. case x of Some p \<Rightarrow> u_local_id (heap u p) = int i | None \<Rightarrow> False"
  have P: "?P (peers u ! j) \<longleftrightarrow> j = i \<and> peers u ! i \<noteq> None" if "j < length (peers u)" for j
    using univ_inv_local [OF assms(1) that] by (auto split: option.splits)
  show ?thesis
  proof (cases "find ?P (peers u)")
    case None
    then have "\<not> ?P (peers u ! i)" using assms(2) by (simp add: find_None_iff)
    then show ?thesis using P [OF assms(2)] None by (simp add: getPeer_local_def)
  next
    case (Some x)
    then obtain j where "j < length (peers u)" "?P (peers u ! j)" "x = peers u ! j" by (auto simp: find_Some_iff)
    then show ?thesis using P Some by (simp add: getPeer_local_def)
  qed
qed

text \<open>
  C11: In every state reached by connecting, removing and changing peers and by changing the number of slots without
  dropping one in use, the connection counter is the number of peers in the table, no peer is in it twice, the local id of a peer leads to the slot it is in,
  and connecting to a URI that is already connected gives a peer with that URI.
\<close>

theorem universe_table:
  assumes "univ_reach h u"
  shows "connection_count u = int (length (getPeers u)) \<and> distinct (getPeers u)
    \<and> (\<forall>i < length (peers u). getPeer_local (int i) u = peers u ! i)
    \<and> (u_isConnected s u \<longrightarrow> (\<exists>p. u_connect mk s host port u = Inr (Some p, u) \<and> u_uri (heap u p) = s))"
proof -
  have inv: "univ_inv u" by (rule univ_reach_inv [OF assms])
  have "\<exists>p. u_connect mk s host port u = Inr (Some p, u) \<and> u_uri (heap u p) = s" if "u_isConnected s u"
  proof -
    from that obtain i where i: "peer_by_uri u s = Some i" by (auto simp: u_isConnected_def)
    then show ?thesis using univ_inv_uri [OF inv i] by (auto simp: u_connect_def slot_def)
  qed
  then show ?thesis using inv getPeer_local_slot [OF inv] by (simp add: univ_inv_def)
qed

section \<open>Look-up by identifier\<close>

text \<open>
  Steps in which the peer \<open>p\<close> stays in the table and keeps its identifier, though it may change otherwise (its status,
  its socket), and the other peers that are inserted, removed, connected or changed have another key at that moment.
\<close>

inductive stays :: "nat \<Rightarrow> u8 list \<Rightarrow> Universe \<Rightarrow> Universe \<Rightarrow> bool" for p key where
  refl: "stays p key u u"
| step: "stays p key u v \<Longrightarrow> univ_step l v w \<Longrightarrow> (\<And>q. l = Some q \<Longrightarrow> q \<noteq> p \<Longrightarrow> uuid_key (u_id (heap v q)) \<noteq> key) \<Longrightarrow>
    Some p \<in> set (peers w) \<Longrightarrow> u_id (heap w p) = u_id (heap v p) \<Longrightarrow> stays p key u w"

definition registered :: "nat \<Rightarrow> u8 list \<Rightarrow> Universe \<Rightarrow> bool" where
  "registered p key u \<longleftrightarrow> (\<exists>i < length (peers u). peers u ! i = Some p \<and> peer_ids u key = Some i)"

lemma registered_insert:
  assumes "insertPeer q u = Inr u'" "registered p key u" "q \<noteq> p \<longrightarrow> uuid_key (u_id (heap u q)) \<noteq> key"
  shows "registered p key u'"
proof (cases "findPeer q u = None")
  case True
  obtain i where i: "i < length (peers u)" "peers u ! i = Some p" "peer_ids u key = Some i" using assms(2) by (auto simp: registered_def)
  obtain j where j: "free_slot (peers u) = Some j" "peers u' = (peers u)[j := Some q]"
      "peer_ids u' = (peer_ids u)(uuid_key (u_id (heap u q)) \<mapsto> j)"
    using assms(1) True by (auto simp: insertPeer_def upd_peer_def split: option.splits)
  have "q \<noteq> p" using True i(1,2) nth_mem by (force simp: findPeer_def split: if_splits)
  moreover have "j \<noteq> i" using free_slot_Some [OF j(1)] i(2) by auto
  ultimately show ?thesis using i j assms(3) by (auto simp: registered_def)
next
  case False
  then show ?thesis using assms(1,2) by (simp add: insertPeer_def)
qed

lemma registered_remove:
  assumes "univ_inv u" "i < length (peers u)" "peers u ! i = Some q" "registered p key u" "q \<noteq> p \<longrightarrow> uuid_key (u_id (heap u q)) \<noteq> key"
    "Some p \<in> set (peers (removePeer iter i u))"
  shows "registered p key (removePeer iter i u)"
proof (cases "q = p")
  case True
  have "\<not> removable (heap u p)"
  proof
    assume "removable (heap u p)"
    then have "Some p \<in> set ((peers u)[i := None])" using assms(3,6) True by (simp add: removePeer_def u_emit_def Let_def split: if_splits)
    then obtain j where j: "j < length (peers u)" "(peers u)[i := None] ! j = Some p" by (auto simp: in_set_conv_nth)
    then have "j \<noteq> i" by auto
    then show False using distinct_slots [OF assms(1,2,3) j(1)] j(2) True by simp
  qed
  then show ?thesis using assms(3,4) True by (simp add: removePeer_def)
next
  case False
  obtain j where j: "j < length (peers u)" "peers u ! j = Some p" "peer_ids u key = Some j" using assms(4) by (auto simp: registered_def)
  moreover have "i \<noteq> j" using False j(2) assms(3) by auto
  ultimately show ?thesis using False assms(3,5) by (auto simp: registered_def removePeer_def u_emit_def Let_def)
qed

lemma registered_step:
  assumes "univ_step l u u'" "univ_inv u" "registered p key u" "\<And>q. l = Some q \<Longrightarrow> q \<noteq> p \<Longrightarrow> uuid_key (u_id (heap u q)) \<noteq> key"
    "Some p \<in> set (peers u')" "uuid_key (u_id (heap u p)) = key"
  shows "registered p key u'"
  using assms
proof (induction rule: univ_step.induct)
  case (ins q u u')
  then show ?case using registered_insert by blast
next
  case (rem i u q iter)
  then show ?case using registered_remove by blast
next
  case (conn q u)
  obtain i where i: "i < length (peers u)" "peers u ! i = Some p" "peer_ids u key = Some i" using conn by (auto simp: registered_def)
  then show ?case using conn univ_inv_local [OF _ i(1,2)] by (cases "q = p") (auto simp: registered_def notifyConnect_def u_emit_def)
next
  case (resize u m)
  then obtain i where "i < length (peers u)" "peers u ! i = Some p" "peer_ids u key = Some i" by (auto simp: registered_def)
  then show ?case using resize_slots [OF resize(1), of i p] by (auto simp: registered_def setMaxConnections_def)
qed (auto simp: registered_def notifyDisconnect_def notifyError_def u_emit_def upd_peer_def)

text \<open>
  C10: Once a peer has completed its handshake it is found by its identifier for as long as it is in the table and
  keeps its identifier, whatever its status becomes and whatever peers with other keys (identifiers that differ
  before the first zero byte) connect, change or leave; when it is removed, it is not found any more.
\<close>

theorem universe_lookup:
  assumes "univ_reach h u" "findPeer p u \<noteq> None" "stays p (uuid_key i) (notifyConnect p u) v" "u_id (heap u p) = i"
  shows "getPeer i v = Inr (Some p)
    \<and> (\<forall>iter k. k < length (peers v) \<and> peers v ! k = Some p \<and> removable (heap v p) \<longrightarrow> getPeer i (removePeer iter k v) = Inr None)"
proof -
  have inv: "univ_inv u" by (rule univ_reach_inv [OF assms(1)])
  obtain k where k: "k < length (peers u)" "peers u ! k = Some p"
    using assms(2) by (auto simp: findPeer_def in_set_conv_nth split: if_splits)
  have "registered p (uuid_key i) (notifyConnect p u)"
    using k univ_inv_local [OF inv k] assms(2,4) by (auto simp: registered_def notifyConnect_def u_emit_def)
  moreover have "univ_inv (notifyConnect p u)" "u_id (heap (notifyConnect p u) p) = i"
    using univ_inv_step [OF univ_step.conn inv] assms(4) by (simp_all add: notifyConnect_def u_emit_def)
  with assms(3) calculation have "univ_inv v \<and> registered p (uuid_key i) v \<and> u_id (heap v p) = i"
    by (induction rule: stays.induct) (auto intro: registered_step univ_inv_step)
  then show ?thesis by (auto simp: registered_def getPeer_def slot_def removePeer_def u_emit_def Let_def)
qed

section \<open>Defects\<close>

text \<open>
  The search over all peers returns the first answer that arrives in the order of the peers, even if it
  says that this peer does not have the object and a later peer does; an answer that is an error is thrown.
\<close>

theorem find_one_first_ready:
  assumes "\<forall>f \<in> set pre. f = Pending" "f \<noteq> Pending"
  shows "findOne name (pre @ f # post) = call_result name f
    \<and> (f = Value None \<longrightarrow> findOne name (pre @ f # Value (Some v) # post) = Inr None)"
proof -
  have "findOne name (pre @ fs) = findOne name fs" for fs using assms(1) by (induction pre) auto
  then show ?thesis using assms(2) by (auto simp: call_result_def)
qed

theorem find_one_first_ready_witness:
  "findOne ''find_stream'' [Pending, Value None, Value (Some (7 :: nat))] = Inr None"
  using find_one_first_ready [of "[Pending]" "Value None" "''find_stream''" "[]" "7 :: nat"] by simp

text \<open>
  When a peer that is in the table is closed locally, the disconnect callbacks run twice: once when the
  peer closes its socket and once when the universe removes it.
\<close>

theorem local_close_notifies_twice:
  assumes "i < length (peers u)" "peers u ! i = Some p" "own_change f" "removable (f (heap u p))"
  shows "u_outs (removePeer iter i (upd_peer p f (notifyDisconnect p u))) = u_outs u @ [On_disconnect p, On_disconnect p]"
proof -
  have "findPeer p u \<noteq> None" using assms(1,2) nth_mem by (force simp: findPeer_def)
  then show ?thesis using assms(2,4)
    by (simp add: removePeer_def notifyDisconnect_def upd_peer_def u_emit_def Let_def)
qed

text \<open>
  Making the table smaller while a slot beyond the new end is in use: connecting to the URI of that peer again
  reads past the end of the table, and so does looking it up by the identifier it is registered under.
\<close>

theorem shrink_breaks_table:
  assumes "univ_reach h u" "peer_by_uri u s = Some i" "m \<le> i"
  shows "u_connect mk s host port (setMaxConnections m u) = Inl Undefined_behaviour
    \<and> (peer_ids u (uuid_key n) = Some i \<longrightarrow> getPeer n (setMaxConnections m u) = Inl Undefined_behaviour)"
proof -
  have "i < length (peers u)" using univ_inv_uri [OF univ_reach_inv [OF assms(1)] assms(2)] by simp
  then show ?thesis using assms(2,3) by (auto simp: u_connect_def getPeer_def slot_def setMaxConnections_def)
qed

section \<open>Example\<close>

definition ex_heap :: "nat \<Rightarrow> upeer" where
  "ex_heap p = \<lparr>u_uri = replicate p (CHR ''x''), u_id = uuid_of_int (int p + 1), u_local_id = - 1, u_status = kConnecting,
     u_valid = True, u_tcp = True, u_type = kNode\<rparr>"

definition ex_univ :: Universe where
  "ex_univ = projr (insertPeer 5 (new_Universe ex_heap))"

lemma ex_univ_insert: "insertPeer 5 (new_Universe ex_heap) = Inr ex_univ"
  by (simp add: ex_univ_def insertPeer_def findPeer_def new_Universe_def kDefaultMaxConnections_def numeral_eq_Suc)

lemma ex_univ_peers: "peers ex_univ = Some 5 # replicate 9 None"
  by (simp add: ex_univ_def insertPeer_def findPeer_def new_Universe_def kDefaultMaxConnections_def upd_peer_def numeral_eq_Suc)

lemma ex_univ_reach: "univ_reach ex_heap ex_univ"
  by (rule univ_reach.step [OF univ_reach.new univ_step.ins [OF ex_univ_insert]])

theorem universe_table_witness: "connection_count ex_univ = 1 \<and> getPeer_local 0 ex_univ = Some 5"
proof -
  have "getPeers ex_univ = [5]" by (simp add: getPeers_def ex_univ_peers numeral_eq_Suc)
  moreover note T = universe_table [OF ex_univ_reach, of "[]" "\<lambda>u. Inl Check_failed" "[]" 0]
  have "getPeer_local (int 0) ex_univ = peers ex_univ ! 0" 
  proof -
    have "0 < length (peers ex_univ)" by (simp add: ex_univ_peers)
    then show ?thesis using T by blast
  qed
  ultimately show ?thesis using T by (simp add: ex_univ_peers)
qed

text \<open>After the handshake of the peer 5, the peer 6 connects, and then 5 is disconnected.\<close>

definition ex_univ2 :: Universe where
  "ex_univ2 = projr (insertPeer 6 (notifyConnect 5 ex_univ))"

definition ex_univ3 :: Universe where
  "ex_univ3 = upd_peer 5 (\<lambda>x. x\<lparr>u_status := kDisconnected\<rparr>) ex_univ2"

lemma ex_univ2_insert: "insertPeer 6 (notifyConnect 5 ex_univ) = Inr ex_univ2"
  by (simp add: ex_univ2_def insertPeer_def findPeer_def notifyConnect_def u_emit_def ex_univ_peers numeral_eq_Suc)

lemma ex_univ2_peers: "peers ex_univ2 = Some 5 # Some 6 # replicate 8 None"
  by (simp add: ex_univ2_def insertPeer_def findPeer_def notifyConnect_def u_emit_def ex_univ_peers upd_peer_def numeral_eq_Suc)

lemma ex_univ_ids: "u_id (heap ex_univ p) = uuid_of_int (int p + 1)" "u_id (heap ex_univ2 p) = uuid_of_int (int p + 1)"
  by (simp_all add: ex_univ2_def ex_univ_def insertPeer_def findPeer_def notifyConnect_def u_emit_def upd_peer_def new_Universe_def
    kDefaultMaxConnections_def ex_heap_def numeral_eq_Suc)

lemma ex_univ_keys: "uuid_key (uuid_of_int 7) \<noteq> uuid_key (uuid_of_int 6)"
  by (simp add: uuid_key_def uuid_of_int_def takeWhile_replicate)

lemma ex_univ_stays: "stays 5 (uuid_key (uuid_of_int 6)) (notifyConnect 5 ex_univ) ex_univ3"
proof (rule stays.step [OF stays.step [OF stays.refl univ_step.ins [OF ex_univ2_insert]]])
  show "univ_step (Some 5) ex_univ2 ex_univ3" unfolding ex_univ3_def by (rule univ_step.change) (simp add: own_change_def)
qed (simp_all add: ex_univ2_peers ex_univ3_def upd_peer_def ex_univ_ids ex_univ_keys notifyConnect_def u_emit_def)

theorem universe_lookup_witness:
  "getPeer (uuid_of_int 6) ex_univ3 = Inr (Some 5) \<and> getPeer (uuid_of_int 6) (removePeer [] 0 ex_univ3) = Inr None"
proof -
  have "findPeer 5 ex_univ \<noteq> None" by (simp add: findPeer_def ex_univ_peers)
  note L = universe_lookup [OF ex_univ_reach this ex_univ_stays]
  have "peers ex_univ3 ! 0 = Some 5" "0 < length (peers ex_univ3)" "removable (heap ex_univ3 5)"
    by (simp_all add: ex_univ3_def upd_peer_def ex_univ2_peers removable_def)
  then show ?thesis using L ex_univ_ids(1) [of 5] by simp
qed

theorem local_close_notifies_twice_witness:
  "u_outs (removePeer [replicate 5 (CHR ''x'')] 0 (upd_peer 5 (\<lambda>x. x\<lparr>u_status := kDisconnected\<rparr>) (notifyDisconnect 5 ex_univ))) =
     u_outs ex_univ @ [On_disconnect 5, On_disconnect 5]"
  by (rule local_close_notifies_twice) (simp_all add: ex_univ_peers own_change_def removable_def)

end
