(* ===== verification/FTL_File.thy ===== *)
theory FTL_File
  imports FTL_Iface FTL_URI "HOL-Library.AList"
begin

text \<open>
  The file stream (\<^verbatim>\<open>filestream.cpp\<close>, \<^verbatim>\<open>filestream.hpp\<close>): the file format, recording, opening, reading
  packets back and the first pass over a file that finds its frame rate. Playback is in the theory
  \<open>FTL_Playback\<close>.

  The streams of the standard library are records with their content, position and state. The
  msgpack library is a record of operations on an unpacker and a pair of conversions; what is
  assumed of it is the predicate \<open>unpacker_laws\<close>.
\<close>

section \<open>Standard streams\<close>

record ifstream =
  if_is_open :: bool
  if_content :: "u8 list"
  if_pos :: nat
  if_good :: bool

definition if_new :: ifstream where
  "if_new = \<lparr>if_is_open = False, if_content = [], if_pos = 0, if_good = True\<rparr>"

text \<open>\<^verbatim>\<open>open\<close> fails on a file that does not exist and on a stream that is open already.\<close>

definition if_open :: "(string \<rightharpoonup> u8 list) \<Rightarrow> string \<Rightarrow> ifstream \<Rightarrow> ifstream" where
  "if_open fs path i =
     (if if_is_open i then i\<lparr>if_good := False\<rparr>
      else case fs path of
        None \<Rightarrow> i\<lparr>if_good := False\<rparr>
      | Some c \<Rightarrow> \<lparr>if_is_open = True, if_content = c, if_pos = 0, if_good = True\<rparr>)"

text \<open>\<^verbatim>\<open>clear()\<close> and \<^verbatim>\<open>seekg(0)\<close>.\<close>

definition if_rewind :: "ifstream \<Rightarrow> ifstream" where
  "if_rewind i = i\<lparr>if_good := True, if_pos := 0\<rparr>"

text \<open>\<^verbatim>\<open>read\<close>: a short read leaves the stream with its end and fail bits set.\<close>

definition if_read :: "nat \<Rightarrow> ifstream \<Rightarrow> u8 list \<times> ifstream" where
  "if_read n i =
     (if \<not> if_good i then ([], i)
      else let bs = take n (drop (if_pos i) (if_content i)) in
        (bs, i\<lparr>if_pos := if_pos i + length bs, if_good := (length bs = n)\<rparr>))"

definition if_rest :: "ifstream \<Rightarrow> u8 list" where
  "if_rest i = drop (if_pos i) (if_content i)"

record ofstream =
  of_is_open :: bool
  of_content :: "u8 list"
  of_good :: bool

definition of_new :: ofstream where
  "of_new = \<lparr>of_is_open = False, of_content = [], of_good = True\<rparr>"

text \<open>\<open>ok\<close> says whether the system opens the file, or takes the bytes.\<close>

definition of_open :: "bool \<Rightarrow> ofstream \<Rightarrow> ofstream" where
  "of_open ok s =
     (if of_is_open s \<or> \<not> ok then s\<lparr>of_good := False\<rparr>
      else \<lparr>of_is_open = True, of_content = [], of_good = True\<rparr>)"

definition of_write :: "bool \<Rightarrow> u8 list \<Rightarrow> ofstream \<Rightarrow> ofstream" where
  "of_write ok bs s =
     (if \<not> of_good s then s
      else if ok then s\<lparr>of_content := of_content s @ bs\<rparr> else s\<lparr>of_good := False\<rparr>)"

section \<open>Packets in a file\<close>

text \<open>The fields of \<^verbatim>\<open>MSGPACK_DEFINE\<close> in \<^verbatim>\<open>packetMsgpack.hpp\<close>, for writing and for reading.\<close>

type_synonym stored = "(int \<times> u8 \<times> u8 \<times> Channel \<times> u8) \<times> DataPacket"

definition StreamPacketMSGPACK :: "StreamPacket \<Rightarrow> int \<times> u8 \<times> u8 \<times> Channel \<times> u8" where
  "StreamPacketMSGPACK s = (timestamp s, streamID s, frame_number s, channel s, flags s)"

definition store :: "PacketPair \<Rightarrow> stored" where
  "store pp = (StreamPacketMSGPACK (fst pp), snd pp)"

text \<open>\<^verbatim>\<open>Packer\<close>: conversion into an existing packet.\<close>

definition Packer :: "stored \<Rightarrow> PacketPair \<Rightarrow> PacketPair" where
  "Packer st pp = (case st of ((t, sid, fn, c, fl), d) \<Rightarrow>
     ((fst pp)\<lparr>timestamp := t, streamID := sid, frame_number := fn, channel := c, flags := fl\<rparr>, d))"

text \<open>A new \<^verbatim>\<open>Packet\<close>; the fields without an initial value are set by the conversion.\<close>

definition new_StreamPacket :: StreamPacket where
  "new_StreamPacket = \<lparr>version = uint kCurrentFTLVersion, timestamp = 0, streamID = 0, frame_number = 0, channel = 0, flags = 0,
     localTimestamp = 0, hint_capability = 0, hint_source_total = 0, retry_count = 0, hint_peerid = 0\<rparr>"

definition new_Packet :: PacketPair where
  "new_Packet = (new_StreamPacket, default_DataPacket)"

section \<open>State\<close>

datatype Mode = Mode_Read | Mode_Write | Mode_ReadWrite

record FramesetData =
  fd_frame_count :: nat
  needs_endframe :: bool
  packet_counts :: "int list"
  fd_timestamp :: int
  fd_first_ts :: int
  fd_interval :: int

definition new_FramesetData :: FramesetData where
  "new_FramesetData = \<lparr>fd_frame_count = 0, needs_endframe = True, packet_counts = [], fd_timestamp = 0, fd_first_ts = - 1,
     fd_interval = 50\<rparr>"

text \<open>
  The work handed to the thread pool by \<^verbatim>\<open>tick\<close>: sending one packet of the list \<^verbatim>\<open>data_\<close>, or an end of frame
  for a frame with the number of packets sent.
\<close>

datatype file_job = Job_packet nat | Job_endframe int u8 nat int

text \<open>
  \<^verbatim>\<open>data_\<close> is a linked list with stable iterators: its elements carry the number of the packet in the
  order they were read. \<open>num_read\<close> is the next number.
\<close>

record 'u File =
  file_uri :: URI
  ostream :: "ofstream option"
  istream :: "ifstream option"
  checked :: bool
  file_mode :: Mode
  buffer_in :: 'u
  file_data :: "(nat \<times> PacketPair) list"
  num_read :: nat
  timestart :: int
  file_timestamp :: int
  interval :: int
  first_ts :: int
  file_active :: bool
  file_version :: int
  is_video :: bool
  read_error :: bool
  looping :: bool
  framerate :: int
  speed :: int
  file_framesets :: "(int \<times> FramesetData) list"
  file_jobs :: "file_job list"
  file_base :: stream_state
  file_outs :: "stream_out list"

definition new_File :: "'u \<Rightarrow> URI \<Rightarrow> ifstream option \<Rightarrow> ofstream option \<Rightarrow> Mode \<Rightarrow> 'u File" where
  "new_File u uri i s m = \<lparr>file_uri = uri, ostream = s, istream = i, checked = False, file_mode = m, buffer_in = u,
     file_data = [], num_read = 0, timestart = 0, file_timestamp = 0, interval = 50, first_ts = 0, file_active = False, file_version = 0,
     is_video = True, read_error = False, looping = False, framerate = 0, speed = 1, file_framesets = [], file_jobs = [],
     file_base = Map.empty, file_outs = []\<rparr>"

text \<open>The three constructors.\<close>

definition File_uri :: "'u \<Rightarrow> URI \<Rightarrow> bool \<Rightarrow> 'u File" where
  "File_uri u uri writeable = new_File u uri None None (if writeable then Mode_Write else Mode_Read)"

definition File_ifstream :: "'u \<Rightarrow> URI \<Rightarrow> ifstream \<Rightarrow> 'u File" where
  "File_ifstream u uri i = new_File u uri (Some i) None Mode_Read"

definition File_ofstream :: "'u \<Rightarrow> URI \<Rightarrow> ofstream \<Rightarrow> 'u File" where
  "File_ofstream u uri s = new_File u uri None (Some s) Mode_Write"

definition setMode :: "Mode \<Rightarrow> 'u File \<Rightarrow> 'u File" where
  "setMode m f = f\<lparr>file_mode := m\<rparr>"

text \<open>The time set by \<^verbatim>\<open>setStart\<close> is not read anywhere.\<close>

definition setStart :: "int \<Rightarrow> 'u File \<Rightarrow> 'u File" where
  "setStart ts f = f\<lparr>file_timestamp := ts\<rparr>"

text \<open>The body of \<^verbatim>\<open>reset\<close> is commented out.\<close>

definition file_reset :: "'u File \<Rightarrow> 'u File" where
  "file_reset f = f"

text \<open>\<^verbatim>\<open>framesets_[id]\<close>: a missing entry is inserted. The list stands for the hash table.\<close>

definition frameset_of :: "int \<Rightarrow> (int \<times> FramesetData) list \<Rightarrow> FramesetData" where
  "frameset_of k fm = (case map_of fm k of None \<Rightarrow> new_FramesetData | Some d \<Rightarrow> d)"

definition set_frameset :: "int \<Rightarrow> FramesetData \<Rightarrow> (int \<times> FramesetData) list \<Rightarrow> (int \<times> FramesetData) list" where
  "set_frameset k d fm = AList.update k d fm"

section \<open>Recording\<close>

definition file_post :: "(stored \<Rightarrow> u8 list) \<Rightarrow> bool \<Rightarrow> StreamPacket \<Rightarrow> DataPacket \<Rightarrow> 'u File \<Rightarrow> (bool \<times> 'u File) res" where
  "file_post pack ok s p f =
     (if \<not> file_active f then Inr (False, f)
      else if file_mode f \<noteq> Mode_Write then Inr (False, f)
      else if data p = [] then Inr (True, f)
      else case ostream f of
        None \<Rightarrow> Inl Undefined_behaviour
      | Some os \<Rightarrow> let os' = of_write ok (pack (store (s, p))) os in Inr (of_good os', f\<lparr>ostream := Some os'\<rparr>))"

text \<open>\<^verbatim>\<open>struct Header\<close> with its initial values, and \<^verbatim>\<open>IndexHeader\<close>, of which one field is set.\<close>

definition Header :: "u8 list" where
  "Header = [0x46, 0x54, 0x4C, 0x46, kCurrentFTLVersion]"

definition IndexHeader :: "u8 list \<Rightarrow> u8 list" where
  "IndexHeader garbage = replicate 8 0xFF @ take 56 (garbage @ replicate 56 0)"

text \<open>\<open>exists_ext\<close>: whether the file exists, and its extension.\<close>

definition validateFilename :: "bool \<Rightarrow> string \<Rightarrow> bool" where
  "validateFilename ex ext = (if \<not> ex then True else if ext = ''.ftl'' then True else False)"

text \<open>The branch of \<^verbatim>\<open>begin\<close> for writing.\<close>

definition begin_write :: "bool \<Rightarrow> string \<Rightarrow> bool \<Rightarrow> bool \<Rightarrow> u8 list \<Rightarrow> int \<Rightarrow> 'u File \<Rightarrow> (bool \<times> 'u File) res" where
  "begin_write ex ext can_open ok garbage now f =
     (let os = (case ostream f of None \<Rightarrow> of_new | Some s \<Rightarrow> s); f1 = f\<lparr>ostream := Some os\<rparr> in
      res_bind (toFilePath (file_uri f)) (\<lambda>path.
        if \<not> validateFilename ex ext then Inr (False, f1)
        else let s1 = of_open can_open os in
          if \<not> of_good s1 then Inr (False, f1\<lparr>ostream := Some s1\<rparr>)
          else let s2 = of_write ok (IndexHeader garbage) (of_write ok Header s1) in
            Inr (True, f1\<lparr>ostream := Some s2, timestart := now, file_active := True, interval := 50\<rparr>)))"

text \<open>
  \<^verbatim>\<open>end\<close>, when its waits for the thread and for the jobs are over. The content of the file written is the
  second result.
\<close>

definition file_end :: "'u File \<Rightarrow> bool \<times> u8 list option \<times> 'u File" where
  "file_end f =
     (if \<not> file_active f then (False, None, f)
      else let f1 = f\<lparr>file_active := False\<rparr> in
        case file_mode f of
          Mode_Read \<Rightarrow> (True, None, f1\<lparr>istream := None\<rparr>)
        | Mode_Write \<Rightarrow> (True, map_option of_content (ostream f), f1\<lparr>ostream := None\<rparr>)
        | Mode_ReadWrite \<Rightarrow> (True, None, f1))"

section \<open>Reading\<close>

definition kReadSize :: nat where "kReadSize = 10000000"

text \<open>
  Filling the buffer: the result says whether there is anything, and whether the object at its
  start is still known to be incomplete. The number of bytes read is kept in an \<^verbatim>\<open>int\<close>.
\<close>

definition fill :: "('u, 'o) unpacker \<Rightarrow> bool \<Rightarrow> ifstream \<Rightarrow> 'u \<Rightarrow> (bool \<times> ifstream \<times> 'u) res" where
  "fill un part i u =
     (if un_nonparsed un u = 0 \<or> part \<and> un_nonparsed un u < kReadSize then
        let u1 = un_reserve un kReadSize u;
            (bs, i1) = if_read (un_capacity un u1) i;
            bytes = cast_i32 (int (length bs)) in
        if bytes = 0 then Inr (False, i1, u1)
        else if bytes < 0 then Inl Undefined_behaviour
        else Inr (True, i1, un_feed un bs u1)
      else Inr (True, i, u))"

datatype ('r, 's) loop_step = Loop_return 'r | Loop_again 's

text \<open>One round of the loop of \<^verbatim>\<open>readPacket\<close>; an exception of the parser itself is not caught.\<close>

definition read_once :: "('u, 'o) unpacker \<Rightarrow> ('o \<Rightarrow> stored option) \<Rightarrow> bool \<Rightarrow> PacketPair \<Rightarrow> 'u File
    \<Rightarrow> ((bool \<times> PacketPair \<times> 'u File) res, 'u File) loop_step" where
  "read_once un conv part pp f =
     (case istream f of
        None \<Rightarrow> Loop_return (Inl Undefined_behaviour)
      | Some i \<Rightarrow>
         if \<not> if_good i \<and> un_nonparsed un (buffer_in f) = 0 then Loop_return (Inr (False, pp, f))
         else case fill un part i (buffer_in f) of
           Inl e \<Rightarrow> Loop_return (Inl e)
         | Inr (False, i1, u1) \<Rightarrow> Loop_return (Inr (False, pp, f\<lparr>istream := Some i1, buffer_in := u1\<rparr>))
         | Inr (True, i1, u1) \<Rightarrow>
            (case un_next un u1 of
               Inl e \<Rightarrow> Loop_return (Inl e)
             | Inr (None, u2) \<Rightarrow> Loop_again (f\<lparr>istream := Some i1, buffer_in := u2\<rparr>)
             | Inr (Some obj, u2) \<Rightarrow>
                (let f2 = f\<lparr>istream := Some i1, buffer_in := u2\<rparr> in
                 if file_version f < 5 then
                   Loop_return (Inr (False, pp, f2\<lparr>file_outs := file_outs f2 @ [Out_error kBadVersion ''Version too old'']\<rparr>))
                 else case conv obj of
                   None \<Rightarrow> Loop_return (Inr (False, pp, f2))
                 | Some st \<Rightarrow> Loop_return (Inr (True, Packer st pp, f2)))))"

text \<open>\<open>None\<close> is a loop that does not end.\<close>

partial_function (option) read_loop ::
  "('u, 'o) unpacker \<Rightarrow> ('o \<Rightarrow> stored option) \<Rightarrow> bool \<Rightarrow> PacketPair \<Rightarrow> 'u File \<Rightarrow> (bool \<times> PacketPair \<times> 'u File) res option" where
  "read_loop un conv part pp f =
     (case read_once un conv part pp f of
        Loop_return r \<Rightarrow> Some r
      | Loop_again f' \<Rightarrow> read_loop un conv True pp f')"

definition readPacket :: "('u, 'o) unpacker \<Rightarrow> ('o \<Rightarrow> stored option) \<Rightarrow> PacketPair \<Rightarrow> 'u File \<Rightarrow> (bool \<times> PacketPair \<times> 'u File) res option" where
  "readPacket un conv pp f = read_loop un conv False pp f"

text \<open>\<^verbatim>\<open>_patchPackets\<close> is not called.\<close>

definition patchPackets :: "PacketPair \<Rightarrow> PacketPair" where
  "patchPackets pp = ((fst pp)\<lparr>version := uint kCurrentFTLVersion\<rparr>, if data (snd pp) = [] then (snd pp)\<lparr>dataFlags := 0\<rparr> else snd pp)"

section \<open>Opening\<close>

text \<open>A read that is cut short leaves the rest of \<^verbatim>\<open>h\<close> as it was initialised.\<close>

definition open_stream :: "(string \<rightharpoonup> u8 list) \<Rightarrow> 'u File \<Rightarrow> (bool \<times> ifstream) res" where
  "open_stream fs f =
     (case istream f of
        Some i \<Rightarrow> if if_is_open i then Inr (True, if_rewind i)
          else res_bind (toFilePath (file_uri f)) (\<lambda>path. let i' = if_open fs path i in Inr (if_good i', i'))
      | None \<Rightarrow> res_bind (toFilePath (file_uri f)) (\<lambda>path. let i' = if_open fs path if_new in Inr (if_good i', i')))"

definition file_open :: "(string \<rightharpoonup> u8 list) \<Rightarrow> 'u File \<Rightarrow> (bool \<times> 'u File) res" where
  "file_open fs f =
     res_bind (open_stream fs f) (\<lambda>(ok, i).
       if \<not> ok then Inr (False, f\<lparr>istream := Some i\<rparr>)
       else case if_read (length Header) i of (hb, i1) \<Rightarrow>
         let h = hb @ drop (length hb) Header in
         if take 4 h \<noteq> take 4 Header then Inr (False, f\<lparr>istream := Some i1\<rparr>)
         else let i2 = (if 2 \<le> h ! 4 then snd (if_read 64 i1) else i1) in
           Inr (True, f\<lparr>istream := Some i2, file_version := uint (h ! 4)\<rparr>))"

text \<open>
  The first pass of \<^verbatim>\<open>_checkFile\<close> over at most 1000 different times: \<open>count\<close>, \<open>ts\<close> and \<open>mind\<close> are its local
  variables.
\<close>

definition note_packet :: "PacketPair \<Rightarrow> 'u File \<Rightarrow> 'u File res" where
  "note_packet pp f =
     res_bind (seen_out (packet_FrameID (fst pp)) (channel (fst pp)) (file_base f)) (\<lambda>(b, outs).
       let k = uint (streamID (fst pp)); d = frameset_of k (file_framesets f);
           d' = (if fd_first_ts d < 0 then d\<lparr>fd_first_ts := timestamp (fst pp)\<rparr> else d) in
       Inr (f\<lparr>file_base := b, file_outs := file_outs f @ outs, file_framesets := set_frameset k d' (file_framesets f)\<rparr>))"

definition note_time :: "StreamPacket \<Rightarrow> int \<times> int \<times> int \<Rightarrow> int \<times> int \<times> int" where
  "note_time s = (\<lambda>(count, ts, mind).
     if timestamp s > 0 \<and> channel s < 32 \<and> timestamp s > ts then
       let d = timestamp s - ts in (count - 1, timestamp s, if d < mind \<and> d > 0 then d else mind)
     else (count, ts, mind))"

definition check_once :: "int \<times> int \<times> int \<Rightarrow> (bool \<times> PacketPair \<times> 'u File) res
    \<Rightarrow> (((int \<times> int \<times> int) \<times> 'u File) res, (int \<times> int \<times> int) \<times> 'u File) loop_step" where
  "check_once v r = (case r of
     Inl e \<Rightarrow> Loop_return (Inl e)
   | Inr (False, pp, f) \<Rightarrow> Loop_return (Inr (v, f))
   | Inr (True, pp, f) \<Rightarrow>
      (case note_packet pp f of Inl e \<Rightarrow> Loop_return (Inl e) | Inr f' \<Rightarrow> Loop_again (note_time (fst pp) v, f')))"

partial_function (option) check_loop ::
  "('u, 'o) unpacker \<Rightarrow> ('o \<Rightarrow> stored option) \<Rightarrow> int \<times> int \<times> int \<Rightarrow> 'u File \<Rightarrow> ((int \<times> int \<times> int) \<times> 'u File) res option" where
  "check_loop un conv v f =
     (if fst v \<le> 0 then Some (Inr (v, f))
      else Option.bind (readPacket un conv new_Packet f) (\<lambda>r.
        case check_once v r of
          Loop_return x \<Rightarrow> Some x
        | Loop_again y \<Rightarrow> check_loop un conv (fst y) (snd y)))"

definition check_result :: "('u, 'o) unpacker \<Rightarrow> int \<times> int \<times> int \<Rightarrow> 'u File \<Rightarrow> 'u File" where
  "check_result un v f = (case v of (count, ts, mind) \<Rightarrow>
     let vid = (count < 9) in
     f\<lparr>buffer_in := un_reset un (buffer_in f), checked := True, is_video := vid, framerate := 1000 div mind,
       looping := looping f \<and> vid, interval := mind,
       file_framesets := map (\<lambda>(k, d). (k, d\<lparr>fd_interval := mind\<rparr>)) (file_framesets f)\<rparr>)"

definition checkFile :: "('u, 'o) unpacker \<Rightarrow> ('o \<Rightarrow> stored option) \<Rightarrow> (string \<rightharpoonup> u8 list) \<Rightarrow> 'u File \<Rightarrow> (bool \<times> 'u File) res option" where
  "checkFile un conv fs f =
     (case file_open fs f of
        Inl e \<Rightarrow> Some (Inl e)
      | Inr (False, f1) \<Rightarrow> Some (Inr (False, f1))
      | Inr (True, f1) \<Rightarrow>
         Option.bind (check_loop un conv (1000, - 1000, 1000) (f1\<lparr>first_ts := 10000000000000\<rparr>)) (\<lambda>r.
           Some (case r of Inl e \<Rightarrow> Inl e | Inr (v, f2) \<Rightarrow> Inr (True, check_result un v f2))))"

definition isValid :: "('u, 'o) unpacker \<Rightarrow> ('o \<Rightarrow> stored option) \<Rightarrow> (string \<rightharpoonup> u8 list) \<Rightarrow> 'u File \<Rightarrow> (bool \<times> 'u File) res option" where
  "isValid un conv fs f = checkFile un conv fs f"

section \<open>Properties\<close>

definition file_setProperty :: "StreamProperty \<Rightarrow> any \<Rightarrow> 'u File \<Rightarrow> 'u File res" where
  "file_setProperty opt v f = (case opt of
       kFrameRate \<Rightarrow> Inl (FTL_Error ''Readonly property'')
     | kURI \<Rightarrow> Inl (FTL_Error ''Readonly property'')
     | kLooping \<Rightarrow> res_bind (any_cast_bool v) (\<lambda>b. Inr (f\<lparr>looping := b\<rparr>))
     | kSpeed \<Rightarrow> res_bind (any_cast_int v) (\<lambda>i. Inr (f\<lparr>speed := i\<rparr>))
     | _ \<Rightarrow> Inl (FTL_Error ''Property not supported''))"

definition file_getProperty :: "StreamProperty \<Rightarrow> 'u File \<Rightarrow> any res" where
  "file_getProperty opt f = (case opt of
       kSpeed \<Rightarrow> Inr (Any_int (speed f))
     | kFrameRate \<Rightarrow> Inr (Any_int (framerate f))
     | kLooping \<Rightarrow> Inr (Any_bool (looping f))
     | kURI \<Rightarrow> Inr (Any_string (m_base (file_uri f)))
     | _ \<Rightarrow> Inl (FTL_Error ''Property not supported''))"

definition file_supportsProperty :: "StreamProperty \<Rightarrow> bool" where
  "file_supportsProperty opt \<longleftrightarrow> opt \<in> {kSpeed, kFrameRate, kLooping, kURI}"

definition file_type :: "'u File \<Rightarrow> StreamType" where
  "file_type f = kRecorded"

text \<open>\<^verbatim>\<open>enable\<close> is that of the base class.\<close>

definition file_enable :: "FrameID \<Rightarrow> 'u File \<Rightarrow> bool \<times> 'u File" where
  "file_enable i f = (case enable i (file_base f) of (b, s) \<Rightarrow> (b, f\<lparr>file_base := s\<rparr>))"

definition file_enable_channel :: "FrameID \<Rightarrow> Channel \<Rightarrow> 'u File \<Rightarrow> bool \<times> 'u File" where
  "file_enable_channel i c f = (case enable_channel i c (file_base f) of (b, s) \<Rightarrow> (b, f\<lparr>file_base := s\<rparr>))"

definition file_enable_channels :: "FrameID \<Rightarrow> Channel set \<Rightarrow> 'u File \<Rightarrow> bool \<times> 'u File" where
  "file_enable_channels i cs f = (case enable_channels i cs (file_base f) of (b, s) \<Rightarrow> (b, f\<lparr>file_base := s\<rparr>))"

section \<open>Reading back what was written\<close>

text \<open>
  What is assumed of msgpack, for the packets in \<open>S\<close>. \<open>held u\<close> are the bytes given to the unpacker that do not
  belong to an object it has returned: \<^verbatim>\<open>next\<close> returns the first object when all of its bytes are there and
  otherwise keeps them. \<^verbatim>\<open>nonparsed_size\<close> counts at most the bytes held, and all of them after an object has
  been returned. The capacity of the buffer fits into an \<^verbatim>\<open>int\<close>.
\<close>

definition unpacker_laws :: "('u, 'o) unpacker \<Rightarrow> ('u \<Rightarrow> u8 list) \<Rightarrow> (stored \<Rightarrow> u8 list) \<Rightarrow> ('o \<Rightarrow> stored option) \<Rightarrow> stored set \<Rightarrow> bool" where
  "unpacker_laws un held pack conv S \<longleftrightarrow>
     (\<forall>n u. held (un_reserve un n u) = held u \<and> un_nonparsed un (un_reserve un n u) = un_nonparsed un u)
     \<and> (\<forall>u. 0 < un_capacity un (un_reserve un kReadSize u) \<and> un_capacity un (un_reserve un kReadSize u) < 2 ^ 31)
     \<and> (\<forall>bs u. held (un_feed un bs u) = held u @ bs \<and> un_nonparsed un (un_feed un bs u) = un_nonparsed un u + length bs)
     \<and> (\<forall>u. un_nonparsed un u \<le> length (held u))
     \<and> (\<forall>u. held (un_reset un u) = [])
     \<and> (\<forall>u. \<forall>st \<in> S. \<forall>rest. held u = pack st @ rest \<longrightarrow>
          (\<exists>ob u'. un_next un u = Inr (Some ob, u') \<and> conv ob = Some st \<and> held u' = rest \<and> un_nonparsed un u' = length rest))
     \<and> (\<forall>u. \<forall>st \<in> S. \<forall>m. m \<noteq> [] \<and> held u @ m = pack st \<longrightarrow>
          (\<exists>u'. un_next un u = Inr (None, u') \<and> held u' = held u))"

definition if_has :: "u8 list \<Rightarrow> ifstream \<Rightarrow> bool" where
  "if_has c i \<longleftrightarrow> if_is_open i \<and> if_content i = c"

text \<open>The reader is at the start of the packets \<open>qs\<close> in a file with the bytes \<open>c\<close>.\<close>

definition reader_at :: "('u, 'o) unpacker \<Rightarrow> ('u \<Rightarrow> u8 list) \<Rightarrow> (stored \<Rightarrow> u8 list) \<Rightarrow> u8 list \<Rightarrow> stored list \<Rightarrow> 'u File \<Rightarrow> bool" where
  "reader_at un held pack c qs f \<longleftrightarrow> 5 \<le> file_version f
     \<and> (\<exists>i. istream f = Some i \<and> if_has c i \<and> (if_good i \<or> if_rest i = []) \<and> held (buffer_in f) @ if_rest i = concat (map pack qs)
          \<and> un_nonparsed un (buffer_in f) = length (held (buffer_in f)))"

definition packable :: "(stored \<Rightarrow> u8 list) \<Rightarrow> stored set \<Rightarrow> bool" where
  "packable pack S \<longleftrightarrow> (\<forall>st \<in> S. pack st \<noteq> [] \<and> length (pack st) < kReadSize)"

lemma if_read_rest:
  assumes "if_read n i = (bs, i')" "if_good i"
  shows "bs = take n (if_rest i)" "if_rest i' = drop n (if_rest i)" "if_good i' \<or> if_rest i' = []" "if_has c i' = if_has c i"
proof -
  have bs: "bs = take n (if_rest i)"
    and i': "i' = i\<lparr>if_pos := if_pos i + length bs, if_good := (length bs = n)\<rparr>"
    using assms by (auto simp: if_read_def if_rest_def Let_def)
  show "if_has c i' = if_has c i" by (simp add: i' if_has_def)
  show "bs = take n (if_rest i)" by (fact bs)
  have rest: "if_rest i' = drop (length bs) (if_rest i)"
    by (simp add: i' if_rest_def add.commute)
  then show "if_rest i' = drop n (if_rest i)"
    by (cases "n \<le> length (if_rest i)") (simp_all add: bs)
  then show "if_good i' \<or> if_rest i' = []"
    using bs by (auto simp: i')
qed

text \<open>Filling the buffer of a stream with bytes left.\<close>

lemma fill_reads:
  assumes L: "unpacker_laws un held pack conv S" and i: "if_good i" "if_rest i \<noteq> []"
    and c: "un_nonparsed un u = 0 \<or> part \<and> un_nonparsed un u < kReadSize"
  obtains bs i' u' where "fill un part i u = Inr (True, i', u')" "bs \<noteq> []" "if_rest i = bs @ if_rest i'"
    "held u' = held u @ bs" "un_nonparsed un u' = un_nonparsed un u + length bs" "if_good i' \<or> if_rest i' = []" "if_has c i' = if_has c i"
proof -
  let ?u = "un_reserve un kReadSize u"
  obtain bs i' where r: "if_read (un_capacity un ?u) i = (bs, i')" by fastforce
  note R = if_read_rest [OF r i(1)]
  have cap: "0 < un_capacity un ?u" "un_capacity un ?u < 2 ^ 31"
    using L by (auto simp: unpacker_laws_def)
  then have bs: "bs \<noteq> []" "length bs < 2 ^ 31"
    using R(1) i(2) by auto
  then have "cast_i32 (int (length bs)) = int (length bs)"
    by (intro cast_i32_small) auto
  then have "fill un part i u = Inr (True, i', un_feed un bs ?u)"
    using c r bs by (simp add: fill_def Let_def)
  moreover have "if_rest i = bs @ if_rest i'" using R by simp
  ultimately show thesis
    using that bs(1) R(3,4) L by (simp add: unpacker_laws_def)
qed

lemma unpacker_whole:
  "unpacker_laws un held pack conv S \<Longrightarrow> st \<in> S \<Longrightarrow> held u = pack st @ rest
    \<Longrightarrow> \<exists>ob u'. un_next un u = Inr (Some ob, u') \<and> conv ob = Some st \<and> held u' = rest \<and> un_nonparsed un u' = length rest"
  unfolding unpacker_laws_def by (elim conjE) blast

lemma unpacker_part:
  "unpacker_laws un held pack conv S \<Longrightarrow> st \<in> S \<Longrightarrow> m \<noteq> [] \<Longrightarrow> held u @ m = pack st
    \<Longrightarrow> \<exists>u'. un_next un u = Inr (None, u') \<and> held u' = held u"
  unfolding unpacker_laws_def by (elim conjE) blast

text \<open>One object: either it is returned, or the bytes held are a proper part of it.\<close>

lemma next_object:
  assumes L: "unpacker_laws un held pack conv S" and st: "st \<in> S" and h: "held u @ rest = pack st @ tail"
  obtains (Whole) ob u' where "un_next un u = Inr (Some ob, u')" "conv ob = Some st" "held u' @ rest = tail"
      "un_nonparsed un u' = length (held u')"
    | (Part) u' where "un_next un u = Inr (None, u')" "held u' = held u" "length (held u) < length (pack st)"
proof -
  from h consider (1) r where "held u = pack st @ r" "r @ rest = tail" | (2) m where "m \<noteq> []" "held u @ m = pack st"
    unfolding append_eq_append_conv2 by (metis append_Nil append_Nil2)
  then show thesis
  proof cases
    case 1
    then show thesis using unpacker_whole [OF L st] Whole by metis
  next
    case 2
    moreover from this have "length (held u) < length (pack st)" by (metis length_append length_greater_0_conv less_add_same_cancel1)
    ultimately show thesis using unpacker_part [OF L st] Part by metis
  qed
qed

text \<open>The loop once the bytes held are known to be a proper part of the packet.\<close>

lemma read_loop_part:
  assumes L: "unpacker_laws un held pack conv S" "packable pack S" "st \<in> S" and v: "5 \<le> file_version f"
    and i: "istream f = Some i" "if_good i \<or> if_rest i = []" "if_has c i"
    and h: "held (buffer_in f) @ if_rest i = pack st @ tail" "length (held (buffer_in f)) < length (pack st)"
  shows "\<exists>i' u'. read_loop un conv True pp f = Some (Inr (True, Packer st pp, f\<lparr>istream := Some i', buffer_in := u'\<rparr>))
     \<and> if_has c i' \<and> (if_good i' \<or> if_rest i' = []) \<and> held u' @ if_rest i' = tail \<and> un_nonparsed un u' = length (held u')"
  using v i h
proof (induction "length (if_rest i)" arbitrary: f i rule: less_induct)
  case less
  let ?u = "buffer_in f"
  have ne: "if_rest i \<noteq> []"
    using less.prems(5,6) by (metis append_Nil2 le_add1 length_append not_le)
  then have good: "if_good i" using less.prems(3) by simp
  have "un_nonparsed un ?u \<le> length (held ?u)" using L(1) by (simp add: unpacker_laws_def)
  then have "un_nonparsed un ?u < kReadSize"
    using less.prems(6) L(2,3) by (auto simp: packable_def)
  then obtain bs i1 u1 where F: "fill un True i ?u = Inr (True, i1, u1)" "bs \<noteq> []" "if_rest i = bs @ if_rest i1"
      "held u1 = held ?u @ bs" "if_good i1 \<or> if_rest i1 = []" "if_has c i1 = if_has c i"
    using fill_reads [OF L(1) good ne, of ?u True c] by metis
  have h1: "held u1 @ if_rest i1 = pack st @ tail" using less.prems(5) F by simp
  show ?case
  proof (cases rule: next_object [OF L(1,3) h1])
    case (1 ob u2)
    then have "read_once un conv True pp f = Loop_return (Inr (True, Packer st pp, f\<lparr>istream := Some i1, buffer_in := u2\<rparr>))"
      using F good less.prems(1,2) by (simp add: read_once_def Let_def)
    then show ?thesis using 1 F(5,6) less.prems(4) by (subst read_loop.simps) auto
  next
    case (2 u2)
    let ?f = "f\<lparr>istream := Some i1, buffer_in := u2\<rparr>"
    have "read_once un conv True pp f = Loop_again ?f"
      using F good less.prems(1,2) 2(1) by (simp add: read_once_def Let_def)
    then have "read_loop un conv True pp f = read_loop un conv True pp ?f"
      by (subst read_loop.simps) simp
    moreover have "length (if_rest i1) < length (if_rest i)" using F(2,3) by simp
    ultimately show ?thesis
      using less.hyps [of i1 ?f] less.prems(1,4) F(5,6) h1 2(2,3) by simp
  qed
qed

text \<open>Reading the next packet, and reading at the end.\<close>

lemma readPacket_next:
  assumes L: "unpacker_laws un held pack conv S" "packable pack S" "st \<in> S" and r: "reader_at un held pack c (st # qs) f"
  obtains i u where "readPacket un conv pp f = Some (Inr (True, Packer st pp, f\<lparr>istream := Some i, buffer_in := u\<rparr>))"
    "reader_at un held pack c qs (f\<lparr>istream := Some i, buffer_in := u\<rparr>)"
proof -
  let ?u = "buffer_in f"
  obtain i where R: "istream f = Some i" "if_good i \<or> if_rest i = []" "held ?u @ if_rest i = pack st @ concat (map pack qs)"
      "un_nonparsed un ?u = length (held ?u)" "if_has c i" and v: "5 \<le> file_version f"
    using r by (auto simp: reader_at_def)
  have pk: "pack st \<noteq> []" using L(2,3) by (simp add: packable_def)
  have go: "\<not> (\<not> if_good i \<and> un_nonparsed un ?u = 0)"
    using R pk by auto
  obtain i1 u1 where F: "fill un False i ?u = Inr (True, i1, u1)" "if_good i1 \<or> if_rest i1 = []"
      "held u1 @ if_rest i1 = pack st @ concat (map pack qs)" "if_has c i1"
  proof (cases "un_nonparsed un ?u = 0")
    case True
    then have "if_good i" "if_rest i \<noteq> []" using R pk go by auto
    then show thesis
      using fill_reads [OF L(1), of i ?u False c] True that R(3,5) by (metis append.assoc)
  next
    case False
    then show thesis using that [of i ?u] R by (simp add: fill_def)
  qed
  show thesis
  proof (cases rule: next_object [OF L(1,3) F(3)])
    case (1 ob u2)
    then have "read_once un conv False pp f = Loop_return (Inr (True, Packer st pp, f\<lparr>istream := Some i1, buffer_in := u2\<rparr>))"
      using F R(1) v go by (simp add: read_once_def Let_def)
    then show thesis
      using 1 F(2,4) v by (intro that [of u2 i1]) (simp_all add: readPacket_def read_loop.simps [of _ _ False] reader_at_def)
  next
    case (2 u2)
    let ?f = "f\<lparr>istream := Some i1, buffer_in := u2\<rparr>"
    have "read_once un conv False pp f = Loop_again ?f"
      using F R(1) go 2(1) by (simp add: read_once_def Let_def)
    then have "readPacket un conv pp f = read_loop un conv True pp ?f"
      by (simp add: readPacket_def read_loop.simps [of _ _ False])
    moreover obtain i' u' where "read_loop un conv True pp ?f = Some (Inr (True, Packer st pp, f\<lparr>istream := Some i', buffer_in := u'\<rparr>))"
        "if_has c i'" "if_good i' \<or> if_rest i' = []" "held u' @ if_rest i' = concat (map pack qs)" "un_nonparsed un u' = length (held u')"
      using read_loop_part [OF L, of ?f i1 c "concat (map pack qs)" pp] v F(2-4) 2(2,3) by auto
    ultimately show thesis
      using v by (intro that [of u' i']) (simp_all add: reader_at_def)
  qed
qed

lemma readPacket_end:
  assumes L: "unpacker_laws un held pack conv S" and r: "reader_at un held pack c [] f"
  obtains i u where "readPacket un conv pp f = Some (Inr (False, pp, f\<lparr>istream := Some i, buffer_in := u\<rparr>))"
    "reader_at un held pack c [] (f\<lparr>istream := Some i, buffer_in := u\<rparr>)"
proof -
  let ?u = "buffer_in f"
  obtain i where R: "istream f = Some i" "if_rest i = []" "held ?u = []" "un_nonparsed un ?u = 0" "5 \<le> file_version f" "if_has c i"
    using r by (auto simp: reader_at_def)
  show thesis
  proof (cases "if_good i")
    case True
    obtain bs i1 where r: "if_read (un_capacity un (un_reserve un kReadSize ?u)) i = (bs, i1)" by fastforce
    note I = if_read_rest [OF r True]
    have "read_once un conv False pp f = Loop_return (Inr (False, pp, f\<lparr>istream := Some i1, buffer_in := un_reserve un kReadSize ?u\<rparr>))"
      using True R r I(1) by (simp add: read_once_def fill_def cast_i32_def Let_def)
    then show thesis
      using R I(2,4) L by (intro that [of "un_reserve un kReadSize ?u" i1])
        (simp_all add: readPacket_def read_loop.simps [of _ _ False] reader_at_def unpacker_laws_def)
  next
    case False
    then have "read_once un conv False pp f = Loop_return (Inr (False, pp, f))"
      using R by (simp add: read_once_def)
    then show thesis
      using R False r by (intro that [of ?u i])
        (simp_all add: readPacket_def read_loop.simps [of _ _ False] reader_at_def)
  qed
qed

section \<open>Recording and reading back\<close>

text \<open>A recording: the calls of \<^verbatim>\<open>post\<close> in turn.\<close>

fun post_all :: "(stored \<Rightarrow> u8 list) \<Rightarrow> PacketPair list \<Rightarrow> 'u File \<Rightarrow> 'u File res" where
  "post_all pack [] f = Inr f"
| "post_all pack (pp # pps) f = res_bind (file_post pack True (fst pp) (snd pp) f) (\<lambda>(b, f1). post_all pack pps f1)"

text \<open>Calls of \<^verbatim>\<open>readPacket\<close> until it returns false, \<open>n\<close> at most.\<close>

fun read_packets :: "('u, 'o) unpacker \<Rightarrow> ('o \<Rightarrow> stored option) \<Rightarrow> nat \<Rightarrow> 'u File \<Rightarrow> (PacketPair list \<times> 'u File) res option" where
  "read_packets un conv 0 f = Some (Inr ([], f))"
| "read_packets un conv (Suc n) f = Option.bind (readPacket un conv new_Packet f) (\<lambda>r. case r of
     Inl e \<Rightarrow> Some (Inl e)
   | Inr (b, pp, f1) \<Rightarrow>
      if b then map_option (\<lambda>x. res_bind x (\<lambda>(pps, f2). Inr (pp # pps, f2))) (read_packets un conv n f1)
      else Some (Inr ([], f1)))"

text \<open>The packets of a recording: those with data, as they are stored.\<close>

definition recorded :: "PacketPair list \<Rightarrow> stored list" where
  "recorded pps = map store (filter (\<lambda>pp. data (snd pp) \<noteq> []) pps)"

text \<open>What a packet that was recorded is when it is read back: the other fields have their initial values.\<close>

definition read_back :: "PacketPair \<Rightarrow> PacketPair" where
  "read_back pp = (new_StreamPacket\<lparr>timestamp := timestamp (fst pp), streamID := streamID (fst pp), frame_number := frame_number (fst pp),
     channel := channel (fst pp), flags := flags (fst pp)\<rparr>, snd pp)"

lemma Packer_store: "Packer (store pp) new_Packet = read_back pp"
  by (simp add: Packer_def store_def StreamPacketMSGPACK_def new_Packet_def read_back_def)

lemma post_all_content:
  assumes "file_active f" "file_mode f = Mode_Write" "ostream f = Some os" "of_good os"
  shows "post_all pack pps f = Inr (f\<lparr>ostream := Some (os\<lparr>of_content := of_content os @ concat (map pack (recorded pps))\<rparr>)\<rparr>)"
  using assms
proof (induction pps arbitrary: f os)
  case Nil
  then show ?case by (simp add: recorded_def)
next
  case (Cons pp pps)
  show ?case
  proof (cases "data (snd pp) = []")
    case True
    then show ?thesis
      using Cons by (simp add: file_post_def recorded_def)
  next
    case False
    let ?os = "os\<lparr>of_content := of_content os @ pack (store pp)\<rparr>"
    have "file_post pack True (fst pp) (snd pp) f = Inr (True, f\<lparr>ostream := Some ?os\<rparr>)"
      using Cons.prems False by (simp add: file_post_def of_write_def)
    then show ?thesis
      using Cons.IH [of "f\<lparr>ostream := Some ?os\<rparr>" ?os] Cons.prems False by (simp add: recorded_def)
  qed
qed

lemma read_packets_all:
  assumes "unpacker_laws un held pack conv S" "packable pack S" "set qs \<subseteq> S" "reader_at un held pack c qs f" "length qs < n"
  shows "\<exists>h. read_packets un conv n f = Some (Inr (map (\<lambda>st. Packer st new_Packet) qs, h))"
  using assms(3-)
proof (induction qs arbitrary: f n)
  case Nil
  then obtain m where "n = Suc m" by (cases n) auto
  moreover obtain i u where "readPacket un conv new_Packet f = Some (Inr (False, new_Packet, f\<lparr>istream := Some i, buffer_in := u\<rparr>))"
    using readPacket_end [OF assms(1) Nil(2)] by metis
  ultimately show ?case by simp
next
  case (Cons st qs)
  then obtain m where n: "n = Suc m" by (cases n) auto
  obtain i u where r: "readPacket un conv new_Packet f = Some (Inr (True, Packer st new_Packet, f\<lparr>istream := Some i, buffer_in := u\<rparr>))"
      "reader_at un held pack c qs (f\<lparr>istream := Some i, buffer_in := u\<rparr>)"
    using readPacket_next [OF assms(1,2) _ Cons.prems(2)] Cons.prems(1) by (metis list.set_intros(1) subsetD)
  then show ?case
    using Cons.IH [OF _ r(2), of m] Cons.prems n by auto
qed

text \<open>What \<^verbatim>\<open>begin\<close> writes is what opening the file takes.\<close>

lemma length_IndexHeader [simp]: "length (IndexHeader g) = 64"
  by (simp add: IndexHeader_def)

lemma open_recording:
  assumes "toFilePath (file_uri f) = Inr path" "fs path = Some (Header @ IndexHeader g @ bytes)"
    "istream f = None \<or> (\<exists>i. istream f = Some i \<and> if_has (Header @ IndexHeader g @ bytes) i)"
  obtains i where "file_open fs f = Inr (True, f\<lparr>istream := Some i, file_version := 5\<rparr>)" "if_good i" "if_rest i = bytes"
    "if_has (Header @ IndexHeader g @ bytes) i"
proof -
  let ?c = "Header @ IndexHeader g @ bytes"
  let ?i = "\<lparr>if_is_open = True, if_content = ?c, if_pos = 0, if_good = True\<rparr>"
  have o: "open_stream fs f = Inr (True, ?i)"
    using assms by (auto simp: open_stream_def if_open_def if_new_def if_rewind_def if_has_def)
  have l: "length Header = 5" "Header ! 4 = 5" "take 4 Header \<noteq> []" by (simp_all add: Header_def kCurrentFTLVersion_def)
  have "file_open fs f = Inr (True, f\<lparr>istream := Some (?i\<lparr>if_pos := 69\<rparr>), file_version := 5\<rparr>)"
    using l by (simp add: file_open_def o if_read_def Let_def)
  then show thesis
    using l by (intro that [of "?i\<lparr>if_pos := 69\<rparr>"]) (simp_all add: if_rest_def if_has_def)
qed

text \<open>
  C9: What is recorded is read back. After \<^verbatim>\<open>begin\<close> on a new file, any calls of \<^verbatim>\<open>post\<close> and \<^verbatim>\<open>end\<close>, opening the file
  succeeds and \<^verbatim>\<open>readPacket\<close> returns the packets that have data, in order, with their time, stream, frame,
  channel, flags and data, whichever way the reads of the file cut them; then it returns false. This holds for
  packets that are smaller than ten million bytes when packed.
\<close>

theorem file_round_trip:
  assumes laws: "unpacker_laws un held pack conv (set (recorded pps))" "packable pack (set (recorded pps))"
    and new: "toFilePath uri = Inr path" "validateFilename ex ext" "held v = []"
    and n: "length (recorded pps) < n"
  shows "\<exists>f0 f1 c f2. begin_write ex ext True True g now (File_uri u uri True) = Inr (True, f0)
     \<and> post_all pack pps f0 = Inr f1 \<and> file_end f1 = (True, Some c, f2)
     \<and> (\<exists>f3 f4. file_open [path \<mapsto> c] (File_uri v uri False) = Inr (True, f3)
          \<and> read_packets un conv n f3 = Some (Inr (map read_back (filter (\<lambda>pp. data (snd pp) \<noteq> []) pps), f4)))"
proof -
  let ?os = "\<lparr>of_is_open = True, of_content = Header @ IndexHeader g, of_good = True\<rparr>"
  let ?f0 = "(File_uri u uri True)\<lparr>ostream := Some ?os, timestart := now, file_active := True, interval := 50\<rparr>"
  let ?c = "Header @ IndexHeader g @ concat (map pack (recorded pps))"
  let ?f1 = "?f0\<lparr>ostream := Some (?os\<lparr>of_content := ?c\<rparr>)\<rparr>"
  have w: "begin_write ex ext True True g now (File_uri u uri True) = Inr (True, ?f0)"
    using new by (simp add: begin_write_def File_uri_def new_File_def of_open_def of_new_def of_write_def Let_def)
  have p: "post_all pack pps ?f0 = Inr ?f1"
    using post_all_content [of ?f0 ?os pack pps] by (simp add: File_uri_def new_File_def)
  have e: "file_end ?f1 = (True, Some ?c, ?f1\<lparr>file_active := False, ostream := None\<rparr>)"
    by (simp add: file_end_def File_uri_def new_File_def Let_def)
  obtain i where o: "file_open [path \<mapsto> ?c] (File_uri v uri False) = Inr (True, (File_uri v uri False)\<lparr>istream := Some i, file_version := 5\<rparr>)"
      "if_good i" "if_rest i = concat (map pack (recorded pps))" "if_has ?c i"
    using open_recording [of "File_uri v uri False" path "[path \<mapsto> ?c]" g "concat (map pack (recorded pps))"] new(1)
    by (auto simp: File_uri_def new_File_def if_has_def)
  have "un_nonparsed un v \<le> length (held v)" using laws(1) by (simp add: unpacker_laws_def)
  then have "reader_at un held pack ?c (recorded pps) ((File_uri v uri False)\<lparr>istream := Some i, file_version := 5\<rparr>)"
    using o(2-4) new(3) by (simp add: reader_at_def File_uri_def new_File_def)
  from read_packets_all [OF laws order.refl this n]
  obtain h where "read_packets un conv n ((File_uri v uri False)\<lparr>istream := Some i, file_version := 5\<rparr>)
      = Some (Inr (map read_back (filter (\<lambda>pp. data (snd pp) \<noteq> []) pps), h))"
    by (auto simp: recorded_def Packer_store comp_def)
  then show ?thesis
    using w p e o(1) by metis
qed

text \<open>A small unpacker: two bytes for the one packet.\<close>

definition ex_unpacker :: "(u8 list, unit) unpacker" where
  "ex_unpacker = \<lparr>un_nonparsed = length, un_reserve = (\<lambda>n u. u), un_capacity = (\<lambda>u. 1), un_feed = (\<lambda>bs u. u @ bs),
     un_next = (\<lambda>u. if take 2 u = [1, 2] then Inr (Some (), drop 2 u) else Inr (None, u)), un_reset = (\<lambda>u. [])\<rparr>"

definition ex_packet :: PacketPair where
  "ex_packet = (new_StreamPacket\<lparr>timestamp := 40\<rparr>, default_DataPacket\<lparr>data := [7]\<rparr>)"

lemma ex_unpacker_laws:
  "unpacker_laws ex_unpacker (\<lambda>u. u) (\<lambda>_. [1, 2]) (\<lambda>_. Some (store ex_packet)) {store ex_packet}"
  by (auto simp: unpacker_laws_def ex_unpacker_def append_eq_Cons_conv)

theorem file_round_trip_witness:
  "\<exists>f0 f1 c f2. begin_write False [] True True [] 100 (File_uri [] (empty_URI\<lparr>m_proto := SCHEME_FILE, m_path := ''a''\<rparr>) True) = Inr (True, f0)
     \<and> post_all (\<lambda>_. [1, 2]) [ex_packet, ex_packet] f0 = Inr f1 \<and> file_end f1 = (True, Some c, f2)
     \<and> (\<exists>f3 f4. file_open [''a'' \<mapsto> c] (File_uri [] (empty_URI\<lparr>m_proto := SCHEME_FILE, m_path := ''a''\<rparr>) False) = Inr (True, f3)
          \<and> read_packets ex_unpacker (\<lambda>_. Some (store ex_packet)) 3 f3
              = Some (Inr ([read_back ex_packet, read_back ex_packet], f4)))"
proof -
  have r: "recorded [ex_packet, ex_packet] = [store ex_packet, store ex_packet]"
    by (simp add: recorded_def ex_packet_def)
  have "unpacker_laws ex_unpacker (\<lambda>u. u) (\<lambda>_. [1, 2]) (\<lambda>_. Some (store ex_packet)) (set (recorded [ex_packet, ex_packet]))"
    using ex_unpacker_laws by (simp add: r)
  moreover have "packable (\<lambda>_. [1, 2]) (set (recorded [ex_packet, ex_packet]))"
    by (simp add: packable_def kReadSize_def)
  ultimately show ?thesis
    using file_round_trip [of ex_unpacker "\<lambda>u. u" "\<lambda>_. [1, 2]" "\<lambda>_. Some (store ex_packet)" "[ex_packet, ex_packet]"
        "empty_URI\<lparr>m_proto := SCHEME_FILE, m_path := ''a''\<rparr>" "''a''" False "[]" "[]" 3 "[]" 100 "[]"]
    by (simp add: r toFilePath_def validateFilename_def empty_URI_def) (simp add: ex_packet_def)
qed

section \<open>A packet that does not fit\<close>

text \<open>
  Once ten million bytes of an incomplete object are in the buffer, nothing more is read, and the loop does
  not end.
\<close>

lemma read_loop_hangs:
  assumes stuck: "\<And>v. P v \<Longrightarrow> kReadSize \<le> un_nonparsed un v \<and> (\<exists>v'. un_next un v = Inr (None, v') \<and> P v')"
    and f: "istream f = Some i" "P (buffer_in f)"
  shows "read_loop un conv part pp f = None"
proof -
  let ?Q = "\<lambda>un' conv' part' pp' f' r'. un' = un \<longrightarrow> istream f' = Some i \<longrightarrow> P (buffer_in f') \<longrightarrow> False"
  have "?Q un conv part pp f r" if "read_loop un conv part pp f = Some r" for r
  proof (rule read_loop.raw_induct [where P = ?Q, OF _ that], intro impI)
    fix rl un' conv' part' pp' f' r'
    assume IH: "\<And>un conv part pp f r. rl un conv part pp f = Some r \<Longrightarrow> ?Q un conv part pp f r"
      and body: "(case read_once un' conv' part' pp' f' of Loop_return r \<Rightarrow> Some r | Loop_again f'' \<Rightarrow> rl un' conv' True pp' f'') = Some r'"
      and f': "un' = un" "istream f' = Some i" "P (buffer_in f')"
    obtain v where v: "un_next un (buffer_in f') = Inr (None, v)" "P v" "kReadSize \<le> un_nonparsed un (buffer_in f')"
      using stuck f'(3) by blast
    then have "fill un part' i (buffer_in f') = Inr (True, i, buffer_in f')"
      by (simp add: fill_def kReadSize_def)
    then have "read_once un conv' part' pp' f' = Loop_again (f'\<lparr>istream := Some i, buffer_in := v\<rparr>)"
      using f' v by (simp add: read_once_def kReadSize_def)
    then show False
      using IH [of un conv' True pp' "f'\<lparr>istream := Some i, buffer_in := v\<rparr>" r'] body f'(1) v(2) by simp
  qed
  then show ?thesis using f by (cases "read_loop un conv part pp f") auto
qed

section \<open>The first pass over a file\<close>

definition spkt_of :: "stored \<Rightarrow> StreamPacket" where
  "spkt_of st = fst (Packer st new_Packet)"

text \<open>What the local variables of \<^verbatim>\<open>_checkFile\<close> become over the packets of a file.\<close>

fun check_times :: "stored list \<Rightarrow> int \<times> int \<times> int \<Rightarrow> int \<times> int \<times> int" where
  "check_times [] v = v"
| "check_times (q # qs) v = (if fst v \<le> 0 then v else check_times qs (note_time (spkt_of q) v))"

lemma check_times_bounds:
  assumes "0 < snd (snd v)" "snd (snd v) \<le> m" "check_times qs v = (count, ts, mind)"
  shows "0 < mind \<and> mind \<le> m \<and> fst v - int (length qs) \<le> count"
  using assms
proof (induction qs arbitrary: v)
  case (Cons q qs)
  show ?case
  proof (cases "fst v \<le> 0")
    case False
    have "0 < snd (snd (note_time (spkt_of q) v))" "snd (snd (note_time (spkt_of q) v)) \<le> m"
        "fst v - 1 \<le> fst (note_time (spkt_of q) v)"
      using Cons.prems(1,2) by (auto simp: note_time_def Let_def split: prod.splits)
    then show ?thesis
      using Cons.IH [of "note_time (spkt_of q) v"] Cons.prems(3) False by auto
  qed (use Cons.prems in auto)
qed auto

text \<open>
  The packets of the file among the outputs: those made by \<^verbatim>\<open>tick\<close> itself carry no capability, those read from
  the file are marked as recorded.
\<close>

definition sent_packets :: "stream_out list \<Rightarrow> PacketPair list" where
  "sent_packets outs = List.map_filter (\<lambda>x. case x of Out_packet s d \<Rightarrow> if hint_capability s \<noteq> 0 then Some (s, d) else None | _ \<Rightarrow> None) outs"

lemma sent_packets_append [simp]: "sent_packets (xs @ ys) = sent_packets xs @ sent_packets ys"
  by (simp add: sent_packets_def List.map_filter_def)

lemma sent_packets_simps [simp]:
  "sent_packets [] = []" "sent_packets [Out_available i c] = []"
  "sent_packets [Out_packet s d] = (if hint_capability s \<noteq> 0 then [(s, d)] else [])"
  by (simp_all add: sent_packets_def List.map_filter_def)

text \<open>The first pass changes the position in the file, the availability, and which framesets are known.\<close>

definition checked_from :: "'u File \<Rightarrow> 'u File \<Rightarrow> bool" where
  "checked_from f f' \<longleftrightarrow> f' = f\<lparr>istream := istream f', buffer_in := buffer_in f', file_base := file_base f',
       file_outs := file_outs f', file_framesets := file_framesets f'\<rparr>
     \<and> sent_packets (file_outs f') = sent_packets (file_outs f)
     \<and> (\<forall>k. fd_timestamp (frameset_of k (file_framesets f')) = fd_timestamp (frameset_of k (file_framesets f)))"

lemma frameset_of_set [simp]:
  "frameset_of k (set_frameset j d fm) = (if k = j then d else frameset_of k fm)"
  by (simp add: frameset_of_def set_frameset_def update_conv')

lemma checked_from_refl: "checked_from f f"
  by (simp add: checked_from_def)

lemma checked_from_trans: "checked_from f g \<Longrightarrow> checked_from g h \<Longrightarrow> checked_from f h"
  by (cases f; cases g; cases h) (simp add: checked_from_def)

lemma checked_from_fields:
  assumes "checked_from f f'"
  shows "file_uri f' = file_uri f" "file_data f' = file_data f" "num_read f' = num_read f" "file_jobs f' = file_jobs f" "looping f' = looping f"
  using assms by (cases f; cases f'; simp add: checked_from_def)+

lemma note_packet_ok:
  assumes "0 \<le> channel (fst pp)"
  obtains f' where "note_packet pp f = Inr f'" "checked_from f f'" "istream f' = istream f" "buffer_in f' = buffer_in f"
    "file_version f' = file_version f"
proof -
  obtain b t where s: "seen (packet_FrameID (fst pp)) (channel (fst pp)) (file_base f) = Inr (b, t)"
    using seen_frame_ok [OF assms, of "getState (packet_FrameID (fst pp)) (file_base f)"] by (auto simp: seen_def)
  show thesis
    by (rule that [where f' = "projr (note_packet pp f)"])
       (simp_all add: note_packet_def seen_out_def s Let_def checked_from_def)
qed

lemma check_loop_ok:
  assumes L: "unpacker_laws un held pack conv S" "packable pack S"
    and "set qs \<subseteq> S" "\<forall>q \<in> set qs. 0 \<le> channel (spkt_of q)" "reader_at un held pack c qs f"
  shows "\<exists>f' i. check_loop un conv v f = Some (Inr (check_times qs v, f')) \<and> checked_from f f' \<and> istream f' = Some i \<and> if_has c i"
  using assms(3-)
proof (induction qs arbitrary: f v)
  case Nil
  show ?case
  proof (cases "fst v \<le> 0")
    case True
    then show ?thesis
      using Nil.prems(3) by (subst check_loop.simps) (auto simp: reader_at_def checked_from_refl)
  next
    case False
    obtain i u where r: "readPacket un conv new_Packet f = Some (Inr (False, new_Packet, f\<lparr>istream := Some i, buffer_in := u\<rparr>))"
        "reader_at un held pack c [] (f\<lparr>istream := Some i, buffer_in := u\<rparr>)"
      using readPacket_end [OF L(1) Nil.prems(3)] by metis
    then show ?thesis
      using False by (subst check_loop.simps) (auto simp: check_once_def reader_at_def checked_from_def)
  qed
next
  case (Cons q qs)
  show ?case
  proof (cases "fst v \<le> 0")
    case True
    then show ?thesis
      using Cons.prems(3) by (subst check_loop.simps) (auto simp: reader_at_def checked_from_refl)
  next
    case False
    obtain i u where r: "readPacket un conv new_Packet f = Some (Inr (True, Packer q new_Packet, f\<lparr>istream := Some i, buffer_in := u\<rparr>))"
        "reader_at un held pack c qs (f\<lparr>istream := Some i, buffer_in := u\<rparr>)"
      using readPacket_next [OF L _ Cons.prems(3)] Cons.prems(1) by (metis list.set_intros(1) subsetD)
    let ?f1 = "f\<lparr>istream := Some i, buffer_in := u\<rparr>"
    obtain f2 where n: "note_packet (Packer q new_Packet) ?f1 = Inr f2" "checked_from ?f1 f2" "istream f2 = istream ?f1"
        "buffer_in f2 = buffer_in ?f1" "file_version f2 = file_version ?f1"
      using note_packet_ok [of "Packer q new_Packet" ?f1] Cons.prems(2) by (auto simp: spkt_of_def)
    have "checked_from f ?f1" by (simp add: checked_from_def)
    then have cf: "checked_from f f2" using n(2) by (rule checked_from_trans)
    have "reader_at un held pack c qs f2" using r(2) n(3-5) by (simp add: reader_at_def)
    then obtain f' i' where IH: "check_loop un conv (note_time (spkt_of q) v) f2 = Some (Inr (check_times qs (note_time (spkt_of q) v), f'))"
        "checked_from f2 f'" "istream f' = Some i'" "if_has c i'"
      using Cons.IH [of f2 "note_time (spkt_of q) v"] Cons.prems(1,2) by auto
    then show ?thesis
      using False r(1) n(1) checked_from_trans [OF cf IH(2)]
      by (subst check_loop.simps) (simp add: check_once_def spkt_of_def)
  qed
qed

text \<open>The bytes of a file with the packets \<open>qs\<close>.\<close>

definition recording :: "u8 list \<Rightarrow> (stored \<Rightarrow> u8 list) \<Rightarrow> stored list \<Rightarrow> u8 list" where
  "recording g pack qs = Header @ IndexHeader g @ concat (map pack qs)"

lemma reader_at_start:
  assumes "unpacker_laws un held pack conv S" "held (buffer_in f) = []"
    "toFilePath (file_uri f) = Inr path" "fs path = Some (recording g pack qs)"
    "istream f = None \<or> (\<exists>i. istream f = Some i \<and> if_has (recording g pack qs) i)"
  obtains i where "file_open fs f = Inr (True, f\<lparr>istream := Some i, file_version := 5\<rparr>)" "if_good i"
    "reader_at un held pack (recording g pack qs) qs (f\<lparr>istream := Some i, file_version := 5\<rparr>)"
proof -
  obtain i where o: "file_open fs f = Inr (True, f\<lparr>istream := Some i, file_version := 5\<rparr>)" "if_good i"
      "if_rest i = concat (map pack qs)" "if_has (recording g pack qs) i"
    using open_recording [OF assms(3), of fs g "concat (map pack qs)"] assms(4,5) by (auto simp: recording_def)
  moreover have "un_nonparsed un (buffer_in f) \<le> length (held (buffer_in f))" using assms(1) by (simp add: unpacker_laws_def)
  ultimately show thesis
    using assms(2) by (intro that [of i]) (simp_all add: reader_at_def)
qed

lemma checkFile_recording:
  assumes L: "unpacker_laws un held pack conv S" "packable pack S" "set qs \<subseteq> S" "\<forall>q \<in> set qs. 0 \<le> channel (spkt_of q)"
    and f: "held (buffer_in f) = []" "toFilePath (file_uri f) = Inr path" "fs path = Some (recording g pack qs)" "istream f = None"
  obtains f1 i where "checkFile un conv fs f = Some (Inr (True, check_result un (check_times qs (1000, - 1000, 1000)) f1))"
    "checked_from (f\<lparr>file_version := 5, first_ts := 10000000000000\<rparr>) f1" "istream f1 = Some i" "if_has (recording g pack qs) i"
proof -
  obtain i where o: "file_open fs f = Inr (True, f\<lparr>istream := Some i, file_version := 5\<rparr>)"
      "reader_at un held pack (recording g pack qs) qs (f\<lparr>istream := Some i, file_version := 5\<rparr>)"
    using reader_at_start [OF L(1), of f path fs g qs] f by metis
  let ?f1 = "f\<lparr>istream := Some i, file_version := 5, first_ts := 10000000000000\<rparr>"
  have "reader_at un held pack (recording g pack qs) qs ?f1" using o(2) by (simp add: reader_at_def)
  then obtain f' i' where c: "check_loop un conv (1000, - 1000, 1000) ?f1 = Some (Inr (check_times qs (1000, - 1000, 1000), f'))"
      "checked_from ?f1 f'" "istream f' = Some i'" "if_has (recording g pack qs) i'"
    using check_loop_ok [OF L] by blast
  have "checked_from (f\<lparr>file_version := 5, first_ts := 10000000000000\<rparr>) ?f1" by (simp add: checked_from_def)
  then show thesis
    using that [OF _ checked_from_trans [OF _ c(2)] c(3,4)] c(1) o(1) by (simp add: checkFile_def)
qed

text \<open>
  Checking a recording succeeds and finds a frame rate between 1 and 1000 frames a second. A recording with
  fewer than 992 packets is taken to be a static file, whatever it holds, and looping is turned off for it.
\<close>

theorem short_recording_static:
  assumes L: "unpacker_laws un held pack conv (set qs)" "packable pack (set qs)" "\<forall>q \<in> set qs. 0 \<le> channel (spkt_of q)"
    and f: "held (buffer_in f) = []" "toFilePath (file_uri f) = Inr path" "istream f = None"
  shows "\<exists>f'. isValid un conv [path \<mapsto> recording g pack qs] f = Some (Inr (True, f'))
     \<and> 1 \<le> framerate f' \<and> framerate f' \<le> 1000 \<and> framerate f' = 1000 div interval f'
     \<and> (length qs < 992 \<longrightarrow> \<not> is_video f' \<and> \<not> looping f')"
proof -
  obtain f1 where c: "checkFile un conv [path \<mapsto> recording g pack qs] f
      = Some (Inr (True, check_result un (check_times qs (1000, - 1000, 1000)) f1))"
    using checkFile_recording [OF L(1,2) order.refl L(3) f(1,2) _ f(3), of "[path \<mapsto> recording g pack qs]" g] by auto
  obtain count ts mind where v: "check_times qs (1000, - 1000, 1000) = (count, ts, mind)" by (rule prod_cases3)
  have B: "0 < mind" "mind \<le> 1000" "1000 - int (length qs) \<le> count"
    using check_times_bounds [OF _ _ v, of 1000] by simp_all
  have "1 \<le> 1000 div mind" using B pos_imp_zdiv_pos_iff [of mind 1000] by linarith
  moreover have "1000 div mind \<le> 1000" using B zdiv_mono2 [of 1000 1 mind] by simp
  ultimately show ?thesis
    using c v B by (auto simp: isValid_def check_result_def Let_def)
qed

theorem short_recording_static_witness:
  "\<exists>f'. isValid ex_unpacker (\<lambda>_. Some (store ex_packet)) [''a'' \<mapsto> recording [] (\<lambda>_. [1, 2]) [store ex_packet]]
       ((File_uri [] (empty_URI\<lparr>m_proto := SCHEME_FILE, m_path := ''a''\<rparr>) False)\<lparr>looping := True\<rparr>) = Some (Inr (True, f'))
     \<and> \<not> is_video f' \<and> \<not> looping f'"
proof -
  have "packable (\<lambda>_. [1, 2]) (set [store ex_packet])" by (simp add: packable_def kReadSize_def)
  moreover have "0 \<le> channel (spkt_of (store ex_packet))"
    by (simp add: spkt_of_def store_def Packer_def ex_packet_def new_StreamPacket_def StreamPacketMSGPACK_def)
  ultimately show ?thesis
    using short_recording_static [of ex_unpacker "\<lambda>u. u" "\<lambda>_. [1, 2]" "\<lambda>_. Some (store ex_packet)" "[store ex_packet]"
        "(File_uri [] (empty_URI\<lparr>m_proto := SCHEME_FILE, m_path := ''a''\<rparr>) False)\<lparr>looping := True\<rparr>" "''a''" "[]"] ex_unpacker_laws
    by (simp add: toFilePath_def File_uri_def new_File_def empty_URI_def) blast
qed

end
