(* ===== verification/FTL_Playback.thy ===== *)
theory FTL_Playback
  imports FTL_File "HOL-Library.Multiset"
begin

text \<open>
  Playback of a file stream: \<^verbatim>\<open>tick\<close>, the jobs it gives to the thread pool, \<^verbatim>\<open>begin\<close> and \<^verbatim>\<open>end\<close>
  (\<^verbatim>\<open>filestream.cpp\<close>).

  A tick first walks over the packets already read and hands those that are due to the pool, then reads
  ahead, then deals with the end of the file. The jobs run at any time after they are pushed; a job
  that has run has sent its packet and removed it from the list. Those that run before the tick ends
  are the argument \<open>early\<close>: as a job only touches its own list element, they are run at the one place
  where the tick looks at what is left.
\<close>

section \<open>Counting the packets of a frame\<close>

definition pad_counts :: "nat \<Rightarrow> int list \<Rightarrow> int list" where
  "pad_counts n cs = cs @ replicate (n - length cs) 0"

definition count_sent :: "PacketPair \<Rightarrow> FramesetData \<Rightarrow> FramesetData res" where
  "count_sent pp d =
     (let fn = unat (frame_number (fst pp)) in
      if fn < 255 then
        let cs = pad_counts (fn + 1) (packet_counts d) in
        Inr (d\<lparr>fd_frame_count := max (fd_frame_count d) (fn + unat (frame_count (snd pp))), packet_counts := cs[fn := cs ! fn + 1]\<rparr>)
      else
        let n = max (fd_frame_count d) 1; cs = pad_counts n (packet_counts d) in
        Inr (d\<lparr>fd_frame_count := n, packet_counts := cs[0 := cs ! 0 + 1]\<rparr>))"

text \<open>\<open>packet_counts[j]\<close> for the frames \<open>j\<close> below the frame count; out of range it has no meaning.\<close>

definition counts_upto :: "FramesetData \<Rightarrow> int list res" where
  "counts_upto d =
     (if fd_frame_count d \<le> length (packet_counts d) then Inr (take (fd_frame_count d) (packet_counts d)) else Inl Undefined_behaviour)"

definition reset_counts :: "FramesetData \<Rightarrow> FramesetData" where
  "reset_counts d = d\<lparr>packet_counts := replicate (fd_frame_count d) 0 @ drop (fd_frame_count d) (packet_counts d)\<rparr>"

text \<open>The end of frame jobs of one frameset.\<close>

definition endframe_jobs :: "u8 \<Rightarrow> FramesetData \<Rightarrow> (file_job list \<times> FramesetData) res" where
  "endframe_jobs sid d =
     (if needs_endframe d then
        res_bind (counts_upto d) (\<lambda>cs.
          Inr (map (\<lambda>j. Job_endframe (fd_timestamp d) sid j (cs ! j)) [0..<length cs], reset_counts d))
      else Inr ([], d))"

section \<open>Walking over the packets\<close>

text \<open>\<open>framesets_[i->streamID]\<close> with its time set to that of the first packet.\<close>

definition touch :: "PacketPair \<Rightarrow> (int \<times> FramesetData) list \<Rightarrow> FramesetData" where
  "touch pp fm =
     (let d = frameset_of (uint (streamID (fst pp))) fm in
      if fd_timestamp d = 0 then d\<lparr>fd_timestamp := timestamp (fst pp)\<rparr> else d)"

definition mark_sent :: "PacketPair \<Rightarrow> FramesetData \<Rightarrow> FramesetData res" where
  "mark_sent pp d =
     (let d1 = (if channel (fst pp) = kEndFrame then d\<lparr>needs_endframe := False\<rparr> else d) in
      if needs_endframe d1 then count_sent pp d1 else Inr d1)"

text \<open>
  The loop over \<^verbatim>\<open>data_\<close>: \<open>cc\<close> is \<^verbatim>\<open>complete_count\<close>, \<open>kept\<close> the packets passed, \<open>js\<close> the jobs pushed so far. The
  last branch starts the next frame of a frameset and looks at the same packet again.
\<close>

function scan :: "int \<Rightarrow> nat \<Rightarrow> (nat \<times> PacketPair) list \<Rightarrow> (nat \<times> PacketPair) list \<Rightarrow> (int \<times> FramesetData) list \<Rightarrow> file_job list
    \<Rightarrow> ((nat \<times> PacketPair) list \<times> (int \<times> FramesetData) list \<times> file_job list) res" where
  "scan ts cc kept [] fm js = Inr (kept, fm, js)"
| "scan ts cc kept (e # rest) fm js =
     (let pp = snd e; k = uint (streamID (fst pp)); d = touch pp fm; fm1 = set_frameset k d fm in
      if timestamp (fst pp) > ts then Inr (kept @ e # rest, fm1, js)
      else if timestamp (fst pp) < fd_timestamp d then scan ts cc kept rest fm1 js
      else if timestamp (fst pp) = fd_timestamp d then
        (case mark_sent pp d of
           Inl x \<Rightarrow> Inl x
         | Inr d1 \<Rightarrow> scan ts cc (kept @ [e]) rest (set_frameset k d1 fm1) (js @ [Job_packet (fst e)]))
      else
        (case endframe_jobs (streamID (fst pp)) d of
           Inl x \<Rightarrow> Inl x
         | Inr (ej, d1) \<Rightarrow>
            (let fm2 = set_frameset k (d1\<lparr>fd_timestamp := timestamp (fst pp)\<rparr>) fm1 in
             if cc + 1 = length fm2 then Inr (kept @ e # rest, fm2, js @ ej)
             else scan ts (cc + 1) kept (e # rest) fm2 (js @ ej))))"
  by pat_completeness auto

text \<open>A packet is looked at twice at most.\<close>

termination scan
  by (relation "measure (\<lambda>(ts, cc, kept, rest, fm, js). 2 * length rest
        + (case rest of [] \<Rightarrow> 0 | e # _ \<Rightarrow> if fd_timestamp (touch (snd e) fm) = timestamp (fst (snd e)) then 0 else 1))")
     (auto simp: touch_def Let_def split: list.splits)

section \<open>Jobs\<close>

text \<open>The packet of \<open>Job_endframe\<close>; its counter has one byte.\<close>

definition endframe_packet :: "int \<Rightarrow> u8 \<Rightarrow> nat \<Rightarrow> int \<Rightarrow> PacketPair" where
  "endframe_packet ts sid j pcount =
     (new_StreamPacket\<lparr>timestamp := ts, streamID := sid, flags := 0, channel := kEndFrame, frame_number := of_nat j\<rparr>,
      default_DataPacket\<lparr>bitrate := 255, codec := codec_kInvalid, frame_count := 1, dataFlags := word_of_int (pcount + 1)\<rparr>)"

definition file_trigger :: "PacketPair \<Rightarrow> 'u File \<Rightarrow> 'u File" where
  "file_trigger pp f = f\<lparr>file_outs := file_outs f @ [Out_packet (fst pp) (snd pp)]\<rparr>"

definition send_packet :: "nat \<Rightarrow> 'u File \<Rightarrow> 'u File" where
  "send_packet n f =
     (case map_of (file_data f) n of
        None \<Rightarrow> f
      | Some (s, d) \<Rightarrow> (file_trigger (s\<lparr>localTimestamp := timestamp s\<rparr>, d) f)
          \<lparr>file_data := filter (\<lambda>e. fst e \<noteq> n) (file_data f)\<rparr>)"

fun run_file_job :: "file_job \<Rightarrow> 'u File \<Rightarrow> 'u File" where
  "run_file_job (Job_packet n) f = send_packet n f"
| "run_file_job (Job_endframe ts sid j c) f = file_trigger (endframe_packet ts sid j c) f"

definition do_file_job :: "nat \<Rightarrow> 'u File \<Rightarrow> 'u File" where
  "do_file_job i f =
     (if i < length (file_jobs f)
      then (run_file_job (file_jobs f ! i) f)\<lparr>file_jobs := take i (file_jobs f) @ drop (Suc i) (file_jobs f)\<rparr>
      else f)"

text \<open>\<^verbatim>\<open>jobs_\<close> counts the jobs that send a packet of the list, not those that send an end of frame.\<close>

definition jobs_count :: "'u File \<Rightarrow> nat" where
  "jobs_count f = length (filter (\<lambda>j. case j of Job_packet _ \<Rightarrow> True | _ \<Rightarrow> False) (file_jobs f))"

section \<open>Reading ahead\<close>

definition max_time :: "'u File \<Rightarrow> int" where
  "max_time f = fold (\<lambda>(k, d) m. max m (if fd_timestamp d \<le> 0 then timestart f else fd_timestamp d)) (file_framesets f) (- (2 ^ 63))"

definition adjust :: "'u File \<Rightarrow> FramesetData \<Rightarrow> PacketPair \<Rightarrow> PacketPair" where
  "adjust f d pp = ((fst pp)\<lparr>timestamp := timestamp (fst pp) - fd_first_ts d + timestart f,
     hint_capability := (if is_video f then 0 else kStreamCap_Static) OR kStreamCap_Recorded\<rparr>, snd pp)"

definition want_read :: "('u, 'o) unpacker \<Rightarrow> 'u File \<Rightarrow> bool" where
  "want_read un f \<longleftrightarrow> \<not> read_error f
     \<and> (file_active f \<and> (case istream f of None \<Rightarrow> False | Some i \<Rightarrow> if_good i) \<or> un_nonparsed un (buffer_in f) > 0)"

definition ahead_once :: "int \<Rightarrow> (bool \<times> PacketPair \<times> 'u File) res \<Rightarrow> ('u File res, 'u File) loop_step" where
  "ahead_once ext r = (case r of
     Inl e \<Rightarrow> Loop_return (Inl e)
   | Inr (False, pp, f) \<Rightarrow> Loop_return (Inr (f\<lparr>read_error := True\<rparr>))
   | Inr (True, pp, f) \<Rightarrow>
      (let k = uint (streamID (fst pp)); d = frameset_of k (file_framesets f); pp' = adjust f d pp;
           f1 = f\<lparr>file_framesets := set_frameset k d (file_framesets f), file_data := file_data f @ [(num_read f, pp')],
                  num_read := num_read f + 1\<rparr> in
       if timestamp (fst pp') > ext then Loop_return (Inr f1) else Loop_again f1))"

partial_function (option) read_ahead :: "('u, 'o) unpacker \<Rightarrow> ('o \<Rightarrow> stored option) \<Rightarrow> int \<Rightarrow> 'u File \<Rightarrow> 'u File res option" where
  "read_ahead un conv ext f =
     (if \<not> want_read un f then Some (Inr f)
      else Option.bind (readPacket un conv new_Packet f) (\<lambda>r.
        case ahead_once ext r of
          Loop_return x \<Rightarrow> Some x
        | Loop_again f' \<Rightarrow> read_ahead un conv ext f'))"

section \<open>The end of the file\<close>

text \<open>\<open>keys\<close> is the order in which the hash table of framesets is traversed.\<close>

definition force_endframe :: "int \<Rightarrow> 'u File \<Rightarrow> 'u File res" where
  "force_endframe k f =
     (let d = frameset_of k (file_framesets f) in
      if needs_endframe d then
        res_bind (counts_upto d) (\<lambda>cs.
          let f1 = fold (\<lambda>j. file_trigger (endframe_packet (fd_timestamp d) (word_of_int k) j (cs ! j))) [0..<length cs] f in
          Inr (f1\<lparr>file_framesets := set_frameset k (reset_counts (d\<lparr>needs_endframe := False\<rparr>)) (file_framesets f)\<rparr>))
      else Inr f)"

fun force_endframes :: "int list \<Rightarrow> 'u File \<Rightarrow> 'u File res" where
  "force_endframes [] f = Inr f"
| "force_endframes (k # ks) f = res_bind (force_endframe k f) (force_endframes ks)"

definition restart :: "('u, 'o) unpacker \<Rightarrow> (string \<rightharpoonup> u8 list) \<Rightarrow> int \<Rightarrow> 'u File \<Rightarrow> 'u File res" where
  "restart un fs now f =
     res_bind (file_open fs (f\<lparr>buffer_in := un_reset un (buffer_in f)\<rparr>)) (\<lambda>(_, f1).
       Inr (f1\<lparr>read_error := False, timestart := now, file_framesets := map (\<lambda>(k, d). (k, d\<lparr>fd_timestamp := 0\<rparr>)) (file_framesets f1)\<rparr>))"

definition tick_end :: "('u, 'o) unpacker \<Rightarrow> (string \<rightharpoonup> u8 list) \<Rightarrow> int list \<Rightarrow> int \<Rightarrow> 'u File \<Rightarrow> (bool \<times> 'u File) res" where
  "tick_end un fs keys now f =
     res_bind (if file_data f = [] \<and> \<not> is_video f then force_endframes keys f else Inr f) (\<lambda>f1.
       if file_data f1 = [] \<and> looping f1 then res_bind (restart un fs now f1) (\<lambda>f2. Inr (True, f2))
       else Inr (file_data f1 \<noteq> [], f1))"

text \<open>
  \<^verbatim>\<open>tick\<close>. The jobs of earlier calls run between the calls or at one point of a call, after the packets are read
  (\<open>early\<close>). A job erases from the list under \<^verbatim>\<open>data_mutex_\<close>, while \<^verbatim>\<open>tick\<close> walks over the list without that lock: a job
  that runs during the walk is a data race, which has no defined behaviour and is not modelled.
\<close>

definition tick :: "('u, 'o) unpacker \<Rightarrow> ('o \<Rightarrow> stored option) \<Rightarrow> (string \<rightharpoonup> u8 list) \<Rightarrow> nat list \<Rightarrow> int list \<Rightarrow> int \<Rightarrow> int \<Rightarrow> 'u File
    \<Rightarrow> (bool \<times> 'u File) res option" where
  "tick un conv fs early keys now ts f =
     (if \<not> file_active f then Some (Inr (False, f))
      else if file_mode f \<noteq> Mode_Read then Some (Inr (False, f))
      else if jobs_count f > 0 then Some (Inr (True, f))
      else case scan ts 0 [] (file_data f) (file_framesets f) [] of
        Inl e \<Rightarrow> Some (Inl e)
      | Inr (l, fm, js) \<Rightarrow>
         (let f1 = f\<lparr>file_data := l, file_framesets := fm, file_jobs := file_jobs f @ js\<rparr> in
          Option.bind (read_ahead un conv (max_time f1 + 200) f1) (\<lambda>r.
            Some (res_bind r (\<lambda>f2. tick_end un fs keys now (fold do_file_job early f2))))))"

section \<open>Beginning and ending\<close>

text \<open>The branch of \<^verbatim>\<open>begin\<close> for reading; the first \<^verbatim>\<open>tick\<close> is part of it. The thread of \<^verbatim>\<open>run\<close> then ticks for ever.\<close>

definition begin_read :: "('u, 'o) unpacker \<Rightarrow> ('o \<Rightarrow> stored option) \<Rightarrow> (string \<rightharpoonup> u8 list) \<Rightarrow> nat list \<Rightarrow> int list \<Rightarrow> int \<Rightarrow> 'u File
    \<Rightarrow> (bool \<times> 'u File) res option" where
  "begin_read un conv fs early keys now f =
     Option.bind (if checked f then Some (Inr (True, f)) else checkFile un conv fs f) (\<lambda>r.
       case r of
         Inl e \<Rightarrow> Some (Inl e)
       | Inr (ok, f1) \<Rightarrow>
          if \<not> ok then Some (Inr (False, f1))
          else case file_open fs f1 of
            Inl e \<Rightarrow> Some (Inl e)
          | Inr (_, f2) \<Rightarrow>
             Option.bind (tick un conv fs early keys now now (f2\<lparr>timestart := now, file_active := True, read_error := False\<rparr>)) (\<lambda>t.
               Some (res_bind t (\<lambda>(_, f3). Inr (True, f3)))))"

definition file_begin :: "('u, 'o) unpacker \<Rightarrow> ('o \<Rightarrow> stored option) \<Rightarrow> (string \<rightharpoonup> u8 list) \<Rightarrow> nat list \<Rightarrow> int list
    \<Rightarrow> bool \<Rightarrow> string \<Rightarrow> bool \<Rightarrow> bool \<Rightarrow> u8 list \<Rightarrow> int \<Rightarrow> 'u File \<Rightarrow> (bool \<times> 'u File) res option" where
  "file_begin un conv fs early keys ex ext can_open ok garbage now f =
     (if file_active f then Some (Inr (True, f))
      else case file_mode f of
        Mode_Read \<Rightarrow> begin_read un conv fs early keys now f
      | Mode_Write \<Rightarrow> Some (begin_write ex ext can_open ok garbage now f)
      | Mode_ReadWrite \<Rightarrow> Some (Inr (True, f)))"

text \<open>The sleep of the thread of \<^verbatim>\<open>run\<close> after a tick that took \<open>used\<close> milliseconds.\<close>

definition run_sleep :: "int \<Rightarrow> 'u File \<Rightarrow> int" where
  "run_sleep used f = max 1 (interval f - used)"

section \<open>Every packet is sent once\<close>

text \<open>The packet with number \<open>n\<close> of a file as it is sent: time and capability are adjusted when it is read.\<close>

definition played :: "'u File \<Rightarrow> stored \<Rightarrow> PacketPair" where
  "played f st = adjust f (frameset_of (uint (streamID (spkt_of st))) (file_framesets f)) (Packer st new_Packet)"

definition released :: "PacketPair \<Rightarrow> PacketPair" where
  "released pp = ((fst pp)\<lparr>localTimestamp := timestamp (fst pp)\<rparr>, snd pp)"

text \<open>Within each stream the packets of the file are in the order of their times.\<close>

definition in_order :: "stored list \<Rightarrow> bool" where
  "in_order qs \<longleftrightarrow> (\<forall>m n. m \<le> n \<and> n < length qs \<and> streamID (spkt_of (qs ! m)) = streamID (spkt_of (qs ! n))
     \<longrightarrow> timestamp (spkt_of (qs ! m)) \<le> timestamp (spkt_of (qs ! n)))"

abbreviation e_time :: "nat \<times> PacketPair \<Rightarrow> int" where
  "e_time e \<equiv> timestamp (fst (snd e))"

abbreviation e_stream :: "nat \<times> PacketPair \<Rightarrow> int" where
  "e_stream e \<equiv> uint (streamID (fst (snd e)))"

abbreviation fd_time :: "(int \<times> FramesetData) list \<Rightarrow> int \<Rightarrow> int" where
  "fd_time fm k \<equiv> fd_timestamp (frameset_of k fm)"

abbreviation fd_first :: "(int \<times> FramesetData) list \<Rightarrow> int \<Rightarrow> int" where
  "fd_first fm k \<equiv> fd_first_ts (frameset_of k fm)"

subsection \<open>The walk over the packets\<close>

lemma mark_sent_keeps: "mark_sent pp d = Inr d' \<Longrightarrow> fd_timestamp d' = fd_timestamp d \<and> fd_first_ts d' = fd_first_ts d"
  by (auto simp: mark_sent_def count_sent_def Let_def split: if_splits)

lemma endframe_jobs_keeps:
  "endframe_jobs sid d = Inr (ej, d') \<Longrightarrow> fd_first_ts d' = fd_first_ts d \<and> Job_packet j \<notin> set ej"
  by (auto simp: endframe_jobs_def counts_upto_def reset_counts_def split: if_splits)

lemma touch_keeps:
  "fd_first_ts (touch pp fm) = fd_first fm (uint (streamID (fst pp)))"
  "fd_timestamp (touch pp fm) = (if fd_time fm (uint (streamID (fst pp))) = 0 then timestamp (fst pp) else fd_time fm (uint (streamID (fst pp))))"
  by (simp_all add: touch_def Let_def)

text \<open>The times of the framesets after looking at the packet \<open>e\<close>.\<close>

definition moves :: "nat \<times> PacketPair \<Rightarrow> (int \<times> FramesetData) list \<Rightarrow> (int \<times> FramesetData) list \<Rightarrow> bool" where
  "moves e fm fm' \<longleftrightarrow> (\<forall>k. fd_first fm' k = fd_first fm k)
     \<and> (\<forall>k. fd_time fm' k = fd_time fm k \<or> k = e_stream e \<and> fd_time fm' k = e_time e)"

definition not_past :: "(int \<times> FramesetData) list \<Rightarrow> nat \<times> PacketPair \<Rightarrow> bool" where
  "not_past fm e \<longleftrightarrow> fd_time fm (e_stream e) = 0 \<or> fd_time fm (e_stream e) \<le> e_time e"

text \<open>What the walk over \<open>rest\<close> does: the jobs \<open>ej\<close> are for packets that are due, and no other packet is late afterwards.\<close>

definition scan_post :: "int \<Rightarrow> (nat \<times> PacketPair) list \<Rightarrow> (int \<times> FramesetData) list \<Rightarrow> file_job list \<Rightarrow> (int \<times> FramesetData) list \<Rightarrow> bool" where
  "scan_post ts rest fm ej fm' \<longleftrightarrow> (\<forall>k. fd_first fm' k = fd_first fm k)
    \<and> (\<forall>j. Job_packet j \<in> set ej \<longrightarrow> (\<exists>e \<in> set rest. fst e = j \<and> e_time e \<le> ts))
    \<and> (\<forall>e \<in> set rest. Job_packet (fst e) \<in> set ej \<or> not_past fm' e)
    \<and> (\<forall>k. fd_time fm' k = fd_time fm k \<or> (\<exists>e \<in> set rest. e_stream e = k \<and> fd_time fm' k = e_time e))"

abbreviation times_sorted :: "(nat \<times> PacketPair) list \<Rightarrow> bool" where
  "times_sorted \<equiv> sorted_wrt (\<lambda>e e'. e_stream e = e_stream e' \<longrightarrow> e_time e \<le> e_time e')"

lemma moves_not_past:
  assumes "moves e fm fm'" "times_sorted (e # rest)" "\<forall>e' \<in> set (e # rest). not_past fm e'" "e' \<in> set (e # rest)"
  shows "not_past fm' e'"
proof -
  have "fd_time fm' (e_stream e') = fd_time fm (e_stream e') \<or> e_stream e' = e_stream e \<and> fd_time fm' (e_stream e') = e_time e"
    using assms(1) unfolding moves_def by blast
  moreover have "e_stream e' = e_stream e \<Longrightarrow> e_time e \<le> e_time e'" using assms(2,4) by auto
  moreover have "not_past fm e'" using assms(3,4) by blast
  ultimately show ?thesis unfolding not_past_def by auto
qed

lemma scan_post_stop:
  assumes "moves e fm fm'" "\<forall>e' \<in> set (e # rest). not_past fm' e'" "\<forall>j. Job_packet j \<notin> set ej"
  shows "scan_post ts (e # rest) fm ej fm'"
proof -
  have "\<forall>k. fd_time fm' k = fd_time fm k \<or> (\<exists>e' \<in> set (e # rest). e_stream e' = k \<and> fd_time fm' k = e_time e')"
    using assms(1) unfolding moves_def by (metis list.set_intros(1))
  moreover have "\<forall>k. fd_first fm' k = fd_first fm k" using assms(1) by (simp add: moves_def)
  ultimately show ?thesis using assms(2,3) unfolding scan_post_def by blast
qed

lemma scan_post_due:
  assumes "moves e fm fm2" "scan_post ts rest fm2 ej fm'" "e_time e \<le> ts"
  shows "scan_post ts (e # rest) fm (Job_packet (fst e) # ej) fm'"
proof -
  have "\<forall>k. fd_time fm' k = fd_time fm k \<or> (\<exists>e' \<in> set (e # rest). e_stream e' = k \<and> fd_time fm' k = e_time e')"
    using assms(1,2) unfolding moves_def scan_post_def by (metis list.set_intros)
  moreover have "\<forall>k. fd_first fm' k = fd_first fm k"
    using assms(1,2) by (simp add: moves_def scan_post_def)
  ultimately show ?thesis
    using assms(2,3) unfolding scan_post_def by (metis file_job.inject(1) list.set_intros set_ConsD)
qed

lemma scan_post_again:
  assumes "moves e fm fm2" "scan_post ts (e # rest) fm2 ej' fm'" "\<forall>j. Job_packet j \<notin> set ej"
  shows "scan_post ts (e # rest) fm (ej @ ej') fm'"
proof -
  have "\<forall>k. fd_time fm' k = fd_time fm k \<or> (\<exists>e' \<in> set (e # rest). e_stream e' = k \<and> fd_time fm' k = e_time e')"
    using assms(1,2) unfolding moves_def scan_post_def by (metis list.set_intros(1))
  moreover have "\<forall>k. fd_first fm' k = fd_first fm k"
    using assms(1,2) by (simp add: moves_def scan_post_def)
  ultimately show ?thesis
    using assms(2,3) unfolding scan_post_def by (metis Un_iff set_append)
qed

lemma scan_keeps:
  assumes "scan ts cc kept rest fm js = Inr (l, fm', js')" "times_sorted rest" "\<forall>e \<in> set rest. not_past fm e"
  shows "l = kept @ rest \<and> (\<exists>ej. js' = js @ ej \<and> scan_post ts rest fm ej fm')"
  using assms
proof (induction ts cc kept rest fm js rule: scan.induct)
  case (1 ts cc kept fm js)
  then show ?case by (simp add: scan_post_def)
next
  case (2 ts cc kept e rest fm js)
  let ?pp = "snd e" and ?k = "e_stream e" and ?d = "touch (snd e) fm"
  let ?fm1 = "set_frameset ?k ?d fm"
  have low: "fd_timestamp ?d \<le> e_time e"
    using 2(6) by (auto simp: touch_keeps not_past_def)
  have mv1: "moves e fm ?fm1" by (simp add: moves_def touch_keeps)
  consider (late) "e_time e > ts" | (due) "e_time e \<le> ts" "e_time e = fd_timestamp ?d" | (next_frame) "e_time e \<le> ts" "e_time e > fd_timestamp ?d"
    using low by linarith
  then show ?case
  proof cases
    case late
    then have "l = kept @ e # rest \<and> fm' = ?fm1 \<and> js' = js @ []" using 2(4) by (simp add: Let_def)
    then show ?thesis
      using scan_post_stop [OF mv1] moves_not_past [OF mv1 2(5,6)] by (metis empty_iff list.set(1))
  next
    case due
    then obtain d1 where m: "mark_sent ?pp ?d = Inr d1"
      and sc: "scan ts cc (kept @ [e]) rest (set_frameset ?k d1 ?fm1) (js @ [Job_packet (fst e)]) = Inr (l, fm', js')"
      using 2(4) by (auto simp: Let_def split: sum.splits)
    have mv2: "moves e fm (set_frameset ?k d1 ?fm1)"
      using mark_sent_keeps [OF m] by (simp add: moves_def touch_keeps)
    have "\<forall>e' \<in> set rest. not_past (set_frameset ?k d1 ?fm1) e'" using moves_not_past [OF mv2 2(5,6)] by simp
    then obtain ej where "l = kept @ e # rest" "js' = js @ Job_packet (fst e) # ej" "scan_post ts rest (set_frameset ?k d1 ?fm1) ej fm'"
      using 2(2) [OF refl refl refl refl _ _ due(2) m sc] 2(5) due by auto
    then show ?thesis using scan_post_due [OF mv2 _ due(1)] by metis
  next
    case next_frame
    then obtain ej d1 where m: "endframe_jobs (streamID (fst ?pp)) ?d = Inr (ej, d1)"
      using 2(4) by (auto simp: Let_def split: sum.splits)
    note d1 = endframe_jobs_keeps [OF m]
    let ?fm2 = "set_frameset ?k (d1\<lparr>fd_timestamp := e_time e\<rparr>) ?fm1"
    have mv2: "moves e fm ?fm2" using d1 by (simp add: moves_def touch_keeps)
    note low2 = moves_not_past [OF mv2 2(5,6)]
    show ?thesis
    proof (cases "cc + 1 = length ?fm2")
      case True
      then have "l = kept @ e # rest \<and> fm' = ?fm2 \<and> js' = js @ ej" using 2(4) m next_frame by (simp add: Let_def)
      then show ?thesis using scan_post_stop [OF mv2] low2 d1 by metis
    next
      case False
      then have sc: "scan ts (cc + 1) kept (e # rest) ?fm2 (js @ ej) = Inr (l, fm', js')"
        using 2(4) m next_frame by (simp add: Let_def)
      obtain ej' where "l = kept @ e # rest" "js' = js @ (ej @ ej')" "scan_post ts (e # rest) ?fm2 ej' fm'"
        using 2(3) [OF refl refl refl refl _ _ _ m refl refl False sc 2(5)] low2 next_frame by auto
      then show ?thesis using scan_post_again [OF mv2] d1 by metis
    qed
  qed
qed

subsection \<open>The invariant of playback\<close>

text \<open>What stays as it was when playback began, and what has been read.\<close>

definition play_base :: "('u, 'o) unpacker \<Rightarrow> ('u \<Rightarrow> u8 list) \<Rightarrow> (stored \<Rightarrow> u8 list) \<Rightarrow> u8 list \<Rightarrow> stored list \<Rightarrow> 'u File \<Rightarrow> 'u File \<Rightarrow> bool" where
  "play_base un held pack c qs f0 f \<longleftrightarrow>
     timestart f = timestart f0 \<and> is_video f = is_video f0 \<and> \<not> looping f \<and> (\<forall>k. fd_first (file_framesets f) k = fd_first (file_framesets f0) k)
     \<and> reader_at un held pack c (drop (num_read f) qs) f \<and> num_read f \<le> length qs \<and> (read_error f \<longrightarrow> num_read f = length qs)"

text \<open>The packets in the list are the ones with their numbers; together with those sent they are all that were read.\<close>

definition play_data :: "stored list \<Rightarrow> 'u File \<Rightarrow> 'u File \<Rightarrow> bool" where
  "play_data qs f0 f \<longleftrightarrow>
     sorted_wrt (<) (map fst (file_data f)) \<and> (\<forall>e \<in> set (file_data f). fst e < num_read f \<and> snd e = played f0 (qs ! fst e))
     \<and> mset (sent_packets (file_outs f)) + mset (map (\<lambda>e. released (snd e)) (file_data f))
        = mset (map (\<lambda>n. released (played f0 (qs ! n))) [0..<num_read f])"

text \<open>Nothing is sent before its time, and the time of a frameset is not past a packet that waits.\<close>

definition waits :: "nat \<Rightarrow> 'u File \<Rightarrow> bool" where
  "waits j f \<longleftrightarrow> num_read f \<le> j \<or> j \<in> fst ` set (file_data f) \<and> Job_packet j \<notin> set (file_jobs f)"

definition play_time :: "stored list \<Rightarrow> 'u File \<Rightarrow> int \<Rightarrow> 'u File \<Rightarrow> bool" where
  "play_time qs f0 t f \<longleftrightarrow>
     (\<forall>pp \<in> set (sent_packets (file_outs f)). timestamp (fst pp) \<le> t)
     \<and> (\<forall>j. Job_packet j \<in> set (file_jobs f) \<longrightarrow> j < num_read f \<and> timestamp (fst (played f0 (qs ! j))) \<le> t)
     \<and> (\<forall>j < length qs. waits j f \<longrightarrow> (let x = fd_time (file_framesets f) (uint (streamID (spkt_of (qs ! j)))) in
          x = 0 \<or> x \<le> timestamp (fst (played f0 (qs ! j)))))"

lemma adjust_cong:
  "timestart f = timestart g \<Longrightarrow> is_video f = is_video g \<Longrightarrow> fd_first_ts d = fd_first_ts e \<Longrightarrow> adjust f d pp = adjust g e pp"
  by (simp add: adjust_def)

lemma played_streamID [simp]: "streamID (fst (played f st)) = streamID (spkt_of st)"
  by (simp add: played_def adjust_def spkt_of_def)

lemma played_hint: "hint_capability (fst (played f st)) \<noteq> 0"
  by (simp add: played_def adjust_def kStreamCap_Static_def kStreamCap_Recorded_def)

lemma played_order:
  assumes "in_order qs" "m \<le> n" "n < length qs" "streamID (spkt_of (qs ! m)) = streamID (spkt_of (qs ! n))"
  shows "timestamp (fst (played f (qs ! m))) \<le> timestamp (fst (played f (qs ! n)))"
  using assms unfolding in_order_def by (fastforce simp: played_def adjust_def spkt_of_def)

subsection \<open>Jobs\<close>

lemma run_endframe_job [simp]:
  "sent_packets (file_outs (file_trigger (endframe_packet ts sid j cnt) f)) = sent_packets (file_outs f)"
  by (simp add: file_trigger_def endframe_packet_def new_StreamPacket_def)

lemma set_remove_nth: "i < length xs \<Longrightarrow> x \<in> set xs \<Longrightarrow> x \<noteq> xs ! i \<Longrightarrow> x \<in> set (take i xs @ drop (Suc i) xs)"
  by (metis Un_iff append_take_drop_id Cons_nth_drop_Suc set_ConsD set_append)

lemma set_remove_nth_sub: "set (take i xs @ drop (Suc i) xs) \<subseteq> set xs"
  by (auto dest: in_set_takeD in_set_dropD)

text \<open>Removing the one element with a number from the list.\<close>

lemma mset_remove_key:
  assumes "distinct (map fst xs)" "map_of xs n = Some v"
  shows "mset (map g xs) = add_mset (g (n, v)) (mset (map g (filter (\<lambda>e. fst e \<noteq> n) xs)))"
  using assms
proof (induction xs)
  case (Cons x xs)
  show ?case
  proof (cases "fst x = n")
    case True
    then have "filter (\<lambda>e. fst e \<noteq> n) xs = xs"
      using Cons.prems(1) by (auto simp: filter_id_conv rev_image_eqI)
    then show ?thesis using True Cons.prems(2) by (cases x) simp
  next
    case False
    then show ?thesis using Cons by (cases x) simp
  qed
qed simp

lemma do_file_job_base: "play_base un held pack c qs f0 f \<Longrightarrow> play_base un held pack c qs f0 (do_file_job i f)"
  by (cases "file_jobs f ! i")
     (auto simp: do_file_job_def play_base_def reader_at_def send_packet_def file_trigger_def split: option.splits)

lemma do_file_job_data:
  assumes "play_data qs f0 f"
  shows "play_data qs f0 (do_file_job i f)"
proof (cases "i < length (file_jobs f)")
  case True
  show ?thesis
  proof (cases "file_jobs f ! i")
    case (Job_packet n)
    show ?thesis
    proof (cases "map_of (file_data f) n")
      case None
      then show ?thesis using assms True Job_packet by (simp add: do_file_job_def send_packet_def play_data_def)
    next
      case (Some pp)
      then have "(n, pp) \<in> set (file_data f)" by (rule map_of_SomeD)
      then have pp: "pp = played f0 (qs ! n)" using assms by (auto simp: play_data_def)
      have "distinct (map fst (file_data f))"
        using assms strict_sorted_iff by (auto simp: play_data_def)
      note mset_remove_key [OF this Some, of "\<lambda>e. released (snd e)"]
      moreover have "sorted_wrt (<) (map fst (filter (\<lambda>e. fst e \<noteq> n) (file_data f)))"
        using assms by (simp add: play_data_def sorted_wrt_map sorted_wrt_filter)
      moreover have "hint_capability (fst pp) \<noteq> 0" by (simp add: pp played_hint)
      ultimately show ?thesis
        using assms True Job_packet Some
        by (auto simp: do_file_job_def send_packet_def file_trigger_def play_data_def released_def split: prod.splits)
    qed
  next
    case (Job_endframe ts sid j cnt)
    then show ?thesis
      using assms True by (simp add: do_file_job_def play_data_def) (simp add: file_trigger_def)
  qed
qed (use assms in \<open>simp add: do_file_job_def\<close>)

lemma do_file_job_num [simp]: "num_read (do_file_job i f) = num_read f" "file_framesets (do_file_job i f) = file_framesets f"
  by (cases "file_jobs f ! i"; simp add: do_file_job_def send_packet_def file_trigger_def split: option.splits)+

lemma do_file_job_jobs: "set (file_jobs (do_file_job i f)) \<subseteq> set (file_jobs f)"
  using set_remove_nth_sub [of i "file_jobs f"] by (simp add: do_file_job_def)

text \<open>A packet that waits after a job has run was waits before.\<close>

lemma do_file_job_waits:
  assumes "waits j (do_file_job i f)"
  shows "waits j f"
proof (cases "i < length (file_jobs f)")
  case True
  have mem: "Job_packet j \<noteq> file_jobs f ! i \<Longrightarrow> Job_packet j \<in> set (file_jobs f) \<Longrightarrow> Job_packet j \<in> set (file_jobs (do_file_job i f))"
    using set_remove_nth [OF True] True by (simp add: do_file_job_def)
  have sub: "fst ` set (file_data (do_file_job i f)) \<subseteq> fst ` set (file_data f)"
    and no: "\<forall>n. file_jobs f ! i = Job_packet n \<longrightarrow> n \<notin> fst ` set (file_data (do_file_job i f))"
    using True by (cases "file_jobs f ! i";
      auto simp: do_file_job_def send_packet_def file_trigger_def map_of_eq_None_iff split: option.splits prod.splits)+
  show ?thesis
  proof (cases "num_read f \<le> j")
    case False
    then have j: "j \<in> fst ` set (file_data (do_file_job i f))" "Job_packet j \<notin> set (file_jobs (do_file_job i f))"
      using assms by (simp_all add: waits_def)
    then have "Job_packet j \<notin> set (file_jobs f)" using no mem by metis
    then show ?thesis using sub j(1) by (auto simp: waits_def)
  qed (simp add: waits_def)
qed (use assms in \<open>simp add: do_file_job_def\<close>)

text \<open>The packets sent by a job.\<close>

lemma do_file_job_sent:
  assumes "play_data qs f0 f" "pp \<in> set (sent_packets (file_outs (do_file_job i f)))"
  shows "pp \<in> set (sent_packets (file_outs f)) \<or>
     (\<exists>n. Job_packet n \<in> set (file_jobs f) \<and> timestamp (fst pp) = timestamp (fst (played f0 (qs ! n))))"
proof (cases "i < length (file_jobs f)")
  case True
  then have mem: "file_jobs f ! i \<in> set (file_jobs f)" by simp
  show ?thesis
  proof (cases "file_jobs f ! i")
    case (Job_packet n)
    show ?thesis
    proof (cases "map_of (file_data f) n")
      case None
      then show ?thesis using assms(2) True Job_packet by (simp add: do_file_job_def send_packet_def)
    next
      case (Some q)
      then have q: "q = played f0 (qs ! n)" using assms(1) map_of_SomeD [OF Some] by (auto simp: play_data_def)
      have "pp \<in> set (sent_packets (file_outs f)) \<or> timestamp (fst pp) = timestamp (fst q)"
        using assms(2) True Job_packet Some
        by (auto simp: do_file_job_def send_packet_def file_trigger_def split: prod.splits if_splits)
      then show ?thesis using q mem Job_packet by metis
    qed
  next
    case (Job_endframe ts sid j cnt)
    then show ?thesis using assms(2) True by (simp add: do_file_job_def)
  qed
qed (use assms in \<open>simp add: do_file_job_def\<close>)

lemma do_file_job_time:
  assumes "play_data qs f0 f" "play_time qs f0 t f"
  shows "play_time qs f0 t (do_file_job i f)"
  unfolding play_time_def
proof (intro conjI)
  show "\<forall>pp \<in> set (sent_packets (file_outs (do_file_job i f))). timestamp (fst pp) \<le> t"
    using do_file_job_sent [OF assms(1), of _ i] assms(2) unfolding play_time_def by metis
  show "\<forall>j. Job_packet j \<in> set (file_jobs (do_file_job i f)) \<longrightarrow> j < num_read (do_file_job i f) \<and> timestamp (fst (played f0 (qs ! j))) \<le> t"
    using assms(2) do_file_job_jobs [of i f] unfolding play_time_def by auto
  show "\<forall>j < length qs. waits j (do_file_job i f) \<longrightarrow> (let x = fd_time (file_framesets (do_file_job i f)) (uint (streamID (spkt_of (qs ! j)))) in
          x = 0 \<or> x \<le> timestamp (fst (played f0 (qs ! j))))"
    using assms(2) do_file_job_waits [of _ i f] unfolding play_time_def by simp
qed

text \<open>The three parts together, and any number of jobs.\<close>

definition play_inv :: "('u, 'o) unpacker \<Rightarrow> ('u \<Rightarrow> u8 list) \<Rightarrow> (stored \<Rightarrow> u8 list) \<Rightarrow> u8 list \<Rightarrow> stored list \<Rightarrow> 'u File \<Rightarrow> int \<Rightarrow> 'u File \<Rightarrow> bool" where
  "play_inv un held pack c qs f0 t f \<longleftrightarrow> play_base un held pack c qs f0 f \<and> play_data qs f0 f \<and> play_time qs f0 t f"

lemma do_file_job_inv: "play_inv un held pack c qs f0 t f \<Longrightarrow> play_inv un held pack c qs f0 t (do_file_job i f)"
  by (simp add: play_inv_def do_file_job_base do_file_job_data do_file_job_time)

lemma do_file_jobs_inv: "play_inv un held pack c qs f0 t f \<Longrightarrow> play_inv un held pack c qs f0 t (fold do_file_job is f)"
  by (induction "is" arbitrary: f) (simp_all add: do_file_job_inv)

subsection \<open>Reading ahead\<close>

lemma play_inv_position:
  assumes "play_inv un held pack c qs f0 t f" "reader_at un held pack c (drop (num_read f) qs) (f\<lparr>istream := i, buffer_in := u\<rparr>)"
  shows "play_inv un held pack c qs f0 t (f\<lparr>istream := i, buffer_in := u\<rparr>)"
  using assms by (simp add: play_inv_def play_base_def play_data_def play_time_def waits_def)

lemma ahead_once_inv:
  assumes I: "play_inv un held pack c qs f0 t f" and n: "num_read f < length qs"
    and r: "reader_at un held pack c (drop (Suc (num_read f)) qs) (f\<lparr>istream := i, buffer_in := u\<rparr>)"
    and a: "ahead_once ext (Inr (True, Packer (qs ! num_read f) new_Packet, f\<lparr>istream := i, buffer_in := u\<rparr>)) = st"
    and st: "st = Loop_return (Inr f') \<or> st = Loop_again f'"
  shows "play_inv un held pack c qs f0 t f'"
proof -
  let ?q = "qs ! num_read f" and ?f = "f\<lparr>istream := i, buffer_in := u\<rparr>"
  let ?k = "uint (streamID (spkt_of ?q))"
  let ?d = "frameset_of ?k (file_framesets f)"
  have pl: "adjust ?f ?d (Packer ?q new_Packet) = played f0 ?q"
    unfolding played_def using I by (intro adjust_cong) (simp_all add: play_inv_def play_base_def)
  let ?g = "?f\<lparr>file_framesets := set_frameset ?k ?d (file_framesets f), file_data := file_data f @ [(num_read f, played f0 ?q)], num_read := num_read f + 1\<rparr>"
  have f': "f' = ?g"
    using a st pl by (auto simp: ahead_once_def spkt_of_def Let_def split: if_splits)
  have fs: "frameset_of k (file_framesets ?g) = frameset_of k (file_framesets f)" for k by simp
  have "play_base un held pack c qs f0 ?g"
    using I r n fs by (auto simp: play_inv_def play_base_def reader_at_def)
  moreover have "play_data qs f0 ?g"
    using I by (auto simp: play_inv_def play_data_def sorted_wrt_append)
  moreover have "play_time qs f0 t ?g"
  proof -
    have "waits j ?g \<Longrightarrow> waits j f" for j by (auto simp: waits_def)
    then show ?thesis
      using I fs by (auto simp: play_inv_def play_time_def)
  qed
  ultimately show ?thesis by (simp add: f' play_inv_def)
qed

lemma read_ahead_inv:
  assumes L: "unpacker_laws un held pack conv (set qs)" "packable pack (set qs)"
    and r: "read_ahead un conv ext f = Some (Inr f')" and I: "play_inv un held pack c qs f0 t f"
  shows "play_inv un held pack c qs f0 t f'"
proof -
  let ?Q = "\<lambda>un' conv' ext' f (r :: exn + _). un' = un \<longrightarrow> conv' = conv \<longrightarrow> play_inv un held pack c qs f0 t f
      \<longrightarrow> (\<forall>f'. r = Inr f' \<longrightarrow> play_inv un held pack c qs f0 t f')"
  have "?Q un conv ext f (Inr f')"
  proof (rule read_ahead.raw_induct [where P = ?Q, OF _ r], intro impI allI)
    fix ra un' conv' ext' f r f'
    assume IH: "\<And>un conv ext f r. ra un conv ext f = Some r \<Longrightarrow> ?Q un conv ext f r"
      and body: "(if \<not> want_read un' f then Some (Inr f)
        else Option.bind (readPacket un' conv' new_Packet f) (\<lambda>r. case ahead_once ext' r of
          Loop_return x \<Rightarrow> Some x | Loop_again f' \<Rightarrow> ra un' conv' ext' f')) = Some r"
      and eq: "un' = un" "conv' = conv" and I: "play_inv un held pack c qs f0 t f" and r: "r = Inr f'"
    have ra: "reader_at un held pack c (drop (num_read f) qs) f" and nl: "num_read f \<le> length qs"
      using I by (simp_all add: play_inv_def play_base_def)
    show "play_inv un held pack c qs f0 t f'"
    proof (cases "want_read un f")
      case False
      then show ?thesis using body eq r I by simp
    next
      case True
      show ?thesis
      proof (cases "num_read f < length qs")
        case n: True
        then have d: "drop (num_read f) qs = qs ! num_read f # drop (Suc (num_read f)) qs" by (rule Cons_nth_drop_Suc [symmetric])
        obtain i u where rp: "readPacket un conv new_Packet f
              = Some (Inr (True, Packer (qs ! num_read f) new_Packet, f\<lparr>istream := Some i, buffer_in := u\<rparr>))"
            "reader_at un held pack c (drop (Suc (num_read f)) qs) (f\<lparr>istream := Some i, buffer_in := u\<rparr>)"
          using readPacket_next [OF L nth_mem [OF n] ra [unfolded d]] by metis
        note step = ahead_once_inv [OF I n rp(2) refl, of ext']
        show ?thesis
        proof (cases "ahead_once ext' (Inr (True, Packer (qs ! num_read f) new_Packet, f\<lparr>istream := Some i, buffer_in := u\<rparr>))")
          case (Loop_return x)
          then show ?thesis using body eq r True rp(1) step [of f'] by simp
        next
          case (Loop_again g)
          then have b: "ra un conv ext' g = Some r" using body eq True rp(1) by simp
          have "play_inv un held pack c qs f0 t g" using step [of g] Loop_again by simp
          then show ?thesis using IH [OF b] r by blast
        qed
      next
        case False
        then have e: "num_read f = length qs" using nl by simp
        obtain i u where rp: "readPacket un conv new_Packet f = Some (Inr (False, new_Packet, f\<lparr>istream := Some i, buffer_in := u\<rparr>))"
            "reader_at un held pack c [] (f\<lparr>istream := Some i, buffer_in := u\<rparr>)"
          using readPacket_end [OF L(1), of c f new_Packet] ra e by (metis drop_all order.refl)
        then have "f' = f\<lparr>istream := Some i, buffer_in := u, read_error := True\<rparr>"
          using body eq r True by (simp add: ahead_once_def)
        then show ?thesis
          using play_inv_position [OF I, of u "Some i"] rp(2) e
          by (simp add: play_inv_def play_base_def play_data_def play_time_def waits_def reader_at_def)
      qed
    qed
  qed
  then show ?thesis using I by blast
qed

subsection \<open>The tick\<close>

lemma file_trigger_fold:
  "fold (\<lambda>j. file_trigger (p j)) ns f = f\<lparr>file_outs := file_outs f @ map (\<lambda>j. Out_packet (fst (p j)) (snd (p j))) ns\<rparr>"
  by (induction ns arbitrary: f) (simp_all add: file_trigger_def)

lemma sent_packets_endframes:
  "sent_packets (map (\<lambda>j. Out_packet (fst (endframe_packet ts sid j (cs ! j))) (snd (endframe_packet ts sid j (cs ! j)))) ns) = []"
  by (simp add: sent_packets_def List.map_filter_def filter_empty_conv endframe_packet_def new_StreamPacket_def)

lemma play_inv_frame:
  assumes "play_inv un held pack c qs f0 t f" "sent_packets os = sent_packets (file_outs f)"
    "\<And>k. fd_first fm k = fd_first (file_framesets f) k" "\<And>k. fd_time fm k = fd_time (file_framesets f) k"
  shows "play_inv un held pack c qs f0 t (f\<lparr>file_outs := os, file_framesets := fm\<rparr>)"
  using assms by (simp add: play_inv_def play_base_def play_data_def play_time_def waits_def reader_at_def)

lemma force_endframe_inv:
  assumes "play_inv un held pack c qs f0 t f" "force_endframe k f = Inr f'"
  shows "play_inv un held pack c qs f0 t f'"
proof (cases "needs_endframe (frameset_of k (file_framesets f))")
  case True
  let ?d = "frameset_of k (file_framesets f)"
  let ?fm = "set_frameset k (reset_counts (?d\<lparr>needs_endframe := False\<rparr>)) (file_framesets f)"
  obtain cs where f': "f' = f\<lparr>file_outs := file_outs f @ map (\<lambda>j. Out_packet (fst (endframe_packet (fd_timestamp ?d) (word_of_int k) j (cs ! j)))
          (snd (endframe_packet (fd_timestamp ?d) (word_of_int k) j (cs ! j)))) [0..<length cs], file_framesets := ?fm\<rparr>"
    using assms(2) True by (auto simp: force_endframe_def res_bind_Inr Let_def file_trigger_fold)
  show ?thesis
    unfolding f' using assms(1) by (rule play_inv_frame) (simp_all add: sent_packets_endframes reset_counts_def)
qed (use assms in \<open>simp add: force_endframe_def\<close>)

lemma force_endframes_inv:
  "play_inv un held pack c qs f0 t f \<Longrightarrow> force_endframes ks f = Inr f' \<Longrightarrow> play_inv un held pack c qs f0 t f'"
  by (induction ks arbitrary: f) (auto simp: res_bind_Inr dest: force_endframe_inv)

lemma tick_end_inv:
  assumes I: "play_inv un held pack c qs f0 t f" and e: "tick_end un fs keys now f = Inr (b, f')"
  shows "play_inv un held pack c qs f0 t f'"
proof -
  obtain f1 where f1: "(if file_data f = [] \<and> \<not> is_video f then force_endframes keys f else Inr f) = Inr f1"
      "(if file_data f1 = [] \<and> looping f1 then res_bind (restart un fs now f1) (\<lambda>f2. Inr (True, f2)) else Inr (file_data f1 \<noteq> [], f1)) = Inr (b, f')"
    using e unfolding tick_end_def res_bind_Inr by blast
  have I1: "play_inv un held pack c qs f0 t f1"
    using f1(1) I force_endframes_inv by (auto split: if_splits)
  then have "\<not> looping f1" by (simp add: play_inv_def play_base_def)
  then show ?thesis using I1 f1(2) by simp
qed

lemma play_data_sorted:
  assumes dat: "play_data qs f0 f" and o: "in_order qs" and nl: "num_read f \<le> length qs"
  shows "times_sorted (file_data f)"
proof (rule sorted_wrt_mono_rel)
  have ent: "fst e < num_read f" "snd e = played f0 (qs ! fst e)" if "e \<in> set (file_data f)" for e
    using dat that by (auto simp: play_data_def)
  show "sorted_wrt (\<lambda>e e'. fst e < fst e') (file_data f)" using dat by (simp add: play_data_def sorted_wrt_map)
  show "e_stream e = e_stream e' \<longrightarrow> e_time e \<le> e_time e'"
    if "e \<in> set (file_data f)" "e' \<in> set (file_data f)" "fst e < fst e'" for e e'
  proof -
    have "fst e' < length qs" using ent(1) [OF that(2)] nl by simp
    then show ?thesis
      using played_order [OF o, of "fst e" "fst e'" f0] ent(2) [OF that(1)] ent(2) [OF that(2)] that(3) by (simp add: word_uint_eq_iff)
  qed
qed

lemma waiting_not_past:
  assumes dat: "play_data qs f0 f" and tim: "play_time qs f0 t f" and nl: "num_read f \<le> length qs"
    and nojob: "\<And>n. Job_packet n \<notin> set (file_jobs f)" and e: "e \<in> set (file_data f)"
  shows "not_past (file_framesets f) e"
proof -
  have ent: "fst e < num_read f" "snd e = played f0 (qs ! fst e)" using dat e by (auto simp: play_data_def)
  then have "waits (fst e) f" "fst e < length qs" using nojob e nl by (simp_all add: waits_def)
  then show ?thesis using tim ent(2) by (auto simp: play_time_def Let_def not_past_def)
qed

lemma scan_inv:
  assumes I: "play_inv un held pack c qs f0 t f" and o: "in_order qs" and t: "t \<le> ts" and j: "jobs_count f = 0"
    and sc: "scan ts 0 [] (file_data f) (file_framesets f) [] = Inr (l, fm, js)"
  shows "play_inv un held pack c qs f0 ts (f\<lparr>file_data := l, file_framesets := fm, file_jobs := file_jobs f @ js\<rparr>)" (is "play_inv _ _ _ _ _ _ _ ?g")
proof -
  have base: "play_base un held pack c qs f0 f" and dat: "play_data qs f0 f" and tim: "play_time qs f0 t f"
    using I by (simp_all add: play_inv_def)
  have nl: "num_read f \<le> length qs" using base by (simp add: play_base_def)
  have nojob: "Job_packet n \<notin> set (file_jobs f)" for n
    using j by (auto simp: jobs_count_def filter_empty_conv)
  have ent: "fst e < num_read f" "snd e = played f0 (qs ! fst e)" if "e \<in> set (file_data f)" for e
    using dat that by (auto simp: play_data_def)
  have wait: "j < length qs \<Longrightarrow> waits j f \<Longrightarrow> fd_time (file_framesets f) (uint (streamID (spkt_of (qs ! j)))) = 0
      \<or> fd_time (file_framesets f) (uint (streamID (spkt_of (qs ! j)))) \<le> timestamp (fst (played f0 (qs ! j)))" for j
    using tim by (auto simp: play_time_def Let_def)
  have srt: "times_sorted (file_data f)" by (rule play_data_sorted [OF dat o nl])
  have np: "\<forall>e \<in> set (file_data f). not_past (file_framesets f) e"
    using waiting_not_past [OF dat tim nl] nojob by blast
  obtain P where l: "l = file_data f" and P: "scan_post ts (file_data f) (file_framesets f) js fm"
    using scan_keeps [OF sc srt np] by auto
  have "play_base un held pack c qs f0 ?g"
    using base P by (simp add: play_base_def scan_post_def reader_at_def)
  moreover have "play_data qs f0 ?g" using dat l by (simp add: play_data_def)
  moreover have "play_time qs f0 ts ?g"
    unfolding play_time_def
  proof (intro conjI allI impI ballI)
    fix pp assume "pp \<in> set (sent_packets (file_outs ?g))"
    then show "timestamp (fst pp) \<le> ts" using tim t by (force simp: play_time_def)
  next
    fix j assume "Job_packet j \<in> set (file_jobs ?g)"
    then obtain e where e: "e \<in> set (file_data f)" "fst e = j" "e_time e \<le> ts" using P nojob by (auto simp: scan_post_def)
    show "j < num_read ?g" "timestamp (fst (played f0 (qs ! j))) \<le> ts" using e(2,3) ent [OF e(1)] by auto
  next
    fix j assume jl: "j < length qs" and w: "waits j ?g"
    let ?k = "uint (streamID (spkt_of (qs ! j)))"
    have old: "waits j f" using w l nojob by (auto simp: waits_def)
    consider (same) "fd_time fm ?k = fd_time (file_framesets f) ?k" | (new) e where "e \<in> set (file_data f)" "e_stream e = ?k" "fd_time fm ?k = e_time e"
      using P unfolding scan_post_def by blast
    then have "fd_time fm ?k = 0 \<or> fd_time fm ?k \<le> timestamp (fst (played f0 (qs ! j)))"
    proof cases
      case same
      then show ?thesis using wait [OF jl old] by simp
    next
      case new
      show ?thesis
      proof (cases "num_read f \<le> j")
        case True
        then show ?thesis
          using new ent [OF new(1)] played_order [OF o, of "fst e" j f0] jl by (auto simp: word_uint_eq_iff)
      next
        case False
        then obtain e' where e': "e' \<in> set (file_data f)" "fst e' = j" "Job_packet j \<notin> set js"
          using w l by (auto simp: waits_def)
        then have "not_past fm e'" using P by (auto simp: scan_post_def)
        then show ?thesis using ent [OF e'(1)] e'(2) by (simp add: not_past_def)
      qed
    qed
    then show "let x = fd_time (file_framesets ?g) ?k in x = 0 \<or> x \<le> timestamp (fst (played f0 (qs ! j)))" by simp
  qed
  ultimately show ?thesis by (simp add: play_inv_def)
qed

lemma tick_inv:
  assumes L: "unpacker_laws un held pack conv (set qs)" "packable pack (set qs)" "in_order qs"
    and I: "play_inv un held pack c qs f0 t f" and t: "t \<le> ts" and k: "tick un conv fs early keys now ts f = Some (Inr (b, f'))"
  shows "play_inv un held pack c qs f0 ts f'"
proof -
  have later: "play_inv un held pack c qs f0 ts f"
    using I t by (fastforce simp: play_inv_def play_time_def)
  show ?thesis
  proof (cases "file_active f \<and> file_mode f = Mode_Read \<and> jobs_count f = 0")
    case True
    then obtain l fm js where sc: "scan ts 0 [] (file_data f) (file_framesets f) [] = Inr (l, fm, js)"
      using k by (auto simp: tick_def split: sum.splits)
    let ?g = "f\<lparr>file_data := l, file_framesets := fm, file_jobs := file_jobs f @ js\<rparr>"
    obtain r where r: "read_ahead un conv (max_time ?g + 200) ?g = Some r"
        "res_bind r (\<lambda>f2. tick_end un fs keys now (fold do_file_job early f2)) = Inr (b, f')"
      using k True sc by (auto simp: tick_def Let_def bind_eq_Some_conv)
    then obtain f2 where f2: "r = Inr f2" "tick_end un fs keys now (fold do_file_job early f2) = Inr (b, f')"
      by (auto simp: res_bind_Inr)
    have "play_inv un held pack c qs f0 ts ?g" using True by (intro scan_inv [OF I L(3) t _ sc]) simp
    then have "play_inv un held pack c qs f0 ts f2" using read_ahead_inv [OF L(1,2)] r(1) f2(1) by blast
    from tick_end_inv [OF do_file_jobs_inv [OF this] f2(2)] show ?thesis .
  next
    case False
    then show ?thesis using later k by (auto simp: tick_def split: if_splits)
  qed
qed

text \<open>A run: ticks at increasing times and jobs, in any order.\<close>

inductive playing :: "('u, 'o) unpacker \<Rightarrow> ('o \<Rightarrow> stored option) \<Rightarrow> (string \<rightharpoonup> u8 list) \<Rightarrow> 'u File \<Rightarrow> 'u File \<Rightarrow> int \<Rightarrow> bool"
  for un conv fs f0 where
  start: "playing un conv fs f0 f0 t"
| tick: "playing un conv fs f0 f t \<Longrightarrow> t \<le> ts \<Longrightarrow> tick un conv fs early keys now ts f = Some (Inr (b, f'))
    \<Longrightarrow> playing un conv fs f0 f' ts"
| job: "playing un conv fs f0 f t \<Longrightarrow> playing un conv fs f0 (do_file_job i f) t"

text \<open>The state in which \<^verbatim>\<open>begin\<close> starts to play.\<close>

definition ready :: "'u File \<Rightarrow> bool" where
  "ready f \<longleftrightarrow> file_data f = [] \<and> num_read f = 0 \<and> file_jobs f = [] \<and> sent_packets (file_outs f) = [] \<and> \<not> looping f
     \<and> \<not> read_error f \<and> (\<forall>k. fd_time (file_framesets f) k = 0)"

lemma ready_inv: "ready f \<Longrightarrow> reader_at un held pack c qs f \<Longrightarrow> play_inv un held pack c qs f t f"
  by (simp add: ready_def play_inv_def play_base_def play_data_def play_time_def)

text \<open>\<^verbatim>\<open>begin\<close> on a recording that is opened for the first time brings a file into this state.\<close>

lemma frameset_of_interval: "fd_time (map (\<lambda>(k, d). (k, d\<lparr>fd_interval := m\<rparr>)) fm) k = fd_time fm k"
proof -
  have "map_of (map (\<lambda>(k, d). (k, d\<lparr>fd_interval := m\<rparr>)) fm) k = map_option (\<lambda>d. d\<lparr>fd_interval := m\<rparr>) (map_of fm k)"
    by (induction fm) auto
  then show ?thesis by (simp add: frameset_of_def split: option.splits)
qed

lemma begin_read_ready:
  assumes L: "unpacker_laws un held pack conv (set qs)" "packable pack (set qs)" "\<forall>q \<in> set qs. 0 \<le> channel (spkt_of q)"
    and p: "held v = []" "toFilePath uri = Inr path" "fs path = Some (recording g pack qs)"
  obtains f0 where "begin_read un conv fs early keys now (File_uri v uri False)
      = Option.bind (tick un conv fs early keys now now f0) (\<lambda>t. Some (res_bind t (\<lambda>(_, f3). Inr (True, f3))))"
    "ready f0" "reader_at un held pack (recording g pack qs) qs f0"
proof -
  let ?f = "File_uri v uri False"
  obtain f1 i where c: "checkFile un conv fs ?f = Some (Inr (True, check_result un (check_times qs (1000, - 1000, 1000)) f1))"
      "checked_from (?f\<lparr>file_version := 5, first_ts := 10000000000000\<rparr>) f1" "istream f1 = Some i" "if_has (recording g pack qs) i"
    using checkFile_recording [OF L(1,2) order.refl L(3), of ?f path fs g] p by (auto simp: File_uri_def new_File_def)
  obtain count ts mind where v: "check_times qs (1000, - 1000, 1000) = (count, ts, mind)" by (rule prod_cases3)
  define h where "h = check_result un (check_times qs (1000, - 1000, 1000)) f1"
  have h: "held (buffer_in h) = []" "toFilePath (file_uri h) = Inr path" "istream h = Some i"
    "file_data h = []" "num_read h = 0" "file_jobs h = []" "sent_packets (file_outs h) = []" "\<not> looping h"
    using checked_from_fields [OF c(2)] c(2,3) L(1) p(2)
    by (simp_all add: h_def v check_result_def Let_def File_uri_def new_File_def)
       (simp_all add: checked_from_def unpacker_laws_def)
  have ft: "\<forall>k. fd_time (file_framesets h) k = 0"
    using c(2) by (simp add: h_def v check_result_def Let_def frameset_of_interval checked_from_def)
      (simp add: File_uri_def new_File_def frameset_of_def new_FramesetData_def)
  obtain j where o: "file_open fs h = Inr (True, h\<lparr>istream := Some j, file_version := 5\<rparr>)"
      "reader_at un held pack (recording g pack qs) qs (h\<lparr>istream := Some j, file_version := 5\<rparr>)"
    using reader_at_start [OF L(1), of h path fs g qs] h(1-3) p(3) c(4) by metis
  show thesis
  proof (rule that)
    let ?start = "h\<lparr>istream := Some j, file_version := 5, timestart := now, file_active := True, read_error := False\<rparr>"
    show "ready ?start" using h ft by (simp add: ready_def)
    show "reader_at un held pack (recording g pack qs) qs ?start" using o(2) by (simp add: reader_at_def)
    show "begin_read un conv fs early keys now ?f
      = Option.bind (tick un conv fs early keys now now ?start) (\<lambda>t. Some (res_bind t (\<lambda>(_, f3). Inr (True, f3))))"
      using c(1) o(1) by (simp add: begin_read_def File_uri_def new_File_def flip: h_def)
  qed
qed

text \<open>
  C8: Playing back a file whose packets are in order within each stream and smaller than ten million bytes when
  packed, without looping and with no job running while \<^verbatim>\<open>tick\<close> walks over its list: at any time, whatever the ticks
  and the order in which the jobs run between them, the packets sent and the packets that wait in the list are
  together exactly the packets read so far, each once, with its time moved to the start of the playback; none
  is sent before its time; and the end of the file is reported only when every packet has been read.
\<close>

theorem playback_exactly_once:
  assumes laws: "unpacker_laws un held pack conv (set qs)" "packable pack (set qs)"
    and rd: "ready f0" "reader_at un held pack c qs f0" "in_order qs"
    and run: "playing un conv fs f0 f t"
  shows "mset (sent_packets (file_outs f)) + mset (map (\<lambda>e. released (snd e)) (file_data f))
       = mset (map (\<lambda>n. released (played f0 (qs ! n))) [0..<num_read f])
     \<and> (\<forall>pp \<in> set (sent_packets (file_outs f)). timestamp (fst pp) \<le> t)
     \<and> (read_error f \<longrightarrow> num_read f = length qs)"
proof -
  have "play_inv un held pack c qs f0 t f"
    using run
  proof (induction rule: playing.induct)
    case (start t)
    show ?case using ready_inv [OF rd(1,2)] .
  next
    case (tick f t ts early keys now b f')
    then show ?case using tick_inv [OF laws rd(3)] by blast
  next
    case (job f t i)
    then show ?case using do_file_job_inv by blast
  qed
  then show ?thesis unfolding play_inv_def play_base_def play_data_def play_time_def by blast
qed

text \<open>A file with one packet, whose bytes are in the buffer: two ticks and its job.\<close>

definition ex_playback :: "u8 list File" where
  "ex_playback = (File_uri [1, 2] empty_URI False)\<lparr>istream := Some \<lparr>if_is_open = True, if_content = [1, 2], if_pos = 2, if_good = False\<rparr>,
     file_version := 5, timestart := 1000, file_active := True, file_framesets := [(0, new_FramesetData\<lparr>fd_first_ts := 40\<rparr>)]\<rparr>"

definition ex_read :: "u8 list File" where
  "ex_read = ex_playback\<lparr>buffer_in := [], file_data := [(0, played ex_playback (store ex_packet))], num_read := 1\<rparr>"

lemmas ex_defs = ex_playback_def ex_read_def File_uri_def new_File_def ex_unpacker_def ex_packet_def store_def StreamPacketMSGPACK_def
  Packer_def new_Packet_def new_StreamPacket_def spkt_of_def played_def adjust_def frameset_of_def new_FramesetData_def

lemma ex_tick1: "tick ex_unpacker (\<lambda>_. Some (store ex_packet)) Map.empty [] [] 1000 1000 ex_playback = Some (Inr (True, ex_read))"
proof -
  let ?c = "\<lambda>_. Some (store ex_packet)"
  have same: "ex_playback\<lparr>file_data := []\<rparr> = ex_playback"
    by (simp add: ex_playback_def File_uri_def new_File_def)
  have "readPacket ex_unpacker ?c new_Packet ex_playback
      = Some (Inr (True, Packer (store ex_packet) new_Packet, ex_playback\<lparr>buffer_in := []\<rparr>))"
    by (simp add: readPacket_def read_loop.simps read_once_def fill_def Let_def ex_playback_def File_uri_def new_File_def ex_unpacker_def)
  moreover have "want_read ex_unpacker ex_playback" "\<not> want_read ex_unpacker ex_read"
    by (simp_all add: want_read_def ex_playback_def ex_read_def File_uri_def new_File_def ex_unpacker_def)
  moreover have "ahead_once 1200 (Inr (True, Packer (store ex_packet) new_Packet, ex_playback\<lparr>buffer_in := []\<rparr>)) = Loop_again ex_read"
    by (simp add: ahead_once_def ex_defs set_frameset_def)
  ultimately have "read_ahead ex_unpacker ?c 1200 ex_playback = Some (Inr ex_read)"
    by (simp add: read_ahead.simps)
  moreover have "max_time ex_playback = 1000"
    by (simp add: max_time_def ex_playback_def File_uri_def new_File_def new_FramesetData_def)
  moreover have "file_active ex_playback" "file_mode ex_playback = Mode_Read" "jobs_count ex_playback = 0" "file_data ex_playback = []"
    by (simp_all add: ex_playback_def File_uri_def new_File_def jobs_count_def)
  moreover have "tick_end ex_unpacker Map.empty [] 1000 ex_read = Inr (True, ex_read)"
    by (simp add: tick_end_def ex_read_def)
  ultimately show ?thesis by (simp add: tick_def Let_def same)
qed

lemma ex_tick2:
  "\<exists>f. tick ex_unpacker (\<lambda>_. Some (store ex_packet)) Map.empty [0] [] 1000 1000 ex_read = Some (Inr (False, f)) \<and> num_read f = 1 \<and> file_data f = []"
proof -
  have "\<not> want_read ex_unpacker (ex_read\<lparr>file_data := l, file_framesets := fm, file_jobs := js\<rparr>)" for l fm js
    by (simp add: want_read_def ex_playback_def ex_read_def File_uri_def new_File_def ex_unpacker_def)
  then have ra: "read_ahead ex_unpacker (\<lambda>_. Some (store ex_packet)) ext (ex_read\<lparr>file_data := l, file_framesets := fm, file_jobs := js\<rparr>)
      = Some (Inr (ex_read\<lparr>file_data := l, file_framesets := fm, file_jobs := js\<rparr>))" for ext l fm js
    by (simp add: read_ahead.simps)
  obtain fm where sc: "scan 1000 0 [] (file_data ex_read) (file_framesets ex_read) [] = Inr (file_data ex_read, fm, [Job_packet 0])"
    by (simp add: ex_defs touch_def mark_sent_def count_sent_def pad_counts_def kEndFrame_def set_frameset_def default_DataPacket_def)
  have a: "file_active ex_read" "file_mode ex_read = Mode_Read" "jobs_count ex_read = 0" "file_jobs ex_read = []"
    by (simp_all add: ex_read_def ex_playback_def File_uri_def new_File_def jobs_count_def)
  have "tick_end ex_unpacker Map.empty [] 1000 (do_file_job 0 (ex_read\<lparr>file_data := file_data ex_read, file_framesets := fm, file_jobs := [Job_packet 0]\<rparr>))
      = Inr (False, do_file_job 0 (ex_read\<lparr>file_data := file_data ex_read, file_framesets := fm, file_jobs := [Job_packet 0]\<rparr>))"
    by (simp add: tick_end_def do_file_job_def send_packet_def file_trigger_def ex_read_def ex_playback_def File_uri_def new_File_def
        split: prod.splits)
  then show ?thesis
    using a sc ra by (simp add: tick_def Let_def)
      (simp add: do_file_job_def send_packet_def file_trigger_def ex_read_def split: prod.splits)
qed

theorem playback_exactly_once_witness:
  "\<exists>f. playing ex_unpacker (\<lambda>_. Some (store ex_packet)) Map.empty ex_playback f 1000
     \<and> mset (sent_packets (file_outs f)) = {#released (played ex_playback (store ex_packet))#}"
proof -
  obtain f where f: "tick ex_unpacker (\<lambda>_. Some (store ex_packet)) Map.empty [0] [] 1000 1000 ex_read = Some (Inr (False, f))"
      "num_read f = 1" "file_data f = []"
    using ex_tick2 by blast
  have run: "playing ex_unpacker (\<lambda>_. Some (store ex_packet)) Map.empty ex_playback f 1000"
    using playing.tick [OF playing.tick [OF playing.start order.refl ex_tick1] order.refl f(1)] .
  have "ready ex_playback"
    by (simp add: ready_def ex_playback_def File_uri_def new_File_def frameset_of_def new_FramesetData_def)
  moreover have "reader_at ex_unpacker (\<lambda>u. u) (\<lambda>_. [1, 2]) [1, 2] [store ex_packet] ex_playback"
    by (simp add: reader_at_def ex_playback_def File_uri_def new_File_def ex_unpacker_def if_has_def if_rest_def)
  moreover have "unpacker_laws ex_unpacker (\<lambda>u. u) (\<lambda>_. [1, 2]) (\<lambda>_. Some (store ex_packet)) (set [store ex_packet])"
    using ex_unpacker_laws by simp
  moreover have "packable (\<lambda>_. [1, 2]) (set [store ex_packet])" by (simp add: packable_def kReadSize_def)
  moreover have "in_order [store ex_packet]" by (simp add: in_order_def)
  ultimately show ?thesis
    using playback_exactly_once [OF _ _ _ _ _ run, of "\<lambda>u. u" "\<lambda>_. [1, 2]" "[store ex_packet]" "[1, 2]"] run f(2,3) by auto
qed

section \<open>The frame counters\<close>

definition frame_counts_ok :: "FramesetData \<Rightarrow> bool" where
  "frame_counts_ok d \<longleftrightarrow> fd_frame_count d \<le> length (packet_counts d)"

abbreviation single_frame :: "nat \<times> PacketPair \<Rightarrow> bool" where
  "single_frame e \<equiv> unat (frame_count (snd (snd e))) \<le> 1"

lemma mark_sent_ok:
  assumes "frame_counts_ok d" "single_frame (n, pp)"
  shows "\<exists>d'. mark_sent pp d = Inr d' \<and> frame_counts_ok d'"
proof -
  have "\<exists>d'. count_sent pp d = Inr d' \<and> frame_counts_ok d'" if "frame_counts_ok d" for d
    using that assms(2) by (auto simp: count_sent_def frame_counts_ok_def pad_counts_def Let_def)
  from this [of d] this [of "d\<lparr>needs_endframe := False\<rparr>"] show ?thesis
    using assms(1) by (auto simp: mark_sent_def frame_counts_ok_def Let_def)
qed

lemma endframe_jobs_ok:
  "frame_counts_ok d \<Longrightarrow> \<exists>ej d'. endframe_jobs sid d = Inr (ej, d') \<and> frame_counts_ok d'"
  by (cases "needs_endframe d") (auto simp: endframe_jobs_def counts_upto_def frame_counts_ok_def reset_counts_def)

lemma scan_defined:
  assumes "\<forall>k. frame_counts_ok (frameset_of k fm)" "\<forall>e \<in> set rest. single_frame e"
  shows "\<exists>l fm' js'. scan ts cc kept rest fm js = Inr (l, fm', js') \<and> (\<forall>k. frame_counts_ok (frameset_of k fm'))"
  using assms
proof (induction ts cc kept rest fm js rule: scan.induct)
  case (2 ts cc kept e rest fm js)
  let ?pp = "snd e" and ?k = "e_stream e" and ?d = "touch (snd e) fm"
  let ?fm1 = "set_frameset ?k ?d fm"
  have d: "frame_counts_ok ?d" using 2(4) by (simp add: touch_def frame_counts_ok_def Let_def)
  then have f1: "\<forall>k. frame_counts_ok (frameset_of k ?fm1)" using 2(4) by simp
  consider (late) "e_time e > ts" | (old) "e_time e \<le> ts" "e_time e < fd_timestamp ?d"
    | (due) "e_time e \<le> ts" "e_time e = fd_timestamp ?d" | (next_frame) "e_time e \<le> ts" "e_time e > fd_timestamp ?d"
    by linarith
  then show ?case
  proof cases
    case late
    then show ?thesis using f1 by (simp add: Let_def)
  next
    case old
    then show ?thesis using 2(1) [OF refl refl refl refl] f1 2(5) by (simp add: Let_def)
  next
    case due
    obtain d1 where m: "mark_sent ?pp ?d = Inr d1" "frame_counts_ok d1"
      using mark_sent_ok [OF d, of "fst e" ?pp] 2(5) by auto
    then have "\<forall>k. frame_counts_ok (frameset_of k (set_frameset ?k d1 ?fm1))" using 2(4) by simp
    then show ?thesis using 2(2) [OF refl refl refl refl _ _ due(2) m(1)] m(1) due 2(5) by (simp add: Let_def)
  next
    case next_frame
    obtain ej d1 where m: "endframe_jobs (streamID (fst ?pp)) ?d = Inr (ej, d1)" "frame_counts_ok d1"
      using endframe_jobs_ok [OF d] by blast
    let ?fm2 = "set_frameset ?k (d1\<lparr>fd_timestamp := e_time e\<rparr>) ?fm1"
    have f2: "\<forall>k. frame_counts_ok (frameset_of k ?fm2)" using 2(4) m(2) by (simp add: frame_counts_ok_def)
    show ?thesis
    proof (cases "cc + 1 = length ?fm2")
      case True
      then show ?thesis using f2 m(1) next_frame by (simp add: Let_def)
    next
      case False
      then show ?thesis
        using 2(3) [OF refl refl refl refl _ _ _ m(1) refl refl False f2 2(5)] m(1) next_frame by (simp add: Let_def)
    qed
  qed
qed simp

definition two_frames :: "int \<Rightarrow> PacketPair" where
  "two_frames t = (new_StreamPacket\<lparr>timestamp := t\<rparr>, default_DataPacket\<lparr>frame_count := 2\<rparr>)"

text \<open>
  Walking over the packets never reads a frame counter out of range when every packet carries one frame at
  most. A packet that carries two frames is enough to read out of range when the next frame begins.
\<close>

theorem frame_counts_in_range:
  assumes "\<forall>k. frame_counts_ok (frameset_of k fm)" "\<forall>e \<in> set rest. single_frame e" "0 < t" "t < t'" "t' \<le> ts"
  shows "(\<exists>l fm' js'. scan ts cc kept rest fm js = Inr (l, fm', js') \<and> (\<forall>k. frame_counts_ok (frameset_of k fm')))
    \<and> scan ts 0 [] [(0, two_frames t), (1, two_frames t')] [] [] = Inl Undefined_behaviour"
proof
  show "\<exists>l fm' js'. scan ts cc kept rest fm js = Inr (l, fm', js') \<and> (\<forall>k. frame_counts_ok (frameset_of k fm'))"
    using scan_defined [OF assms(1,2)] .
  show "scan ts 0 [] [(0, two_frames t), (1, two_frames t')] [] [] = Inl Undefined_behaviour"
    using assms(3-) by (simp add: two_frames_def new_StreamPacket_def default_DataPacket_def touch_def frameset_of_def new_FramesetData_def
        set_frameset_def mark_sent_def count_sent_def pad_counts_def kEndFrame_def endframe_jobs_def counts_upto_def Let_def)
qed

theorem frame_counts_in_range_witness:
  "scan 2 0 [] [(0, two_frames 1), (1, two_frames 2)] [] [] = Inl Undefined_behaviour
   \<and> (\<exists>l fm' js'. scan 2 0 [] [(0, ex_packet)] [] [] = Inr (l, fm', js'))"
  using frame_counts_in_range [of "[]" "[(0, ex_packet)]" 1 2 2 0 "[]" "[]"]
  by (simp add: frame_counts_ok_def frameset_of_def new_FramesetData_def ex_packet_def default_DataPacket_def) blast

end
