(* ===== verification/FTL_Events.thy ===== *)
theory FTL_Events
  imports FTL_Prelude
begin

text \<open>
  Runs of the concurrent components. A component gives, for an event and a state, the state after the
  event, a failure, or \<^const>\<open>None\<close> when the event cannot happen in the state; a run performs a list of events
  and ends with the first failure.
\<close>

locale event_system =
  fixes perform :: "'e \<Rightarrow> 's \<Rightarrow> 's res option"
    and exec :: "'e list \<Rightarrow> 's \<Rightarrow> 's res option"
  assumes exec_Nil: "exec [] s = Some (Inr s)"
    and exec_Cons: "exec (e # es) s =
      (case perform e s of None \<Rightarrow> None | Some (Inl x) \<Rightarrow> Some (Inl x) | Some (Inr t) \<Rightarrow> exec es t)"
begin

lemma exec_append:
  "exec (es @ fs) s = (case exec es s of Some (Inr t) \<Rightarrow> exec fs t | r \<Rightarrow> r)"
  by (induction es arbitrary: s) (auto simp: exec_Nil exec_Cons split: option.splits sum.splits)

text \<open>
  What every event that is possible and allowed (\<open>ok\<close>) keeps, together with the list of events so far, holds
  at the end of a run, and the run does not fail.
\<close>

lemma exec_history:
  assumes step: "\<And>h e s x. I h s \<Longrightarrow> ok e \<Longrightarrow> perform e s = Some x \<Longrightarrow> \<exists>t. x = Inr t \<and> I (h @ [e]) t"
    and start: "I h s" and allowed: "list_all ok es" and run: "exec es s = Some x"
  shows "\<exists>t. x = Inr t \<and> I (h @ es) t"
  using start allowed run
proof (induction es arbitrary: h s)
  case Nil
  then show ?case by (auto simp: exec_Nil)
next
  case (Cons e es)
  obtain y where y: "perform e s = Some y" using Cons.prems(3) by (auto simp: exec_Cons split: option.splits)
  then obtain t where "y = Inr t" "I (h @ [e]) t" using step Cons.prems by fastforce
  then show ?case using Cons.IH [of "h @ [e]" t] Cons.prems y by (simp add: exec_Cons)
qed

lemma exec_invariant:
  assumes "\<And>e s x. I s \<Longrightarrow> ok e \<Longrightarrow> perform e s = Some x \<Longrightarrow> \<exists>t. x = Inr t \<and> I t"
    and "I s" "list_all ok es" "exec es s = Some x"
  shows "\<exists>t. x = Inr t \<and> I t"
  using exec_history [of "\<lambda>_. I" ok "[]"] assms by blast

end

end
