(* ===== verification/FTL_QuicSend.thy ===== *)
theory FTL_QuicSend
  imports FTL_WsRead FTL_Events
begin

text \<open>
  The sending half of the QUIC peer (\<^verbatim>\<open>QuicPeerStream\<close>, \<^verbatim>\<open>quic/src/quic_peer.cpp\<close>): the pool of send buffers,
  the queue of writes with their WebSocket headers, and the completions that msquic reports.

  Every operation runs under \<^verbatim>\<open>send_mtx_\<close>, so it is one step from where it takes the mutex to where it
  returns or waits on \<^verbatim>\<open>send_cv_\<close>; a wake-up, spurious or not, is a step that tests the condition again.
  \<^verbatim>\<open>OnWriteComplete\<close> updates the atomic counters before it takes the mutex and so is two steps.
  Whether msquic accepts a write (\<^verbatim>\<open>StreamSend\<close>) is an argument \<open>acc\<close>: the answer to the n-th call. For an
  accepted write msquic reports completion once; the callbacks of a stream do not overlap.
\<close>

section \<open>State\<close>

text \<open>
  Memory that a \<^verbatim>\<open>QUIC_BUFFER\<close> points to: an array of \<^verbatim>\<open>ws_headers_\<close> or the buffer of an event. Elements of a
  \<^verbatim>\<open>std::deque\<close> do not move, so an event or a header is identified by its number.
\<close>

datatype location = Header_array nat | Event_buffer nat

record SendEvent =
  ev_id :: nat
  ev_buffer :: "u8 list"
  ev_pending :: bool
  ev_complete :: bool
  ev_vector :: "(location \<times> u8 list) list"

text \<open>The lengths in a \<^verbatim>\<open>QUIC_BUFFER\<close> are 32 bits wide.\<close>

definition quic_length :: "nat \<Rightarrow> nat" where
  "quic_length n = unat (of_nat n :: u32)"

definition new_SendEvent :: "nat \<Rightarrow> u8 list \<Rightarrow> SendEvent" where
  "new_SendEvent n b = \<lparr>ev_id = n, ev_buffer = b, ev_pending = True, ev_complete = False,
     ev_vector = [(Event_buffer n, take (quic_length (length b)) b)]\<rparr>"

text \<open>
  The members, then what lies outside the object: the buffers handed out by \<^verbatim>\<open>get_buffer_\<close>, the threads that
  wait in \<^verbatim>\<open>get_buffer_\<close> and (with their buffers) in \<^verbatim>\<open>send_buffer_\<close>, the answers of msquic, the writes it has
  accepted and not completed, the callback that is running, and two logs: the accepted writes with their
  bytes, and the messages queued, as frames.
\<close>

record quic_send =
  qs_stream :: bool
  qs_is_open :: bool
  ws_framing :: bool
  send_buffers_free :: "u8 list list"
  send_buffer_count :: int
  send_queue :: "SendEvent list"
  ws_headers :: "(nat \<times> u8 list) list"
  pending_sends :: int
  pending_bytes :: int
  next_event :: nat
  held_buffers :: nat
  get_waiting :: nat
  send_waiting :: "u8 list list"
  write_calls :: nat
  outstanding :: "nat list"
  completing :: "nat option"
  accepted_writes :: "(nat \<times> u8 list) list"
  queued :: "(nat \<times> ws_frame) list"

definition max_send_buffers :: int where
  "max_send_buffers = 512"

definition max_pending_bytes :: int where
  "max_pending_bytes = 1024 * 1024 * 24"

definition new_quic_send :: quic_send where
  "new_quic_send = \<lparr>qs_stream = True, qs_is_open = True, ws_framing = True, send_buffers_free = [], send_buffer_count = 0,
     send_queue = [], ws_headers = [], pending_sends = 0, pending_bytes = 0, next_event = 0, held_buffers = 0,
     get_waiting = 0, send_waiting = [], write_calls = 0, outstanding = [], completing = None, accepted_writes = [], queued = []\<rparr>"

section \<open>Buffers\<close>

text \<open>
  \<^verbatim>\<open>get_buffer_\<close> up to the first wait, and from a wake-up to the next wait. The result tells whether the
  caller got a buffer.
\<close>

definition take_free :: "quic_send \<Rightarrow> quic_send" where
  "take_free s = s\<lparr>send_buffers_free := butlast (send_buffers_free s), held_buffers := held_buffers s + 1\<rparr>"

definition create_buffer :: "quic_send \<Rightarrow> quic_send" where
  "create_buffer s = s\<lparr>send_buffer_count := send_buffer_count s + 1, held_buffers := held_buffers s + 1\<rparr>"

definition get_buffer :: "quic_send \<Rightarrow> bool \<times> quic_send" where
  "get_buffer s =
     (if length (send_buffers_free s) > 0 then (True, take_free s)
      else if send_buffer_count s \<ge> max_send_buffers then (False, s\<lparr>get_waiting := get_waiting s + 1\<rparr>)
      else (True, create_buffer s))"

definition get_buffer_wake :: "quic_send \<Rightarrow> bool \<times> quic_send" where
  "get_buffer_wake s =
     (if length (send_buffers_free s) > 0 then (True, take_free (s\<lparr>get_waiting := get_waiting s - 1\<rparr>))
      else if send_buffer_count s \<ge> max_send_buffers then (False, s)
      else (True, create_buffer (s\<lparr>get_waiting := get_waiting s - 1\<rparr>)))"

text \<open>\<^verbatim>\<open>release_buffer_\<close> clears the buffer, which keeps its memory.\<close>

definition release_buffer :: "u8 list \<Rightarrow> quic_send \<Rightarrow> quic_send" where
  "release_buffer b s = s\<lparr>send_buffers_free := send_buffers_free s @ [[]]\<rparr>"

fun discard_events :: "SendEvent list \<Rightarrow> quic_send \<Rightarrow> SendEvent list \<times> quic_send" where
  "discard_events [] s = ([], s)"
| "discard_events (e # es) s =
     (if ev_pending e then
        let s1 = s\<lparr>pending_bytes := cast_i32 (pending_bytes s - int (length (ev_buffer e))),
              pending_sends := cast_i32 (pending_sends s - 1)\<rparr>;
            (es', s2) = discard_events es (release_buffer (ev_buffer e) s1) in
        (e\<lparr>ev_buffer := []\<rparr> # es', s2)
      else let (es', s2) = discard_events es s in (e # es', s2))"

definition discard_queued_sends :: "quic_send \<Rightarrow> quic_send" where
  "discard_queued_sends s = (let (es, s') = discard_events (send_queue s) s in s'\<lparr>send_queue := es\<rparr>)"

text \<open>\<^verbatim>\<open>reset\<close> is not called anywhere.\<close>

definition quic_reset :: "quic_send \<Rightarrow> quic_send" where
  "quic_reset s = discard_queued_sends s"

section \<open>Sending\<close>

text \<open>
  \<^verbatim>\<open>queue_send_\<close>: \<open>key\<close> is the result of \<^verbatim>\<open>GenerateMaskingKey\<close>. The buffer is masked in place.
\<close>

definition queue_send :: "u8 list \<Rightarrow> u8 list \<Rightarrow> quic_send \<Rightarrow> (SendEvent \<times> quic_send) res" where
  "queue_send key b s =
     (let n = next_event s; e = new_SendEvent n b in
      if ws_framing s then
        res_bind (WsWriteHeader 2 True key (of_nat (length b)) 14) (\<lambda>h.
          case h of
            None \<Rightarrow> Inl Check_failed
          | Some h \<Rightarrow>
             let m = Mask b key 0;
                 e' = e\<lparr>ev_buffer := m, ev_vector := [(Header_array n, h), (Event_buffer n, take (quic_length (length b)) m)]\<rparr> in
             Inr (e', s\<lparr>next_event := n + 1, ws_headers := ws_headers s @ [(n, h)], send_queue := send_queue s @ [e'],
               queued := queued s @ [(n, (Some key, b))]\<rparr>))
      else Inr (e, s\<lparr>next_event := n + 1, send_queue := send_queue s @ [e], queued := queued s @ [(n, (None, b))]\<rparr>))"

text \<open>\<^verbatim>\<open>send_\<close>: the event, whose flag is set, and the state after the call of \<^verbatim>\<open>StreamSend\<close>.\<close>

definition send_event :: "(nat \<Rightarrow> bool) \<Rightarrow> SendEvent \<Rightarrow> quic_send \<Rightarrow> SendEvent \<times> quic_send" where
  "send_event acc e s =
     (let s1 = s\<lparr>write_calls := write_calls s + 1\<rparr> in
      if acc (write_calls s)
      then (e\<lparr>ev_pending := False\<rparr>, s1\<lparr>accepted_writes := accepted_writes s @ [(ev_id e, concat (map snd (ev_vector e)))],
             outstanding := outstanding s @ [ev_id e]\<rparr>)
      else (e\<lparr>ev_pending := True\<rparr>, s1))"

fun clear_events :: "bool \<Rightarrow> SendEvent list \<Rightarrow> (nat \<times> u8 list) list \<Rightarrow> (SendEvent list \<times> (nat \<times> u8 list) list) res" where
  "clear_events fr [] hs = Inr ([], hs)"
| "clear_events fr (e # es) hs =
     (if \<not> ev_complete e then Inr (e # es, hs)
      else if fr then
        (case hs of
           [] \<Rightarrow> Inl Undefined_behaviour
         | h # hs' \<Rightarrow> if fst (hd (ev_vector e)) = Header_array (fst h) then clear_events fr es hs' else Inl Check_failed)
      else clear_events fr es hs)"

definition clear_completed :: "quic_send \<Rightarrow> quic_send res" where
  "clear_completed s = res_bind (clear_events (ws_framing s) (send_queue s) (ws_headers s)) (\<lambda>(q, hs).
     Inr (s\<lparr>send_queue := q, ws_headers := hs\<rparr>))"

text \<open>\<^verbatim>\<open>flush_send_queue_\<close>, on the events from the back of the queue.\<close>

fun flush_events :: "(nat \<Rightarrow> bool) \<Rightarrow> SendEvent list \<Rightarrow> quic_send \<Rightarrow> SendEvent list \<times> quic_send" where
  "flush_events acc [] s = ([], s)"
| "flush_events acc (e # es) s =
     (if \<not> ev_pending e then (e # es, s)
      else let (e', s') = send_event acc e s in
        if \<not> ev_pending e' then (e' # es, s')
        else let (es', s'') = flush_events acc es s' in (e'\<lparr>ev_pending := False\<rparr> # es', s''))"

definition flush_send_queue :: "(nat \<Rightarrow> bool) \<Rightarrow> quic_send \<Rightarrow> quic_send" where
  "flush_send_queue acc s = (let (es, s') = flush_events acc (rev (send_queue s)) s in s'\<lparr>send_queue := rev es\<rparr>)"

text \<open>
  \<^verbatim>\<open>send_buffer_\<close> from the point where the limit is not exceeded, and as a whole up to a wait, for which
  the result is \<^const>\<open>None\<close>.
\<close>

definition send_buffer_go :: "(nat \<Rightarrow> bool) \<Rightarrow> u8 list \<Rightarrow> u8 list \<Rightarrow> quic_send \<Rightarrow> (int \<times> quic_send) res" where
  "send_buffer_go acc key b s =
     (let s1 = s\<lparr>pending_sends := cast_i32 (pending_sends s + 1), pending_bytes := cast_i32 (pending_bytes s + int (length b))\<rparr> in
      if \<not> qs_stream s1 then res_bind (queue_send key b s1) (\<lambda>(e, s2). Inr (-1, s2))
      else res_bind (queue_send key b (flush_send_queue acc s1)) (\<lambda>(e, s2).
        let (e', s3) = send_event acc e s2 in Inr (1, s3\<lparr>send_queue := butlast (send_queue s3) @ [e']\<rparr>)))"

definition send_buffer :: "(nat \<Rightarrow> bool) \<Rightarrow> u8 list \<Rightarrow> u8 list \<Rightarrow> quic_send \<Rightarrow> (int option \<times> quic_send) res" where
  "send_buffer acc key b s =
     (let s0 = s\<lparr>held_buffers := held_buffers s - 1\<rparr> in
      if \<not> qs_stream s \<or> \<not> qs_is_open s then Inr (Some (-1), release_buffer b s0)
      else if pending_bytes s > max_pending_bytes then Inr (None, s0\<lparr>send_waiting := send_waiting s0 @ [b]\<rparr>)
      else res_bind (send_buffer_go acc key b s0) (\<lambda>(r, s'). Inr (Some r, s')))"

definition remove_nth :: "nat \<Rightarrow> 'a list \<Rightarrow> 'a list" where
  "remove_nth j xs = take j xs @ drop (Suc j) xs"

definition send_buffer_wake :: "(nat \<Rightarrow> bool) \<Rightarrow> u8 list \<Rightarrow> nat \<Rightarrow> quic_send \<Rightarrow> (int option \<times> quic_send) res" where
  "send_buffer_wake acc key j s =
     (if pending_bytes s > max_pending_bytes then Inr (None, s)
      else res_bind (send_buffer_go acc key (send_waiting s ! j) (s\<lparr>send_waiting := remove_nth j (send_waiting s)\<rparr>))
        (\<lambda>(r, s'). Inr (Some r, s')))"

section \<open>Callbacks of the stream\<close>

definition find_event :: "nat \<Rightarrow> quic_send \<Rightarrow> SendEvent option" where
  "find_event i s = find (\<lambda>e. ev_id e = i) (send_queue s)"

text \<open>\<^verbatim>\<open>OnWriteComplete\<close>: before it takes the mutex, and after. The pointer to a removed event would dangle.\<close>

definition write_complete_counts :: "nat \<Rightarrow> quic_send \<Rightarrow> quic_send res" where
  "write_complete_counts i s =
     (case find_event i s of
        None \<Rightarrow> Inl Undefined_behaviour
      | Some e \<Rightarrow> Inr (s\<lparr>pending_sends := cast_i32 (pending_sends s - 1),
          pending_bytes := cast_i32 (pending_bytes s - int (length (ev_buffer e))), completing := Some i\<rparr>))"

definition complete_event :: "nat \<Rightarrow> SendEvent \<Rightarrow> SendEvent" where
  "complete_event i e = (if ev_id e = i then e\<lparr>ev_complete := True, ev_buffer := []\<rparr> else e)"

definition OnWriteComplete :: "nat \<Rightarrow> quic_send \<Rightarrow> quic_send res" where
  "OnWriteComplete i s =
     (case find_event i s of
        None \<Rightarrow> Inl Undefined_behaviour
      | Some e \<Rightarrow>
         let s1 = release_buffer (ev_buffer e) (s\<lparr>send_queue := map (complete_event i) (send_queue s),
               completing := None, outstanding := remove1 i (outstanding s)\<rparr>) in
         if ev_id (hd (send_queue s1)) = i then clear_completed s1 else Inr s1)"

definition send_OnShutdownComplete :: "quic_send \<Rightarrow> quic_send" where
  "send_OnShutdownComplete s = s\<lparr>qs_stream := False\<rparr>"

section \<open>Runs\<close>

text \<open>
  \<open>Q_closed\<close> is the end of the stream in msquic, \<open>Q_completed\<close> and \<open>Q_complete\<close> the two parts of a completion. A
  step is \<^const>\<open>None\<close> when it cannot happen.
\<close>

datatype send_op = Q_get | Q_get_wake | Q_send "u8 list" "u8 list" | Q_send_wake "u8 list" nat
  | Q_completed nat | Q_complete | Q_closed | Q_shutdown

fun quic_do :: "(nat \<Rightarrow> bool) \<Rightarrow> send_op \<Rightarrow> quic_send \<Rightarrow> quic_send res option" where
  "quic_do acc Q_get s = Some (Inr (snd (get_buffer s)))"
| "quic_do acc Q_get_wake s = (if get_waiting s > 0 then Some (Inr (snd (get_buffer_wake s))) else None)"
| "quic_do acc (Q_send key b) s =
     (if held_buffers s > 0 then Some (res_bind (send_buffer acc key b s) (\<lambda>(r, s'). Inr s')) else None)"
| "quic_do acc (Q_send_wake key j) s =
     (if j < length (send_waiting s) then Some (res_bind (send_buffer_wake acc key j s) (\<lambda>(r, s'). Inr s')) else None)"
| "quic_do acc (Q_completed i) s =
     (if completing s = None \<and> i \<in> set (outstanding s) then Some (write_complete_counts i s) else None)"
| "quic_do acc Q_complete s = (case completing s of None \<Rightarrow> None | Some i \<Rightarrow> Some (OnWriteComplete i s))"
| "quic_do acc Q_closed s = Some (Inr (s\<lparr>qs_is_open := False\<rparr>))"
| "quic_do acc Q_shutdown s = Some (Inr (send_OnShutdownComplete s))"

fun quic_exec :: "(nat \<Rightarrow> bool) \<Rightarrow> send_op list \<Rightarrow> quic_send \<Rightarrow> quic_send res option" where
  "quic_exec acc [] s = Some (Inr s)"
| "quic_exec acc (x # xs) s =
     (case quic_do acc x s of
        None \<Rightarrow> None
      | Some (Inl e) \<Rightarrow> Some (Inl e)
      | Some (Inr s') \<Rightarrow> quic_exec acc xs s')"

interpretation quic: event_system "quic_do acc" "quic_exec acc" for acc
  by unfold_locales simp_all

text \<open>Messages of at most \<open>B\<close> bytes, with keys of four bytes.\<close>

fun op_within :: "nat \<Rightarrow> send_op \<Rightarrow> bool" where
  "op_within B (Q_send key b) = (length key = 4 \<and> length b \<le> B)"
| "op_within B (Q_send_wake key j) = (length key = 4)"
| "op_within B _ = True"

section \<open>What the operations do\<close>

text \<open>
  A write of the youngest event; \<open>keep\<close> tells whether it may be tried again when msquic refuses it.
  As long as there is a stream no other event can be pending, and \<^verbatim>\<open>flush_send_queue_\<close> is such a write.
\<close>

definition write_last :: "bool \<Rightarrow> (nat \<Rightarrow> bool) \<Rightarrow> quic_send \<Rightarrow> quic_send" where
  "write_last keep acc s =
     (let q = send_queue s; e = last q; ok = acc (write_calls s) in
      s\<lparr>send_queue := butlast q @ [e\<lparr>ev_pending := keep \<and> \<not> ok\<rparr>], write_calls := write_calls s + 1,
        accepted_writes := accepted_writes s @ (if ok then [(ev_id e, concat (map snd (ev_vector e)))] else []),
        outstanding := outstanding s @ (if ok then [ev_id e] else [])\<rparr>)"

definition calm :: "SendEvent list \<Rightarrow> bool" where
  "calm es \<longleftrightarrow> (\<forall>e \<in> set es. \<not> ev_pending e)"

lemma calm_simps [simp]: "calm []" "calm (e # es) \<longleftrightarrow> \<not> ev_pending e \<and> calm es" "calm (xs @ ys) \<longleftrightarrow> calm xs \<and> calm ys"
    "calm (rev xs) \<longleftrightarrow> calm xs"
  by (auto simp: calm_def)

lemma flush_events_calm: "calm es \<Longrightarrow> flush_events acc es s = (es, s)"
  by (cases es) auto

lemma flush_send_queue_calm:
  assumes "calm (butlast (send_queue s))"
  shows "flush_send_queue acc s = (if calm (send_queue s) then s else write_last False acc s)"
proof (cases "calm (send_queue s)")
  case True
  then show ?thesis by (simp add: flush_send_queue_def flush_events_calm)
next
  case False
  then have "send_queue s \<noteq> []" by auto
  then obtain es e where q: "send_queue s = es @ [e]" by (metis append_butlast_last_id)
  then have "calm es" "ev_pending e" using assms False by auto
  then show ?thesis
    using False by (auto simp: flush_send_queue_def q write_last_def send_event_def Let_def flush_events_calm)
qed

text \<open>The event that \<^verbatim>\<open>queue_send_\<close> creates.\<close>

definition framed_event :: "nat \<Rightarrow> u8 list \<Rightarrow> u8 list \<Rightarrow> SendEvent" where
  "framed_event n key b = \<lparr>ev_id = n, ev_buffer = Mask b key 0, ev_pending = True, ev_complete = False,
     ev_vector = [(Header_array n, wire_header (Some key, b)), (Event_buffer n, take (quic_length (length b)) (Mask b key 0))]\<rparr>"

lemma framed_event_simps [simp]:
  "ev_id (framed_event n key b) = n" "ev_buffer (framed_event n key b) = Mask b key 0" "ev_pending (framed_event n key b)"
  "\<not> ev_complete (framed_event n key b)" "fst (hd (ev_vector (framed_event n key b))) = Header_array n"
  by (simp_all add: framed_event_def)

definition enqueue_event :: "u8 list \<Rightarrow> u8 list \<Rightarrow> quic_send \<Rightarrow> quic_send" where
  "enqueue_event key b s = s\<lparr>next_event := next_event s + 1, ws_headers := ws_headers s @ [(next_event s, wire_header (Some key, b))],
     send_queue := send_queue s @ [framed_event (next_event s) key b], queued := queued s @ [(next_event s, (Some key, b))]\<rparr>"

lemma queue_send_framed:
  assumes "ws_framing s" "length key = 4"
  shows "queue_send key b s = Inr (framed_event (next_event s) key b, enqueue_event key b s)"
  using assms
  by (simp add: queue_send_def WsWriteHeader_frame_header framed_event_def enqueue_event_def new_SendEvent_def wire_header_def Let_def)

definition count_send :: "u8 list \<Rightarrow> quic_send \<Rightarrow> quic_send" where
  "count_send b s = s\<lparr>pending_sends := cast_i32 (pending_sends s + 1), pending_bytes := cast_i32 (pending_bytes s + int (length b))\<rparr>"

lemma count_send_simps [simp]:
  "send_queue (count_send b s) = send_queue s" "qs_stream (count_send b s) = qs_stream s" "accepted_writes (count_send b s) = accepted_writes s"
  "queued (count_send b s) = queued s" "next_event (count_send b s) = next_event s" "write_calls (count_send b s) = write_calls s"
  "outstanding (count_send b s) = outstanding s" "ws_framing (count_send b s) = ws_framing s"
  by (simp_all add: count_send_def)

text \<open>\<^verbatim>\<open>send_buffer_\<close> past its limits: count, retry the last write if it failed, queue, write.\<close>

definition accept_send :: "(nat \<Rightarrow> bool) \<Rightarrow> u8 list \<Rightarrow> u8 list \<Rightarrow> quic_send \<Rightarrow> quic_send" where
  "accept_send acc key b s =
     (if \<not> qs_stream s then enqueue_event key b (count_send b s)
      else write_last True acc (enqueue_event key b (if calm (send_queue s) then count_send b s else write_last False acc (count_send b s))))"

lemma send_buffer_go_unfold:
  "send_buffer_go acc key b s =
     (if \<not> qs_stream s then res_bind (queue_send key b (count_send b s)) (\<lambda>(e, s2). Inr (-1, s2))
      else res_bind (queue_send key b (flush_send_queue acc (count_send b s))) (\<lambda>(e, s2).
        case send_event acc e s2 of (e', s3) \<Rightarrow> Inr (1, s3\<lparr>send_queue := butlast (send_queue s3) @ [e']\<rparr>)))"
  by (simp add: send_buffer_go_def count_send_def Let_def)

lemma send_event_attempt:
  assumes "send_queue s = es @ [e]" "ev_pending e"
  shows "(case send_event acc e s of (e', s3) \<Rightarrow> Inr (1, s3\<lparr>send_queue := butlast (send_queue s3) @ [e']\<rparr>))
    = Inr (1, write_last True acc s)"
  using assms by (simp add: send_event_def write_last_def Let_def)

lemma send_buffer_go_eq:
  assumes "ws_framing s" "length key = 4" "qs_stream s \<longrightarrow> calm (butlast (send_queue s))"
  shows "send_buffer_go acc key b s = Inr (if qs_stream s then 1 else -1, accept_send acc key b s)"
proof (cases "qs_stream s")
  case True
  let ?t = "flush_send_queue acc (count_send b s)"
  have t: "?t = (if calm (send_queue s) then count_send b s else write_last False acc (count_send b s))"
    using assms(3) True by (subst flush_send_queue_calm) simp_all
  have fr: "ws_framing ?t" using assms(1) t by (simp add: write_last_def Let_def)
  have "send_queue (enqueue_event key b ?t) = send_queue ?t @ [framed_event (next_event ?t) key b]"
    by (simp add: enqueue_event_def)
  then have "send_buffer_go acc key b s = Inr (1, write_last True acc (enqueue_event key b ?t))"
    by (simp add: send_buffer_go_unfold True queue_send_framed [OF fr assms(2)] send_event_attempt)
  then show ?thesis using True t by (simp add: accept_send_def)
next
  case False
  have "ws_framing (count_send b s)" using assms(1) by (simp add: count_send_def)
  then show ?thesis
    using False assms(2) by (simp add: send_buffer_go_unfold queue_send_framed accept_send_def)
qed

section \<open>The queue\<close>

text \<open>
  Well-formedness of the queue: events have increasing numbers, each has its header at the same place of
  \<^verbatim>\<open>ws_headers_\<close>, the first is not complete, a pending one is not complete, writes that msquic holds belong
  to events that are neither pending nor complete, and while there is a stream only the last is pending.
\<close>

definition queue_wf :: "quic_send \<Rightarrow> bool" where
  "queue_wf s \<longleftrightarrow> ws_framing s
     \<and> sorted_wrt (<) (map ev_id (send_queue s)) \<and> (\<forall>e \<in> set (send_queue s). ev_id e < next_event s)
     \<and> map (\<lambda>e. fst (hd (ev_vector e))) (send_queue s) = map (\<lambda>h. Header_array (fst h)) (ws_headers s)
     \<and> (send_queue s \<noteq> [] \<longrightarrow> \<not> ev_complete (hd (send_queue s)))
     \<and> (\<forall>e \<in> set (send_queue s). ev_pending e \<longrightarrow> \<not> ev_complete e)
     \<and> distinct (outstanding s)
     \<and> (\<forall>i \<in> set (outstanding s). \<exists>e \<in> set (send_queue s). ev_id e = i \<and> \<not> ev_complete e \<and> \<not> ev_pending e)
     \<and> (\<forall>i. completing s = Some i \<longrightarrow> i \<in> set (outstanding s))
     \<and> (qs_stream s \<longrightarrow> calm (butlast (send_queue s)))"

lemma queue_wf_distinct: "queue_wf s \<Longrightarrow> distinct (map ev_id (send_queue s))"
  by (auto simp: queue_wf_def strict_sorted_iff)

lemma queue_wf_id_inj:
  "queue_wf s \<Longrightarrow> e \<in> set (send_queue s) \<Longrightarrow> d \<in> set (send_queue s) \<Longrightarrow> ev_id e = ev_id d \<Longrightarrow> e = d"
  using queue_wf_distinct [of s] by (auto simp: distinct_map dest: inj_onD)

lemma count_send_wf [simp]: "queue_wf (count_send b s) \<longleftrightarrow> queue_wf s"
  by (simp add: queue_wf_def count_send_def)

lemma write_last_queue:
  "send_queue s = es @ [e] \<Longrightarrow> send_queue (write_last keep acc s) = es @ [e\<lparr>ev_pending := keep \<and> \<not> acc (write_calls s)\<rparr>]"
  by (simp add: write_last_def Let_def)

lemma write_last_wf:
  assumes wf: "queue_wf s" and q: "send_queue s = es @ [e]" and p: "ev_pending e" and c: "calm es"
  shows "queue_wf (write_last keep acc s)"
proof -
  have "ev_id e \<notin> set (outstanding s)"
  proof
    assume "ev_id e \<in> set (outstanding s)"
    then obtain d where "d \<in> set (send_queue s)" "ev_id d = ev_id e" "\<not> ev_pending d"
      using wf by (auto simp: queue_wf_def)
    moreover have "e \<in> set (send_queue s)" using q by simp
    ultimately show False using queue_wf_id_inj [OF wf] p by blast
  qed
  moreover have "\<exists>d \<in> set es \<union> {e\<lparr>ev_pending := keep'\<rparr>}. ev_id d = i \<and> \<not> ev_complete d \<and> \<not> ev_pending d"
    if "i \<in> set (outstanding s)" for i keep'
    using that wf q p by (auto simp: queue_wf_def)
  ultimately show ?thesis
    using wf q p c by (auto simp: queue_wf_def write_last_def Let_def sorted_wrt_append hd_append split: if_splits)
qed

lemma enqueue_wf:
  assumes wf: "queue_wf s" and c: "qs_stream s \<longrightarrow> calm (send_queue s)"
  shows "queue_wf (enqueue_event key b s)"
proof -
  have "\<exists>d \<in> set (send_queue s) \<union> {framed_event (next_event s) key b}. ev_id d = i \<and> \<not> ev_complete d \<and> \<not> ev_pending d"
    if "i \<in> set (outstanding s)" for i
    using that wf by (auto simp: queue_wf_def)
  then show ?thesis
    using wf c by (auto simp: queue_wf_def enqueue_event_def sorted_wrt_append hd_append less_Suc_eq)
qed

lemma not_calm_last:
  assumes "calm (butlast q)" "\<not> calm q"
  obtains es e where "q = es @ [e]" "ev_pending e" "calm es"
  using assms by (cases q rule: rev_cases) auto

text \<open>After a retry nothing is pending.\<close>

definition prepared :: "(nat \<Rightarrow> bool) \<Rightarrow> quic_send \<Rightarrow> quic_send" where
  "prepared acc s = (if \<not> qs_stream s \<or> calm (send_queue s) then s else write_last False acc s)"

lemma accept_send_prepared:
  "accept_send acc key b s = (let t = enqueue_event key b (prepared acc (count_send b s)) in if qs_stream s then write_last True acc t else t)"
  by (simp add: accept_send_def prepared_def Let_def)

lemma prepared_wf:
  assumes "queue_wf s"
  shows "queue_wf (prepared acc s)" "qs_stream s \<longrightarrow> calm (send_queue (prepared acc s))"
proof -
  have "queue_wf (write_last False acc s) \<and> calm (send_queue (write_last False acc s))" if "qs_stream s" "\<not> calm (send_queue s)"
  proof -
    have "calm (butlast (send_queue s))" using assms that(1) by (simp add: queue_wf_def)
    from not_calm_last [OF this that(2)] obtain es e where "send_queue s = es @ [e]" "ev_pending e" "calm es" .
    then show ?thesis using write_last_wf [OF assms] by (simp add: write_last_queue)
  qed
  then show "queue_wf (prepared acc s)" "qs_stream s \<longrightarrow> calm (send_queue (prepared acc s))"
    using assms by (auto simp: prepared_def)
qed

lemma prepared_stream [simp]: "qs_stream (prepared acc s) = qs_stream s"
  by (simp add: prepared_def write_last_def Let_def)

lemma enqueue_stream [simp]: "qs_stream (enqueue_event key b s) = qs_stream s"
    "send_queue (enqueue_event key b s) = send_queue s @ [framed_event (next_event s) key b]"
  by (simp_all add: enqueue_event_def)

lemma accept_send_wf:
  assumes "queue_wf s"
  shows "queue_wf (accept_send acc key b s)"
proof -
  let ?p = "prepared acc (count_send b s)"
  have p: "queue_wf ?p" "qs_stream s \<longrightarrow> calm (send_queue ?p)" "qs_stream ?p = qs_stream s"
    using prepared_wf [of "count_send b s" acc] assms by simp_all
  then have "queue_wf (enqueue_event key b ?p)" by (simp add: enqueue_wf)
  then show ?thesis
    using write_last_wf [of "enqueue_event key b ?p" "send_queue ?p"] p(2) by (simp add: accept_send_prepared Let_def)
qed

lemma clear_events_sync:
  assumes "map (\<lambda>e. fst (hd (ev_vector e))) q = map (\<lambda>h. Header_array (fst h)) hs"
  shows "\<exists>hs'. clear_events True q hs = Inr (dropWhile ev_complete q, hs')
    \<and> map (\<lambda>e. fst (hd (ev_vector e))) (dropWhile ev_complete q) = map (\<lambda>h. Header_array (fst h)) hs'"
  using assms
proof (induction q arbitrary: hs)
  case (Cons e q)
  then show ?case by (cases hs) auto
qed simp

text \<open>The state after a completion: the event is complete and the front of the queue is cleared.\<close>

definition after_complete :: "nat \<Rightarrow> (nat \<times> u8 list) list \<Rightarrow> quic_send \<Rightarrow> quic_send" where
  "after_complete i hs s = s\<lparr>send_queue := dropWhile ev_complete (map (complete_event i) (send_queue s)), ws_headers := hs,
     completing := None, outstanding := remove1 i (outstanding s), send_buffers_free := send_buffers_free s @ [[]]\<rparr>"

lemma complete_event_simps [simp]:
  "ev_id (complete_event i e) = ev_id e" "ev_vector (complete_event i e) = ev_vector e"
  "ev_pending (complete_event i e) = ev_pending e" "ev_complete (complete_event i e) \<longleftrightarrow> ev_complete e \<or> ev_id e = i"
  by (simp_all add: complete_event_def)

lemma find_event_outstanding:
  assumes "queue_wf s" "i \<in> set (outstanding s)"
  obtains e where "find_event i s = Some e" "e \<in> set (send_queue s)" "ev_id e = i" "\<not> ev_complete e" "\<not> ev_pending e"
proof -
  obtain e where e: "e \<in> set (send_queue s)" "ev_id e = i" "\<not> ev_complete e" "\<not> ev_pending e"
    using assms by (auto simp: queue_wf_def)
  then have "find_event i s \<noteq> None" by (auto simp: find_event_def find_None_iff)
  then obtain d where "find_event i s = Some d" by blast
  moreover from this have "d \<in> set (send_queue s)" "ev_id d = i" by (auto simp: find_event_def find_Some_iff)
  ultimately show ?thesis using that queue_wf_id_inj [OF assms(1) e(1), of d] e by auto
qed

lemma OnWriteComplete_eq:
  assumes wf: "queue_wf s" and i: "i \<in> set (outstanding s)"
  shows "\<exists>hs. OnWriteComplete i s = Inr (after_complete i hs s)
    \<and> map (\<lambda>e. fst (hd (ev_vector e))) (send_queue (after_complete i hs s)) = map (\<lambda>h. Header_array (fst h)) hs"
proof -
  obtain e where e: "find_event i s = Some e" "e \<in> set (send_queue s)"
    using find_event_outstanding [OF assms] .
  then obtain d q where q: "send_queue s = d # q" by (cases "send_queue s") auto
  let ?q = "map (complete_event i) (send_queue s)"
  have sync: "map (\<lambda>e. fst (hd (ev_vector e))) ?q = map (\<lambda>h. Header_array (fst h)) (ws_headers s)"
    using wf by (simp add: queue_wf_def o_def)
  let ?s = "s\<lparr>send_queue := ?q, completing := None, outstanding := remove1 i (outstanding s),
    send_buffers_free := send_buffers_free s @ [[]]\<rparr>"
  have step: "OnWriteComplete i s = (if ev_id d = i then clear_completed ?s else Inr ?s)"
    using e(1) q by (simp add: OnWriteComplete_def release_buffer_def Let_def)
  have after: "after_complete i hs s = ?s\<lparr>send_queue := dropWhile ev_complete ?q, ws_headers := hs\<rparr>" for hs
    by (simp add: after_complete_def)
  show ?thesis
  proof (cases "ev_id d = i")
    case True
    obtain hs where hs: "clear_events True ?q (ws_headers s) = Inr (dropWhile ev_complete ?q, hs)"
        "map (\<lambda>e. fst (hd (ev_vector e))) (dropWhile ev_complete ?q) = map (\<lambda>h. Header_array (fst h)) hs"
      using clear_events_sync [OF sync] by blast
    have "ws_framing s" using wf by (simp add: queue_wf_def)
    then have "OnWriteComplete i s = Inr (after_complete i hs s)"
      using step True hs(1) by (simp add: clear_completed_def after del: map_map)
    then show ?thesis using hs(2) by (auto simp: after_complete_def)
  next
    case False
    then have "dropWhile ev_complete ?q = ?q" using wf q by (simp add: queue_wf_def)
    then have "after_complete i (ws_headers s) s = ?s" "send_queue (after_complete i (ws_headers s) s) = ?q"
      by (simp_all add: after)
    then show ?thesis using step False sync by (intro exI [of _ "ws_headers s"]) (simp only: if_False simp_thms)
  qed
qed

lemma in_dropWhile: "x \<in> set xs \<Longrightarrow> \<not> P x \<Longrightarrow> x \<in> set (dropWhile P xs)"
  by (induction xs) auto

lemma filter_dropWhile: "(\<And>x. Q x \<Longrightarrow> \<not> P x) \<Longrightarrow> filter Q (dropWhile P xs) = filter Q xs"
  by (induction xs) auto

lemma calm_dropWhile: "calm (butlast xs) \<Longrightarrow> calm (butlast (dropWhile P xs))"
  by (induction xs) (auto split: if_splits)

lemma calm_complete: "calm (map (complete_event i) xs) \<longleftrightarrow> calm xs"
  by (auto simp: calm_def)

lemma pending_not_completed:
  assumes wf: "queue_wf s" and i: "i \<in> set (outstanding s)" and x: "x \<in> set (map (complete_event i) (send_queue s))" "ev_pending x"
  shows "\<not> ev_complete x"
proof -
  obtain e where e: "e \<in> set (send_queue s)" "ev_id e = i" "\<not> ev_pending e"
    using find_event_outstanding [OF wf i] .
  obtain y where y: "y \<in> set (send_queue s)" "x = complete_event i y" "ev_pending y" using x by auto
  have "\<not> ev_complete y" using wf y(1,3) unfolding queue_wf_def by blast
  moreover have "ev_id y \<noteq> i" using queue_wf_id_inj [OF wf e(1) y(1)] e y(3) by blast
  ultimately show ?thesis by (simp add: y(2))
qed

lemma after_complete_wf:
  assumes wf: "queue_wf s" and i: "i \<in> set (outstanding s)" and c: "completing s \<in> {None, Some i}"
    and hs: "map (\<lambda>e. fst (hd (ev_vector e))) (send_queue (after_complete i hs s)) = map (\<lambda>h. Header_array (fst h)) hs"
  shows "queue_wf (after_complete i hs s)"
proof -
  let ?q = "map (complete_event i) (send_queue s)" and ?d = "dropWhile ev_complete (map (complete_event i) (send_queue s))"
  have d: "set ?d \<subseteq> set ?q" by (meson set_dropWhileD subsetI)
  have ids: "map ev_id ?d = drop (length (takeWhile ev_complete ?q)) (map ev_id (send_queue s))"
    by (simp add: dropWhile_eq_drop drop_map)
  have "sorted_wrt (<) (map ev_id (send_queue s))" using wf by (simp only: queue_wf_def)
  then have "sorted_wrt (<) (map ev_id ?d)" unfolding ids by (rule sorted_wrt_drop)
  moreover have "\<forall>e \<in> set ?d. ev_id e < next_event s" "?d \<noteq> [] \<longrightarrow> \<not> ev_complete (hd ?d)"
    using wf d hd_dropWhile [of ev_complete ?q] by (auto simp: queue_wf_def)
  moreover have "\<forall>d \<in> set ?d. ev_pending d \<longrightarrow> \<not> ev_complete d"
    using pending_not_completed [OF wf i] d by blast
  moreover have "\<exists>d \<in> set ?d. ev_id d = j \<and> \<not> ev_complete d \<and> \<not> ev_pending d" if "j \<in> set (remove1 i (outstanding s))" for j
  proof -
    have "j \<in> set (outstanding s)" "j \<noteq> i" using that wf by (auto simp: queue_wf_def)
    then obtain y where "y \<in> set (send_queue s)" "ev_id y = j" "\<not> ev_complete y" "\<not> ev_pending y"
      using wf by (auto simp: queue_wf_def)
    then show ?thesis using \<open>j \<noteq> i\<close> by (intro bexI [of _ "complete_event i y"]) (auto intro: in_dropWhile)
  qed
  moreover have "qs_stream s \<longrightarrow> calm (butlast ?d)"
    using wf by (auto simp: queue_wf_def calm_complete simp flip: map_butlast intro!: calm_dropWhile)
  ultimately show ?thesis
    using wf hs by (simp add: queue_wf_def after_complete_def)
qed

section \<open>Buffers and counters\<close>

definition live :: "quic_send \<Rightarrow> SendEvent list" where
  "live s = filter (\<lambda>e. \<not> ev_complete e) (send_queue s)"

definition counted :: "quic_send \<Rightarrow> SendEvent list" where
  "counted s = filter (\<lambda>e. completing s \<noteq> Some (ev_id e)) (live s)"

definition sizes :: "SendEvent list \<Rightarrow> nat" where
  "sizes es = sum_list (map (\<lambda>e. length (ev_buffer e)) es)"

text \<open>
  Every buffer that was created, less \<open>n\<close>, is in the free list, handed out, waiting to be sent or in an event
  that is not complete; the counters are those of the incomplete events, less \<open>m\<close> messages of \<open>k\<close> bytes.
\<close>

definition buffers_inv :: "nat \<Rightarrow> quic_send \<Rightarrow> bool" where
  "buffers_inv n s \<longleftrightarrow> send_buffer_count s
     = int (length (send_buffers_free s) + held_buffers s + length (send_waiting s) + length (live s) + n)
     \<and> send_buffer_count s \<le> max_send_buffers"

definition counters_inv :: "nat \<Rightarrow> nat \<Rightarrow> quic_send \<Rightarrow> bool" where
  "counters_inv m k s \<longleftrightarrow> pending_sends s = int (length (counted s) + m) \<and> pending_bytes s = int (sizes (counted s) + k)"

definition limits_inv :: "nat \<Rightarrow> quic_send \<Rightarrow> bool" where
  "limits_inv B s \<longleftrightarrow> pending_bytes s \<le> max_pending_bytes + int B \<and> (\<forall>b \<in> set (send_waiting s). length b \<le> B)"

lemmas account_defs = buffers_inv_def counters_inv_def limits_inv_def live_def counted_def sizes_def

lemma write_last_accounts:
  assumes "send_queue s = es @ [e]"
  shows "buffers_inv n (write_last keep acc s) \<longleftrightarrow> buffers_inv n s" "counters_inv m k (write_last keep acc s) \<longleftrightarrow> counters_inv m k s"
    "limits_inv B (write_last keep acc s) \<longleftrightarrow> limits_inv B s"
  using assms by (simp_all add: account_defs write_last_def Let_def)

lemma enqueue_accounts:
  assumes "queue_wf s"
  shows "buffers_inv (Suc n) s \<Longrightarrow> buffers_inv n (enqueue_event key b s)"
    "counters_inv (Suc m) (k + length b) s \<Longrightarrow> counters_inv m k (enqueue_event key b s)"
    "limits_inv B (enqueue_event key b s) \<longleftrightarrow> limits_inv B s"
proof -
  have "completing s \<noteq> Some (next_event s)" using assms by (fastforce simp: queue_wf_def)
  then show "buffers_inv (Suc n) s \<Longrightarrow> buffers_inv n (enqueue_event key b s)"
      "counters_inv (Suc m) (k + length b) s \<Longrightarrow> counters_inv m k (enqueue_event key b s)"
      "limits_inv B (enqueue_event key b s) \<longleftrightarrow> limits_inv B s"
    by (simp_all add: account_defs enqueue_event_def)
qed

lemma prepared_accounts:
  assumes "queue_wf s"
  shows "buffers_inv n (prepared acc s) \<longleftrightarrow> buffers_inv n s" "counters_inv m k (prepared acc s) \<longleftrightarrow> counters_inv m k s"
    "limits_inv B (prepared acc s) \<longleftrightarrow> limits_inv B s"
proof -
  have "\<exists>es e. send_queue s = es @ [e]" if "\<not> calm (send_queue s)"
    using that by (cases "send_queue s" rule: rev_cases) auto
  then show "buffers_inv n (prepared acc s) \<longleftrightarrow> buffers_inv n s" "counters_inv m k (prepared acc s) \<longleftrightarrow> counters_inv m k s"
      "limits_inv B (prepared acc s) \<longleftrightarrow> limits_inv B s"
    by (auto simp: prepared_def write_last_accounts)
qed

lemma count_send_accounts:
  assumes b: "buffers_inv (Suc 0) s" and c: "counters_inv 0 0 s" and l: "limits_inv B s" "pending_bytes s \<le> max_pending_bytes"
    and B: "length b \<le> B" "max_pending_bytes + int B < 2 ^ 31"
  shows "buffers_inv (Suc 0) (count_send b s)" "counters_inv (Suc 0) (0 + length b) (count_send b s)" "limits_inv B (count_send b s)"
proof -
  have "length (counted s) \<le> length (live s)" by (simp add: counted_def)
  then have "pending_sends s + 1 < 2 ^ 31" "0 \<le> pending_sends s" "0 \<le> pending_bytes s"
    using b c by (simp_all add: buffers_inv_def counters_inv_def max_send_buffers_def)
  then have "cast_i32 (pending_sends s + 1) = pending_sends s + 1"
      "cast_i32 (pending_bytes s + int (length b)) = pending_bytes s + int (length b)"
    using l(2) B by (intro cast_i32_small; simp)+
  then show "buffers_inv (Suc 0) (count_send b s)" "counters_inv (Suc 0) (0 + length b) (count_send b s)" "limits_inv B (count_send b s)"
    using assms by (simp_all add: account_defs count_send_def)
qed

text \<open>The invariant of the sending half.\<close>

definition send_inv :: "nat \<Rightarrow> quic_send \<Rightarrow> bool" where
  "send_inv B s \<longleftrightarrow> queue_wf s \<and> buffers_inv 0 s \<and> counters_inv 0 0 s \<and> limits_inv B s"

lemma accept_send_inv:
  assumes wf: "queue_wf s" and b: "buffers_inv (Suc 0) s" and c: "counters_inv 0 0 s"
    and l: "limits_inv B s" "pending_bytes s \<le> max_pending_bytes"
    and B: "length b \<le> B" "max_pending_bytes + int B < 2 ^ 31"
  shows "send_inv B (accept_send acc key b s)"
proof -
  let ?p = "prepared acc (count_send b s)"
  have p: "queue_wf ?p" using prepared_wf(1) wf by simp
  moreover have "buffers_inv (Suc 0) ?p" "counters_inv (Suc 0) (0 + length b) ?p" "limits_inv B ?p"
    using count_send_accounts [OF b c l B] wf by (simp_all add: prepared_accounts)
  ultimately have "buffers_inv 0 (enqueue_event key b ?p)" "counters_inv 0 0 (enqueue_event key b ?p)" "limits_inv B (enqueue_event key b ?p)"
    by (simp_all only: enqueue_accounts)
  then show ?thesis
    using accept_send_wf [OF wf, of acc key b] by (auto simp: send_inv_def accept_send_prepared Let_def write_last_accounts)
qed

lemma sizes_simps [simp]: "sizes [] = 0" "sizes (e # es) = length (ev_buffer e) + sizes es"
  by (simp_all add: sizes_def)

lemma remove_event:
  assumes "distinct (map ev_id es)" "e \<in> set es"
  shows "length es = Suc (length (filter (\<lambda>d. ev_id d \<noteq> ev_id e) es))
    \<and> sizes es = length (ev_buffer e) + sizes (filter (\<lambda>d. ev_id d \<noteq> ev_id e) es)"
  using assms
proof (induction es)
  case (Cons d es)
  have "filter (\<lambda>d. ev_id d \<noteq> ev_id e) es = es" if "ev_id e \<notin> ev_id ` set es"
    using that by (metis (mono_tags, lifting) filter_True image_eqI)
  then show ?case using Cons by auto
qed simp

lemma live_distinct: "queue_wf s \<Longrightarrow> distinct (map ev_id (live s))"
  using queue_wf_distinct [of s] by (simp add: live_def distinct_map_filter)

lemma write_complete_counts_inv:
  assumes inv: "send_inv B s" and i: "i \<in> set (outstanding s)" and c: "completing s = None" and B: "max_pending_bytes + int B < 2 ^ 31"
  shows "\<exists>t. write_complete_counts i s = Inr t \<and> send_inv B t"
proof -
  have wf: "queue_wf s" using inv by (simp add: send_inv_def)
  obtain e where e: "find_event i s = Some e" "e \<in> set (send_queue s)" "ev_id e = i" "\<not> ev_complete e"
    using find_event_outstanding [OF wf i] .
  let ?t = "s\<lparr>pending_sends := pending_sends s - 1, pending_bytes := pending_bytes s - int (length (ev_buffer e)), completing := Some i\<rparr>"
  have live: "live ?t = live s" "counted s = live s" "counted ?t = filter (\<lambda>d. ev_id d \<noteq> ev_id e) (live s)"
    using c e(3) by (auto simp: live_def counted_def intro!: filter_cong)
  have "e \<in> set (live s)" using e by (simp add: live_def)
  note rem = remove_event [OF live_distinct [OF wf] this]
  have pend: "pending_sends s = int (length (live s))" "pending_bytes s = int (sizes (live s))"
      "pending_bytes s \<le> max_pending_bytes + int B" "int (length (live s)) \<le> 512"
    using inv by (auto simp: send_inv_def counters_inv_def buffers_inv_def limits_inv_def live max_send_buffers_def)
  have "cast_i32 (pending_sends s - 1) = pending_sends s - 1"
      "cast_i32 (pending_bytes s - int (length (ev_buffer e))) = pending_bytes s - int (length (ev_buffer e))"
    using rem pend B by (intro cast_i32_small; simp)+
  then have "write_complete_counts i s = Inr ?t" using e(1) by (simp add: write_complete_counts_def)
  moreover have "send_inv B ?t"
  proof -
    have "queue_wf ?t" using wf i by (simp add: queue_wf_def)
    moreover have "counters_inv 0 0 ?t" unfolding counters_inv_def live(3) using pend rem by simp
    moreover have "buffers_inv 0 ?t" using inv by (simp add: send_inv_def buffers_inv_def live)
    ultimately show ?thesis using inv by (simp add: send_inv_def limits_inv_def)
  qed
  ultimately show ?thesis by blast
qed

lemma OnWriteComplete_inv:
  assumes inv: "send_inv B s" and c: "completing s = Some i"
  shows "\<exists>t. OnWriteComplete i s = Inr t \<and> send_inv B t"
proof -
  have wf: "queue_wf s" and i: "i \<in> set (outstanding s)" using inv c by (auto simp: send_inv_def queue_wf_def)
  obtain hs where step: "OnWriteComplete i s = Inr (after_complete i hs s)"
      and hs: "map (\<lambda>e. fst (hd (ev_vector e))) (send_queue (after_complete i hs s)) = map (\<lambda>h. Header_array (fst h)) hs"
    using OnWriteComplete_eq [OF wf i] by blast
  let ?t = "after_complete i hs s"
  have "filter (\<lambda>e. \<not> ev_complete e) (map (complete_event i) es) = filter (\<lambda>e. completing s \<noteq> Some (ev_id e)) (filter (\<lambda>e. \<not> ev_complete e) es)"
    for es using c by (induction es) (auto simp: complete_event_def)
  then have live: "live ?t = counted s" "counted ?t = counted s"
    by (simp_all add: live_def counted_def after_complete_def filter_dropWhile)
  obtain e where e: "e \<in> set (send_queue s)" "ev_id e = i" "\<not> ev_complete e"
    using find_event_outstanding [OF wf i] .
  have "e \<in> set (live s)" "counted s = filter (\<lambda>d. ev_id d \<noteq> ev_id e) (live s)"
    using c e by (auto simp: live_def counted_def intro!: filter_cong)
  then have "length (live s) = Suc (length (counted s))" using remove_event [OF live_distinct [OF wf]] by metis
  then have "buffers_inv 0 ?t" "counters_inv 0 0 ?t" "limits_inv B ?t"
    using inv by (simp_all add: send_inv_def buffers_inv_def counters_inv_def limits_inv_def live) (simp_all add: after_complete_def)
  moreover have "queue_wf ?t" using after_complete_wf [OF wf i _ hs] c by simp
  ultimately show ?thesis using step by (simp add: send_inv_def)
qed

lemma remove_nth_set: "set (remove_nth j xs) \<subseteq> set xs"
  by (auto simp: remove_nth_def dest: in_set_takeD in_set_dropD)

lemma remove_nth_length: "j < length xs \<Longrightarrow> length xs = Suc (length (remove_nth j xs))"
  by (simp add: remove_nth_def)

lemma take_free_inv:
  assumes "send_inv B s" "send_buffers_free s \<noteq> []"
  shows "send_inv B (take_free s)"
proof -
  obtain bs b where "send_buffers_free s = bs @ [b]" using assms(2) by (cases "send_buffers_free s" rule: rev_cases) auto
  then show ?thesis using assms(1) by (simp add: send_inv_def account_defs queue_wf_def take_free_def)
qed

lemma create_buffer_inv: "send_inv B s \<Longrightarrow> send_buffer_count s < max_send_buffers \<Longrightarrow> send_inv B (create_buffer s)"
  by (simp add: send_inv_def account_defs queue_wf_def create_buffer_def)

lemma get_waiting_inv [simp]: "send_inv B (s\<lparr>get_waiting := n\<rparr>) \<longleftrightarrow> send_inv B s"
  by (simp add: send_inv_def account_defs queue_wf_def)

lemma get_buffer_inv: "send_inv B s \<Longrightarrow> send_inv B (snd (get_buffer s))" "send_inv B s \<Longrightarrow> send_inv B (snd (get_buffer_wake s))"
  by (simp_all add: get_buffer_def get_buffer_wake_def take_free_inv create_buffer_inv)

lemma send_buffer_go_wf:
  "queue_wf s \<Longrightarrow> length key = 4 \<Longrightarrow> send_buffer_go acc key b s = Inr (if qs_stream s then 1 else -1, accept_send acc key b s)"
  by (intro send_buffer_go_eq) (auto simp: queue_wf_def)

lemma send_buffer_inv:
  assumes inv: "send_inv B s" and h: "held_buffers s > 0" and key: "length key = 4" and B: "length b \<le> B" "max_pending_bytes + int B < 2 ^ 31"
  shows "\<exists>r t. send_buffer acc key b s = Inr (r, t) \<and> send_inv B t"
proof -
  let ?s = "s\<lparr>held_buffers := held_buffers s - 1\<rparr>"
  have s: "queue_wf ?s" "buffers_inv (Suc 0) ?s" "counters_inv 0 0 ?s" "limits_inv B ?s"
    using inv h by (simp_all add: send_inv_def account_defs queue_wf_def)
  then have "send_inv B (accept_send acc key b ?s)" if "pending_bytes s \<le> max_pending_bytes"
    using that B by (intro accept_send_inv) simp_all
  moreover have "send_inv B (release_buffer b ?s)" "send_inv B (?s\<lparr>send_waiting := send_waiting s @ [b]\<rparr>)"
    using s B(1) by (auto simp: send_inv_def account_defs queue_wf_def release_buffer_def)
  ultimately show ?thesis
    using send_buffer_go_wf [OF s(1) key, of acc b] by (simp add: send_buffer_def Let_def)
qed

lemma send_buffer_wake_inv:
  assumes inv: "send_inv B s" and j: "j < length (send_waiting s)" and key: "length key = 4" and B: "max_pending_bytes + int B < 2 ^ 31"
  shows "\<exists>r t. send_buffer_wake acc key j s = Inr (r, t) \<and> send_inv B t"
proof -
  let ?s = "s\<lparr>send_waiting := remove_nth j (send_waiting s)\<rparr>"
  have s: "queue_wf ?s" "buffers_inv (Suc 0) ?s" "counters_inv 0 0 ?s" "limits_inv B ?s" "length (send_waiting s ! j) \<le> B"
    using inv j remove_nth_length [OF j] remove_nth_set [of j "send_waiting s"]
    by (auto simp: send_inv_def account_defs queue_wf_def)
  then have "send_inv B (accept_send acc key (send_waiting s ! j) ?s)" if "pending_bytes s \<le> max_pending_bytes"
    using that B by (intro accept_send_inv) simp_all
  then show ?thesis
    using inv by (simp add: send_buffer_wake_def send_buffer_go_wf [OF s(1) key])
qed

lemma quic_do_inv:
  assumes "send_inv B s" "op_within B x" "max_pending_bytes + int B < 2 ^ 31" "quic_do acc x s = Some r"
  shows "\<exists>t. r = Inr t \<and> send_inv B t"
proof (cases x)
  case (Q_send key b)
  then show ?thesis using assms send_buffer_inv [of B s key b acc] by (auto split: if_splits)
next
  case (Q_send_wake key j)
  then show ?thesis using assms send_buffer_wake_inv [of B s j key acc] by (auto split: if_splits)
next
  case (Q_completed i)
  then show ?thesis using assms write_complete_counts_inv [of B s i] by (auto split: if_splits)
next
  case Q_complete
  then show ?thesis using assms OnWriteComplete_inv by (auto split: option.splits)
next
  case Q_closed
  then show ?thesis using assms by (auto simp: send_inv_def account_defs queue_wf_def)
next
  case Q_shutdown
  then show ?thesis using assms by (auto simp: send_inv_def account_defs queue_wf_def send_OnShutdownComplete_def)
qed (use assms get_buffer_inv in \<open>auto split: if_splits\<close>)

lemma new_quic_send_inv: "send_inv B new_quic_send"
  by (simp add: send_inv_def account_defs queue_wf_def new_quic_send_def max_send_buffers_def max_pending_bytes_def)

lemma quic_exec_inv:
  assumes "send_inv B s" "list_all (op_within B) xs" "max_pending_bytes + int B < 2 ^ 31" "quic_exec acc xs s = Some r"
  shows "\<exists>t. r = Inr t \<and> send_inv B t"
  using quic.exec_invariant [of "send_inv B" "op_within B"] quic_do_inv [OF _ _ assms(3)] assms by blast

section \<open>Properties\<close>

text \<open>
  C5: Whatever threads send and whatever msquic answers, no check fails, every send buffer is accounted for and
  there are at most 512: it is free, handed out, held by a blocked sender or in a write that is not
  complete. The two counters are those of the incomplete writes (but the one whose completion is being
  handled), do not overflow, and at most one message exceeds the limit on pending bytes.
\<close>

theorem quic_send_accounts:
  assumes "list_all (op_within B) xs" "max_pending_bytes + int B < 2 ^ 31" "quic_exec acc xs new_quic_send = Some r"
  shows "\<exists>s. r = Inr s
    \<and> send_buffer_count s = int (length (send_buffers_free s) + held_buffers s + length (send_waiting s) + length (live s))
    \<and> send_buffer_count s \<le> 512
    \<and> pending_sends s = int (length (counted s)) \<and> pending_bytes s = int (sizes (counted s))
    \<and> pending_bytes s \<le> max_pending_bytes + int B"
  using quic_exec_inv [OF new_quic_send_inv assms]
  by (auto simp: send_inv_def buffers_inv_def counters_inv_def limits_inv_def max_send_buffers_def)

text \<open>A run of the witnesses: a message is sent and its completion begins.\<close>

definition short_run :: "send_op list" where
  "short_run = [Q_get, Q_send [1, 2, 3, 4] [5, 6], Q_completed 0]"

lemma short_run_result:
  obtains s where "quic_exec (\<lambda>n. True) short_run new_quic_send = Some (Inr s)" "queued s = [(0, (Some [1, 2, 3, 4], [5, 6]))]"
    "length (concat (map snd (accepted_writes s))) = 8" "qs_stream s" "completing s = Some 0"
proof -
  have "case quic_exec (\<lambda>n. True) short_run new_quic_send of
      Some (Inr s) \<Rightarrow> queued s = [(0, (Some [1, 2, 3, 4], [5, 6]))] \<and> length (concat (map snd (accepted_writes s))) = 8 \<and> qs_stream s
        \<and> completing s = Some 0
    | _ \<Rightarrow> False"
    by code_simp
  then show ?thesis using that by (auto split: option.splits sum.splits)
qed

lemma short_run_within: "list_all (op_within 2) short_run" "max_pending_bytes + int 2 < 2 ^ 31"
  by (simp_all add: short_run_def max_pending_bytes_def)

theorem quic_send_accounts_witness:
  "\<exists>s. quic_exec (\<lambda>n. True) short_run new_quic_send = Some (Inr s)
    \<and> send_buffer_count s = int (length (send_buffers_free s) + held_buffers s + length (send_waiting s) + length (live s))
    \<and> pending_bytes s \<le> max_pending_bytes + 2"
proof -
  obtain s where s: "quic_exec (\<lambda>n. True) short_run new_quic_send = Some (Inr s)" by (rule short_run_result)
  show ?thesis using quic_send_accounts [OF short_run_within s] s by auto
qed

end
