(* ===== verification/FTL_QuicWire.thy ===== *)
theory FTL_QuicWire
  imports FTL_QuicSend "HOL-Library.Sublist" "HOL-Library.Multiset"
begin

text \<open>
  What the sending half of the QUIC peer (\<open>FTL_QuicSend\<close>) puts on the wire: which messages msquic accepts and
  in which order, when the queue drains, and what becomes of a message that msquic refuses.
\<close>

section \<open>The bytes on the wire\<close>

definition wire_entry :: "nat \<times> ws_frame \<Rightarrow> nat \<times> u8 list" where
  "wire_entry x = (fst x, wire_frame (snd x))"

text \<open>The messages that will not be written again: all but a pending one.\<close>

definition settled :: "quic_send \<Rightarrow> (nat \<times> ws_frame) list" where
  "settled s = (if qs_stream s \<and> \<not> calm (send_queue s) then butlast (queued s) else queued s)"

definition event_bytes :: "SendEvent \<Rightarrow> nat \<times> u8 list" where
  "event_bytes e = (ev_id e, concat (map snd (ev_vector e)))"

definition log_inv :: "quic_send \<Rightarrow> bool" where
  "log_inv s \<longleftrightarrow> (\<exists>ws. accepted_writes s = map wire_entry ws \<and> subseq ws (settled s))
     \<and> (qs_stream s \<and> \<not> calm (send_queue s) \<longrightarrow> queued s \<noteq> [] \<and> event_bytes (last (send_queue s)) = wire_entry (last (queued s)))"

definition all_held :: "quic_send \<Rightarrow> bool" where
  "all_held s \<longleftrightarrow> (\<forall>e \<in> set (send_queue s). ev_complete e \<or> ev_id e \<in> set (outstanding s))"

definition all_written :: "(nat \<Rightarrow> bool) \<Rightarrow> quic_send \<Rightarrow> bool" where
  "all_written acc s \<longleftrightarrow> (qs_stream s \<and> (\<forall>n < write_calls s. acc n) \<longrightarrow>
     calm (send_queue s) \<and> accepted_writes s = map wire_entry (queued s) \<and> all_held s)"

lemma settled_count_send [simp]: "settled (count_send b s) = settled s"
  by (simp add: settled_def)

lemma framed_event_bytes: "length b < 2 ^ 32 \<Longrightarrow> event_bytes (framed_event n key b) = wire_entry (n, (Some key, b))"
  by (simp add: event_bytes_def framed_event_def wire_entry_def wire_frame_def quic_length_def unat_of_nat)

lemma subseq_snoc: "subseq xs ys \<Longrightarrow> subseq (xs @ [y]) (ys @ [y])"
  by (simp add: list_emb_append_mono)

lemma subseq_grow: "subseq xs ys \<Longrightarrow> subseq xs (ys @ zs)"
  by (meson subseq_order.trans subseq_rev_drop_many subseq_order.order_refl)

lemma write_last_log:
  assumes log: "log_inv s" and st: "qs_stream s" and q: "send_queue s = es @ [e]" and e: "ev_pending e" and c: "calm es"
  shows "log_inv (write_last keep acc s)"
proof -
  obtain ws where ws: "accepted_writes s = map wire_entry ws" "subseq ws (butlast (queued s))" "queued s \<noteq> []"
      "event_bytes e = wire_entry (last (queued s))"
    using log st q e by (auto simp: log_inv_def settled_def)
  let ?t = "write_last keep acc s"
  have t: "queued ?t = queued s" "qs_stream ?t" "send_queue ?t = es @ [e\<lparr>ev_pending := keep \<and> \<not> acc (write_calls s)\<rparr>]"
      "accepted_writes ?t = accepted_writes s @ (if acc (write_calls s) then [event_bytes e] else [])"
    using st q by (simp_all add: write_last_def Let_def event_bytes_def)
  have sub: "subseq (ws @ [last (queued s)]) (queued s)" "subseq ws (queued s)"
    using subseq_snoc [OF ws(2), of "last (queued s)"] subseq_grow [OF ws(2), of "[last (queued s)]"] ws(3) by simp_all
  show ?thesis
  proof (cases "acc (write_calls s)")
    case True
    then have "settled ?t = queued s" using t c by (simp add: settled_def)
    moreover have "accepted_writes ?t = map wire_entry (ws @ [last (queued s)])" using True t(4) ws(1,4) by simp
    ultimately show ?thesis using sub(1) True t c by (auto simp: log_inv_def simp del: map_append)
  next
    case False
    then show ?thesis using ws sub(2) t c by (auto simp: log_inv_def settled_def event_bytes_def)
  qed
qed

lemma enqueue_log:
  assumes log: "log_inv s" and c: "qs_stream s \<longrightarrow> calm (send_queue s)" and b: "length b < 2 ^ 32"
  shows "log_inv (enqueue_event key b s)"
proof -
  have "settled (enqueue_event key b s) = (if qs_stream s then settled s else settled s @ [(next_event s, Some key, b)])"
    using c by (simp add: settled_def) (simp add: enqueue_event_def)
  then show ?thesis
    using log framed_event_bytes [OF b] subseq_grow unfolding log_inv_def by (auto simp: enqueue_event_def)
qed

lemma accept_send_log:
  assumes wf: "queue_wf s" and log: "log_inv s" and b: "length b < 2 ^ 32"
  shows "log_inv (accept_send acc key b s)"
proof -
  let ?c = "count_send b s"
  have c: "queue_wf ?c" "log_inv ?c" "qs_stream ?c = qs_stream s"
    using wf log by (simp_all add: log_inv_def)
  have p: "log_inv (prepared acc ?c)"
  proof (cases "qs_stream ?c \<and> \<not> calm (send_queue ?c)")
    case True
    then have "calm (butlast (send_queue ?c))" using c(1) by (simp add: queue_wf_def)
    from not_calm_last [OF this] True obtain es e where "send_queue ?c = es @ [e]" "ev_pending e" "calm es" by metis
    then show ?thesis using True write_last_log [OF c(2)] by (simp add: prepared_def)
  qed (use c(2) in \<open>auto simp: prepared_def\<close>)
  have calm: "qs_stream s \<longrightarrow> calm (send_queue (prepared acc ?c))" using prepared_wf(2) [OF c(1)] c(3) by blast
  then have "log_inv (enqueue_event key b (prepared acc ?c))" using enqueue_log [OF p _ b] c(3) by simp
  then show ?thesis
    using calm c(3) write_last_log [of "enqueue_event key b (prepared acc ?c)"] by (simp add: accept_send_prepared Let_def)
qed

lemma accept_send_all_written:
  assumes "all_written acc s" "length b < 2 ^ 32"
  shows "all_written acc (accept_send acc key b s)"
  unfolding all_written_def
proof (intro impI)
  let ?t = "accept_send acc key b s" and ?e = "enqueue_event key b (count_send b s)"
  assume a: "qs_stream ?t \<and> (\<forall>n < write_calls ?t. acc n)"
  have st: "qs_stream s" using a by (auto simp: accept_send_def write_last_def enqueue_event_def count_send_def Let_def split: if_splits)
  have "write_calls s < write_calls ?t"
    using st by (simp add: accept_send_def write_last_def enqueue_event_def count_send_def Let_def)
  then have ok: "\<forall>n < write_calls s. acc n" "acc (write_calls s)" using a by auto
  then have all: "calm (send_queue s)" "accepted_writes s = map wire_entry (queued s)" "all_held s" using assms(1) st by (simp_all add: all_written_def)
  then have t: "?t = write_last True acc ?e" using st by (simp add: accept_send_def)
  have e: "send_queue ?e = send_queue s @ [framed_event (next_event s) key b]" "write_calls ?e = write_calls s" "accepted_writes ?e = accepted_writes s"
      "outstanding ?e = outstanding s"
      "queued ?e = queued s @ [(next_event s, (Some key, b))]"
    by (simp_all add: enqueue_event_def count_send_def)
  have u: "accepted_writes ?t = accepted_writes s @ [event_bytes (framed_event (next_event s) key b)]" "outstanding ?t = outstanding s @ [next_event s]"
      "queued ?t = queued s @ [(next_event s, (Some key, b))]"
    using ok e by (simp_all add: t write_last_def Let_def event_bytes_def)
  show "calm (send_queue ?t) \<and> accepted_writes ?t = map wire_entry (queued ?t) \<and> all_held ?t"
    unfolding all_held_def u using ok all framed_event_bytes [OF assms(2)]
    by (auto simp: t write_last_queue [OF e(1)] e all_held_def)
qed

text \<open>What the steps do to the log, the messages waiting and the messages queued.\<close>

definition same_log :: "quic_send \<Rightarrow> quic_send \<Rightarrow> bool" where
  "same_log s t \<longleftrightarrow> accepted_writes t = accepted_writes s \<and> queued t = queued s \<and> write_calls t = write_calls s \<and> (qs_stream t \<longrightarrow> qs_stream s)
     \<and> (qs_is_open t \<longrightarrow> qs_is_open s) \<and> (calm (send_queue t) \<longleftrightarrow> calm (send_queue s))
     \<and> (\<not> calm (send_queue s) \<longrightarrow> event_bytes (last (send_queue t)) = event_bytes (last (send_queue s)))
     \<and> (all_held s \<longrightarrow> all_held t)"

lemma same_log_invs:
  assumes "same_log s t"
  shows "log_inv s \<Longrightarrow> log_inv t" "all_written acc s \<Longrightarrow> all_written acc t"
proof -
  have "subseq ws (butlast (queued s)) \<Longrightarrow> subseq ws (queued s)" for ws
    using subseq_grow [of ws "butlast (queued s)" "[last (queued s)]"] by (cases "queued s = []") simp_all
  then show "log_inv s \<Longrightarrow> log_inv t" "all_written acc s \<Longrightarrow> all_written acc t"
    using assms by (auto simp: same_log_def log_inv_def all_written_def settled_def split: if_splits)
qed

lemma after_complete_log:
  assumes wf: "queue_wf s" and i: "i \<in> set (outstanding s)"
  shows "same_log s (after_complete i hs s)"
proof -
  let ?q = "map (complete_event i) (send_queue s)"
  note pend = pending_not_completed [OF wf i]
  have calm: "calm (dropWhile ev_complete ?q) \<longleftrightarrow> calm ?q"
    unfolding calm_def using pend in_dropWhile [of _ ?q ev_complete] by (meson set_dropWhileD)
  have "last (dropWhile ev_complete ?q) = last ?q" if "\<not> calm ?q"
  proof -
    have "dropWhile ev_complete ?q \<noteq> []" using that calm by (metis calm_simps(1))
    then show ?thesis by (metis last_appendR takeWhile_dropWhile_id)
  qed
  moreover have "event_bytes (complete_event i d) = event_bytes d" for d by (simp add: event_bytes_def)
  moreover have "\<not> calm (send_queue s) \<longrightarrow> send_queue s \<noteq> []" by auto
  moreover have "all_held (after_complete i hs s)" if "all_held s"
    using that by (fastforce simp: all_held_def after_complete_def dest!: set_dropWhileD)
  ultimately show ?thesis
    using calm by (auto simp: same_log_def after_complete_def calm_complete last_map)
qed

text \<open>The buffers of a run: those given to \<^verbatim>\<open>send_buffer_\<close>, and those it has queued or holds while it waits.\<close>

fun sent_buffers :: "send_op list \<Rightarrow> u8 list list" where
  "sent_buffers [] = []"
| "sent_buffers (Q_send key b # xs) = b # sent_buffers xs"
| "sent_buffers (_ # xs) = sent_buffers xs"

definition taken_buffers :: "quic_send \<Rightarrow> u8 list multiset" where
  "taken_buffers s = mset (map (\<lambda>x. snd (snd x)) (queued s)) + mset (send_waiting s)"

lemma accept_send_taken:
  "taken_buffers (accept_send acc key b s) = add_mset b (taken_buffers s)"
  "qs_is_open (accept_send acc key b s) = qs_is_open s" "qs_stream (accept_send acc key b s) = qs_stream s"
  by (auto simp: taken_buffers_def accept_send_def write_last_def enqueue_event_def Let_def) (simp_all add: count_send_def)

text \<open>Every step leaves the log as it is or accepts one message, which it had been given or held.\<close>

lemma quic_do_cases:
  assumes inv: "send_inv B s" and x: "op_within B x" "max_pending_bytes + int B < 2 ^ 31" and step: "quic_do acc x s = Some (Inr t)"
  shows "same_log s t \<and> (qs_stream t \<and> qs_is_open t \<longrightarrow> taken_buffers t = taken_buffers s + mset (sent_buffers [x]))
    \<or> (\<exists>s' key b. t = accept_send acc key b s' \<and> same_log s s' \<and> queue_wf s' \<and> length key = 4 \<and> length b \<le> B
        \<and> (qs_stream t \<and> qs_is_open t \<longrightarrow> add_mset b (taken_buffers s') = taken_buffers s + mset (sent_buffers [x])))"
proof -
  have wf: "queue_wf s" using inv by (simp add: send_inv_def)
  show ?thesis
  proof (cases x)
    case (Q_send key b)
    let ?s = "s\<lparr>held_buffers := held_buffers s - 1\<rparr>"
    have "queue_wf ?s" using wf by (simp add: queue_wf_def)
    from send_buffer_go_wf [OF this, of key acc b] consider
        "\<not> qs_stream s \<or> \<not> qs_is_open s" "t = release_buffer b ?s"
      | "t = ?s\<lparr>send_waiting := send_waiting s @ [b]\<rparr>" | "t = accept_send acc key b ?s"
      using x step Q_send by (auto simp: send_buffer_def Let_def split: if_splits)
    then show ?thesis
    proof cases
      case 3
      then show ?thesis using x Q_send \<open>queue_wf ?s\<close>
        by (intro disjI2) (rule exI [of _ ?s], rule exI [of _ key], rule exI [of _ b],
          simp add: same_log_def taken_buffers_def all_held_def)
    qed (use Q_send in \<open>auto simp: same_log_def taken_buffers_def all_held_def release_buffer_def\<close>)
  next
    case (Q_send_wake key j)
    let ?s = "s\<lparr>send_waiting := remove_nth j (send_waiting s)\<rparr>" and ?b = "send_waiting s ! j"
    have j: "j < length (send_waiting s)" using step Q_send_wake by (simp split: if_splits)
    have "queue_wf ?s" using wf by (simp add: queue_wf_def)
    from send_buffer_go_wf [OF this, of key acc ?b] consider "t = s" | "t = accept_send acc key ?b ?s"
      using x step Q_send_wake by (auto simp: send_buffer_wake_def split: if_splits)
    then show ?thesis
    proof cases
      case 2
      have "send_waiting s = take j (send_waiting s) @ ?b # drop (Suc j) (send_waiting s)" using j by (rule id_take_nth_drop)
      then have "mset (send_waiting s) = add_mset ?b (mset (remove_nth j (send_waiting s)))"
        by (metis remove_nth_def mset.simps(2) mset_append union_mset_add_mset_right)
      moreover have "length ?b \<le> B" using inv j by (simp add: send_inv_def limits_inv_def)
      ultimately show ?thesis using 2 x Q_send_wake \<open>queue_wf ?s\<close>
        by (intro disjI2) (rule exI [of _ ?s], rule exI [of _ key], rule exI [of _ ?b],
          simp add: same_log_def taken_buffers_def all_held_def)
    qed (use Q_send_wake in \<open>auto simp: same_log_def all_held_def\<close>)
  next
    case (Q_completed i)
    then show ?thesis using step
      by (auto simp: write_complete_counts_def same_log_def taken_buffers_def all_held_def split: if_splits option.splits)
  next
    case Q_complete
    then obtain i where i: "completing s = Some i" "OnWriteComplete i s = Inr t" using step by (auto split: option.splits)
    then have o: "i \<in> set (outstanding s)" using wf by (simp add: queue_wf_def)
    then obtain hs where "t = after_complete i hs s" using OnWriteComplete_eq [OF wf] i(2) by force
    moreover have "taken_buffers (after_complete i hs s) = taken_buffers s" by (simp add: taken_buffers_def after_complete_def)
    ultimately show ?thesis using after_complete_log [OF wf o] Q_complete by simp
  next
    case Q_closed
    then show ?thesis using step by (auto simp: same_log_def taken_buffers_def all_held_def)
  next
    case Q_shutdown
    then show ?thesis using step by (auto simp: same_log_def taken_buffers_def all_held_def send_OnShutdownComplete_def)
  qed (use step in \<open>auto simp: same_log_def taken_buffers_def all_held_def get_buffer_def get_buffer_wake_def take_free_def create_buffer_def split: if_splits\<close>)
qed

lemma quic_do_log:
  assumes inv: "send_inv B s" and x: "op_within B x" "max_pending_bytes + int B < 2 ^ 31" and step: "quic_do acc x s = Some (Inr t)"
    and log: "log_inv s" "all_written acc s"
  shows "log_inv t \<and> all_written acc t \<and> (qs_stream t \<longrightarrow> qs_stream s) \<and> (qs_is_open t \<longrightarrow> qs_is_open s)
    \<and> (qs_stream t \<and> qs_is_open t \<longrightarrow> taken_buffers t = taken_buffers s + mset (sent_buffers [x]))"
  using quic_do_cases [OF inv x step]
proof (elim disjE exE conjE)
  fix s' key b assume t: "t = accept_send acc key b s'" and s': "same_log s s'" "queue_wf s'" "length key = 4" "length b \<le> B"
    and taken: "qs_stream t \<and> qs_is_open t \<longrightarrow> add_mset b (taken_buffers s') = taken_buffers s + mset (sent_buffers [x])"
  have "length b < 2 ^ 32" using s'(4) x(2) by (simp add: max_pending_bytes_def)
  then have "log_inv t" "all_written acc t"
    using t s'(2) same_log_invs [OF s'(1)] log accept_send_log accept_send_all_written by blast+
  then show ?thesis using t s'(1) taken by (auto simp: accept_send_taken same_log_def)
next
  assume "same_log s t" and "qs_stream t \<and> qs_is_open t \<longrightarrow> taken_buffers t = taken_buffers s + mset (sent_buffers [x])"
  then show ?thesis using log same_log_invs [of s t] by (auto simp: same_log_def)
qed

lemma sent_buffers_append: "sent_buffers (xs @ ys) = sent_buffers xs @ sent_buffers ys"
  by (induction xs rule: sent_buffers.induct) simp_all

text \<open>The messages of the run so far that were taken by \<^verbatim>\<open>send_buffer_\<close>.\<close>

definition log_after :: "nat \<Rightarrow> (nat \<Rightarrow> bool) \<Rightarrow> send_op list \<Rightarrow> quic_send \<Rightarrow> bool" where
  "log_after B acc h s \<longleftrightarrow> send_inv B s \<and> log_inv s \<and> all_written acc s
     \<and> (qs_stream s \<and> qs_is_open s \<longrightarrow> taken_buffers s = mset (sent_buffers h))"

lemma quic_do_log_after:
  assumes "log_after B acc h s" "op_within B x" "max_pending_bytes + int B < 2 ^ 31" "quic_do acc x s = Some r"
  shows "\<exists>t. r = Inr t \<and> log_after B acc (h @ [x]) t"
proof -
  have s: "send_inv B s" "log_inv s" "all_written acc s" using assms(1) by (simp_all add: log_after_def)
  obtain t where t: "r = Inr t" "send_inv B t" using quic_do_inv [OF s(1) assms(2-4)] by blast
  then show ?thesis
    using quic_do_log [OF s(1) assms(2,3) _ s(2,3)] assms(1,4) by (auto simp: log_after_def sent_buffers_append)
qed

definition queued_within :: "nat \<Rightarrow> quic_send \<Rightarrow> bool" where
  "queued_within B s \<longleftrightarrow>
     list_all (\<lambda>x. case_option False (\<lambda>key. length key = 4) (fst (snd x)) \<and> length (snd (snd x)) \<le> B) (queued s)"

lemma quic_do_queued:
  assumes "send_inv B s" "op_within B x" "max_pending_bytes + int B < 2 ^ 31" "quic_do acc x s = Some (Inr u)" "queued_within B s"
  shows "queued_within B u"
proof -
  have new: "queued (accept_send acc key b s') = queued s' @ [(next_event s', (Some key, b))]" for key b s'
    by (simp add: accept_send_def write_last_def enqueue_event_def Let_def)
  have "queued u = queued s \<or> (\<exists>n key b. queued u = queued s @ [(n, (Some key, b))] \<and> length key = 4 \<and> length b \<le> B)"
    using quic_do_cases [OF assms(1-4)]
  proof (elim disjE exE conjE)
    fix s' key b assume "u = accept_send acc key b s'" "same_log s s'" "length key = 4" "length b \<le> B"
    then show ?thesis using new [of key b s'] by (simp add: same_log_def)
  qed (simp add: same_log_def)
  then show ?thesis using assms(5) unfolding queued_within_def by (elim disjE exE conjE) simp_all
qed

lemma quic_exec_queued:
  assumes "list_all (op_within B) xs" "max_pending_bytes + int B < 2 ^ 31" "quic_exec acc xs new_quic_send = Some (Inr t)"
  shows "queued_within B t"
proof -
  have step: "\<exists>t. x = Inr t \<and> send_inv B t \<and> queued_within B t"
    if "send_inv B s \<and> queued_within B s" "op_within B e" "quic_do acc e s = Some x" for e s x
    using that quic_do_inv [OF _ _ assms(2)] quic_do_queued [OF _ _ assms(2)] by blast
  have "send_inv B new_quic_send \<and> queued_within B new_quic_send"
    using new_quic_send_inv by (simp add: queued_within_def new_quic_send_def)
  from quic.exec_invariant [of "\<lambda>s. send_inv B s \<and> queued_within B s", OF step this assms(1,3)] show ?thesis by simp
qed

lemma new_quic_send_log: "log_inv new_quic_send" "all_written acc new_quic_send"
  by (simp_all add: log_inv_def all_written_def all_held_def settled_def new_quic_send_def)

lemma snd_wire_entry: "concat (map snd (map wire_entry ws)) = wire (map snd ws)"
  by (induction ws) (simp_all add: wire_entry_def)

lemma written_frames:
  assumes "log_inv s" "all_written acc s"
  obtains ws where "accepted_writes s = map wire_entry ws" "subseq ws (queued s)"
    "qs_stream s \<and> (\<forall>n < write_calls s. acc n) \<longrightarrow> ws = queued s"
proof -
  have "subseq (settled s) (queued s)"
    using subseq_grow [of "butlast (queued s)" "butlast (queued s)" "[last (queued s)]"] by (auto simp: settled_def)
  then have "\<exists>ws. accepted_writes s = map wire_entry ws \<and> subseq ws (queued s)"
    using assms(1) by (auto simp: log_inv_def intro: subseq_order.trans)
  then show ?thesis using assms(2) that unfolding all_written_def by (metis subseq_order.order_refl)
qed

lemma new_run_log:
  assumes "list_all (op_within B) xs" "max_pending_bytes + int B < 2 ^ 31" "quic_exec acc xs new_quic_send = Some (Inr s)"
  shows "log_inv s" "all_written acc s" "qs_stream s \<and> qs_is_open s \<longrightarrow> taken_buffers s = mset (sent_buffers xs)"
proof -
  have "log_after B acc [] new_quic_send"
    using new_quic_send_inv new_quic_send_log by (simp add: log_after_def taken_buffers_def) (simp add: new_quic_send_def)
  from quic.exec_history [of "log_after B acc", OF quic_do_log_after [OF _ _ assms(2)] this assms(1,3)]
  show "log_inv s" "all_written acc s" "qs_stream s \<and> qs_is_open s \<longrightarrow> taken_buffers s = mset (sent_buffers xs)"
    by (auto simp: log_after_def)
qed

section \<open>Properties\<close>

text \<open>
  From one peer to the other: the bytes that msquic has accepted, cut into chunks in any way that leaves no
  chunk but the last shorter than 13 bytes, are read back as the messages in the order in which they were
  queued, without a failed check. No message is repeated or overtaken even when writes fail and are retried;
  when all writes are accepted and the stream is up, none is missing; and the messages queued are then,
  with those of the blocked senders, exactly those that were given to \<^verbatim>\<open>send_buffer_\<close>.
\<close>

theorem quic_messages_arrive:
  assumes xs: "list_all (op_within B) xs" "max_pending_bytes + int B < 2 ^ 31" "quic_exec acc xs new_quic_send = Some (Inr s)"
    and frames: "\<forall>x \<in> set (queued s). good_frame (snd x)"
    and ds: "concat ds = concat (map snd (accepted_writes s))" "\<forall>d \<in> set ds. length d < 2 ^ 31" "\<forall>d \<in> set (butlast ds). 13 \<le> length d"
  shows "\<exists>ms r. recv_chunks ds new_reader = Inr (concat ms, r) \<and> \<not> ws_error r
    \<and> subseq ms (map (\<lambda>x. snd (snd x)) (queued s))
    \<and> (qs_stream s \<and> (\<forall>n < write_calls s. acc n) \<longrightarrow> ms = map (\<lambda>x. snd (snd x)) (queued s))
    \<and> (qs_stream s \<and> qs_is_open s \<longrightarrow> mset (map (\<lambda>x. snd (snd x)) (queued s)) + mset (send_waiting s) = mset (sent_buffers xs))"
proof -
  note log = new_run_log [OF xs]
  obtain ws where ws: "accepted_writes s = map wire_entry ws" "subseq ws (queued s)"
      "qs_stream s \<and> (\<forall>n < write_calls s. acc n) \<longrightarrow> ws = queued s"
    using written_frames [OF log(1,2)] .
  let ?fs = "map snd ws" and ?ms = "map (\<lambda>x. snd (snd x)) ws"
  have "\<forall>f \<in> set ?fs. good_frame f" using frames ws(2) by (auto dest: list_emb_set)
  then have "reading new_reader (concat ds) (payloads ?fs)"
    using new_reader_reading ds(1) ws(1) snd_wire_entry [of ws] by metis
  moreover have "ws_buffer new_reader = []" by (simp add: new_reader_def)
  ultimately obtain c r outs where read: "recv_chunks ds new_reader = Inr (c, r)" "payloads ?fs = c @ outs" "reading r [] outs" "ws_buffer r = []"
    using recv_chunks_reading [OF _ _ ds(2,3)] by blast
  moreover have "payloads ?fs = concat ?ms" by (simp add: payloads_def o_def)
  ultimately have "recv_chunks ds new_reader = Inr (concat ?ms, r)" "\<not> ws_error r"
    using reading_end [OF read(3,4)] by (auto simp: reading_def)
  moreover have "subseq ?ms (map (\<lambda>x. snd (snd x)) (queued s))" using ws(2) by (rule subseq_map)
  ultimately show ?thesis using ws(3) log(3) by (auto simp: taken_buffers_def)
qed

theorem quic_messages_arrive_witness:
  "\<exists>s r. quic_exec (\<lambda>n. True) short_run new_quic_send = Some (Inr s)
    \<and> recv_chunks [concat (map snd (accepted_writes s))] new_reader = Inr ([5, 6], r)"
proof -
  obtain s where s: "quic_exec (\<lambda>n. True) short_run new_quic_send = Some (Inr s)" "queued s = [(0, (Some [1, 2, 3, 4], [5, 6]))]"
      "length (concat (map snd (accepted_writes s))) = 8" "qs_stream s"
    by (rule short_run_result)
  have "\<exists>ms r. recv_chunks [concat (map snd (accepted_writes s))] new_reader = Inr (concat ms, r)
      \<and> (qs_stream s \<and> (\<forall>n < write_calls s. True) \<longrightarrow> ms = map (\<lambda>x. snd (snd x)) (queued s))"
    using quic_messages_arrive [OF short_run_within s(1), of "[concat (map snd (accepted_writes s))]"] s(2,3) by (auto simp: good_frame_def)
  then show ?thesis using s by auto
qed

text \<open>
  C38: When msquic accepts every write and has completed all of them, the queue is empty, both counters are zero,
  a sender blocked on the limit of pending bytes goes on when it wakes up, and \<^verbatim>\<open>get_buffer_\<close> returns a buffer
  unless all 512 are in the hands of callers.
\<close>

theorem quic_send_drains:
  assumes xs: "list_all (op_within B) xs" "max_pending_bytes + int B < 2 ^ 31" "quic_exec acc xs new_quic_send = Some (Inr s)"
    and ok: "qs_stream s" "\<forall>n < write_calls s. acc n" and idle: "outstanding s = []"
  shows "send_queue s = [] \<and> ws_headers s = [] \<and> pending_sends s = 0 \<and> pending_bytes s = 0
    \<and> (\<forall>key j. length key = 4 \<longrightarrow> j < length (send_waiting s) \<longrightarrow> (\<exists>r t. send_buffer_wake acc key j s = Inr (Some r, t)))
    \<and> (held_buffers s + length (send_waiting s) < 512 \<longrightarrow> fst (get_buffer s))"
proof -
  have inv: "send_inv B s" using quic_exec_inv [OF new_quic_send_inv xs] by auto
  then have wf: "queue_wf s" by (simp add: send_inv_def)
  have "all_written acc s" using new_run_log(2) [OF xs] .
  then have "all_held s" using ok by (simp add: all_written_def)
  then have q: "send_queue s = []"
    using wf idle by (cases "send_queue s") (auto simp: all_held_def queue_wf_def)
  then have e: "live s = []" "counted s = []" by (simp_all add: live_def counted_def)
  then have p: "pending_sends s = 0" "pending_bytes s = 0" using inv by (simp_all add: send_inv_def counters_inv_def)
  have "\<exists>r t. send_buffer_wake acc key j s = Inr (Some r, t)" if "length key = 4" for key j
  proof -
    have "queue_wf (s\<lparr>send_waiting := remove_nth j (send_waiting s)\<rparr>)" using wf by (simp add: queue_wf_def)
    then show ?thesis using that p by (simp add: send_buffer_wake_def send_buffer_go_wf max_pending_bytes_def)
  qed
  moreover have "fst (get_buffer s)" if "held_buffers s + length (send_waiting s) < 512"
    using that inv e by (auto simp: get_buffer_def send_inv_def buffers_inv_def max_send_buffers_def)
  ultimately show ?thesis using q p wf by (auto simp: queue_wf_def)
qed

theorem quic_send_drains_witness:
  "\<exists>s. quic_exec (\<lambda>n. True) (short_run @ [Q_complete]) new_quic_send = Some (Inr s) \<and> send_queue s = [] \<and> pending_bytes s = 0"
proof -
  have "case quic_exec (\<lambda>n. True) (short_run @ [Q_complete]) new_quic_send of
      Some (Inr s) \<Rightarrow> qs_stream s \<and> outstanding s = [] | _ \<Rightarrow> False"
    by code_simp
  then obtain s where s: "quic_exec (\<lambda>n. True) (short_run @ [Q_complete]) new_quic_send = Some (Inr s)" "qs_stream s" "outstanding s = []"
    by (auto split: option.splits sum.splits)
  have "list_all (op_within 2) (short_run @ [Q_complete])" using short_run_within(1) by simp
  from quic_send_drains [OF this short_run_within(2) s(1,2) _ s(3)] show ?thesis using s(1) by simp
qed

section \<open>Abandoned writes\<close>

text \<open>
  An event that was refused twice: it is at the front of the queue, neither pending nor complete, and msquic
  does not hold it.
\<close>

definition abandoned :: "nat \<Rightarrow> quic_send \<Rightarrow> bool" where
  "abandoned i s \<longleftrightarrow> (\<exists>e es. send_queue s = e # es \<and> ev_id e = i \<and> \<not> ev_pending e \<and> \<not> ev_complete e)
     \<and> i \<notin> set (outstanding s) \<and> i \<notin> fst ` set (accepted_writes s) \<and> length (send_queue s) = length (queued s)"

lemma write_last_abandoned:
  assumes "abandoned i s" "send_queue s = es @ [e]" "ev_pending e" "queue_wf s"
  shows "abandoned i (write_last keep acc s)"
proof -
  obtain d ds where d: "send_queue s = d # ds" "ev_id d = i" "\<not> ev_pending d" "\<not> ev_complete d"
    using assms(1) by (auto simp: abandoned_def)
  have "d \<noteq> e" using d(3) assms(3) by auto
  then obtain es' where es: "es = d # es'" using assms(2) d(1) by (cases es) auto
  have "ev_id e \<noteq> i" using queue_wf_id_inj [OF assms(4), of d e] \<open>d \<noteq> e\<close> d(2) assms(2) es by auto
  then show ?thesis
    using assms(1,2) d es by (auto simp: abandoned_def write_last_def Let_def)
qed

lemma accept_send_abandoned:
  assumes ab: "abandoned i s" and wf: "queue_wf s"
  shows "abandoned i (accept_send acc key b s)"
proof -
  let ?c = "count_send b s" and ?e = "enqueue_event key b (prepared acc (count_send b s))"
  have c: "abandoned i ?c" "queue_wf ?c" using ab wf by (simp_all add: abandoned_def)
  have p: "abandoned i (prepared acc ?c)"
  proof (cases "qs_stream ?c \<and> \<not> calm (send_queue ?c)")
    case True
    then have "calm (butlast (send_queue ?c))" using c(2) by (simp add: queue_wf_def)
    from not_calm_last [OF this] True obtain es e where "send_queue ?c = es @ [e]" "ev_pending e" by metis
    then show ?thesis using True write_last_abandoned [OF c(1) _ _ c(2)] by (simp add: prepared_def)
  qed (use c(1) in \<open>auto simp: prepared_def\<close>)
  have e: "queue_wf ?e" using prepared_wf [OF c(2), of acc] by (simp add: enqueue_wf)
  have "abandoned i ?e" using p by (auto simp: abandoned_def enqueue_event_def)
  then show ?thesis
    using write_last_abandoned [of i ?e _ _ True acc] e by (simp add: accept_send_prepared Let_def)
qed

lemma abandoned_same:
  assumes "abandoned i s" "send_queue t = send_queue s" "outstanding t = outstanding s" "accepted_writes t = accepted_writes s" "queued t = queued s"
  shows "abandoned i t"
  using assms by (simp add: abandoned_def)

lemma after_complete_abandoned:
  assumes "abandoned i s" "j \<in> set (outstanding s)"
  shows "abandoned i (after_complete j hs s)"
proof -
  obtain e es where "send_queue s = e # es" "ev_id e = i" "\<not> ev_pending e" "\<not> ev_complete e" "i \<noteq> j"
    using assms by (auto simp: abandoned_def)
  then show ?thesis
    using assms(1) by (auto simp: abandoned_def after_complete_def dest: notin_set_remove1)
qed

lemma quic_do_abandoned:
  assumes ab: "abandoned i s" and inv: "send_inv B s" and x: "op_within B x" and step: "quic_do acc x s = Some (Inr t)"
  shows "abandoned i t"
proof -
  have wf: "queue_wf s" using inv by (simp add: send_inv_def)
  have go: "abandoned i u" if "send_buffer_go acc key b s' = Inr (r, u)" "length key = 4" "queue_wf s'" "abandoned i s'" for u key b r s'
    using that send_buffer_go_wf [OF that(3,2)] accept_send_abandoned by auto
  show ?thesis
  proof (cases x)
    case (Q_send key b)
    let ?s = "s\<lparr>held_buffers := held_buffers s - 1\<rparr>"
    have "queue_wf ?s" "abandoned i ?s" using wf ab by (simp_all add: queue_wf_def abandoned_def)
    then show ?thesis
      using step Q_send x go [of key b ?s] ab
      by (auto simp: send_buffer_def res_bind_Inr Let_def release_buffer_def intro: abandoned_same split: if_splits)
  next
    case (Q_send_wake key j)
    let ?s = "s\<lparr>send_waiting := remove_nth j (send_waiting s)\<rparr>"
    have "queue_wf ?s" "abandoned i ?s" using wf ab by (simp_all add: queue_wf_def abandoned_def)
    then show ?thesis
      using step Q_send_wake x go [of key _ ?s] ab by (auto simp: send_buffer_wake_def res_bind_Inr split: if_splits)
  next
    case Q_complete
    then obtain j where j: "completing s = Some j" "OnWriteComplete j s = Inr t" using step by (auto split: option.splits)
    then have "j \<in> set (outstanding s)" using wf by (simp add: queue_wf_def)
    then show ?thesis using OnWriteComplete_eq [OF wf] j(2) after_complete_abandoned [OF ab] by force
  next
    case (Q_completed j)
    then show ?thesis using step ab
      by (auto simp: write_complete_counts_def intro: abandoned_same split: if_splits option.splits)
  qed (use step ab in \<open>auto simp: get_buffer_def get_buffer_wake_def take_free_def create_buffer_def send_OnShutdownComplete_def
      intro: abandoned_same split: if_splits\<close>)
qed

lemma quic_exec_abandoned:
  assumes "abandoned i s" "send_inv B s" "list_all (op_within B) xs" "max_pending_bytes + int B < 2 ^ 31"
    "quic_exec acc xs s = Some (Inr t)"
  shows "abandoned i t"
proof -
  have step: "\<exists>t. x = Inr t \<and> send_inv B t \<and> abandoned i t"
    if "send_inv B s \<and> abandoned i s" "op_within B e" "quic_do acc e s = Some x" for e s x
    using that quic_do_inv [OF _ _ assms(4)] quic_do_abandoned by blast
  have "send_inv B s \<and> abandoned i s" using assms(1,2) by simp
  from quic.exec_invariant [of "\<lambda>s. send_inv B s \<and> abandoned i s", OF step this assms(3,5)] show ?thesis by simp
qed

text \<open>
  A write that msquic refuses twice is lost, and nothing tells the caller: the second refusal, of the retry in
  \<^verbatim>\<open>flush_send_queue_\<close>, takes the mark away that would lead to another attempt. Whatever happens afterwards,
  the message is not written, its buffer is not returned, and the queue never gets shorter: it keeps
  every message sent from then on (the first message is number 0).
\<close>

theorem quic_refused_write_lost:
  assumes "\<not> acc 0" "\<not> acc 1" and "length key = 4" "length key' = 4" "length a \<le> B" "length b \<le> B" "int (length a) \<le> max_pending_bytes"
    and "list_all (op_within B) xs" "max_pending_bytes + int B < 2 ^ 31"
    and run: "quic_exec acc ([Q_get, Q_get, Q_send key a, Q_send key' b] @ xs) new_quic_send = Some (Inr t)"
  shows "0 \<notin> fst ` set (accepted_writes t) \<and> ev_id (hd (send_queue t)) = 0 \<and> hd (send_queue t) \<in> set (live t)
    \<and> length (send_queue t) = length (queued t)"
proof -
  let ?p = "[Q_get, Q_get, Q_send key a, Q_send key' b]"
  obtain u where u: "quic_exec acc ?p new_quic_send = Some (Inr u)" "quic_exec acc xs u = Some (Inr t)"
    using run by (auto simp: quic.exec_append simp del: quic_exec.simps append.simps split: option.splits sum.splits)
  have "list_all (op_within B) ?p" using assms(3-6) by simp
  then have "send_inv B u" using quic_exec_inv [OF new_quic_send_inv _ assms(9) u(1)] by simp
  moreover have "abandoned 0 u"
  proof -
    have bytes: "cast_i32 (int (length a)) = int (length a)"
      using assms(7) by (intro cast_i32_small) (simp_all add: max_pending_bytes_def)
    have go: "send_buffer_go acc k d s = Inr (1, accept_send acc k d s)"
      if "ws_framing s" "length k = 4" "calm (butlast (send_queue s))" "qs_stream s" for k d s
      using send_buffer_go_eq [OF that(1,2)] that(3,4) by simp
    show ?thesis
      using u(1) assms(1-4,7) bytes
      by (auto simp: go new_quic_send_def get_buffer_def create_buffer_def max_send_buffers_def max_pending_bytes_def send_buffer_def
          accept_send_def count_send_def enqueue_event_def write_last_def Let_def abandoned_def)
  qed
  ultimately have "abandoned 0 t" using quic_exec_abandoned assms(8,9) u(2) by blast
  then show ?thesis by (auto simp: abandoned_def live_def)
qed

theorem quic_refused_write_lost_witness:
  "\<exists>t. quic_exec (\<lambda>n. n > 1) ([Q_get, Q_get, Q_send [1, 2, 3, 4] [5], Q_send [1, 2, 3, 4] [6]] @ [Q_completed 1, Q_complete]) new_quic_send
      = Some (Inr t) \<and> length (send_queue t) = length (queued t) \<and> 0 \<notin> fst ` set (accepted_writes t) \<and> outstanding t = []"
proof -
  let ?xs = "[Q_get, Q_get, Q_send [1, 2, 3, 4] [5], Q_send [1, 2, 3, 4] [6]] @ [Q_completed 1, Q_complete]"
  have "case quic_exec (\<lambda>n. n > 1) ?xs new_quic_send of Some (Inr t) \<Rightarrow> outstanding t = [] | _ \<Rightarrow> False" by code_simp
  then obtain t where t: "quic_exec (\<lambda>n. n > 1) ?xs new_quic_send = Some (Inr t)" "outstanding t = []"
    by (auto split: option.splits sum.splits)
  show ?thesis
    using quic_refused_write_lost [OF _ _ _ _ _ _ _ _ _ t(1), of 1] t by (auto simp: max_pending_bytes_def)
qed

text \<open>
  \<^verbatim>\<open>discard_queued_sends_\<close> leaves the events in the queue and pending: a second call counts them again, and
  \<^verbatim>\<open>pending_sends_\<close> becomes negative.
\<close>

lemma quic_reset_twice:
  "case quic_exec (\<lambda>n. False) [Q_get, Q_send [1, 2, 3, 4] [5]] new_quic_send of
     Some (Inr s) \<Rightarrow> pending_sends s = 1 \<and> pending_sends (quic_reset (quic_reset s)) = - 1
       \<and> length (send_buffers_free (quic_reset (quic_reset s))) = 2 \<and> send_buffer_count (quic_reset (quic_reset s)) = 1
   | _ \<Rightarrow> False"
  by code_simp

end
