(* ===== verification/FTL_QuicRecv.thy ===== *)
theory FTL_QuicRecv
  imports FTL_QuicWire
begin

text \<open>
  The receive callback of the QUIC peer (\<^verbatim>\<open>QuicPeerStream::OnData\<close>, \<^verbatim>\<open>quic/src/quic_peer.cpp\<close>): the buffers
  that msquic hands over are unframed and copied into the unpacker, and the messages they complete are
  appended to \<^verbatim>\<open>recv_queue_\<close>. The branch without framing is never taken (\<^verbatim>\<open>ws_frame_\<close> is always true). What
  happens to the queue then is in \<open>FTL_QuicThreads\<close>.
\<close>

section \<open>State and operations\<close>

text \<open>\<open>qr_consumed\<close> is the number of bytes reported to msquic by \<^verbatim>\<open>Consume\<close>.\<close>

record ('u, 'o) quic_recv =
  recv_buffer :: 'u
  ws_recv :: WebsocketRead
  qr_queue :: "'o list"
  qr_consumed :: nat

definition recv_buffer_default_size :: nat where
  "recv_buffer_default_size = 1024 * 1024 * 8"

definition recv_buffer_reserve_size :: nat where
  "recv_buffer_reserve_size = 1024 * 512"

definition new_quic_recv :: "('u, 'o) unpacker \<Rightarrow> 'u \<Rightarrow> ('u, 'o) quic_recv" where
  "new_quic_recv un u = \<lparr>recv_buffer = un_reserve un recv_buffer_default_size u, ws_recv = new_reader, qr_queue = [], qr_consumed = 0\<rparr>"

text \<open>
  A call of \<^verbatim>\<open>OnData\<close> returns, or it is inside \<^verbatim>\<open>close\<close>, which it calls when the reader reports an error: there
  it waits for a callback of the same stream.
\<close>

datatype 'a on_data = Returned 'a | In_close

text \<open>
  The locals of \<^verbatim>\<open>OnData\<close>: the bytes copied behind the end of the unpacker's data since the last
  \<^verbatim>\<open>buffer_consumed\<close> (\<^verbatim>\<open>size_consumed\<close> is their number), and \<^verbatim>\<open>size_total\<close>.
\<close>

record 'u data_locals =
  dl_copied :: "u8 list"
  dl_total :: nat
  dl_buffer :: 'u
  dl_ws :: WebsocketRead

definition make_room :: "('u, 'o) unpacker \<Rightarrow> nat \<Rightarrow> 'u data_locals \<Rightarrow> 'u data_locals" where
  "make_room un n v =
     (if n + length (dl_copied v) > un_capacity un (dl_buffer v)
      then v\<lparr>dl_total := dl_total v + length (dl_copied v), dl_copied := [],
             dl_buffer := un_reserve un (max recv_buffer_reserve_size n) (un_feed un (dl_copied v) (dl_buffer v))\<rparr>
      else v)"

text \<open>One buffer; copying past the capacity of the unpacker's buffer would have no meaning.\<close>

definition on_buffer :: "('u, 'o) unpacker \<Rightarrow> u8 list \<Rightarrow> 'u data_locals \<Rightarrow> 'u data_locals on_data res" where
  "on_buffer un d v =
     (let v1 = make_room un (length d) v in
      res_bind (recv_chunk d (dl_ws v1)) (\<lambda>(bs, w).
        if length (dl_copied v1) + length bs > un_capacity un (dl_buffer v1) then Inl Undefined_behaviour
        else if ws_error w then Inr In_close
        else Inr (Returned (v1\<lparr>dl_copied := dl_copied v1 @ bs, dl_total := dl_total v1 + (length d - length bs), dl_ws := w\<rparr>))))"

fun on_buffers :: "('u, 'o) unpacker \<Rightarrow> u8 list list \<Rightarrow> 'u data_locals \<Rightarrow> 'u data_locals on_data res" where
  "on_buffers un [] v = Inr (Returned v)"
| "on_buffers un (d # ds) v =
     (case on_buffer un d v of
        Inl e \<Rightarrow> Inl e
      | Inr In_close \<Rightarrow> Inr In_close
      | Inr (Returned v') \<Rightarrow> on_buffers un ds v')"

text \<open>The loop that takes the complete messages out of the unpacker; \<^const>\<open>None\<close> if it does not end.\<close>

partial_function (option) parse_messages :: "('u, 'o) unpacker \<Rightarrow> 'u \<Rightarrow> 'o list \<Rightarrow> ('o list \<times> 'u) res option" where
  "parse_messages un u q =
     (case un_next un u of
        Inl e \<Rightarrow> Some (Inl e)
      | Inr (None, u') \<Rightarrow> Some (Inr (q, u'))
      | Inr (Some ob, u') \<Rightarrow> parse_messages un u' (q @ [ob]))"

definition OnData :: "('u, 'o) unpacker \<Rightarrow> u8 list list \<Rightarrow> ('u, 'o) quic_recv \<Rightarrow> ('u, 'o) quic_recv on_data res option" where
  "OnData un ds s =
     (case on_buffers un ds \<lparr>dl_copied = [], dl_total = 0, dl_buffer = recv_buffer s, dl_ws = ws_recv s\<rparr> of
        Inl e \<Rightarrow> Some (Inl e)
      | Inr In_close \<Rightarrow> Some (Inr In_close)
      | Inr (Returned v) \<Rightarrow>
         let sz = length (dl_copied v) + dl_total v in
         if sz \<noteq> sum_list (map length ds) then Some (Inl Check_failed)
         else map_option (\<lambda>r. case r of
             Inl e \<Rightarrow> Inl e
           | Inr (q, u) \<Rightarrow> Inr (Returned \<lparr>recv_buffer = u, ws_recv = dl_ws v, qr_queue = q, qr_consumed = qr_consumed s + sz\<rparr>))
           (parse_messages un (un_feed un (dl_copied v) (dl_buffer v)) (qr_queue s)))"

text \<open>A sequence of callbacks.\<close>

fun on_data_seq :: "('u, 'o) unpacker \<Rightarrow> u8 list list list \<Rightarrow> ('u, 'o) quic_recv \<Rightarrow> ('u, 'o) quic_recv on_data res option" where
  "on_data_seq un [] s = Some (Inr (Returned s))"
| "on_data_seq un (ds # dss) s =
     (case OnData un ds s of Some (Inr (Returned s')) \<Rightarrow> on_data_seq un dss s' | r \<Rightarrow> r)"

section \<open>The unpacker\<close>

text \<open>
  What is assumed of msgpack: \<open>held u\<close> are the bytes given to the unpacker that belong to no object it has
  returned; reserving makes room for the bytes asked for; \<^verbatim>\<open>next\<close> returns the first object once all of its
  bytes (\<open>pack ob\<close>, for the objects in \<open>S\<close>, at least one) are there and keeps the bytes otherwise.
\<close>

definition reserve_law :: "('u, 'o) unpacker \<Rightarrow> bool" where
  "reserve_law un \<longleftrightarrow> (\<forall>n u. n \<le> un_capacity un (un_reserve un n u))"

definition message_laws :: "('u, 'o) unpacker \<Rightarrow> ('u \<Rightarrow> u8 list) \<Rightarrow> ('o \<Rightarrow> u8 list) \<Rightarrow> 'o set \<Rightarrow> bool" where
  "message_laws un held pack S \<longleftrightarrow>
     (\<forall>ob \<in> S. pack ob \<noteq> []) \<and> (\<forall>n u. held (un_reserve un n u) = held u) \<and> (\<forall>bs u. held (un_feed un bs u) = held u @ bs)
     \<and> (\<forall>u. \<forall>ob \<in> S. \<forall>rest. held u = pack ob @ rest \<longrightarrow> (\<exists>u'. un_next un u = Inr (Some ob, u') \<and> held u' = rest))
     \<and> (\<forall>u. \<forall>ob \<in> S. \<forall>m. m \<noteq> [] \<and> held u @ m = pack ob \<longrightarrow> (\<exists>u'. un_next un u = Inr (None, u') \<and> held u' = held u))
     \<and> (\<forall>u. held u = [] \<longrightarrow> (\<exists>u'. un_next un u = Inr (None, u') \<and> held u' = []))"

section \<open>Buffers\<close>

lemma make_room_capacity: "reserve_law un \<Longrightarrow> n + length (dl_copied (make_room un n v)) \<le> un_capacity un (dl_buffer (make_room un n v))"
  unfolding reserve_law_def make_room_def by (auto simp: not_less intro: order_trans [OF max.cobounded2])

lemma make_room_simps [simp]:
  "dl_ws (make_room un n v) = dl_ws v"
  "length (dl_copied (make_room un n v)) + dl_total (make_room un n v) = length (dl_copied v) + dl_total v"
  by (simp_all add: make_room_def)

lemma make_room_held:
  "message_laws un held pack S \<Longrightarrow>
   held (dl_buffer (make_room un n v)) @ dl_copied (make_room un n v) = held (dl_buffer v) @ dl_copied v"
  by (simp add: make_room_def message_laws_def)

text \<open>The reader alone: what the loop over the buffers does when memory is no concern.\<close>

fun unframe :: "u8 list list \<Rightarrow> WebsocketRead \<Rightarrow> (u8 list \<times> WebsocketRead) on_data res" where
  "unframe [] w = Inr (Returned ([], w))"
| "unframe (d # ds) w =
     (case recv_chunk d w of
        Inl e \<Rightarrow> Inl e
      | Inr (bs, w') \<Rightarrow>
         if ws_error w' then Inr In_close
         else (case unframe ds w' of Inl e \<Rightarrow> Inl e | Inr In_close \<Rightarrow> Inr In_close
           | Inr (Returned (cs, w'')) \<Rightarrow> Inr (Returned (bs @ cs, w''))))"

lemma drain_length: "drain s = Inr (b, s') \<Longrightarrow> length b \<le> length (ws_buffer s)"
proof (induction s arbitrary: b s' rule: drain.induct)
  case (1 s)
  obtain c t where t: "ws_Buffer s = Inr (c, t)" using 1(2) by (subst (asm) drain.simps) (auto split: sum.splits)
  note len = ws_Buffer_length [OF t]
  show ?case
  proof (cases "ws_error t \<or> c = []")
    case True
    then show ?thesis using 1(2) t by (subst (asm) drain.simps) (auto split: if_splits)
  next
    case False
    then obtain bs where "drain t = Inr (bs, s')" "b = c @ bs"
      using 1(2) t by (subst (asm) drain.simps) (auto split: sum.splits)
    then show ?thesis using 1(1) [OF t refl] False len by fastforce
  qed
qed

lemma recv_chunk_length: "recv_chunk d w = Inr (bs, w') \<Longrightarrow> length bs \<le> length d"
  by (auto simp: recv_chunk_def res_bind_Inr ws_Next_def dest: drain_length)

text \<open>There is always room: the loop fails only where the reader does, and the sizes add up.\<close>

lemma on_buffer_room:
  assumes "reserve_law un"
  shows "on_buffer un d v =
    (case recv_chunk d (dl_ws v) of
       Inl e \<Rightarrow> Inl e
     | Inr (bs, w) \<Rightarrow>
        if ws_error w then Inr In_close
        else let v1 = make_room un (length d) v in
          Inr (Returned (v1\<lparr>dl_copied := dl_copied v1 @ bs, dl_total := dl_total v1 + (length d - length bs), dl_ws := w\<rparr>)))"
  using make_room_capacity [OF assms, of "length d" v]
  by (auto simp: on_buffer_def Let_def dest!: recv_chunk_length split: sum.splits)

lemma on_buffers_unframe:
  assumes "reserve_law un"
  shows "case unframe ds (dl_ws v) of
      Inl e \<Rightarrow> on_buffers un ds v = Inl e
    | Inr In_close \<Rightarrow> on_buffers un ds v = Inr In_close
    | Inr (Returned (bs, w)) \<Rightarrow> \<exists>v'. on_buffers un ds v = Inr (Returned v') \<and> dl_ws v' = w
        \<and> length (dl_copied v') + dl_total v' = length (dl_copied v) + dl_total v + sum_list (map length ds)
        \<and> (\<forall>held pack S. message_laws un held pack S \<longrightarrow>
             held (dl_buffer v') @ dl_copied v' = held (dl_buffer v) @ dl_copied v @ bs)"
proof (induction ds arbitrary: v)
  case (Cons d ds)
  show ?case
  proof (cases "recv_chunk d (dl_ws v)")
    case (Inr r)
    obtain bs w where r: "recv_chunk d (dl_ws v) = Inr (bs, w)" using Inr by (cases r) auto
    show ?thesis
    proof (cases "ws_error w")
      case False
      let ?m = "make_room un (length d) v"
      let ?v = "?m\<lparr>dl_copied := dl_copied ?m @ bs, dl_total := dl_total ?m + (length d - length bs), dl_ws := w\<rparr>"
      have step: "on_buffer un d v = Inr (Returned ?v)" using r False by (simp add: on_buffer_room [OF assms] Let_def)
      have sizes: "length (dl_copied ?v) + dl_total ?v = length (dl_copied v) + dl_total v + length d"
        using recv_chunk_length [OF r] make_room_simps(2) [of un "length d" v] by simp
      have held: "held (dl_buffer ?v) @ dl_copied ?v = held (dl_buffer v) @ dl_copied v @ bs"
        if "message_laws un held pack S" for held pack S
        using make_room_held [OF that, of "length d" v] by (simp flip: append_assoc)
      show ?thesis
        using Cons.IH [of ?v] r False step sizes held by (auto split: sum.splits on_data.splits)
    qed (use r in \<open>simp add: on_buffer_room [OF assms]\<close>)
  qed (simp add: on_buffer_room [OF assms])
qed simp

section \<open>Messages\<close>

text \<open>
  The unpacker between two callbacks: with the payload still to come it holds the messages \<open>ms\<close>, and not yet
  the first of them.
\<close>

definition waiting_for :: "('u \<Rightarrow> u8 list) \<Rightarrow> ('o \<Rightarrow> u8 list) \<Rightarrow> u8 list \<Rightarrow> 'o list \<Rightarrow> 'u \<Rightarrow> bool" where
  "waiting_for held pack outs ms u \<longleftrightarrow> held u @ outs = concat (map pack ms) \<and> (ms \<noteq> [] \<longrightarrow> length (held u) < length (pack (hd ms)))"

lemma parse_messages_takes:
  assumes laws: "message_laws un held pack S" and "set ms \<subseteq> S" and "held u @ outs = concat (map pack ms)"
  shows "\<exists>got rest u'. ms = got @ rest \<and> parse_messages un u q = Some (Inr (q @ got, u')) \<and> waiting_for held pack outs rest u'"
  using assms(2,3)
proof (induction ms arbitrary: u q)
  case Nil
  then obtain u' where "un_next un u = Inr (None, u')" "held u' = []" using laws by (auto simp: message_laws_def)
  then show ?case using Nil by (subst parse_messages.simps) (auto simp: waiting_for_def)
next
  case (Cons ob ms)
  show ?case
  proof (cases "length (pack ob) \<le> length (held u)")
    case True
    then have "take (length (pack ob)) (held u) = pack ob"
      using arg_cong [OF Cons.prems(2), of "take (length (pack ob))"] by simp
    then obtain rest where rest: "held u = pack ob @ rest" by (metis append_take_drop_id)
    then obtain u1 where u1: "un_next un u = Inr (Some ob, u1)" "held u1 = rest"
      using laws Cons.prems(1) unfolding message_laws_def by (meson list.set_intros(1) subset_iff)
    have "held u1 @ outs = concat (map pack ms)" using Cons.prems(2) rest u1(2) by simp
    from Cons.IH [OF _ this, of "q @ [ob]"] obtain got r u' where
        "ms = got @ r" "parse_messages un u1 (q @ [ob]) = Some (Inr ((q @ [ob]) @ got, u'))" "waiting_for held pack outs r u'"
      using Cons.prems(1) by auto
    then show ?thesis using u1(1)
      by (intro exI [of _ "ob # got"] exI [of _ r] exI [of _ u']) (subst parse_messages.simps, simp)
  next
    case False
    then have "take (length (held u)) (pack ob) = held u"
      using arg_cong [OF Cons.prems(2), of "take (length (held u))"] by simp
    then have m: "held u @ drop (length (held u)) (pack ob) = pack ob" "drop (length (held u)) (pack ob) \<noteq> []"
      using False by (metis append_take_drop_id, simp)
    then obtain u' where "un_next un u = Inr (None, u')" "held u' = held u"
      using laws Cons.prems(1) unfolding message_laws_def by (meson list.set_intros(1) subset_iff)
    then show ?thesis using Cons.prems(2) False
      by (intro exI [of _ "[]"] exI [of _ "ob # ms"] exI [of _ u']) (subst parse_messages.simps, simp add: waiting_for_def)
  qed
qed

text \<open>Chunks after which the reader has not been given a header in three pieces.\<close>

definition chunks_ok :: "u8 list list \<Rightarrow> bool" where
  "chunks_ok ds \<longleftrightarrow> (\<forall>d \<in> set ds. length d < 2 ^ 31) \<and> (\<forall>d \<in> set (butlast ds). 13 \<le> length d)"

lemma chunks_ok_append:
  assumes "chunks_ok (xs @ ys)"
  shows "\<forall>d \<in> set xs. length d < 2 ^ 31" "chunks_ok ys" "\<forall>d \<in> set (if concat ys = [] then butlast xs else xs). 13 \<le> length d"
proof -
  show "\<forall>d \<in> set xs. length d < 2 ^ 31" using assms by (simp add: chunks_ok_def)
  show "chunks_ok ys" using assms by (cases "ys = []") (auto simp: chunks_ok_def butlast_append)
  show "\<forall>d \<in> set (if concat ys = [] then butlast xs else xs). 13 \<le> length d"
    using assms by (cases "ys = []") (auto simp: chunks_ok_def butlast_append dest: in_set_butlastD)
qed

lemma unframe_reading:
  assumes "reading w (concat ds @ rest) outs" "ws_buffer w = []" "\<forall>d \<in> set ds. length d < 2 ^ 31"
    and "\<forall>d \<in> set (if rest = [] then butlast ds else ds). 13 \<le> length d"
  shows "\<exists>bs w' outs'. unframe ds w = Inr (Returned (bs, w')) \<and> outs = bs @ outs' \<and> reading w' rest outs' \<and> ws_buffer w' = []"
  using assms
proof (induction ds arbitrary: w outs)
  case (Cons d ds)
  have "13 \<le> length d \<or> concat ds @ rest = []" using Cons.prems(4) by (cases ds) (auto split: if_splits)
  then obtain b w1 outs1 where 1: "recv_chunk d w = Inr (b, w1)" "outs = b @ outs1" "reading w1 (concat ds @ rest) outs1" "ws_buffer w1 = []"
    using recv_chunk_reading [of w d "concat ds @ rest" outs] Cons.prems by auto
  have "\<forall>d \<in> set (if rest = [] then butlast ds else ds). 13 \<le> length d"
    using Cons.prems(4) by (cases ds) (auto split: if_splits)
  then obtain bs w' outs' where "unframe ds w1 = Inr (Returned (bs, w'))" "outs1 = bs @ outs'" "reading w' rest outs'" "ws_buffer w' = []"
    using Cons.IH [OF 1(3,4)] Cons.prems(3) by auto
  moreover have "\<not> ws_error w1" using 1(3) by (simp add: reading_def)
  ultimately show ?case using 1 by auto
qed simp

lemma OnData_reading:
  assumes laws: "reserve_law un" "message_laws un held pack S" and ms: "set ms \<subseteq> S" "waiting_for held pack outs ms (recv_buffer s)"
    and ds: "reading (ws_recv s) (concat ds @ rest) outs" "ws_buffer (ws_recv s) = []" "\<forall>d \<in> set ds. length d < 2 ^ 31"
      "\<forall>d \<in> set (if rest = [] then butlast ds else ds). 13 \<le> length d"
  shows "\<exists>s' got ms' outs'. OnData un ds s = Some (Inr (Returned s')) \<and> ms = got @ ms' \<and> qr_queue s' = qr_queue s @ got
    \<and> qr_consumed s' = qr_consumed s + sum_list (map length ds)
    \<and> waiting_for held pack outs' ms' (recv_buffer s') \<and> reading (ws_recv s') rest outs' \<and> ws_buffer (ws_recv s') = []"
proof -
  let ?v = "\<lparr>dl_copied = [], dl_total = 0, dl_buffer = recv_buffer s, dl_ws = ws_recv s\<rparr>"
  obtain bs w outs' where u: "unframe ds (ws_recv s) = Inr (Returned (bs, w))" "outs = bs @ outs'" "reading w rest outs'" "ws_buffer w = []"
    using unframe_reading [OF ds] by blast
  obtain v where v: "on_buffers un ds ?v = Inr (Returned v)" "dl_ws v = w" "length (dl_copied v) + dl_total v = sum_list (map length ds)"
      "held (dl_buffer v) @ dl_copied v = held (recv_buffer s) @ bs"
    using on_buffers_unframe [OF laws(1), of ds ?v] u(1) laws(2) by auto
  have "held (un_feed un (dl_copied v) (dl_buffer v)) @ outs' = concat (map pack ms)"
    using laws(2) v(4) ms(2) u(2) by (simp add: message_laws_def waiting_for_def)
  from parse_messages_takes [OF laws(2) ms(1) this, of "qr_queue s"] obtain got ms' t where p: "ms = got @ ms'"
      "parse_messages un (un_feed un (dl_copied v) (dl_buffer v)) (qr_queue s) = Some (Inr (qr_queue s @ got, t))"
      "waiting_for held pack outs' ms' t" by blast
  have "OnData un ds s = Some (Inr (Returned \<lparr>recv_buffer = t, ws_recv = w, qr_queue = qr_queue s @ got,
      qr_consumed = qr_consumed s + sum_list (map length ds)\<rparr>))"
    using v p(2) by (simp add: OnData_def Let_def)
  then show ?thesis using p(1,3) u(3,4) by auto
qed

lemma on_data_seq_reading:
  assumes laws: "reserve_law un" "message_laws un held pack S" and "set ms \<subseteq> S" "waiting_for held pack outs ms (recv_buffer s)"
    and "reading (ws_recv s) (concat (concat dss)) outs" "ws_buffer (ws_recv s) = []" "chunks_ok (concat dss)"
  shows "\<exists>s'. on_data_seq un dss s = Some (Inr (Returned s')) \<and> qr_queue s' = qr_queue s @ ms
    \<and> qr_consumed s' = qr_consumed s + length (concat (concat dss))"
  using assms(3-)
proof (induction dss arbitrary: s ms outs)
  case Nil
  then have "outs = []" using reading_end [of "ws_recv s" outs] by simp
  moreover have "ms = []"
  proof (rule ccontr)
    assume "ms \<noteq> []"
    then show False using Nil.prems(2) \<open>outs = []\<close> by (cases ms) (auto simp: waiting_for_def)
  qed
  ultimately show ?case by simp
next
  case (Cons ds dss)
  let ?rest = "concat (concat dss)"
  have ok: "chunks_ok (ds @ concat dss)" using Cons.prems(5) by simp
  have "reading (ws_recv s) (concat ds @ ?rest) outs" using Cons.prems(3) by simp
  with chunks_ok_append [OF ok] obtain s1 got ms' outs' where 1: "OnData un ds s = Some (Inr (Returned s1))" "ms = got @ ms'" "qr_queue s1 = qr_queue s @ got"
      "qr_consumed s1 = qr_consumed s + sum_list (map length ds)" "waiting_for held pack outs' ms' (recv_buffer s1)"
      "reading (ws_recv s1) ?rest outs'" "ws_buffer (ws_recv s1) = []"
    using OnData_reading [OF laws Cons.prems(1,2) _ Cons.prems(4), of ds ?rest] by blast
  then show ?case
    using Cons.IH [OF _ 1(5-7) chunks_ok_append(2) [OF ok]] Cons.prems(1) by (auto simp: length_concat)
qed

section \<open>Properties\<close>

text \<open>
  C3: From one QUIC peer to another. Any threads send messages, every write is accepted by msquic, and its bytes
  reach the other side in order, in any number of callbacks and buffers (none but the last shorter than 13
  bytes). Then every callback returns without a failed check, all bytes are reported as consumed, and the
  queue of the receiver holds exactly the messages, in the order in which they were queued for sending.
\<close>

theorem quic_peer_to_peer:
  assumes laws: "reserve_law un" "message_laws un held pack S" "held u = []"
    and run: "list_all (op_within B) xs" "max_pending_bytes + int B < 2 ^ 31" "quic_exec acc xs new_quic_send = Some (Inr s)"
    and up: "qs_stream s" "\<forall>n < write_calls s. acc n"
    and ms: "map (\<lambda>x. snd (snd x)) (queued s) = map pack ms" "set ms \<subseteq> S"
    and net: "concat (concat dss) = concat (map snd (accepted_writes s))" "chunks_ok (concat dss)"
  shows "\<exists>t. on_data_seq un dss (new_quic_recv un u) = Some (Inr (Returned t)) \<and> qr_queue t = ms
    \<and> qr_consumed t = length (concat (concat dss))"
proof -
  have q: "queued_within B s"
    by (rule quic_exec_queued [OF run])
  have nonempty: "\<forall>ob \<in> S. pack ob \<noteq> []" using laws(2) by (simp add: message_laws_def)
  have "snd (snd x) \<noteq> []" if "x \<in> set (queued s)" for x
  proof -
    have "snd (snd x) \<in> set (map pack ms)" using that ms(1) by (metis (no_types, lifting) image_eqI list.set_map)
    then obtain ob where "ob \<in> set ms" "snd (snd x) = pack ob" by auto
    then show ?thesis using nonempty ms(2) by auto
  qed
  moreover have "B < 2 ^ 31" using run(2) by (simp add: max_pending_bytes_def)
  ultimately have good: "\<forall>f \<in> set (map snd (queued s)). good_frame f"
    using q by (fastforce simp: queued_within_def good_frame_def list_all_iff split: option.splits)
  have "accepted_writes s = map wire_entry (queued s)" using new_run_log(2) [OF run] up by (simp add: all_written_def)
  then have wire: "concat (concat dss) = wire (map snd (queued s))" using net(1) by (metis snd_wire_entry)
  have "payloads (map snd (queued s)) = concat (map pack ms)" using ms(1) by (simp add: payloads_def o_def)
  moreover have "held (recv_buffer (new_quic_recv un u)) = []" using laws(2,3) by (simp add: new_quic_recv_def message_laws_def)
  ultimately have "waiting_for held pack (payloads (map snd (queued s))) ms (recv_buffer (new_quic_recv un u))"
    using nonempty ms(2) by (cases ms) (auto simp: waiting_for_def)
  moreover have "reading (ws_recv (new_quic_recv un u)) (concat (concat dss)) (payloads (map snd (queued s)))"
      "ws_buffer (ws_recv (new_quic_recv un u)) = []"
    using new_reader_reading [OF good] wire by (simp_all add: new_quic_recv_def) (simp add: new_reader_def)
  ultimately show ?thesis
    using on_data_seq_reading [OF laws(1,2) ms(2) _ _ _ net(2)] by (fastforce simp: new_quic_recv_def)
qed

text \<open>An instance of the unpacker with one message, of two bytes, and a buffer that grows as asked.\<close>

definition pair_unpacker :: "(nat \<times> u8 list, unit) unpacker" where
  "pair_unpacker = \<lparr>un_nonparsed = \<lambda>u. length (snd u), un_reserve = \<lambda>n u. (max n (fst u), snd u), un_capacity = fst,
     un_feed = \<lambda>bs u. (fst u, snd u @ bs), un_next = \<lambda>u. Inr (if length (snd u) < 2 then (None, u) else (Some (), (fst u, drop 2 (snd u)))),
     un_reset = \<lambda>u. (fst u, [])\<rparr>"

lemma pair_unpacker_laws: "reserve_law pair_unpacker" "message_laws pair_unpacker snd (\<lambda>_. [5, 6]) UNIV"
proof -
  show "reserve_law pair_unpacker" by (simp add: reserve_law_def pair_unpacker_def)
  have "length bs < 2" if "bs @ m = [5, 6]" "m \<noteq> []" for bs m :: "u8 list"
    using that by (cases bs; cases "tl bs") auto
  then show "message_laws pair_unpacker snd (\<lambda>_. [5, 6]) UNIV"
    by (auto simp: message_laws_def pair_unpacker_def)
qed

theorem quic_peer_to_peer_witness:
  "\<exists>s t. quic_exec (\<lambda>n. True) short_run new_quic_send = Some (Inr s)
    \<and> on_data_seq pair_unpacker [[concat (map snd (accepted_writes s))]] (new_quic_recv pair_unpacker (0, [])) = Some (Inr (Returned t))
    \<and> qr_queue t = [()]"
proof -
  obtain s where s: "quic_exec (\<lambda>n. True) short_run new_quic_send = Some (Inr s)" "queued s = [(0, (Some [1, 2, 3, 4], [5, 6]))]"
      "length (concat (map snd (accepted_writes s))) = 8" "qs_stream s"
    by (rule short_run_result)
  have "chunks_ok [concat (map snd (accepted_writes s))]" using s(3) by (simp add: chunks_ok_def)
  then show ?thesis
    using quic_peer_to_peer [OF pair_unpacker_laws _ short_run_within s(1,4), of "(0, [])" "[()]" "[[concat (map snd (accepted_writes s))]]"] s(1,2)
    by auto
qed

lemma parse_messages_error:
  fixes un :: "('u, 'o) unpacker"
  assumes "parse_messages un u q = Some (Inl e)"
  shows "\<exists>u. un_next un u = Inl e"
proof -
  let ?Q = "\<lambda>un' (u' :: 'u) (q' :: 'o list) (r' :: exn + ('o list \<times> 'u)). un' = un \<longrightarrow> r' = Inl e \<longrightarrow> (\<exists>u. un_next un u = Inl e)"
  have "?Q un u q (Inl e)"
  proof (rule parse_messages.raw_induct [where P = ?Q, OF _ assms], intro impI)
    fix pm un' u' q' r'
    assume IH: "\<And>un u q r. pm un u q = Some r \<Longrightarrow> ?Q un u q r"
      and body: "(case un_next un' u' of Inl e \<Rightarrow> Some (Inl e) | Inr (None, v) \<Rightarrow> Some (Inr (q', v))
         | Inr (Some ob, v) \<Rightarrow> pm un' v (q' @ [ob])) = Some r'"
      and "un' = un" "r' = Inl e"
    then show "\<exists>u. un_next un u = Inl e"
      using IH by (auto split: sum.splits option.splits)
  qed
  then show ?thesis by simp
qed

text \<open>
  C39: \<^verbatim>\<open>OnData\<close> never copies past the buffer of the unpacker and its check of the sizes never fails, whatever the
  buffers: it fails only where the reader or the unpacker fails; it ends up waiting in \<^verbatim>\<open>close\<close> exactly when
  the reader meets a close frame or an invalid header; and when it returns it has reported all bytes as consumed.
\<close>

theorem on_data_outcome:
  assumes "reserve_law un"
  shows "(OnData un ds s = Some (Inl e) \<longrightarrow> unframe ds (ws_recv s) = Inl e \<or> (\<exists>u. un_next un u = Inl e))
    \<and> (OnData un ds s = Some (Inr In_close) \<longleftrightarrow> unframe ds (ws_recv s) = Inr In_close)
    \<and> (OnData un ds s = Some (Inr (Returned t)) \<longrightarrow> qr_consumed t = qr_consumed s + sum_list (map length ds))"
proof -
  let ?v = "\<lparr>dl_copied = [], dl_total = 0, dl_buffer = recv_buffer s, dl_ws = ws_recv s\<rparr>"
  note loop = on_buffers_unframe [OF assms, of ds ?v]
  consider (fail) e' where "unframe ds (ws_recv s) = Inl e'" "on_buffers un ds ?v = Inl e'"
    | (close) "unframe ds (ws_recv s) = Inr In_close" "on_buffers un ds ?v = Inr In_close"
    | (returned) bs w v where "unframe ds (ws_recv s) = Inr (Returned (bs, w))" "on_buffers un ds ?v = Inr (Returned v)"
        "length (dl_copied v) + dl_total v = sum_list (map length ds)"
    using loop by (auto split: sum.splits on_data.splits)
  then show ?thesis
  proof cases
    case returned
    let ?r = "parse_messages un (un_feed un (dl_copied v) (dl_buffer v)) (qr_queue s)"
    consider "?r = None" | x where "?r = Some (Inl x)" | q u where "?r = Some (Inr (q, u))" by (metis option.exhaust sumE surj_pair)
    then show ?thesis
      by cases (use returned parse_messages_error [of un] in \<open>auto simp: OnData_def Let_def\<close>)
  qed (simp_all add: OnData_def)
qed

theorem on_data_outcome_witness:
  "OnData pair_unpacker [[0x88, 0]] (new_quic_recv pair_unpacker (0, [])) = Some (Inr In_close)"
proof -
  have "unframe [[0x88, 0]] new_reader = Inr In_close" by code_simp
  then show ?thesis using on_data_outcome [OF pair_unpacker_laws(1)] by (simp add: new_quic_recv_def)
qed

end
