(* ===== verification/FTL_QuicThreads.thy ===== *)
theory FTL_QuicThreads
  imports FTL_Events "HOL-Library.Sublist"
begin

text \<open>
  The threads of the QUIC peer on the receiving side (\<^verbatim>\<open>quic/src/quic_peer.cpp\<close>): the callbacks of msquic that
  append messages to \<^verbatim>\<open>recv_queue_\<close> (the end of \<^verbatim>\<open>OnData\<close>, with \<^verbatim>\<open>notify_recv_and_unlock_\<close>) and that end the stream
  (\<^verbatim>\<open>OnShutdownComplete\<close>), the worker in the thread pool (\<^verbatim>\<open>ProcessRecv\<close>) and threads that call \<^verbatim>\<open>close\<close>.

  A step is what a thread does while it holds \<^verbatim>\<open>recv_mtx_\<close>, or the dispatch of one message outside of it;
  steps interleave freely. \<^verbatim>\<open>send_mtx_\<close> is kept explicitly, as \<^verbatim>\<open>close\<close> holds it while it waits for the worker.
\<close>

section \<open>State\<close>

text \<open>
  What dispatching a message does besides running its handler: nothing that matters here, it sends a reply
  (which takes \<^verbatim>\<open>send_mtx_\<close>), or it calls \<^verbatim>\<open>close\<close> (the handler of \<^verbatim>\<open>__disconnect__\<close> in \<^verbatim>\<open>peer.cpp\<close>).
\<close>

datatype effect = Plain | Replies | Closes

text \<open>
  Where a worker is: queued in the pool; in \<^verbatim>\<open>wait_for\<close>; with messages to dispatch; about to send the reply to a
  message; in \<^verbatim>\<open>close\<close>, before it has the mutexes, waiting for the worker, that is for itself, or for the end
  of the stream; at its end.
\<close>

datatype 'm qworker = W_queued | W_waiting | W_work "'m list" | W_reply 'm "'m list" | W_close "'m list" | W_wait_self "'m list"
  | W_wait_stream "'m list" | W_done

datatype qcloser = C_start | C_wait_idle | C_wait_stream | C_done

record 'm quic_threads =
  q_stream :: bool
  send_locked :: bool
  recv_queue :: "'m list"
  recv_busy :: bool
  recv_waiting :: bool
  q_workers :: "'m qworker list"
  q_closers :: "qcloser list"
  q_dispatched :: "'m list"
  q_cleared :: bool

definition new_quic_threads :: "'m quic_threads" where
  "new_quic_threads = \<lparr>q_stream = True, send_locked = False, recv_queue = [], recv_busy = False, recv_waiting = False,
     q_workers = [], q_closers = [], q_dispatched = [], q_cleared = False\<rparr>"

section \<open>Callbacks\<close>

text \<open>\<^verbatim>\<open>notify_recv_and_unlock_\<close>: a notification is a wake-up of the worker, which is a step of its own.\<close>

definition notify_recv_and_unlock :: "'m quic_threads \<Rightarrow> 'm quic_threads" where
  "notify_recv_and_unlock s = (if \<not> recv_busy s then s\<lparr>recv_busy := True, q_workers := q_workers s @ [W_queued]\<rparr> else s)"

definition on_messages :: "'m list \<Rightarrow> 'm quic_threads \<Rightarrow> 'm quic_threads" where
  "on_messages ms s = notify_recv_and_unlock (s\<lparr>recv_queue := recv_queue s @ ms\<rparr>)"

definition OnShutdownComplete :: "'m quic_threads \<Rightarrow> 'm quic_threads" where
  "OnShutdownComplete s = s\<lparr>q_stream := False\<rparr>"

section \<open>The worker\<close>

text \<open>The top of the loop of \<^verbatim>\<open>ProcessRecv\<close>, with the mutex held.\<close>

definition worker_top :: "'m quic_threads \<Rightarrow> 'm qworker \<times> 'm quic_threads" where
  "worker_top s = (if recv_queue s = [] then (W_waiting, s\<lparr>recv_waiting := True\<rparr>)
     else (W_work (recv_queue s), s\<lparr>recv_queue := []\<rparr>))"

text \<open>The first part of \<^verbatim>\<open>close\<close>, up to the first wait; the check fails if the worker waits and is not busy.\<close>

definition close_begin :: "'m quic_threads \<Rightarrow> 'm quic_threads res" where
  "close_begin s =
     (let s1 = s\<lparr>send_locked := True, recv_queue := [], q_cleared := True\<rparr> in
      if recv_waiting s1 then CHECK (recv_busy s1) (s1\<lparr>recv_waiting := False\<rparr>) else Inr s1)"

text \<open>
  A step of a worker, \<^const>\<open>None\<close> when it is blocked. Waking up with data, or the time-out without: the condition is
  \<^verbatim>\<open>recv_waiting_ && recv_queue_.size() > 0\<close>. The handlers of messages throw standard exceptions only, which
  \<^verbatim>\<open>process_message_\<close> catches; one that throws something else would leave the worker, and with it the thread of the pool.
\<close>

fun worker_step :: "('m \<Rightarrow> effect) \<Rightarrow> 'm qworker \<Rightarrow> 'm quic_threads \<Rightarrow> ('m qworker \<times> 'm quic_threads) res option" where
  "worker_step eff W_queued s = Some (Inr (worker_top s))"
| "worker_step eff W_waiting s =
     Some (Inr (if recv_waiting s \<and> recv_queue s \<noteq> [] then worker_top (s\<lparr>recv_waiting := False\<rparr>)
       else (W_done, s\<lparr>recv_waiting := False, recv_busy := False\<rparr>)))"
| "worker_step eff (W_work []) s = Some (Inr (worker_top s))"
| "worker_step eff (W_work (x # xs)) s =
     Some (Inr (case eff x of Plain \<Rightarrow> W_work xs | Replies \<Rightarrow> W_reply x xs | Closes \<Rightarrow> W_close xs,
       s\<lparr>q_dispatched := q_dispatched s @ [x]\<rparr>))"
| "worker_step eff (W_reply x xs) s = (if send_locked s then None else Some (Inr (W_work xs, s)))"
| "worker_step eff (W_close xs) s =
     (if send_locked s then None else Some (res_bind (close_begin s) (\<lambda>s1. Inr (W_wait_self xs, s1))))"
| "worker_step eff (W_wait_self xs) s =
     (if recv_busy s then None
      else Some (Inr (if q_stream s then W_wait_stream xs else W_work xs, s\<lparr>send_locked := False\<rparr>)))"
| "worker_step eff (W_wait_stream xs) s = (if q_stream s then None else Some (Inr (W_work xs, s)))"
| "worker_step eff W_done s = None"

section \<open>close\<close>

text \<open>From the point where the worker is not busy: shut the stream down and give \<^verbatim>\<open>send_mtx_\<close> back.\<close>

definition close_stream :: "'m quic_threads \<Rightarrow> qcloser \<times> 'm quic_threads" where
  "close_stream s = (if q_stream s then C_wait_stream else C_done, s\<lparr>send_locked := False\<rparr>)"

fun close_step :: "qcloser \<Rightarrow> 'm quic_threads \<Rightarrow> (qcloser \<times> 'm quic_threads) res option" where
  "close_step C_start s =
     (if send_locked s then None
      else Some (res_bind (close_begin s) (\<lambda>s1. Inr (if recv_busy s1 then (C_wait_idle, s1) else close_stream s1))))"
| "close_step C_wait_idle s = (if recv_busy s then None else Some (Inr (close_stream s)))"
| "close_step C_wait_stream s = (if q_stream s then None else Some (Inr (C_done, s)))"
| "close_step C_done s = None"

section \<open>Runs\<close>

datatype 'm qevent = E_data "'m list" | E_shutdown | E_worker nat | E_close | E_closer nat

fun threads_do :: "('m \<Rightarrow> effect) \<Rightarrow> 'm qevent \<Rightarrow> 'm quic_threads \<Rightarrow> 'm quic_threads res option" where
  "threads_do eff (E_data ms) s = (if q_stream s then Some (Inr (on_messages ms s)) else None)"
| "threads_do eff E_shutdown s = (if q_stream s \<and> \<not> send_locked s then Some (Inr (OnShutdownComplete s)) else None)"
| "threads_do eff (E_worker i) s =
     (if i < length (q_workers s)
      then map_option (\<lambda>r. res_bind r (\<lambda>(w, s'). Inr (s'\<lparr>q_workers := (q_workers s)[i := w]\<rparr>))) (worker_step eff (q_workers s ! i) s)
      else None)"
| "threads_do eff E_close s = Some (Inr (s\<lparr>q_closers := q_closers s @ [C_start]\<rparr>))"
| "threads_do eff (E_closer i) s =
     (if i < length (q_closers s)
      then map_option (\<lambda>r. res_bind r (\<lambda>(c, s'). Inr (s'\<lparr>q_closers := (q_closers s)[i := c]\<rparr>))) (close_step (q_closers s ! i) s)
      else None)"

fun threads_exec :: "('m \<Rightarrow> effect) \<Rightarrow> 'm qevent list \<Rightarrow> 'm quic_threads \<Rightarrow> 'm quic_threads res option" where
  "threads_exec eff [] s = Some (Inr s)"
| "threads_exec eff (e # es) s =
     (case threads_do eff e s of None \<Rightarrow> None | Some (Inl x) \<Rightarrow> Some (Inl x) | Some (Inr s') \<Rightarrow> threads_exec eff es s')"

interpretation threads: event_system "threads_do eff" "threads_exec eff" for eff
  by unfold_locales simp_all

fun data_arrived :: "'m qevent list \<Rightarrow> 'm list" where
  "data_arrived [] = []"
| "data_arrived (E_data ms # es) = ms @ data_arrived es"
| "data_arrived (_ # es) = data_arrived es"

section \<open>One worker at a time\<close>

text \<open>The messages a worker still has to dispatch.\<close>

fun in_hands :: "'m qworker \<Rightarrow> 'm list" where
  "in_hands (W_work xs) = xs"
| "in_hands (W_reply x xs) = xs"
| "in_hands (W_close xs) = xs"
| "in_hands (W_wait_self xs) = xs"
| "in_hands (W_wait_stream xs) = xs"
| "in_hands _ = []"

text \<open>
  All workers but the last have ended, and \<open>r\<close> is the last one if it has not. The messages dispatched, in its hands
  and in the queue are those that arrived, in order, less what \<^verbatim>\<open>close\<close> threw away. As long as it has not,
  the queue is empty when no worker runs, and a worker that waits can be woken.
\<close>

definition workers_are :: "'m quic_threads \<Rightarrow> nat \<Rightarrow> 'm qworker list \<Rightarrow> bool" where
  "workers_are s k r \<longleftrightarrow> q_workers s = replicate k W_done @ r \<and> (if recv_busy s then \<exists>w. r = [w] \<and> w \<noteq> W_done else r = [])
     \<and> (recv_waiting s \<longrightarrow> r = [W_waiting])"

definition messages_are :: "'m list \<Rightarrow> 'm quic_threads \<Rightarrow> 'm qworker list \<Rightarrow> bool" where
  "messages_are ms s r \<longleftrightarrow>
     (let got = q_dispatched s @ concat (map in_hands r) @ recv_queue s in
      subseq got ms \<and> (\<not> q_cleared s \<longrightarrow> got = ms \<and> (r = [] \<longrightarrow> recv_queue s = []) \<and> (r = [W_waiting] \<longrightarrow> recv_waiting s)))"

definition threads_inv :: "'m list \<Rightarrow> 'm quic_threads \<Rightarrow> bool" where
  "threads_inv ms s \<longleftrightarrow> (\<exists>k r. workers_are s k r \<and> messages_are ms s r)"

lemma threads_invI: "workers_are s k r \<Longrightarrow> messages_are ms s r \<Longrightarrow> threads_inv ms s"
  by (auto simp: threads_inv_def)

lemma new_quic_threads_inv: "threads_inv [] new_quic_threads"
  by (rule threads_invI [of _ 0 "[]"]) (simp_all add: workers_are_def messages_are_def new_quic_threads_def)

lemma on_messages_inv:
  assumes "threads_inv ms s"
  shows "threads_inv (ms @ ns) (on_messages ns s)"
proof -
  obtain k r where I: "workers_are s k r" "messages_are ms s r" using assms by (auto simp: threads_inv_def)
  let ?r = "if recv_busy s then r else [W_queued]"
  have r: "recv_busy s \<or> r = []" using I(1) by (simp add: workers_are_def split: if_splits)
  have "workers_are (on_messages ns s) k ?r"
    using I(1) by (auto simp: workers_are_def on_messages_def notify_recv_and_unlock_def)
  moreover have "messages_are (ms @ ns) (on_messages ns s) ?r"
  proof -
    have "subseq (q_dispatched s @ concat (map in_hands r) @ recv_queue s) ms" using I(2) by (simp add: messages_are_def Let_def)
    then have "subseq (q_dispatched s @ concat (map in_hands r) @ recv_queue s @ ns) (ms @ ns)"
      using list_emb_append_mono [of "(=)" _ ms ns ns] by fastforce
    then show ?thesis using I r by (auto simp: messages_are_def on_messages_def notify_recv_and_unlock_def workers_are_def Let_def)
  qed
  ultimately show ?thesis by (rule threads_invI)
qed

lemma worker_top_cases:
  obtains "recv_queue s = []" "worker_top s = (W_waiting, s\<lparr>recv_waiting := True\<rparr>)"
  | "recv_queue s \<noteq> []" "worker_top s = (W_work (recv_queue s), s\<lparr>recv_queue := []\<rparr>)"
  by (auto simp: worker_top_def)

text \<open>\<^verbatim>\<open>close\<close> keeps the invariant, and its check holds.\<close>

lemma close_begin_inv:
  assumes "workers_are s k r" "messages_are ms s r"
  shows "\<exists>t. close_begin s = Inr t \<and> workers_are t k r \<and> messages_are ms t r \<and> q_workers t = q_workers s \<and> recv_busy t = recv_busy s"
proof -
  have "subseq (q_dispatched s @ concat (map in_hands r) @ recv_queue s) ms" using assms(2) by (simp add: messages_are_def Let_def)
  then have "subseq (q_dispatched s @ concat (map in_hands r)) ms"
    by (metis append.right_neutral append_assoc list_emb_append_mono list_emb_Nil subseq_order.order_refl subseq_order.trans)
  moreover have "recv_waiting s \<longrightarrow> recv_busy s" using assms(1) by (auto simp: workers_are_def split: if_splits)
  ultimately show ?thesis
    using assms by (auto simp: close_begin_def CHECK_def workers_are_def messages_are_def Let_def)
qed

text \<open>A step of the worker: it does not fail, and the invariant holds for where it is then.\<close>

lemma worker_step_inv:
  assumes w: "workers_are s k [w]" "messages_are ms s [w]" and step: "worker_step eff w s = Some x"
  shows "\<exists>w' t. x = Inr (w', t) \<and> messages_are ms t (if w' = W_done then [] else [w'])
    \<and> (recv_busy t \<longleftrightarrow> w' \<noteq> W_done) \<and> (recv_waiting t \<longrightarrow> w' = W_waiting) \<and> q_workers t = q_workers s"
proof -
  have busy: "recv_busy s" "w \<noteq> W_done" "recv_waiting s \<longrightarrow> w = W_waiting" using w(1) by (auto simp: workers_are_def split: if_splits)
  have top: "\<exists>w' t. worker_top u = (w', t) \<and> messages_are ms t [w'] \<and> recv_busy t \<and> w' \<noteq> W_done \<and> (recv_waiting t \<longrightarrow> w' = W_waiting)
      \<and> q_workers t = q_workers u"
    if "messages_are ms u [v]" "in_hands v = []" "recv_busy u" "\<not> recv_waiting u" for u v
    using that by (cases u rule: worker_top_cases) (auto simp: messages_are_def Let_def)
  show ?thesis
  proof (cases "(eff, w, s)" rule: worker_step.cases)
    case (1 _ u)
    then show ?thesis using step top [OF w(2)] busy by auto
  next
    case (2 _ u)
    show ?thesis
    proof (cases "recv_waiting s \<and> recv_queue s \<noteq> []")
      case True
      have "messages_are ms (s\<lparr>recv_waiting := False\<rparr>) [W_queued]" using w(2) 2 by (auto simp: messages_are_def Let_def)
      from top [OF this] show ?thesis using step True 2 busy by auto
    next
      case False
      then show ?thesis using step 2 busy w(2) by (auto simp: messages_are_def Let_def)
    qed
  next
    case (3 _ u)
    then show ?thesis using step top [OF w(2)] busy by auto
  next
    case (4 _ y ys u)
    have "in_hands (case eff y of Plain \<Rightarrow> W_work ys | Replies \<Rightarrow> W_reply y ys | Closes \<Rightarrow> W_close ys) = ys"
        "(case eff y of Plain \<Rightarrow> W_work ys | Replies \<Rightarrow> W_reply y ys | Closes \<Rightarrow> W_close ys) \<notin> {W_done, W_waiting}"
      by (simp_all split: effect.split)
    then show ?thesis using step 4 busy w(2) by (auto simp: messages_are_def Let_def)
  next
    case (6 _ ys u)
    obtain t where t: "close_begin s = Inr t" "workers_are t k [w]" "messages_are ms t [w]" "q_workers t = q_workers s" "recv_busy t"
      using close_begin_inv [OF w] busy(1) by auto
    have "\<not> recv_waiting t" using t(2) 6 by (auto simp: workers_are_def)
    moreover have "x = Inr (W_wait_self ys, t)" using step 6 t(1) by (auto split: if_splits)
    ultimately show ?thesis using t 6 by (auto simp: messages_are_def Let_def)
  qed (use step busy w(2) in \<open>auto simp: messages_are_def Let_def split: if_splits\<close>)
qed

lemma workers_are_nth:
  assumes "workers_are s k r" "i < length (q_workers s)" "q_workers s ! i \<noteq> W_done"
  obtains w where "r = [w]" "i = k" "q_workers s ! i = w"
proof -
  have "\<not> i < k" using assms by (auto simp: workers_are_def nth_append)
  then show ?thesis using assms that by (cases r) (auto simp: workers_are_def nth_append split: if_splits)
qed

lemma threads_do_worker_inv:
  assumes inv: "threads_inv ms s" and step: "threads_do eff (E_worker i) s = Some x"
  shows "\<exists>t. x = Inr t \<and> threads_inv ms t"
proof -
  obtain k r where I: "workers_are s k r" "messages_are ms s r" using inv by (auto simp: threads_inv_def)
  have i: "i < length (q_workers s)" using step by (simp split: if_splits)
  obtain y where y: "worker_step eff (q_workers s ! i) s = Some y"
      "x = res_bind y (\<lambda>(w, s'). Inr (s'\<lparr>q_workers := (q_workers s)[i := w]\<rparr>))"
    using step i by auto
  have "q_workers s ! i \<noteq> W_done" using y(1) by auto
  then obtain w where w: "r = [w]" "i = k" "q_workers s ! i = w" using workers_are_nth [OF I(1) i] by metis
  obtain w' t where t: "y = Inr (w', t)" "messages_are ms t (if w' = W_done then [] else [w'])"
      "recv_busy t \<longleftrightarrow> w' \<noteq> W_done" "recv_waiting t \<longrightarrow> w' = W_waiting" "q_workers t = q_workers s"
    using worker_step_inv [of s k w ms eff y] I y(1) w by auto
  let ?t = "t\<lparr>q_workers := (q_workers s)[i := w']\<rparr>"
  have ws: "q_workers ?t = replicate k W_done @ [w']" using I(1) w by (simp add: workers_are_def list_update_append)
  have m: "messages_are ms ?t (if w' = W_done then [] else [w'])" using t(2) by (simp add: messages_are_def Let_def)
  have "threads_inv ms ?t"
  proof (cases "w' = W_done")
    case True
    then have "workers_are ?t (Suc k) []" using ws t by (simp add: workers_are_def replicate_append_same)
    then show ?thesis using m True by (auto intro: threads_invI)
  next
    case False
    then have "workers_are ?t k [w']" using ws t by (simp add: workers_are_def)
    then show ?thesis using m False by (auto intro: threads_invI)
  qed
  then show ?thesis using y(2) t(1) by simp
qed

lemma threads_inv_locked [simp]: "threads_inv ms (s\<lparr>send_locked := b\<rparr>) \<longleftrightarrow> threads_inv ms s"
    "threads_inv ms (s\<lparr>q_closers := cs\<rparr>) \<longleftrightarrow> threads_inv ms s" "threads_inv ms (s\<lparr>q_stream := b\<rparr>) \<longleftrightarrow> threads_inv ms s"
  by (simp_all add: threads_inv_def workers_are_def messages_are_def Let_def)

lemma close_step_inv:
  assumes inv: "threads_inv ms s" and step: "close_step c s = Some x"
  shows "\<exists>c' t. x = Inr (c', t) \<and> threads_inv ms t"
proof (cases c)
  case C_start
  obtain t where "close_begin s = Inr t" "threads_inv ms t"
    using inv close_begin_inv unfolding threads_inv_def by metis
  then show ?thesis using step C_start by (auto simp: close_stream_def split: if_splits)
qed (use inv step in \<open>auto simp: close_stream_def split: if_splits\<close>)

lemma threads_do_inv:
  assumes "threads_inv ms s" "threads_do eff e s = Some x"
  shows "\<exists>t. x = Inr t \<and> threads_inv (ms @ data_arrived [e]) t"
proof (cases e)
  case (E_worker i)
  then show ?thesis using threads_do_worker_inv assms by simp
next
  case (E_closer i)
  then show ?thesis using assms close_step_inv [of ms s "q_closers s ! i"] by (auto split: if_splits)
next
  case (E_data ns)
  then show ?thesis using assms on_messages_inv by (auto split: if_splits)
qed (use assms in \<open>auto simp: OnShutdownComplete_def split: if_splits\<close>)

lemma data_arrived_append: "data_arrived (es @ fs) = data_arrived es @ data_arrived fs"
  by (induction es rule: data_arrived.induct) simp_all

lemma threads_exec_inv:
  assumes "threads_exec eff es new_quic_threads = Some x"
  shows "\<exists>t. x = Inr t \<and> threads_inv (data_arrived es) t"
proof -
  have "\<exists>t. x = Inr t \<and> threads_inv (data_arrived (h @ [e])) t"
    if "threads_inv (data_arrived h) s" "threads_do eff e s = Some x" for h e s x
    using threads_do_inv [OF that] by (simp add: data_arrived_append)
  then show ?thesis
    using threads.exec_history [of "\<lambda>h. threads_inv (data_arrived h)" "\<lambda>_. True" eff "[]" new_quic_threads es x]
      new_quic_threads_inv assms by (simp add: list_all_iff)
qed

section \<open>Properties\<close>

text \<open>
  C4: Under every interleaving of callbacks, workers and calls of \<^verbatim>\<open>close\<close>, no check fails, at most one worker is
  alive, and the messages it has dispatched are those that arrived, in order and each once, up to those
  that \<^verbatim>\<open>close\<close> has thrown away. Unless \<^verbatim>\<open>close\<close> was called nothing is lost or left behind: when no worker is
  alive, every message that arrived has been dispatched. (The same code for TCP peers has neither
  property.)
\<close>

theorem quic_recv_in_order:
  assumes "threads_exec eff es new_quic_threads = Some r"
  shows "\<exists>s. r = Inr s \<and> length (filter (\<lambda>w. w \<noteq> W_done) (q_workers s)) \<le> 1
    \<and> subseq (q_dispatched s @ concat (map in_hands (q_workers s)) @ recv_queue s) (data_arrived es)
    \<and> (\<not> q_cleared s \<longrightarrow> q_dispatched s @ concat (map in_hands (q_workers s)) @ recv_queue s = data_arrived es
         \<and> ((\<forall>w \<in> set (q_workers s). w = W_done) \<longrightarrow> q_dispatched s = data_arrived es))"
proof -
  obtain s where s: "r = Inr s" "threads_inv (data_arrived es) s"
    using threads_exec_inv [OF assms] by auto
  then obtain k w where I: "workers_are s k w" "messages_are (data_arrived es) s w" by (auto simp: threads_inv_def)
  have "concat (map in_hands (q_workers s)) = concat (map in_hands w)"
      "length (filter (\<lambda>w. w \<noteq> W_done) (q_workers s)) \<le> 1" "(\<forall>w \<in> set (q_workers s). w = W_done) \<longrightarrow> w = []"
    using I(1) by (auto simp: workers_are_def split: if_splits)
  then show ?thesis using s(1) I(2) by (auto simp: messages_are_def Let_def)
qed

theorem quic_recv_in_order_witness:
  "\<exists>s. threads_exec (\<lambda>_. Plain) [E_data [1 :: nat, 2], E_worker 0, E_worker 0, E_worker 0, E_worker 0, E_worker 0] new_quic_threads = Some (Inr s)
    \<and> q_dispatched s = [1, 2]"
proof -
  let ?es = "[E_data [1 :: nat, 2], E_worker 0, E_worker 0, E_worker 0, E_worker 0, E_worker 0]"
  obtain s where s: "threads_exec (\<lambda>_. Plain) ?es new_quic_threads = Some (Inr s)" "\<not> q_cleared s" "q_workers s = [W_done]"
    by (simp add: new_quic_threads_def on_messages_def notify_recv_and_unlock_def worker_top_def)
  have "q_dispatched s = data_arrived ?es" using quic_recv_in_order [OF s(1)] s(2,3) by auto
  then show ?thesis using s(1) by (simp only: data_arrived.simps append_Nil2) blast
qed

text \<open>
  A worker that needs \<^verbatim>\<open>send_mtx_\<close> while a thread that waits for the worker holds it, or that waits for itself,
  never gets further, and neither does that thread.
\<close>

lemma blocked_forever:
  assumes "threads_exec eff es s = Some (Inr t)"
    and "send_locked s" "recv_busy s" "q_workers s = [w]" "(\<exists>x xs. w = W_reply x xs) \<or> (\<exists>xs. w = W_wait_self xs)"
    and "i < length (q_closers s)" "q_closers s ! i = c" "c = C_wait_idle \<or> c = C_start"
  shows "send_locked t \<and> recv_busy t \<and> q_workers t = [w] \<and> i < length (q_closers t) \<and> q_closers t ! i = c"
  using assms
proof (induction es arbitrary: s)
  case (Cons e es)
  obtain u where u: "threads_do eff e s = Some (Inr u)" "threads_exec eff es u = Some (Inr t)"
    using Cons.prems(1) by (auto split: option.splits sum.splits)
  have "send_locked u \<and> recv_busy u \<and> q_workers u = [w] \<and> i < length (q_closers u) \<and> q_closers u ! i = c"
  proof (cases e)
    case (E_closer j)
    then obtain d v where d: "j < length (q_closers s)" "close_step (q_closers s ! j) s = Some (Inr (d, v))"
        "u = v\<lparr>q_closers := (q_closers s)[j := d]\<rparr>"
      using u(1) by (auto simp: res_bind_Inr split: if_splits)
    then have "v = s" "j \<noteq> i" using Cons.prems(2,3,7,8) by (cases "q_closers s ! j"; auto split: if_splits)+
    then show ?thesis using Cons.prems d(3) by simp
  qed (use u(1) Cons.prems in \<open>auto simp: on_messages_def notify_recv_and_unlock_def nth_append split: if_splits\<close>)
  then show ?case using Cons.IH [OF u(2)] Cons.prems(5,8) by blast
qed simp

text \<open>
  C40: \<^verbatim>\<open>close\<close> can block forever. It keeps \<^verbatim>\<open>send_mtx_\<close> while it waits for the worker to finish; if the worker is
  handling a call that it has to answer, it waits for \<^verbatim>\<open>send_mtx_\<close> (first part: whatever happens
  afterwards, both stay where they are). If the worker itself calls \<^verbatim>\<open>close\<close>, because the other side sent
  \<^verbatim>\<open>__disconnect__\<close>, it waits for its own end, and a thread that then closes the peer, as the destructor
  does, never gets the mutex (second part).
\<close>

theorem quic_close_deadlock:
  assumes "eff x = Replies" "eff y = Closes"
  shows "(\<exists>s. threads_exec eff [E_data [x], E_worker 0, E_worker 0, E_close, E_closer 0] new_quic_threads = Some (Inr s)
      \<and> (\<forall>es t. threads_exec eff es s = Some (Inr t) \<longrightarrow> q_workers t = [W_reply x []] \<and> q_closers t ! 0 = C_wait_idle))
    \<and> (\<exists>s. threads_exec eff [E_data [y], E_worker 0, E_worker 0, E_worker 0, E_close] new_quic_threads = Some (Inr s)
      \<and> (\<forall>es t. threads_exec eff es s = Some (Inr t) \<longrightarrow> q_workers t = [W_wait_self []] \<and> q_closers t ! 0 = C_start))"
proof
  note defs = new_quic_threads_def on_messages_def notify_recv_and_unlock_def worker_top_def close_begin_def
  obtain s where s: "threads_exec eff [E_data [x], E_worker 0, E_worker 0, E_close, E_closer 0] new_quic_threads = Some (Inr s)"
      "send_locked s" "recv_busy s" "q_workers s = [W_reply x []]" "q_closers s = [C_wait_idle]"
    using assms(1) by (simp add: defs)
  then show "\<exists>s. threads_exec eff [E_data [x], E_worker 0, E_worker 0, E_close, E_closer 0] new_quic_threads = Some (Inr s)
      \<and> (\<forall>es t. threads_exec eff es s = Some (Inr t) \<longrightarrow> q_workers t = [W_reply x []] \<and> q_closers t ! 0 = C_wait_idle)"
    using blocked_forever [of eff _ s _ "W_reply x []" 0 C_wait_idle] by auto
  obtain s where s: "threads_exec eff [E_data [y], E_worker 0, E_worker 0, E_worker 0, E_close] new_quic_threads = Some (Inr s)"
      "send_locked s" "recv_busy s" "q_workers s = [W_wait_self []]" "q_closers s = [C_start]"
    using assms(2) by (simp add: defs)
  then show "\<exists>s. threads_exec eff [E_data [y], E_worker 0, E_worker 0, E_worker 0, E_close] new_quic_threads = Some (Inr s)
      \<and> (\<forall>es t. threads_exec eff es s = Some (Inr t) \<longrightarrow> q_workers t = [W_wait_self []] \<and> q_closers t ! 0 = C_start)"
    using blocked_forever [of eff _ s _ "W_wait_self []" 0 C_start] by auto
qed

theorem quic_close_deadlock_witness:
  "\<exists>s. threads_exec (\<lambda>b. if b then Replies else Closes) [E_data [True], E_worker 0, E_worker 0, E_close, E_closer 0] new_quic_threads = Some (Inr s)
    \<and> (\<forall>es t. threads_exec (\<lambda>b. if b then Replies else Closes) es s = Some (Inr t) \<longrightarrow> q_closers t ! 0 = C_wait_idle)"
proof -
  let ?e = "\<lambda>b. if b then Replies else Closes"
  have "?e True = Replies" "?e False = Closes" by simp_all
  from quic_close_deadlock [of ?e, OF this] show ?thesis by blast
qed

text \<open>
  \<^verbatim>\<open>close\<close> can return while a worker is about to run: it waits first for the worker and then for the end of
  the stream, and a message that arrives in between starts a new worker. The destructor relies on \<^verbatim>\<open>close\<close>
  to end all use of the object.
\<close>

theorem quic_close_leaves_worker:
  "\<exists>s. threads_exec eff [E_close, E_closer 0, E_data [x], E_shutdown, E_closer 0] new_quic_threads = Some (Inr s)
    \<and> q_closers s = [C_done] \<and> q_workers s = [W_queued] \<and> recv_queue s = [x]"
  by (simp add: new_quic_threads_def on_messages_def notify_recv_and_unlock_def close_begin_def close_stream_def OnShutdownComplete_def)

end
