(* ===== verification/FTL_Tls.thy ===== *)
theory FTL_Tls
  imports FTL_PeerTcp
begin

text \<open>
  TLS connections (\<^verbatim>\<open>protocol/tls.cpp\<close>): a TCP connection whose bytes go through a GnuTLS session.
  GnuTLS is a parameter, the fields of a record of functions of the state \<open>'o\<close> of the operating
  system, in which the session lives. What a theorem assumes of it is stated there.
\<close>

section \<open>GnuTLS\<close>

record 'o gnutls =
  g_allocate_credentials :: "'o \<Rightarrow> int \<times> 'o"
  g_set_system_trust :: "'o \<Rightarrow> int \<times> 'o"
  g_init :: "'o \<Rightarrow> int \<times> 'o"
  g_server_name_set :: "string \<Rightarrow> 'o \<Rightarrow> int \<times> 'o"
  g_set_verify_cert :: "string \<Rightarrow> 'o \<Rightarrow> 'o"
  g_set_default_priority :: "'o \<Rightarrow> int \<times> 'o"
  g_credentials_set :: "'o \<Rightarrow> int \<times> 'o"
  g_transport_set_int :: "int \<Rightarrow> 'o \<Rightarrow> 'o"
  g_handshake_set_timeout :: "'o \<Rightarrow> 'o"
  g_handshake :: "'o \<Rightarrow> int \<times> 'o"
  g_bye :: "'o \<Rightarrow> 'o"
  g_record_recv :: "nat \<Rightarrow> 'o \<Rightarrow> int \<times> u8 list \<times> 'o"
  g_record_send :: "u8 list \<Rightarrow> 'o \<Rightarrow> int \<times> 'o"
  g_record_cork :: "'o \<Rightarrow> 'o"
  g_record_uncork :: "'o \<Rightarrow> int \<times> 'o"
  g_error_is_fatal :: "int \<Rightarrow> bool"
  g_strerror :: "int \<Rightarrow> string"

definition GNUTLS_E_AGAIN :: int where "GNUTLS_E_AGAIN = -28"

section \<open>Connection_TLS\<close>

text \<open>The result of an operation, the connection and the state of the operating system after it.\<close>

type_synonym ('r, 'a, 'o) conn_out = "'r res \<times> 'a SocketConnection \<times> 'o"

definition check_gnutls_error :: "('a, 'o) sys \<Rightarrow> 'o gnutls \<Rightarrow> int \<Rightarrow> 'a SocketConnection \<Rightarrow> 'o \<Rightarrow> (int, 'a, 'o) conn_out" where
  "check_gnutls_error y g errcode c w =
     (case (if errcode < 0 \<and> \<not> g_error_is_fatal g errcode then snd (conn_close y c w) else (c, w)) of
        (c', w') \<Rightarrow> (if errcode < 0 then Inl (FTL_Error (g_strerror g errcode)) else Inr errcode, c', w'))"

text \<open>\<^verbatim>\<open>check_gnutls_error_(f())\<close> as a statement: the rest runs when nothing is thrown.\<close>

definition checked_call :: "('a, 'o) sys \<Rightarrow> 'o gnutls \<Rightarrow> ('o \<Rightarrow> int \<times> 'o) \<Rightarrow> 'a SocketConnection \<Rightarrow> 'o
    \<Rightarrow> ('a SocketConnection \<Rightarrow> 'o \<Rightarrow> ('r, 'a, 'o) conn_out) \<Rightarrow> ('r, 'a, 'o) conn_out" where
  "checked_call y g f c w k =
     (case f w of (e, w1) \<Rightarrow> case check_gnutls_error y g e c w1 of
        (Inl x, c', w') \<Rightarrow> (Inl x, c', w') | (Inr _, c', w') \<Rightarrow> k c' w')"

definition tls_connect :: "('a, 'o) sys \<Rightarrow> 'o gnutls \<Rightarrow> (string \<Rightarrow> int \<Rightarrow> 'a option) \<Rightarrow> string \<Rightarrow> int
    \<Rightarrow> 'a SocketConnection \<Rightarrow> 'o \<Rightarrow> (bool, 'a, 'o) conn_out" where
  "tls_connect y g resolve hostname port c w =
     checked_call y g (g_allocate_credentials g) c w (\<lambda>c w.
     checked_call y g (g_set_system_trust g) c w (\<lambda>c w.
     checked_call y g (g_init g) c w (\<lambda>c w.
     checked_call y g (g_server_name_set g hostname) c w (\<lambda>c w.
     checked_call y g (g_set_default_priority g) c (g_set_verify_cert g hostname w) (\<lambda>c w.
       case tcp_connect y resolve hostname port c w of
         (Inl x, c, w) \<Rightarrow> (Inl x, c, w)
       | (Inr ok, c, w) \<Rightarrow>
           if \<not> ok then (Inl (FTL_Error ''TLS connection failed''), c, w)
           else
             checked_call y g (g_credentials_set g) c w (\<lambda>c w.
             checked_call y g (g_handshake g) c
               (g_handshake_set_timeout g (g_transport_set_int g (sock_fd (sock c)) w)) (\<lambda>c w.
               (Inr True, c, w))))))))"

definition tls_close :: "('a, 'o) sys \<Rightarrow> 'o gnutls \<Rightarrow> 'a SocketConnection \<Rightarrow> 'o \<Rightarrow> bool \<times> 'a SocketConnection \<times> 'o" where
  "tls_close y g c w = conn_close y c (if socket_is_open (sock c) then g_bye g w else w)"

text \<open>
  The loop of \<^verbatim>\<open>recv\<close>; \<open>tries\<close> is the counter before the test, and the result carries the bytes stored
  in the buffer. \<open>pause\<close> is the sleep of 100 ns.
\<close>

fun tls_recv_loop :: "('a, 'o) sys \<Rightarrow> 'o gnutls \<Rightarrow> ('o \<Rightarrow> 'o) \<Rightarrow> nat \<Rightarrow> nat \<Rightarrow> 'a SocketConnection \<Rightarrow> 'o
    \<Rightarrow> (int \<times> u8 list, 'a, 'o) conn_out" where
  "tls_recv_loop y g pause len 0 c w = (Inr (-1, []), c, w)"
| "tls_recv_loop y g pause len (Suc tries) c w =
     (case g_record_recv g len w of (recvd, d, w1) \<Rightarrow>
      case (if recvd = 0 then snd (tls_close y g c w1) else (c, w1)) of (c2, w2) \<Rightarrow>
        if recvd > 0 then (Inr (recvd, d), c2, w2)
        else if recvd = GNUTLS_E_AGAIN then tls_recv_loop y g pause len tries c2 (pause w2)
        else (case check_gnutls_error y g recvd c2 w2 of
                (Inl x, c3, w3) \<Rightarrow> (Inl x, c3, w3) | (Inr e, c3, w3) \<Rightarrow> (Inr (e, []), c3, w3)))"

definition tls_recv :: "('a, 'o) sys \<Rightarrow> 'o gnutls \<Rightarrow> ('o \<Rightarrow> 'o) \<Rightarrow> nat \<Rightarrow> 'a SocketConnection \<Rightarrow> 'o
    \<Rightarrow> (int \<times> u8 list, 'a, 'o) conn_out" where
  "tls_recv y g pause len c w = tls_recv_loop y g pause len 30 c w"

definition tls_send :: "('a, 'o) sys \<Rightarrow> 'o gnutls \<Rightarrow> u8 list \<Rightarrow> 'a SocketConnection \<Rightarrow> 'o \<Rightarrow> (int, 'a, 'o) conn_out" where
  "tls_send y g b c w = (case g_record_send g b w of (e, w') \<Rightarrow> check_gnutls_error y g e c w')"

text \<open>The inner loop of \<^verbatim>\<open>writev\<close>: each round sends the buffer from its start.\<close>

partial_function (option) tls_send_loop :: "('a, 'o) sys \<Rightarrow> 'o gnutls \<Rightarrow> u8 list \<Rightarrow> nat \<Rightarrow> 'a SocketConnection \<Rightarrow> 'o
    \<Rightarrow> (unit, 'a, 'o) conn_out option" where
  "tls_send_loop y g b sent c w =
     (case tls_send y g b c w of
        (Inl x, c', w') \<Rightarrow> Some (Inl x, c', w')
      | (Inr n, c', w') \<Rightarrow>
          if sent + nat n < length b then tls_send_loop y g b (sent + nat n) c' w' else Some (Inr (), c', w'))"

fun tls_send_all :: "('a, 'o) sys \<Rightarrow> 'o gnutls \<Rightarrow> u8 list list \<Rightarrow> 'a SocketConnection \<Rightarrow> 'o \<Rightarrow> (unit, 'a, 'o) conn_out option" where
  "tls_send_all y g [] c w = Some (Inr (), c, w)"
| "tls_send_all y g (b # bs) c w =
     (case tls_send_loop y g b 0 c w of
        None \<Rightarrow> None
      | Some (Inl x, c', w') \<Rightarrow> Some (Inl x, c', w')
      | Some (Inr _, c', w') \<Rightarrow> tls_send_all y g bs c' w')"

definition tls_writev :: "('a, 'o) sys \<Rightarrow> 'o gnutls \<Rightarrow> u8 list list \<Rightarrow> 'a SocketConnection \<Rightarrow> 'o \<Rightarrow> (int, 'a, 'o) conn_out option" where
  "tls_writev y g iov c w =
     (case tls_send_all y g iov c (g_record_cork g w) of
        None \<Rightarrow> None
      | Some (Inl x, c', w') \<Rightarrow> Some (Inl x, c', w')
      | Some (Inr _, c', w') \<Rightarrow> (case g_record_uncork g w' of (e, w'') \<Rightarrow> Some (check_gnutls_error y g e c' w'')))"

section \<open>Writing\<close>

text \<open>
  What GnuTLS documents of a corked session: \<^verbatim>\<open>gnutls_record_send\<close> keeps the whole buffer and returns its
  length, and \<^verbatim>\<open>gnutls_record_uncork\<close> with \<^verbatim>\<open>GNUTLS_RECORD_WAIT\<close> transmits what was kept and returns its
  length. \<open>corked\<close> gives the bytes kept, if the session is corked, \<open>log\<close> the bytes transmitted.
\<close>

definition cork_contract :: "('o \<Rightarrow> u8 list option) \<Rightarrow> ('o \<Rightarrow> u8 list) \<Rightarrow> 'o gnutls \<Rightarrow> bool" where
  "cork_contract corked log g \<longleftrightarrow>
     (\<forall>w. corked w = None \<longrightarrow> corked (g_record_cork g w) = Some [] \<and> log (g_record_cork g w) = log w) \<and>
     (\<forall>w k b. corked w = Some k \<longrightarrow>
        fst (g_record_send g b w) = int (length b) \<and> corked (snd (g_record_send g b w)) = Some (k @ b) \<and>
        log (snd (g_record_send g b w)) = log w) \<and>
     (\<forall>w k. corked w = Some k \<longrightarrow>
        fst (g_record_uncork g w) = int (length k) \<and> corked (snd (g_record_uncork g w)) = None \<and>
        log (snd (g_record_uncork g w)) = log w @ k)"

lemma cork_contractD:
  assumes "cork_contract corked log g"
  shows "corked w = None \<Longrightarrow> corked (g_record_cork g w) = Some [] \<and> log (g_record_cork g w) = log w"
    and "corked w = Some k \<Longrightarrow> \<exists>w'. g_record_send g b w = (int (length b), w') \<and> corked w' = Some (k @ b) \<and> log w' = log w"
    and "corked w = Some k \<Longrightarrow> \<exists>w'. g_record_uncork g w = (int (length k), w') \<and> corked w' = None \<and> log w' = log w @ k"
  using assms unfolding cork_contract_def by (metis prod.collapse)+

lemma check_gnutls_error_ok [simp]: "0 \<le> e \<Longrightarrow> check_gnutls_error y g e c w = (Inr e, c, w)"
  by (simp add: check_gnutls_error_def)

lemma tls_send_all_corked:
  assumes "cork_contract corked log g" "corked w = Some k"
  shows "\<exists>w'. tls_send_all y g iov c w = Some (Inr (), c, w') \<and> corked w' = Some (k @ concat iov) \<and> log w' = log w"
  using assms(2)
proof (induction iov arbitrary: w k)
  case (Cons b bs)
  from cork_contractD(2) [OF assms(1) Cons.prems, of b] obtain w1
    where w1: "g_record_send g b w = (int (length b), w1)" "corked w1 = Some (k @ b)" "log w1 = log w" by blast
  then have "tls_send_loop y g b 0 c w = Some (Inr (), c, w1)"
    by (subst tls_send_loop.simps) (simp add: tls_send_def)
  with Cons.IH [OF w1(2)] w1(3) show ?case by auto
qed simp

text \<open>
  over a session that keeps GnuTLS's contract for corked records, the scatter write of a TLS
  connection returns, throws nothing, transmits exactly the concatenation of the buffers and returns
  its length, and leaves the session uncorked.
\<close>

theorem tls_writev_sends_all:
  assumes "cork_contract corked log g" "corked w = None"
  shows "\<exists>w'. tls_writev y g iov c w = Some (Inr (iov_total iov), c, w') \<and> log w' = log w @ concat iov \<and> corked w' = None"
proof -
  note w0 = cork_contractD(1) [OF assms]
  from tls_send_all_corked [OF assms(1) conjunct1 [OF w0], of y iov c] w0 obtain w1
    where w1: "tls_send_all y g iov c (g_record_cork g w) = Some (Inr (), c, w1)"
      "corked w1 = Some (concat iov)" "log w1 = log w" by auto
  from cork_contractD(3) [OF assms(1) w1(2)] w1 show ?thesis
    by (auto simp: tls_writev_def iov_total_def)
qed

text \<open>A session whose state is the bytes kept and the bytes transmitted, for the witnesses.\<close>

definition ex_gnutls :: "(u8 list option \<times> u8 list) gnutls" where
  "ex_gnutls = \<lparr>g_allocate_credentials = (\<lambda>w. (0, w)), g_set_system_trust = (\<lambda>w. (0, w)), g_init = (\<lambda>w. (0, w)),
     g_server_name_set = (\<lambda>_ w. (0, w)), g_set_verify_cert = (\<lambda>_ w. w), g_set_default_priority = (\<lambda>w. (0, w)),
     g_credentials_set = (\<lambda>w. (0, w)), g_transport_set_int = (\<lambda>_ w. w), g_handshake_set_timeout = (\<lambda>w. w),
     g_handshake = (\<lambda>w. (0, w)), g_bye = (\<lambda>w. w), g_record_recv = (\<lambda>n w. (GNUTLS_E_AGAIN, [], w)),
     g_record_send = (\<lambda>b (k, l). case k of Some k' \<Rightarrow> (int (length b), Some (k' @ b), l) | None \<Rightarrow> (int (length b), None, l @ b)),
     g_record_cork = (\<lambda>(k, l). (Some [], l)),
     g_record_uncork = (\<lambda>(k, l). case k of Some k' \<Rightarrow> (int (length k'), None, l @ k') | None \<Rightarrow> (0, None, l)),
     g_error_is_fatal = (\<lambda>e. e \<noteq> GNUTLS_E_AGAIN), g_strerror = (\<lambda>_. [])\<rparr>"

definition ex_tls_sys :: "(unit, u8 list option \<times> u8 list) sys" where
  "ex_tls_sys = \<lparr>sys_socket = (\<lambda>w. (3, w)), sys_recv = (\<lambda>f n w. (0, [], w)), sys_send = (\<lambda>f b w. (0, w)), sys_writev = (\<lambda>f b w. (0, w)),
     sys_bind = (\<lambda>f a w. (0, w)), sys_listen = (\<lambda>f n w. (0, w)), sys_accept = (\<lambda>f w. (-1, (), w)),
     sys_connect = (\<lambda>f a w. (0, w)), sys_select = (\<lambda>f t w. (0, False, w)), sys_close = (\<lambda>f w. (0, w)),
     sys_getfl = (\<lambda>f w. False), sys_setfl = (\<lambda>f b w. w), sys_getsockname = (\<lambda>f w. ()), sys_errno = (\<lambda>w. 0), sys_strerror = (\<lambda>n. [])\<rparr>"

definition ex_tls_conn :: "unit SocketConnection" where
  "ex_tls_conn = \<lparr>sock = \<lparr>sock_status = ST_OPEN, sock_fd = 3\<rparr>, addr = ()\<rparr>"

lemma ex_gnutls_corks: "cork_contract fst snd ex_gnutls"
  by (auto simp: cork_contract_def ex_gnutls_def)

theorem tls_writev_sends_all_witness:
  "\<exists>w'. tls_writev ex_tls_sys ex_gnutls [[1, 2], [], [3]] ex_tls_conn (None, [9]) = Some (Inr 3, ex_tls_conn, w') \<and> snd w' = [9, 1, 2, 3] \<and> fst w' = None"
  using tls_writev_sends_all [OF ex_gnutls_corks, of "(None, [9])" ex_tls_sys "[[1, 2], [], [3]]" ex_tls_conn] by (simp add: iov_total_def)

section \<open>Reading\<close>

text \<open>
  A session with nothing to read: every record read reports \<^verbatim>\<open>GNUTLS_E_AGAIN\<close>, in the states of \<open>Q\<close>, which
  reading and waiting do not leave.
\<close>

definition idle_session :: "('o \<Rightarrow> bool) \<Rightarrow> ('o \<Rightarrow> 'o) \<Rightarrow> 'o gnutls \<Rightarrow> bool" where
  "idle_session Q pause g \<longleftrightarrow>
     (\<forall>w n. Q w \<longrightarrow> fst (g_record_recv g n w) = GNUTLS_E_AGAIN \<and> Q (pause (snd (snd (g_record_recv g n w)))))"

lemma tls_recv_loop_idle:
  assumes "idle_session Q pause g" "Q w"
  shows "\<exists>w'. tls_recv_loop y g pause len tries c w = (Inr (- 1, []), c, w') \<and> Q w'"
  using assms(2)
proof (induction tries arbitrary: w)
  case (Suc n)
  obtain d w1 where r: "g_record_recv g len w = (GNUTLS_E_AGAIN, d, w1)" "Q (pause w1)"
    using assms(1) Suc.prems unfolding idle_session_def by (metis prod.collapse)
  with Suc.IH [OF r(2)] show ?case by (simp add: GNUTLS_E_AGAIN_def)
qed simp

text \<open>A TLS connection as the connection of a peer.\<close>

definition tls_ops :: "('a, 'w) sys \<Rightarrow> 'w gnutls \<Rightarrow> ('w \<Rightarrow> 'w) \<Rightarrow> (u8 list \<Rightarrow> 'a SocketConnection \<times> 'w \<Rightarrow> (string + int) \<times> 'a SocketConnection \<times> 'w)
    \<Rightarrow> ('a SocketConnection \<Rightarrow> 'w \<Rightarrow> int) \<Rightarrow> (string + 'a SocketConnection \<times> 'w)
    \<Rightarrow> ('a SocketConnection \<times> 'w \<Rightarrow> (string + unit) \<times> ('a SocketConnection \<times> 'w))
    \<Rightarrow> (u8 list \<Rightarrow> bool \<times> nat \<times> u8 list) \<Rightarrow> (u8 list \<Rightarrow> string + ('o \<times> u8 list) option) \<Rightarrow> ('o, 'a SocketConnection \<times> 'w) sock_ops" where
  "tls_ops y g pause wr er cr cn pn nx = \<lparr>
     k_is_valid = (\<lambda>(c, w). conn_is_valid c),
     k_close = (\<lambda>(c, w). snd (tls_close y g c w)),
     k_recv = (\<lambda>n (c, w). case tls_recv y g pause n c w of
         (Inl e, k) \<Rightarrow> (Inl (exn_what e), k)
       | (Inr r, k) \<Rightarrow> (Inr r, k)),
     k_writev = wr,
     k_getSocketError = (\<lambda>(c, w). (er c w, (c, w))),
     k_is_fatal = (\<lambda>e. is_fatal 0 e),
     k_create = cr,
     k_set_options = (\<lambda>k. k),
     k_connect = cn,
     k_prepare_next = pn,
     k_next = nx\<rparr>"

interpretation tls: closing_socket "tls_ops y g pause wr er cr cn pn nx" for y g pause wr er cr cn pn nx
proof
  fix k
  show "\<not> k_is_valid (tls_ops y g pause wr er cr cn pn nx) (k_close (tls_ops y g pause wr er cr cn pn nx) k)"
    by (cases k) (simp add: tls_ops_def tls_close_def case_prod_beta conn_close_invalid)
qed

text \<open>
  A TLS peer that reads a session with nothing to read (a record that has arrived only in part) is
  closed: after thirty attempts \<^verbatim>\<open>recv\<close> returns -1, which means a closed connection, and not zero, which
  means to try again.
\<close>

theorem tls_idle_peer_closed:
  assumes so: "so = tls_ops y g pause wr er cr cn pn nx" and p: "sock_valid so p" "active p"
    and k: "tsock (pb_env p) = (c, w)" "idle_session Q pause g" "Q w"
  shows "\<exists>p'. tcp_recv so ev na p = Inr (False, p') \<and> \<not> sock_valid so p' \<and> disconnects p' = disconnects p
    \<and> pb_status p' = (if can_reconnect (pb_env p) then kReconnecting else kDisconnected)"
proof -
  have "\<exists>d k'. k_recv so n (tsock (pb_env p)) = (Inr (- 1, d), k')" for n
    using tls_recv_loop_idle [OF k(2,3), of y n 30 c] by (auto simp: so tls_ops_def k(1) tls_recv_def)
  from tls.recv_closed [OF p [unfolded so] this [unfolded so]] show ?thesis by (simp add: so)
qed

definition ex_tls_ops :: "(u8 list, unit SocketConnection \<times> (u8 list option \<times> u8 list)) sock_ops" where
  "ex_tls_ops = tls_ops ex_tls_sys ex_gnutls (\<lambda>w. w) (\<lambda>b k. (Inr (int (length b)), k)) (\<lambda>c w. 0) (Inl []) (\<lambda>k. (Inr (), k)) (\<lambda>b. (True, 0, b)) (\<lambda>b. Inr None)"

definition ex_tls_env :: "(u8 list, unit, (unit SocketConnection \<times> (u8 list option \<times> u8 list)) tcp) peer_env" where
  "ex_tls_env = \<lparr>e_pack = ex_pack, e_get_buffer = io_return (), e_send_buffer = (\<lambda>_ _. io_return 0), e_notifyError = (\<lambda>_ _. io_return ()),
     e_notifyConnect = io_return (), e_close = (\<lambda>_. io_return ()), e_get_time = (\<lambda>_. 0), e_sort = sort_key se_rtt,
     e_net_id = uuid_of_int 1, e_handshake_args = (\<lambda>a b u. u), e_of_time = (\<lambda>t. []), e_to_time_sync = (\<lambda>_. None)\<rparr>"

definition ex_tls_peer :: "(u8 list, unit, unit SocketConnection \<times> (u8 list option \<times> u8 list)) PeerTcp" where
  "ex_tls_peer = \<lparr>local_id = 0, pb_id = uuid_of_int 2, pb_version = 0, pb_status = kConnected, rpc_callbacks = Map.empty, promises = [],
     rpcid = 0, handshake_sent = False, pb_clock = new_ClockInfo 50, pb_env = outgoing_tcp (ex_tls_conn, (None, []))\<rparr>"

theorem tls_idle_peer_closed_witness:
  "\<exists>p'. tcp_recv ex_tls_ops ex_tls_env [] ex_tls_peer = Inr (False, p') \<and> \<not> sock_valid ex_tls_ops p' \<and> pb_status p' = kReconnecting"
proof -
  have "sock_valid ex_tls_ops ex_tls_peer" "active ex_tls_peer" "tsock (pb_env ex_tls_peer) = (ex_tls_conn, (None, []))"
    "can_reconnect (pb_env ex_tls_peer)"
    by (simp_all add: sock_valid_def ex_tls_ops_def tls_ops_def ex_tls_peer_def outgoing_tcp_def incoming_tcp_def ex_tls_conn_def
      conn_is_valid_def socket_is_open_def active_def)
  moreover have "idle_session (\<lambda>_. True) (\<lambda>w. w) ex_gnutls" by (simp add: idle_session_def ex_gnutls_def)
  ultimately show ?thesis
    using tls_idle_peer_closed [OF ex_tls_ops_def, of ex_tls_peer ex_tls_conn "(None, [])" "\<lambda>_. True" ex_tls_env "[]"] by auto
qed

end
