(* ===== verification/FTL_WsConnect.thy ===== *)
theory FTL_WsConnect
  imports FTL_Tls FTL_Base64
begin

text \<open>
  The opening handshake of a WebSocket connection (\<^verbatim>\<open>WebSocketBase::connect\<close> in
  \<^verbatim>\<open>protocol/websocket.cpp\<close>): the HTTP request, the status line and the headers of the response, which
  are read byte by byte into an array of 256 characters. The base class \<^verbatim>\<open>SocketT\<close> of the template is a
  record of its operations, given below for TCP and for TLS.

  An element of the array is \<open>None\<close> until it is written; using it before, or a position that is not in
  the array, is \<^term>\<open>Undefined_behaviour\<close>.
\<close>

section \<open>The base class\<close>

record 'w SocketT =
  st_connect :: "string \<Rightarrow> int \<Rightarrow> int \<Rightarrow> 'w \<Rightarrow> bool res \<times> 'w"
  st_send :: "u8 list \<Rightarrow> 'w \<Rightarrow> int res \<times> 'w"
  st_recv :: "nat \<Rightarrow> 'w \<Rightarrow> (int \<times> u8 list) res \<times> 'w"
  st_errno :: "'w \<Rightarrow> int"

definition Connection_TCP_ops :: "('a, 'o) sys \<Rightarrow> (string \<Rightarrow> int \<Rightarrow> 'a option) \<Rightarrow> ('a SocketConnection \<times> 'o) SocketT" where
  "Connection_TCP_ops y resolve = \<lparr>
     st_connect = (\<lambda>h p t (c, w). tcp_connect y resolve h p c w),
     st_send = (\<lambda>b (c, w). case conn_send y b c w of (n, w') \<Rightarrow> (Inr n, (c, w'))),
     st_recv = (\<lambda>n (c, w). case conn_recv y n c w of (r, w') \<Rightarrow> (r, (c, w'))),
     st_errno = (\<lambda>(c, w). sys_errno y w)\<rparr>"

definition Connection_TLS_ops :: "('a, 'o) sys \<Rightarrow> 'o gnutls \<Rightarrow> ('o \<Rightarrow> 'o) \<Rightarrow> (string \<Rightarrow> int \<Rightarrow> 'a option)
    \<Rightarrow> ('a SocketConnection \<times> 'o) SocketT" where
  "Connection_TLS_ops y g pause resolve = \<lparr>
     st_connect = (\<lambda>h p t (c, w). tls_connect y g resolve h p c w),
     st_send = (\<lambda>b (c, w). tls_send y g b c w),
     st_recv = (\<lambda>n (c, w). tls_recv y g pause n c w),
     st_errno = (\<lambda>(c, w). sys_errno y w)\<rparr>"

section \<open>The request\<close>

definition getPort :: "URI \<Rightarrow> int res" where
  "getPort uri =
     (let port = m_port uri in
      if port = 0 then
        if m_proto uri = SCHEME_WS then Inr 80
        else if m_proto uri = SCHEME_WSS then Inr 443
        else Inl (FTL_Error (''Bad WS uri:'' @ uri_to_string uri))
      else Inr port)"

definition crlf :: string where
  "crlf = [CHR 0x0D, CHR 0x0A]"

text \<open>The request; \<^const>\<open>None\<close> where the encoding of the user information does not return.\<close>

definition ws_request :: "URI \<Rightarrow> int \<Rightarrow> string option" where
  "ws_request uri port =
     Option.bind (if hasUserInfo uri then map_option (\<lambda>e. ''Authorization: Basic '' @ e @ crlf) (base64_encode (str_bytes (m_userinfo uri)) False) else Some [])
     (\<lambda>auth. Some (''GET '' @ m_path uri @ '' HTTP/1.1'' @ crlf
     @ (if port = 80 then ''Host: '' @ m_host uri @ crlf else ''Host: '' @ m_host uri @ '':'' @ int_to_string port @ crlf)
     @ auth
     @ ''Upgrade: websocket'' @ crlf
     @ ''Connection: Upgrade'' @ crlf
     @ ''Sec-WebSocket-Key: x3JJHMbDL1EzLkh9GBhXDw=='' @ crlf
     @ ''Sec-WebSocket-Version: 13'' @ crlf
     @ crlf))"

section \<open>Reading a line\<close>

type_synonym line = "u8 option list"

definition line_at :: "line \<Rightarrow> nat \<Rightarrow> u8 res" where
  "line_at l i = (if i < length l then (case l ! i of Some b \<Rightarrow> Inr b | None \<Rightarrow> Inl Undefined_behaviour) else Inl Undefined_behaviour)"

text \<open>The bytes that a call with address \<^verbatim>\<open>line + i\<close> stored.\<close>

definition line_put :: "line \<Rightarrow> nat \<Rightarrow> u8 list \<Rightarrow> line res" where
  "line_put l i d = (if i + length d \<le> length l then Inr (take i l @ map Some d @ drop (i + length d) l) else Inl Undefined_behaviour)"

text \<open>The condition of the loop: \<^verbatim>\<open>i < 2 || (i < 255 && line[i-2] != '\r' && line[i-1] != '\n')\<close>.\<close>

definition line_goes_on :: "line \<Rightarrow> nat \<Rightarrow> bool res" where
  "line_goes_on l i =
     (if i < 2 then Inr True
      else if i < 255 then
        res_bind (line_at l (i - 2)) (\<lambda>a. if a = 13 then Inr False else res_bind (line_at l (i - 1)) (\<lambda>b. Inr (b \<noteq> 10)))
      else Inr False)"

lemma line_goes_on_bound: "line_goes_on l i = Inr True \<Longrightarrow> i < 255"
  by (auto simp: line_goes_on_def split: if_splits)

function read_line :: "'w SocketT \<Rightarrow> line \<Rightarrow> nat \<Rightarrow> 'w \<Rightarrow> (line \<times> nat) res \<times> 'w" where
  "read_line s l i w =
     (case line_goes_on l i of
        Inl e \<Rightarrow> (Inl e, w)
      | Inr False \<Rightarrow> (Inr (l, i), w)
      | Inr True \<Rightarrow>
          (case st_recv s 1 w of
             (Inl e, w') \<Rightarrow> (Inl e, w')
           | (Inr (n, d), w') \<Rightarrow>
               if n = 0 then (Inl (FTL_Error ''Connection closed by remote''), w')
               else (case line_put l i d of Inl e \<Rightarrow> (Inl e, w') | Inr l' \<Rightarrow> read_line s l' (i + 1) w')))"
  by pat_completeness auto
termination
  by (relation "measure (\<lambda>(s, l, i, w). 255 - i)") (auto dest: line_goes_on_bound)

declare read_line.simps [simp del]

text \<open>The null-terminated string at the start of the array.\<close>

fun c_string :: "line \<Rightarrow> u8 list res" where
  "c_string [] = Inl Undefined_behaviour"
| "c_string (None # l) = Inl Undefined_behaviour"
| "c_string (Some b # l) = (if b = 0 then Inr [] else res_bind (c_string l) (\<lambda>t. Inr (b # t)))"

section \<open>The response\<close>

text \<open>
  \<^verbatim>\<open>sscanf(line, "HTTP/1.1 %d", &status)\<close>: the number when one is assigned. The space matches any white
  space, also none; a number that is not an \<^verbatim>\<open>int\<close> has no defined effect.
\<close>

definition scan_status :: "string \<Rightarrow> int option res" where
  "scan_status t =
     (let p = ''HTTP/1.1'' in
      if take (length p) t \<noteq> p then Inr None
      else case stoi (drop (length p) t) of
        Inr v \<Rightarrow> Inr (Some v)
      | Inl e \<Rightarrow> if e = Std_exception ''invalid_argument'' then Inr None else Inl Undefined_behaviour)"

text \<open>\<^verbatim>\<open>std::string::npos\<close> and \<^verbatim>\<open>substr\<close>, with 64 bit positions.\<close>

definition npos :: u64 where
  "npos = - 1"

definition find_colon :: "string \<Rightarrow> u64" where
  "find_colon t = (let n = length (takeWhile (\<lambda>c. c \<noteq> CHR '':'') t) in if n < length t then of_nat n else npos)"

definition substr :: "string \<Rightarrow> u64 \<Rightarrow> u64 \<Rightarrow> string res" where
  "substr t pos n = (if unat pos > length t then Inl (Std_exception ''out_of_range'') else Inr (take (unat n) (drop (unat pos) t)))"

definition split_header :: "string \<Rightarrow> (string \<times> string) res" where
  "split_header t =
     (let ix = find_colon t in
      res_bind (substr t 0 ix) (\<lambda>label.
      res_bind (substr t (ix + 2) (of_nat (length t) - ix - 4)) (\<lambda>value. Inr (label, value))))"

type_synonym headers = "string \<rightharpoonup> string"

text \<open>One round of the loop: \<open>None\<close> for the empty line, otherwise the array and the header.\<close>

definition is_blank :: "line \<Rightarrow> bool res" where
  "is_blank l = res_bind (line_at l 0) (\<lambda>a. if a = 13 then res_bind (line_at l 1) (\<lambda>b. Inr (b = 10)) else Inr False)"

definition header_step :: "'w SocketT \<Rightarrow> line \<Rightarrow> 'w \<Rightarrow> (line \<times> string \<times> string) option res \<times> 'w" where
  "header_step s l w =
     (case read_line s l 0 w of
        (Inl e, w') \<Rightarrow> (Inl e, w')
      | (Inr (l1, i), w') \<Rightarrow>
         (res_bind (is_blank l1) (\<lambda>blank.
            if blank then Inr None
            else res_bind (line_put l1 i [0]) (\<lambda>l2.
              res_bind (c_string l2) (\<lambda>t.
                res_bind (split_header (bytes_str t)) (\<lambda>h. Inr (Some (l2, h)))))), w'))"

partial_function (option) headers_loop :: "'w SocketT \<Rightarrow> line \<Rightarrow> headers \<Rightarrow> 'w \<Rightarrow> (headers res \<times> 'w) option" where
  "headers_loop s l hs w =
     (case header_step s l w of
        (Inl e, w') \<Rightarrow> Some (Inl e, w')
      | (Inr None, w') \<Rightarrow> Some (Inr hs, w')
      | (Inr (Some (l', label, value)), w') \<Rightarrow> headers_loop s l' (hs(label \<mapsto> value)) w')"

definition check_headers :: "headers \<Rightarrow> unit res" where
  "check_headers hs =
     (if hs ''Connection'' \<noteq> Some ''upgrade'' then Inl (FTL_Error ''Missing WS connection header'')
      else if hs ''Upgrade'' \<noteq> Some ''websocket'' then Inl (FTL_Error ''Missing WS Upgrade'')
      else if hs ''Sec-WebSocket-Accept'' = None then Inl (FTL_Error ''Missing WS accept header'')
      else Inr ())"

text \<open>From the first byte of the response; the array is the one that the status line leaves.\<close>

definition read_status :: "'w SocketT \<Rightarrow> URI \<Rightarrow> 'w \<Rightarrow> line res \<times> 'w" where
  "read_status s uri w =
     (case read_line s (replicate 256 None) 0 w of
        (Inl e, w') \<Rightarrow> (Inl e, w')
      | (Inr (l, i), w') \<Rightarrow>
         (res_bind (line_put l i [0]) (\<lambda>l'.
            if i = 255 then Inl (FTL_Error (''Got invalid status line connecting to: '' @ m_host uri))
            else res_bind (c_string l') (\<lambda>t.
              res_bind (scan_status (bytes_str t)) (\<lambda>status.
                if status \<noteq> Some 101
                then Inl (FTL_Error (''ERROR: Got bad status connecting to: '' @ m_host uri @ '': '' @ bytes_str t))
                else Inr l'))), w'))"

definition ws_connect :: "'w SocketT \<Rightarrow> URI \<Rightarrow> int \<Rightarrow> 'w \<Rightarrow> (unit res \<times> 'w) option" where
  "ws_connect s uri timeout w =
     (case getPort uri of
        Inl e \<Rightarrow> Some (Inl e, w)
      | Inr port \<Rightarrow>
         (case st_connect s (m_host uri) port timeout w of
            (Inl e, w1) \<Rightarrow> Some (Inl e, w1)
          | (Inr False, w1) \<Rightarrow> Some (Inl (FTL_Error ''WS: connect() failed''), w1)
          | (Inr True, w1) \<Rightarrow>
             Option.bind (ws_request uri port) (\<lambda>http.
              case st_send s (str_bytes http) w1 of
                (Inl e, w2) \<Rightarrow> Some (Inl e, w2)
              | (Inr rc, w2) \<Rightarrow>
                 if cast_i32 rc \<noteq> cast_i32 (int (length http)) then
                   Some (Inl (FTL_Error (''Could not send Websocket http request... ('' @ int_to_string (cast_i32 rc) @ '', ''
                     @ int_to_string (st_errno s w2) @ '')'' @ [CHR 0x0A] @ http)), w2)
                 else
                   (case read_status s uri w2 of
                      (Inl e, w3) \<Rightarrow> Some (Inl e, w3)
                    | (Inr l, w3) \<Rightarrow>
                       (case headers_loop s l Map.empty w3 of
                          None \<Rightarrow> None
                        | Some (Inl e, w4) \<Rightarrow> Some (Inl e, w4)
                        | Some (Inr hs, w4) \<Rightarrow> Some (check_headers hs, w4))))))"

section \<open>Reading a well-formed response\<close>

text \<open>
  A socket that delivers the bytes \<open>pend\<close> one by one, in order. A line of text ends with its only carriage
  return and line feed and fits the array; a header is a label and a value.
\<close>

definition delivers :: "('w \<Rightarrow> u8 list) \<Rightarrow> 'w SocketT \<Rightarrow> bool" where
  "delivers pend s \<longleftrightarrow> (\<forall>w b bs. pend w = b # bs \<longrightarrow> (\<exists>w'. st_recv s 1 w = (Inr (1, [b]), w') \<and> pend w' = bs))"

definition plain :: "u8 list \<Rightarrow> bool" where
  "plain u \<longleftrightarrow> 0 \<notin> set u \<and> 10 \<notin> set u \<and> 13 \<notin> set u"

definition text_line :: "u8 list \<Rightarrow> bool" where
  "text_line t \<longleftrightarrow> (\<exists>u. t = u @ [13, 10] \<and> plain u) \<and> length t \<le> 255"

definition header_bytes :: "string \<times> string \<Rightarrow> u8 list" where
  "header_bytes h = str_bytes (fst h @ '': '' @ snd h @ crlf)"

definition header_ok :: "string \<times> string \<Rightarrow> bool" where
  "header_ok h \<longleftrightarrow> CHR '':'' \<notin> set (fst h) \<and> text_line (header_bytes h)"

definition status_bytes :: "string \<Rightarrow> u8 list" where
  "status_bytes reason = str_bytes (''HTTP/1.1 101'' @ reason @ crlf)"

definition reason_ok :: "string \<Rightarrow> bool" where
  "reason_ok reason \<longleftrightarrow> (reason = [] \<or> \<not> is_digit (hd reason)) \<and> text_line (status_bytes reason) \<and> length (status_bytes reason) < 255"

text \<open>The array holds a text, followed by the null character or by something else.\<close>

definition holds :: "line \<Rightarrow> u8 list \<Rightarrow> bool" where
  "holds l t \<longleftrightarrow> length l = 256 \<and> take (length t) l = map Some t"

lemma holds_nth: "holds l t \<Longrightarrow> i < length t \<Longrightarrow> i < length l \<and> l ! i = Some (t ! i)"
  unfolding holds_def by (metis length_map length_take min_less_iff_conj nth_map nth_take)

lemma line_at_holds: "holds l t \<Longrightarrow> i < length t \<Longrightarrow> line_at l i = Inr (t ! i)"
  using holds_nth [of l t i] by (simp add: line_at_def)

lemma holds_put: "holds l t \<Longrightarrow> length t < 256 \<Longrightarrow> \<exists>l'. line_put l (length t) [b] = Inr l' \<and> holds l' (t @ [b])"
  by (simp add: line_put_def holds_def)

lemma holds_take:
  assumes "holds l t"
  shows "holds l (take n t)"
proof -
  have "take (length (take n t)) l = take n (take (length t) l)" by (simp add: min.commute)
  also have "\<dots> = map Some (take n t)" using assms by (simp add: holds_def take_map)
  finally show ?thesis using assms by (simp add: holds_def)
qed

lemma holds_split:
  assumes "holds l t"
  shows "l = map Some t @ drop (length t) l"
proof -
  have "l = take (length t) l @ drop (length t) l" by simp
  also have "take (length t) l = map Some t" using assms by (simp add: holds_def)
  finally show ?thesis .
qed

lemma c_string_text: "0 \<notin> set t \<Longrightarrow> c_string (map Some t @ Some 0 # r) = Inr t"
  by (induction t) auto

lemma c_string_holds:
  assumes "holds l (t @ [0])" "0 \<notin> set t"
  shows "c_string l = Inr t"
  using c_string_text [OF assms(2), of "drop (length t + 1) l"] holds_split [OF assms(1)] by simp

lemma text_line_goes_on:
  assumes "text_line t" "holds l (take i t)" "i < length t"
  shows "line_goes_on l i = Inr True"
proof (cases "i < 2")
  case False
  obtain u where u: "t = u @ [13, 10]" "plain u" using assms(1) by (auto simp: text_line_def)
  have i: "i < 255" "i - 2 < length u" "i - 1 \<le> length u" using assms(1,3) False by (auto simp: u text_line_def)
  have n: "u ! j \<noteq> 13 \<and> u ! j \<noteq> 10" if "j < length u" for j using u(2) nth_mem [OF that] by (auto simp: plain_def)
  have "t ! (i - 2) \<noteq> 13" using n [OF i(2)] i(2) by (simp add: u(1) nth_append)
  moreover have "t ! (i - 1) \<noteq> 10"
    using n [of "i - 1"] i(3) by (cases "i - 1 = length u") (auto simp: u(1) nth_append)
  moreover note i(1)
  ultimately show ?thesis using False assms(3) line_at_holds [OF assms(2)] by (simp add: line_goes_on_def)
qed (simp add: line_goes_on_def)

lemma text_line_stops:
  assumes "text_line t" "holds l t"
  shows "line_goes_on l (length t) = Inr False"
proof -
  obtain u where u: "t = u @ [13, 10]" using assms(1) by (auto simp: text_line_def)
  have "line_at l (length u) = Inr 13" using line_at_holds [OF assms(2), of "length u"] by (simp add: u)
  then show ?thesis by (simp add: line_goes_on_def u)
qed

lemma read_line_text:
  assumes "delivers pend s" "text_line t" "holds l (take i t)" "i \<le> length t" "pend w = drop i t @ rest"
  shows "\<exists>l' w'. read_line s l i w = (Inr (l', length t), w') \<and> holds l' t \<and> pend w' = rest"
  using assms(3-5)
proof (induction "length t - i" arbitrary: i l w)
  case 0
  then have "i = length t" by simp
  with 0 text_line_stops [OF assms(2), of l] show ?case by (simp add: read_line.simps [of s l])
next
  case (Suc k)
  then have i: "i < length t" by simp
  then have d: "drop i t = t ! i # drop (i + 1) t" by (simp add: Cons_nth_drop_Suc)
  then obtain w' where w': "st_recv s 1 w = (Inr (1, [t ! i]), w')" "pend w' = drop (i + 1) t @ rest"
    using assms(1) Suc.prems(3) unfolding delivers_def d append_Cons by blast
  have "length t \<le> 255" using assms(2) by (simp add: text_line_def)
  then obtain l' where l': "line_put l i [t ! i] = Inr l'" "holds l' (take (i + 1) t)"
    using holds_put [OF Suc.prems(1), of "t ! i"] i by (auto simp: take_Suc_conv_app_nth)
  from Suc.hyps(1) [OF _ l'(2) _ w'(2)] Suc.hyps(2) i
  have "\<exists>l'' w''. read_line s l' (i + 1) w' = (Inr (l'', length t), w'') \<and> holds l'' t \<and> pend w'' = rest" by simp
  with text_line_goes_on [OF assms(2) Suc.prems(1) i] w'(1) l'(1) show ?case by (simp add: read_line.simps [of s l i])
qed

lemma text_line_split: "text_line t \<Longrightarrow> \<exists>u. t = u @ [13, 10] \<and> plain u \<and> 0 \<notin> set t \<and> length t < 256"
  by (auto simp: text_line_def plain_def)

lemma str_bytes_append [simp]: "str_bytes (a @ b) = str_bytes a @ str_bytes b"
  by (simp add: str_bytes_def)

lemma length_str_bytes [simp]: "length (str_bytes a) = length a"
  by (simp add: str_bytes_def)

lemma str_bytes_crlf [simp]: "str_bytes crlf = [13, 10]"
  by (simp add: str_bytes_def crlf_def)

lemma length_crlf [simp]: "length crlf = 2"
  by (simp add: crlf_def)

lemma bytes_str_append [simp]: "bytes_str (a @ b) = bytes_str a @ bytes_str b"
  by (simp add: bytes_str_def)

lemma read_blank:
  assumes "delivers pend s" "length l = 256" "pend w = [13, 10] @ rest"
  shows "\<exists>w'. header_step s l w = (Inr None, w') \<and> pend w' = rest"
proof -
  have "text_line [13, 10]" by (simp add: text_line_def plain_def)
  moreover have "holds l (take 0 [13, 10])" using assms(2) by (simp add: holds_def)
  ultimately obtain l' w' where r: "read_line s l 0 w = (Inr (l', 2), w')" "holds l' [13, 10]" "pend w' = rest"
    using read_line_text [OF assms(1), of "[13, 10]" l 0 w rest] assms(3) by auto
  have "is_blank l' = Inr True" using line_at_holds [OF r(2), of 0] line_at_holds [OF r(2), of 1] by (simp add: is_blank_def)
  with r show ?thesis by (simp add: header_step_def)
qed

lemma header_step_text:
  assumes "read_line s l 0 w = (Inr (l1, length t), w')" "holds l1 t" "text_line t" "t \<noteq> [13, 10]" "split_header (bytes_str t) = Inr h"
  shows "\<exists>l2. header_step s l w = (Inr (Some (l2, h)), w') \<and> line_put l1 (length t) [0] = Inr l2 \<and> holds l2 (t @ [0])"
proof -
  obtain u where u: "t = u @ [13, 10]" "plain u" "0 \<notin> set t" "length t < 256" using text_line_split [OF assms(3)] by blast
  have "u \<noteq> []" using assms(4) u(1) by auto
  then have "t ! 0 \<noteq> 13" using u(2) by (cases u) (auto simp: u(1) plain_def)
  then have b: "is_blank l1 = Inr False" using line_at_holds [OF assms(2), of 0] u(1) by (simp add: is_blank_def)
  obtain l2 where l2: "line_put l1 (length t) [0] = Inr l2" "holds l2 (t @ [0])" using holds_put [OF assms(2) u(4)] by blast
  from c_string_holds [OF l2(2) u(3)] b l2 assms(1,5) show ?thesis by (simp add: header_step_def)
qed

lemma unat_small: "n < 2 ^ 64 \<Longrightarrow> unat (of_nat n :: u64) = n"
  by (simp add: unsigned_of_nat take_bit_nat_eq_self)

lemma split_header_ok:
  assumes "CHR '':'' \<notin> set label" "length label + length value < 1000"
  shows "split_header (label @ '': '' @ value @ crlf) = Inr (label, value)"
proof -
  have tw: "takeWhile (\<lambda>c. c \<noteq> CHR '':'') (label @ '': '' @ value @ crlf) = label"
    using assms(1) by (auto simp: takeWhile_append)
  then have ix: "find_colon (label @ '': '' @ value @ crlf) = of_nat (length label)" by (simp add: find_colon_def)
  have u: "unat (of_nat (length label) :: u64) = length label" "unat (of_nat (length label) + 2 :: u64) = length label + 2"
    using assms(2) unat_small [of "length label"] unat_small [of "length label + 2"] by (simp_all add: add.commute)
  have n: "of_nat (length (label @ '': '' @ value @ crlf)) - of_nat (length label) - 4 = (of_nat (length value) :: u64)"
    by (simp add: crlf_def)
  have v: "unat (of_nat (length value) :: u64) = length value" using assms(2) unat_small [of "length value"] by simp
  show ?thesis unfolding split_header_def Let_def ix n by (simp add: substr_def u v)
qed

lemma length_header_bytes: "length (header_bytes h) = length (fst h) + length (snd h) + 4"
  by (simp add: header_bytes_def)

lemma header_step_header:
  assumes "delivers pend s" "length l = 256" "header_ok h" "pend w = header_bytes h @ rest"
  shows "\<exists>l' w'. header_step s l w = (Inr (Some (l', h)), w') \<and> pend w' = rest \<and> holds l' (header_bytes h @ [0])"
proof -
  have t: "text_line (header_bytes h)" and c: "CHR '':'' \<notin> set (fst h)" using assms(3) by (simp_all add: header_ok_def)
  have "length (header_bytes h) \<le> 255" using t by (simp add: text_line_def)
  then have sp: "split_header (bytes_str (header_bytes h)) = Inr h"
    using split_header_ok [OF c, of "snd h"] unfolding length_header_bytes by (simp add: header_bytes_def del: bytes_str_append str_bytes_append)
  have "holds l (take 0 (header_bytes h))" using assms(2) by (simp add: holds_def)
  from read_line_text [OF assms(1) t this, of w rest] assms(4) obtain l1 w'
    where r: "read_line s l 0 w = (Inr (l1, length (header_bytes h)), w')" "holds l1 (header_bytes h)" "pend w' = rest" by auto
  have "header_bytes h \<noteq> [13, 10]" using length_header_bytes [of h] by auto
  from header_step_text [OF r(1,2) t this sp] r(3) show ?thesis by blast
qed

text \<open>The loop takes the headers one after the other.\<close>

lemma headers_loop_headers:
  assumes "delivers pend s" "length l = 256" "\<forall>h\<in>set hds. header_ok h" "pend w = concat (map header_bytes hds) @ rest"
  shows "\<exists>l' w'. headers_loop s l hs w = headers_loop s l' (hs ++ map_of (rev hds)) w' \<and> pend w' = rest
    \<and> (if hds = [] then l' = l else holds l' (header_bytes (last hds) @ [0]))"
  using assms(2-4)
proof (induction hds arbitrary: l hs w)
  case Nil
  then show ?case by auto
next
  case (Cons h hds)
  obtain l1 w1 where r: "header_step s l w = (Inr (Some (l1, h)), w1)" "pend w1 = concat (map header_bytes hds) @ rest" "holds l1 (header_bytes h @ [0])"
    using header_step_header [OF assms(1) Cons.prems(1), of h w "concat (map header_bytes hds) @ rest"] Cons.prems(2,3) by auto
  let ?hs = "hs(fst h \<mapsto> snd h)"
  have l1: "length l1 = 256" and ok: "\<forall>h\<in>set hds. header_ok h" using r(3) Cons.prems(2) by (simp_all add: holds_def)
  have "headers_loop s l hs w = headers_loop s l1 ?hs w1" by (subst headers_loop.simps) (simp add: r(1) case_prod_beta)
  moreover have "?hs ++ map_of (rev hds) = hs ++ map_of (rev (h # hds))"
    by (cases h) (simp add: map_add_def fun_eq_iff split: option.splits)
  moreover obtain l' w' where i: "headers_loop s l1 ?hs w1 = headers_loop s l' (?hs ++ map_of (rev hds)) w'" "pend w' = rest"
      "if hds = [] then l' = l1 else holds l' (header_bytes (last hds) @ [0])"
    using Cons.IH [OF l1 ok r(2), of ?hs] by blast
  moreover have "holds l' (header_bytes (last (h # hds)) @ [0])" using i(3) r(3) by (auto split: if_splits)
  ultimately show ?case by (metis list.distinct(1))
qed

lemma stoi_101:
  assumes "r = [] \<or> \<not> is_digit (hd r)"
  shows "stoi ('' 101'' @ r) = Inr 101"
proof -
  have "takeWhile is_digit r = []" using assms by (cases r) auto
  then have "takeWhile is_digit (''101'' @ r) = ''101''" by (simp add: is_digit_def)
  then show ?thesis by (simp add: stoi_def is_space_def digits_value_def)
qed

lemma read_status_ok:
  assumes "delivers pend s" "reason_ok reason" "pend w = status_bytes reason @ rest"
  shows "\<exists>l w'. read_status s uri w = (Inr l, w') \<and> pend w' = rest \<and> holds l (status_bytes reason @ [0])"
proof -
  let ?t = "status_bytes reason"
  have t: "text_line ?t" "length ?t < 255" and d: "reason @ crlf = [] \<or> \<not> is_digit (hd (reason @ crlf))"
    using assms(2) by (auto simp: reason_ok_def crlf_def is_digit_def hd_append)
  have sc: "scan_status (bytes_str ?t) = Inr (Some 101)"
    using stoi_101 [OF d] by (simp add: scan_status_def status_bytes_def del: bytes_str_append str_bytes_append)
  have "holds (replicate 256 None) (take 0 ?t)" by (simp add: holds_def)
  from read_line_text [OF assms(1) t(1) this, of w rest] assms(3) obtain l w'
    where r: "read_line s (replicate 256 None) 0 w = (Inr (l, length ?t), w')" "holds l ?t" "pend w' = rest" by auto
  obtain l2 where l2: "line_put l (length ?t) [0] = Inr l2" "holds l2 (?t @ [0])" using holds_put [OF r(2)] t(2) by fastforce
  have "c_string l2 = Inr ?t" using c_string_holds [OF l2(2)] text_line_split [OF t(1)] by blast
  with r l2 sc t(2) show ?thesis by (simp add: read_status_def)
qed

text \<open>The request goes out: from there on the connection reads the response.\<close>

definition sends_request :: "'w SocketT \<Rightarrow> URI \<Rightarrow> int \<Rightarrow> 'w \<Rightarrow> 'w \<Rightarrow> bool" where
  "sends_request s uri timeout w w2 \<longleftrightarrow>
     (\<exists>port http w1. getPort uri = Inr port \<and> st_connect s (m_host uri) port timeout w = (Inr True, w1) \<and> ws_request uri port = Some http \<and>
        st_send s (str_bytes http) w1 = (Inr (int (length http)), w2))"

lemma ws_connect_response:
  assumes "sends_request s uri timeout w w2" "read_status s uri w2 = (Inr l, w3)"
  shows "ws_connect s uri timeout w =
    (case headers_loop s l Map.empty w3 of None \<Rightarrow> None | Some (Inl e, w4) \<Rightarrow> Some (Inl e, w4) | Some (Inr hs, w4) \<Rightarrow> Some (check_headers hs, w4))"
  using assms by (auto simp: sends_request_def ws_connect_def)

text \<open>
  C16: When the response is a status line with code 101 of less than 255 bytes, headers of the form label, colon,
  space, value of at most 255 bytes each with their line end, and an empty line, the opening handshake of a
  WebSocket returns; its result is the literal comparison of the values (the last of each label) that the code
  makes in \<open>check_headers\<close>, and it has read all of the response and not a byte of what follows, where the first frame
  starts.
\<close>

theorem ws_connect_reads_response:
  assumes s: "delivers pend s" "sends_request s uri timeout w w2"
    and r: "pend w2 = status_bytes reason @ concat (map header_bytes hds) @ [13, 10] @ rest"
    and ok: "reason_ok reason" "\<forall>h\<in>set hds. header_ok h"
  shows "\<exists>w'. ws_connect s uri timeout w = Some (check_headers (map_of (rev hds)), w') \<and> pend w' = rest"
proof -
  obtain l w3 where l: "read_status s uri w2 = (Inr l, w3)" "pend w3 = concat (map header_bytes hds) @ [13, 10] @ rest" "length l = 256"
    using read_status_ok [OF s(1) ok(1) r, of uri] by (auto simp: holds_def)
  from headers_loop_headers [OF s(1) l(3) ok(2) l(2), of Map.empty] obtain l' w4
    where h: "headers_loop s l Map.empty w3 = headers_loop s l' (map_of (rev hds)) w4" "pend w4 = [13, 10] @ rest" "length l' = 256"
    using l(3) by (auto simp: holds_def split: if_splits)
  from read_blank [OF s(1) h(3,2)] obtain w' where w': "header_step s l' w4 = (Inr None, w')" "pend w' = rest" by blast
  then have "headers_loop s l' (map_of (rev hds)) w4 = Some (Inr (map_of (rev hds)), w')" by (subst headers_loop.simps) simp
  with ws_connect_response [OF s(2) l(1)] h(1) w'(2) show ?thesis by simp
qed

section \<open>A connection that is closed during the handshake\<close>

text \<open>
  What \<^verbatim>\<open>recv(2)\<close> documents: it stores the next byte, and returns zero once the other side has closed the
  connection and everything is read.
\<close>

definition recv_contract :: "('o \<Rightarrow> u8 list) \<Rightarrow> ('a, 'o) sys \<Rightarrow> bool" where
  "recv_contract pend y \<longleftrightarrow>
     (\<forall>fd w. case pend w of
        [] \<Rightarrow> (\<exists>w'. sys_recv y fd 1 w = (0, [], w') \<and> pend w' = [])
      | b # bs \<Rightarrow> (\<exists>w'. sys_recv y fd 1 w = (1, [b], w') \<and> pend w' = bs))"

lemma tcp_recv_one:
  assumes "recv_contract pend y"
  shows "pend w = b # bs \<Longrightarrow> \<exists>w'. st_recv (Connection_TCP_ops y resolve) 1 (c, w) = (Inr (1, [b]), (c, w')) \<and> pend w' = bs"
    and "pend w = [] \<Longrightarrow> \<exists>w'. st_recv (Connection_TCP_ops y resolve) 1 (c, w) = (Inr (- 1, []), (c, w')) \<and> pend w' = []"
  using assms [unfolded recv_contract_def, rule_format, of "sock_fd (sock c)" w]
  by (auto simp: Connection_TCP_ops_def conn_recv_def split: prod.splits)

lemma tcp_delivers: "recv_contract pend y \<Longrightarrow> delivers (pend \<circ> snd) (Connection_TCP_ops y resolve)"
  using tcp_recv_one(1) [of pend y] by (fastforce simp: delivers_def)

lemma line_put_nothing: "length l = 256 \<Longrightarrow> i \<le> 256 \<Longrightarrow> line_put l i [] = Inr l"
  by (simp add: line_put_def)

text \<open>Nothing arrives: the array keeps the last line, which is read again.\<close>

lemma read_line_closed:
  assumes "recv_contract pend y" "text_line t" "holds l t" "i \<le> length t" "pend w = []"
  shows "\<exists>w'. read_line (Connection_TCP_ops y resolve) l i (c, w) = (Inr (l, length t), (c, w')) \<and> pend w' = []"
  using assms(4,5)
proof (induction "length t - i" arbitrary: i w)
  case 0
  then have "i = length t" by simp
  with 0 text_line_stops [OF assms(2,3)] show ?case by (simp add: read_line.simps [of _ l])
next
  case (Suc k)
  then have i: "i < length t" by simp
  obtain w1 where w1: "st_recv (Connection_TCP_ops y resolve) 1 (c, w) = (Inr (- 1, []), (c, w1))" "pend w1 = []"
    using tcp_recv_one(2) [OF assms(1) Suc.prems(2)] by blast
  have "line_put l i [] = Inr l" using line_put_nothing assms(2,3) i by (simp add: holds_def text_line_def)
  with text_line_goes_on [OF assms(2) holds_take [OF assms(3)] i] w1 Suc.hyps(1) [of "i + 1" w1] Suc.hyps(2) i
  show ?case by (simp add: read_line.simps [of _ l i])
qed

lemma split_header_total:
  assumes "length t < 2 ^ 63" "2 \<le> length t" "\<And>u. t = u @ '':'' \<Longrightarrow> False"
  shows "\<exists>h. split_header t = Inr h"
proof -
  let ?n = "length (takeWhile (\<lambda>c. c \<noteq> CHR '':'') t)"
  have "unat (find_colon t + 2) \<le> length t"
  proof (cases "?n < length t")
    case True
    have "?n + 1 \<noteq> length t"
    proof
      assume n: "?n + 1 = length t"
      have "t = take ?n t @ [t ! ?n]" using n True by (metis add.right_neutral add_Suc_right One_nat_def order_refl take_Suc_conv_app_nth take_all)
      moreover have "t ! ?n = CHR '':''" using nth_length_takeWhile [OF True] by simp
      ultimately show False using assms(3) by metis
    qed
    then show ?thesis using True assms(1) unat_small [of "?n + 2"] by (simp add: find_colon_def Let_def add.commute)
  next
    case False
    then show ?thesis using assms(2) by (simp add: find_colon_def npos_def)
  qed
  moreover have "unat (0 :: u64) \<le> length t" by simp
  ultimately show ?thesis by (simp add: split_header_def substr_def Let_def)
qed

lemma text_line_splits:
  assumes "text_line t"
  shows "\<exists>h. split_header (bytes_str t) = Inr h"
proof -
  obtain u where u: "t = u @ [13, 10]" using assms by (auto simp: text_line_def)
  have "length (bytes_str t) \<le> 255" using assms by (simp add: text_line_def bytes_str_def)
  moreover have "last (bytes_str t) \<noteq> CHR '':''" by (simp add: u bytes_str_def char_of_eq_iff)
  ultimately show ?thesis by (intro split_header_total) (auto simp: u bytes_str_def)
qed

lemma header_step_closed:
  assumes "recv_contract pend y" "text_line t" "t \<noteq> [13, 10]" "holds l (t @ [0])" "pend w = []"
  shows "\<exists>h w'. header_step (Connection_TCP_ops y resolve) l (c, w) = (Inr (Some (l, h)), (c, w')) \<and> pend w' = []"
proof -
  have t: "holds l t" using holds_take [OF assms(4), of "length t"] by simp
  obtain h where h: "split_header (bytes_str t) = Inr h" using text_line_splits [OF assms(2)] by blast
  obtain w' where r: "read_line (Connection_TCP_ops y resolve) l 0 (c, w) = (Inr (l, length t), (c, w'))" "pend w' = []"
    using read_line_closed [OF assms(1,2) t _ assms(5), of 0] by blast
  have "line_put l (length t) [0] = Inr l"
    using holds_nth [OF assms(4), of "length t"] id_take_nth_drop [of "length t" l] by (simp add: line_put_def)
  with header_step_text [OF r(1) t assms(2,3) h] r(2) show ?thesis by auto
qed

lemma headers_loop_closed:
  fixes pend :: "'o \<Rightarrow> u8 list" and y :: "('a, 'o) sys"
  assumes "recv_contract pend y" "text_line t" "t \<noteq> [13, 10]" "holds l (t @ [0])" "pend w = []"
  shows "headers_loop (Connection_TCP_ops y resolve) l hs (c, w) = None"
proof -
  let ?s = "Connection_TCP_ops y resolve"
  let ?Q = "\<lambda>s l' (hs' :: headers) cw (r :: headers res \<times> ('a SocketConnection \<times> 'o)). s = ?s \<longrightarrow> l' = l \<longrightarrow> pend (snd cw) = [] \<longrightarrow> False"
  have "?Q ?s l hs (c, w) r" if "headers_loop ?s l hs (c, w) = Some r" for r
  proof (rule headers_loop.raw_induct [where P = ?Q, OF _ that], intro impI)
    fix hl :: "('a SocketConnection \<times> 'o) SocketT \<Rightarrow> line \<Rightarrow> headers \<Rightarrow> _" and s l' hs' cw r
    assume IH: "\<And>s l hs cw r. hl s l hs cw = Some r \<Longrightarrow> ?Q s l hs cw r"
      and body: "(case header_step s l' cw of
         (Inl e, w') \<Rightarrow> Some (Inl e, w') | (Inr None, w') \<Rightarrow> Some (Inr hs', w')
       | (Inr (Some (l', label, value)), w') \<Rightarrow> hl s l' (hs'(label \<mapsto> value)) w') = Some r"
      and eq: "s = ?s" "l' = l" "pend (snd cw) = []"
    obtain h c1 w1 where "header_step s l' cw = (Inr (Some (l, h)), (c1, w1))" "pend w1 = []"
      using header_step_closed [OF assms(1-4) eq(3), of resolve "fst cw"] eq(1,2) by auto
    then show False using IH [of ?s l _ "(c1, w1)" r] body eq by (cases h) auto
  qed
  with assms(5) show ?thesis by (cases "headers_loop ?s l hs (c, w)") auto
qed

text \<open>
  C33: Over TCP the opening handshake never returns when the server closes the connection after the
  status line or after a complete header: the loop takes a result of zero for a closed connection, but
  the connection reports -1, stores nothing, and the last line is read again and again.
\<close>

theorem ws_connect_closed_hangs:
  assumes s: "s = Connection_TCP_ops y resolve" "recv_contract pend y" "sends_request s uri timeout k (c, w)"
    and r: "pend w = status_bytes reason @ concat (map header_bytes hds)"
    and ok: "reason_ok reason" "\<forall>h\<in>set hds. header_ok h"
  shows "ws_connect s uri timeout k = None"
proof -
  have d: "delivers (pend \<circ> snd) s" unfolding s(1) using s(2) by (rule tcp_delivers)
  obtain l k3 where l: "read_status s uri (c, w) = (Inr l, k3)" "(pend \<circ> snd) k3 = concat (map header_bytes hds) @ []"
      "holds l (status_bytes reason @ [0])"
    using read_status_ok [OF d ok(1), of "(c, w)" "concat (map header_bytes hds)" uri] r by auto
  then have "length l = 256" by (simp add: holds_def)
  from headers_loop_headers [OF d this ok(2) l(2), of Map.empty] obtain l' c4 w4
    where h: "headers_loop s l Map.empty k3 = headers_loop s l' (map_of (rev hds)) (c4, w4)" "pend w4 = []"
      "if hds = [] then l' = l else holds l' (header_bytes (last hds) @ [0])" by auto
  define t where "t = (if hds = [] then status_bytes reason else header_bytes (last hds))"
  have "holds l' (t @ [0])" using h(3) l(3) by (auto simp: t_def split: if_splits)
  moreover have "text_line t" using ok last_in_set [of hds] by (auto simp: t_def reason_ok_def header_ok_def)
  moreover have "length t \<noteq> 2" by (simp add: t_def status_bytes_def length_header_bytes)
  then have "t \<noteq> [13, 10]" by auto
  ultimately have "headers_loop s l' (map_of (rev hds)) (c4, w4) = None"
    unfolding s(1) by (intro headers_loop_closed [OF s(2) _ _ _ h(2)])
  with ws_connect_response [OF s(3) l(1)] h(1) show ?thesis by simp
qed

section \<open>The array\<close>

text \<open>
  For a socket that stores at most the one byte asked for, and whatever else it does, the loops stay
  inside the array: with an array without unset elements nothing undefined happens.
\<close>

definition stores_one :: "'w SocketT \<Rightarrow> bool" where
  "stores_one s \<longleftrightarrow> (\<forall>w. case fst (st_recv s 1 w) of Inl e \<Rightarrow> e \<noteq> Undefined_behaviour | Inr (n, d) \<Rightarrow> length d \<le> 1)"

definition full :: "line \<Rightarrow> bool" where
  "full l \<longleftrightarrow> length l = 256 \<and> None \<notin> set l"

lemma full_at: "full l \<Longrightarrow> i < 256 \<Longrightarrow> \<exists>b. line_at l i = Inr b"
  by (metis (no_types, lifting) full_def line_at_def not_None_eq nth_mem option.simps(5))

lemma full_put: "full l \<Longrightarrow> i + length d \<le> 256 \<Longrightarrow> \<exists>l'. line_put l i d = Inr l' \<and> full l'"
  by (auto simp: full_def line_put_def dest: in_set_takeD in_set_dropD)

lemma full_goes_on: "full l \<Longrightarrow> \<exists>b. line_goes_on l i = Inr b"
  using full_at [of l "i - 1"] full_at [of l "i - 2"] by (fastforce simp: line_goes_on_def)

lemma full_c_string: "None \<notin> set l \<Longrightarrow> Some 0 \<in> set l \<Longrightarrow> \<exists>t. c_string l = Inr t"
proof (induction l rule: c_string.induct)
  case (3 b l)
  then show ?case by (cases "b = 0") auto
qed auto

lemma full_read_line:
  assumes "stores_one s" "full l" "i \<le> 255"
  shows "defined (fst (read_line s l i w)) \<and> (\<forall>l' j. fst (read_line s l i w) = Inr (l', j) \<longrightarrow> full l' \<and> j \<le> 255)"
  using assms
proof (induction s l i w rule: read_line.induct)
  case (1 s l i w)
  obtain b where b: "line_goes_on l i = Inr b" using full_goes_on [OF 1(3)] by blast
  show ?case
  proof (cases b)
    case False
    then show ?thesis using b 1(3,4) by (simp add: read_line.simps [of s l])
  next
    case True
    obtain r w' where r: "st_recv s 1 w = (r, w')" by (cases "st_recv s 1 w")
    then have one: "case r of Inl e \<Rightarrow> e \<noteq> Undefined_behaviour | Inr (n, d) \<Rightarrow> length d \<le> 1"
      using 1(2) unfolding stores_one_def by (metis fst_conv)
    have i: "i < 255" using line_goes_on_bound [of l i] b True by simp
    show ?thesis
    proof (cases r)
      case (Inl e)
      then show ?thesis using b True r one by (simp add: read_line.simps [of s l] defined_def)
    next
      case (Inr nd)
      obtain n d where nd: "nd = (n, d)" by (cases nd)
      obtain l' where l': "line_put l i d = Inr l'" "full l'" using full_put [OF 1(3), of i d] one i Inr nd by auto
      show ?thesis
      proof (cases "n = 0")
        case False
        have "read_line s l i w = read_line s l' (i + 1) w'"
          using b True r Inr nd l'(1) False by (simp add: read_line.simps [of s l i])
        moreover have "defined (fst (read_line s l' (i + 1) w')) \<and> (\<forall>l'' j. fst (read_line s l' (i + 1) w') = Inr (l'', j) \<longrightarrow> full l'' \<and> j \<le> 255)"
          using 1(1) [OF b _ r [symmetric] Inr nd [symmetric] False l'(1)] True 1(2) l'(2) i by simp
        ultimately show ?thesis by simp
      qed (use b True r Inr nd in \<open>simp add: read_line.simps [of s l i]\<close>)
    qed
  qed
qed

lemma full_header_step:
  assumes "stores_one s" "full l"
  shows "defined (fst (header_step s l w)) \<and> (\<forall>l' h. fst (header_step s l w) = Inr (Some (l', h)) \<longrightarrow> full l')"
proof -
  obtain r w' where r: "read_line s l 0 w = (r, w')" by (cases "read_line s l 0 w")
  note f = full_read_line [OF assms, of 0 w, unfolded r fst_conv]
  show ?thesis
  proof (cases r)
    case (Inl e)
    then show ?thesis using f r by (simp add: header_step_def defined_def)
  next
    case (Inr li)
    obtain l1 i where li: "li = (l1, i)" by (cases li)
    then have l1: "full l1" "i \<le> 255" using f Inr by simp_all
    obtain b where b: "is_blank l1 = Inr b"
      using full_at [OF l1(1), of 0] full_at [OF l1(1), of 1] by (cases "line_at l1 0 = Inr 13") (auto simp: is_blank_def)
    obtain l2 where l2: "line_put l1 i [0] = Inr l2" "full l2" using full_put [OF l1(1), of i "[0]"] l1(2) by auto
    moreover have "Some 0 \<in> set l2" using l2(1) by (auto simp: line_put_def split: if_splits)
    ultimately obtain t where t: "c_string l2 = Inr t" using full_c_string [of l2] by (auto simp: full_def)
    have "defined (split_header (bytes_str t))" by (simp add: split_header_def substr_def Let_def)
    then show ?thesis using r Inr li b l2 t by (cases "split_header (bytes_str t)") (auto simp: header_step_def defined_def)
  qed
qed

text \<open>
  C34: Reading the headers of the response never uses an element outside the array of 256 characters and
  never runs past the end of a line without its terminator, whatever the server sends, for lines of any
  length: if the array has no unset elements, the result is never undefined behaviour.
\<close>

theorem ws_headers_in_bounds:
  assumes "stores_one s" "full l" "headers_loop s l hs w = Some (r, w')"
  shows "defined r"
proof -
  let ?Q = "\<lambda>s' l' (hs' :: headers) (w :: 'a) (rw :: headers res \<times> 'a). s' = s \<longrightarrow> full l' \<longrightarrow> defined (fst rw)"
  have "?Q s l hs w (r, w')"
  proof (rule headers_loop.raw_induct [where P = ?Q, OF _ assms(3)], intro impI)
    fix hl :: "'a SocketT \<Rightarrow> line \<Rightarrow> headers \<Rightarrow> _" and s' l' hs' w rw
    assume IH: "\<And>s' l hs w rw. hl s' l hs w = Some rw \<Longrightarrow> ?Q s' l hs w rw"
      and body: "(case header_step s' l' w of
         (Inl e, w') \<Rightarrow> Some (Inl e, w') | (Inr None, w') \<Rightarrow> Some (Inr hs', w')
       | (Inr (Some (l', label, value)), w') \<Rightarrow> hl s' l' (hs'(label \<mapsto> value)) w') = Some rw"
      and eq: "s' = s" "full l'"
    note f = full_header_step [OF assms(1) eq(2), of w]
    obtain r w1 where r: "header_step s l' w = (r, w1)" by (cases "header_step s l' w")
    show "defined (fst rw)"
    proof (cases r)
      case (Inl e)
      then show ?thesis using f r body eq(1) by (auto simp: defined_def)
    next
      case (Inr o1)
      then show ?thesis using f r body eq(1) IH [of s _ _ w1 rw] by (cases o1) auto
    qed
  qed
  then show ?thesis using assms(2) by simp
qed

section \<open>An example\<close>

text \<open>A system that answers from a script.\<close>

definition script_sys :: "(unit, u8 list) sys" where
  "script_sys = \<lparr>sys_socket = (\<lambda>w. (3, w)), sys_recv = (\<lambda>f n w. case w of [] \<Rightarrow> (0, [], []) | b # bs \<Rightarrow> (1, [b], bs)),
     sys_send = (\<lambda>f b w. (int (length b), w)), sys_writev = (\<lambda>f b w. (0, w)),
     sys_bind = (\<lambda>f a w. (0, w)), sys_listen = (\<lambda>f n w. (0, w)), sys_accept = (\<lambda>f w. (-1, (), w)),
     sys_connect = (\<lambda>f a w. (0, w)), sys_select = (\<lambda>f t w. (0, False, w)), sys_close = (\<lambda>f w. (0, w)),
     sys_getfl = (\<lambda>f w. False), sys_setfl = (\<lambda>f b w. w), sys_getsockname = (\<lambda>f w. ()), sys_errno = (\<lambda>w. 0), sys_strerror = (\<lambda>n. [])\<rparr>"

definition ex_ws_uri :: URI where
  "ex_ws_uri = empty_URI\<lparr>m_valid := True, m_host := ''h'', m_path := ''/'', m_proto := SCHEME_WS\<rparr>"

definition ex_ws_headers :: "(string \<times> string) list" where
  "ex_ws_headers = [(''Connection'', ''upgrade''), (''Upgrade'', ''websocket''), (''Sec-WebSocket-Accept'', ''x'')]"

abbreviation "ex_ws_socket \<equiv> Connection_TCP_ops script_sys (\<lambda>_ _. Some ())"

lemma script_recv: "recv_contract (\<lambda>w. w) script_sys"
  by (auto simp: recv_contract_def script_sys_def split: list.splits)

definition ex_ws_conn :: "STATUS \<Rightarrow> unit SocketConnection" where
  "ex_ws_conn st = \<lparr>sock = \<lparr>sock_status = st, sock_fd = 3\<rparr>, addr = ()\<rparr>"

lemma script_request:
  "sends_request ex_ws_socket ex_ws_uri 0 (ex_ws_conn ST_UNCONNECTED, w) (ex_ws_conn ST_OPEN, w)"
  by (simp add: sends_request_def getPort_def ex_ws_uri_def empty_URI_def Connection_TCP_ops_def tcp_connect_def socket_connect_def
    script_sys_def ex_ws_conn_def conn_send_def ws_request_def hasUserInfo_def)

lemma text_line_string: "plain (str_bytes a) \<Longrightarrow> length a \<le> 253 \<Longrightarrow> text_line (str_bytes (a @ crlf))"
  by (auto simp: text_line_def)

lemma ex_ws_ok: "reason_ok '' OK''" "\<forall>h\<in>set ex_ws_headers. header_ok h"
  using text_line_string [of "''HTTP/1.1 101 OK''"] text_line_string [of "''Connection: upgrade''"]
    text_line_string [of "''Upgrade: websocket''"] text_line_string [of "''Sec-WebSocket-Accept: x''"]
  by (simp_all add: reason_ok_def ex_ws_headers_def header_ok_def header_bytes_def status_bytes_def plain_def is_digit_def,
      simp_all add: str_bytes_def)

theorem ws_connect_reads_response_witness:
  "\<exists>w'. ws_connect ex_ws_socket ex_ws_uri 0
      (ex_ws_conn ST_UNCONNECTED, status_bytes '' OK'' @ concat (map header_bytes ex_ws_headers) @ [13, 10] @ [129, 0])
    = Some (Inr (), w') \<and> snd w' = [129, 0]"
proof -
  have "check_headers (map_of (rev ex_ws_headers)) = Inr ()" by (simp add: check_headers_def ex_ws_headers_def)
  then show ?thesis
    using ws_connect_reads_response [OF tcp_delivers [OF script_recv] script_request _ ex_ws_ok, of _ "[129, 0]"] by fastforce
qed

theorem ws_connect_closed_hangs_witness:
  "ws_connect ex_ws_socket ex_ws_uri 0 (ex_ws_conn ST_UNCONNECTED, status_bytes '' OK'' @ concat (map header_bytes ex_ws_headers)) = None"
  by (rule ws_connect_closed_hangs [OF refl script_recv script_request refl ex_ws_ok])

theorem ws_headers_in_bounds_witness:
  "\<exists>r w'. headers_loop ex_ws_socket (replicate 256 (Some 0)) Map.empty (ex_ws_conn ST_OPEN, [13, 10]) = Some (r, w') \<and> defined r"
proof -
  have s: "stores_one ex_ws_socket"
    by (auto simp: stores_one_def Connection_TCP_ops_def conn_recv_def script_sys_def split: list.splits)
  have l: "full (replicate 256 (Some 0))" by (simp add: full_def)
  obtain w' where "header_step ex_ws_socket (replicate 256 (Some 0)) (ex_ws_conn ST_OPEN, [13, 10]) = (Inr None, w')"
    using read_blank [OF tcp_delivers [OF script_recv, of "\<lambda>_ _. Some ()"], of "replicate 256 (Some 0)" "(ex_ws_conn ST_OPEN, [13, 10])" "[]"] by auto
  then have "headers_loop ex_ws_socket (replicate 256 (Some 0)) Map.empty (ex_ws_conn ST_OPEN, [13, 10]) = Some (Inr Map.empty, w')"
    by (subst headers_loop.simps) simp
  then show ?thesis using ws_headers_in_bounds [OF s l] by blast
qed

end
