(* ===== verification/FTL_UniverseRun.thy ===== *)
theory FTL_UniverseRun
  imports FTL_Universe
begin

text \<open>
  The network thread of the universe (\<^verbatim>\<open>universe.cpp\<close>): listening sockets, the table of descriptors for
  \<^verbatim>\<open>poll(2)\<close>, one round of the loop (\<^verbatim>\<open>_run\<close>) and the end of it (\<^verbatim>\<open>shutdown\<close>).

  The functions of the peers and of the listening sockets that the loop calls are the fields of a
  record; they may change anything in the state, and what a theorem assumes of them it says. Each
  call is also recorded in \<open>rs_log\<close>. The transfer statistics (floating point) are left out.
\<close>

section \<open>State\<close>

record pollfd =
  pfd :: int
  pin :: bool
  perr :: bool

record NetImplDetail =
  pollfds :: "pollfd list"
  idMap :: "int \<rightharpoonup> nat"

record listener =
  l_fd :: int
  l_listening :: bool
  l_port :: int
  l_uri :: string

datatype run_act = Act_accept int | Act_start nat | Act_socketError nat | Act_recv nat | Act_periodic nat | Act_wait

text \<open>\<open>rs_sock\<close> is the result of \<^verbatim>\<open>PeerTcp::_socket()\<close> of the peer at a pointer.\<close>

record run_state =
  rs_univ :: Universe
  rs_impl :: NetImplDetail
  rs_listeners :: "listener list"
  rs_sock :: "nat \<Rightarrow> int"
  rs_log :: "run_act list"

definition INVALID_SOCKET :: int where "INVALID_SOCKET = -1"

definition logged :: "run_act \<Rightarrow> run_state \<Rightarrow> run_state" where
  "logged a s = s\<lparr>rs_log := rs_log s @ [a]\<rparr>"

definition upd_univ :: "(Universe \<Rightarrow> Universe) \<Rightarrow> run_state \<Rightarrow> run_state" where
  "upd_univ f s = s\<lparr>rs_univ := f (rs_univ s)\<rparr>"

section \<open>Listening\<close>

text \<open>
  \<^verbatim>\<open>create_listener\<close>: \<open>mk\<close> is the constructor of \<^verbatim>\<open>Server_TCP\<close>, which may throw. A null pointer is \<open>None\<close>.
\<close>

definition create_listener :: "(string \<Rightarrow> int \<Rightarrow> listener res) \<Rightarrow> scheme_t \<Rightarrow> string \<Rightarrow> int \<Rightarrow> listener option res" where
  "create_listener mk sch host port =
     (if sch = SCHEME_TCP then res_bind (mk host port) (\<lambda>l. Inr (Some l))
      else if sch = SCHEME_WS then Inl (FTL_Error ''WebSocket listener not implemented'')
      else Inr None)"

text \<open>
  \<^verbatim>\<open>listen\<close>: \<open>quic\<close> gives the answer of the QUIC part for a URI it can open. \<open>bind\<close> may throw; it is called on the
  null pointer, too. What is derived from \<^verbatim>\<open>std::exception\<close> is caught.
\<close>

definition u_listen :: "(scheme_t \<Rightarrow> bool option) \<Rightarrow> (string \<Rightarrow> int \<Rightarrow> listener res) \<Rightarrow> (listener \<Rightarrow> listener res)
    \<Rightarrow> scheme_t \<Rightarrow> string \<Rightarrow> int \<Rightarrow> run_state \<Rightarrow> (bool \<times> run_state) res" where
  "u_listen quic mk bind sch host port s =
     (case quic sch of
        Some r \<Rightarrow> Inr (r, s)
      | None \<Rightarrow>
         (case res_bind (create_listener mk sch host port)
                 (\<lambda>p. case p of None \<Rightarrow> Inl Undefined_behaviour | Some l \<Rightarrow> bind l) of
            Inr l \<Rightarrow> Inr (True, upd_univ (\<lambda>u. u\<lparr>listeners := listeners u @ [l_port l]\<rparr>) (s\<lparr>rs_listeners := rs_listeners s @ [l]\<rparr>))
          | Inl (FTL_Error what) \<Rightarrow> Inr (False, upd_univ (notifyError None kListen what) s)
          | Inl (Std_exception what) \<Rightarrow> Inr (False, upd_univ (notifyError None kListen what) s)
          | Inl e \<Rightarrow> Inl e))"

definition getListeningURIs :: "string list \<Rightarrow> run_state \<Rightarrow> string list" where
  "getListeningURIs uris_quic s = map l_uri (rs_listeners s) @ uris_quic"

section \<open>Descriptors\<close>

definition add_fd :: "int \<Rightarrow> NetImplDetail \<Rightarrow> NetImplDetail" where
  "add_fd fd d =
     (if fd = INVALID_SOCKET then d
      else d\<lparr>pollfds := pollfds d @ [\<lparr>pfd = fd, pin = False, perr = False\<rparr>], idMap := (idMap d)(fd \<mapsto> length (pollfds d))\<rparr>)"

definition polled_peers :: "run_state \<Rightarrow> nat list" where
  "polled_peers s = filter (\<lambda>p. u_tcp (heap (rs_univ s) p) \<and> u_valid (heap (rs_univ s) p)) (getPeers (rs_univ s))"

definition setDescriptors :: "run_state \<Rightarrow> run_state" where
  "setDescriptors s = s\<lparr>rs_impl := foldl (\<lambda>d fd. add_fd fd d) \<lparr>pollfds = [], idMap = Map.empty\<rparr>
     (map l_fd (rs_listeners s) @ map (rs_sock s) (polled_peers s))\<rparr>"

section \<open>One round\<close>

record run_env =
  ev_accept :: "int \<Rightarrow> run_state \<Rightarrow> (string + nat) \<times> run_state"
  ev_start :: "nat \<Rightarrow> run_state \<Rightarrow> run_state"
  ev_socketError :: "nat \<Rightarrow> run_state \<Rightarrow> bool \<times> run_state"
  ev_recv :: "nat \<Rightarrow> run_state \<Rightarrow> run_state"
  ev_peer_periodic :: "nat \<Rightarrow> run_state \<Rightarrow> run_state"
  ev_reconnect :: "nat \<Rightarrow> Universe \<Rightarrow> Universe"
  ev_address :: "nat \<Rightarrow> string \<times> int"
  ev_idle :: "run_state \<Rightarrow> bool"
  ev_due :: "run_state \<Rightarrow> bool"
  ev_iter :: "Universe \<Rightarrow> string list"
  ev_wait :: "run_state \<Rightarrow> run_state"
  ev_poll :: "pollfd list \<Rightarrow> run_state \<Rightarrow> int \<times> pollfd list \<times> run_state"

text \<open>
  A connection request: \<^verbatim>\<open>operator[]\<close> of the map inserts the position 0 for a descriptor that is not in it.
  The result of \<open>ev_accept\<close> is the new peer, or the message of the exception that is caught.
\<close>

definition accept_one :: "run_env \<Rightarrow> listener \<Rightarrow> run_state \<Rightarrow> run_state res" where
  "accept_one ev l s =
     (if \<not> l_listening l then Inr s
      else
        (let d = rs_impl s;
             i = (case idMap d (l_fd l) of Some i \<Rightarrow> i | None \<Rightarrow> 0);
             s1 = s\<lparr>rs_impl := d\<lparr>idMap := (idMap d)(l_fd l \<mapsto> i)\<rparr>\<rparr> in
         if i \<ge> length (pollfds d) then Inl Undefined_behaviour
         else if pin (pollfds d ! i) then
           (case ev_accept ev (l_fd l) (logged (Act_accept (l_fd l)) s1) of
              (Inl what, s2) \<Rightarrow> Inr (upd_univ (notifyError None kConnectionFailed what) s2)
            | (Inr p, s2) \<Rightarrow>
                res_bind (insertPeer p (rs_univ s2)) (\<lambda>u. Inr (ev_start ev p (logged (Act_start p) (s2\<lparr>rs_univ := u\<rparr>)))))
         else Inr s1))"

fun accept_all :: "run_env \<Rightarrow> listener list \<Rightarrow> run_state \<Rightarrow> run_state res" where
  "accept_all ev [] s = Inr s"
| "accept_all ev (l # ls) s = res_bind (accept_one ev l s) (accept_all ev ls)"

definition poll_one :: "run_env \<Rightarrow> nat \<Rightarrow> run_state \<Rightarrow> run_state res" where
  "poll_one ev i s =
     (if i \<ge> length (peers (rs_univ s)) then Inl Undefined_behaviour
      else case peers (rs_univ s) ! i of
        None \<Rightarrow> Inr s
      | Some p \<Rightarrow>
         if \<not> (u_tcp (heap (rs_univ s) p) \<and> u_valid (heap (rs_univ s) p)) then Inr s
         else let sock = rs_sock s p in
           if sock = INVALID_SOCKET then Inr s
           else case idMap (rs_impl s) sock of
             None \<Rightarrow> Inr s
           | Some k \<Rightarrow>
              if k \<ge> length (pollfds (rs_impl s)) then Inl Undefined_behaviour
              else
                (let e = pollfds (rs_impl s) ! k in
                 case (if perr e then ev_socketError ev p (logged (Act_socketError p) s) else (False, s)) of (failed, s1) \<Rightarrow>
                   if failed then Inr s1
                   else if pin e then Inr (ev_recv ev p (logged (Act_recv p) s1))
                   else Inr s1))"

text \<open>The slot is computed with the size of the table at that moment.\<close>

fun poll_from :: "run_env \<Rightarrow> nat \<Rightarrow> nat \<Rightarrow> run_state \<Rightarrow> run_state res" where
  "poll_from ev 0 p s = Inr s"
| "poll_from ev (Suc n) p s =
     (if p \<ge> length (peers (rs_univ s)) then Inr s
      else res_bind (poll_one ev ((p + phase (rs_univ s)) mod length (peers (rs_univ s))) s) (poll_from ev n (p + 1)))"

definition poll_all :: "run_env \<Rightarrow> run_state \<Rightarrow> run_state res" where
  "poll_all ev s = poll_from ev (length (peers (rs_univ s))) 0 s"

text \<open>The end of \<^verbatim>\<open>_periodic\<close>: an exception of a peer is caught.\<close>

fun periodic_peers :: "run_env \<Rightarrow> nat option list \<Rightarrow> run_state \<Rightarrow> run_state" where
  "periodic_peers ev [] s = s"
| "periodic_peers ev (x # xs) s =
     periodic_peers ev xs (case x of
       None \<Rightarrow> s
     | Some p \<Rightarrow> if u_valid (heap (rs_univ s) p) then ev_peer_periodic ev p (logged (Act_periodic p) s) else s)"

definition periodic :: "run_env \<Rightarrow> run_state \<Rightarrow> run_state res" where
  "periodic ev s =
     res_bind (u_periodic (ev_address ev) (ev_reconnect ev) (ev_idle ev s) (rs_univ s)) (\<lambda>u.
       Inr (periodic_peers ev (peers u) (s\<lparr>rs_univ := u\<rparr>)))"

definition after_poll :: "run_env \<Rightarrow> int \<Rightarrow> run_state \<Rightarrow> run_state res" where
  "after_poll ev selres s =
     (if selres \<le> 0 then Inr s
      else res_bind (accept_all ev (rs_listeners s) s) (\<lambda>s1.
           res_bind (poll_all ev s1) (\<lambda>s2. Inr (upd_univ (\<lambda>u. u\<lparr>phase := phase u + 1\<rparr>) s2))))"

definition run_round :: "run_env \<Rightarrow> run_state \<Rightarrow> run_state res" where
  "run_round ev s =
     (let s1 = upd_univ (cleanupPeers (ev_iter ev)) (setDescriptors s) in
      res_bind (if ev_due ev s1 then periodic ev s1 else Inr s1) (\<lambda>s2.
        if pollfds (rs_impl s2) = [] then Inr (ev_wait ev (logged Act_wait s2))
        else case ev_poll ev (pollfds (rs_impl s2)) s2 of
          (selres, fds, s3) \<Rightarrow> after_poll ev selres (s3\<lparr>rs_impl := (rs_impl s3)\<lparr>pollfds := fds\<rparr>\<rparr>)))"

text \<open>The loop, for the number of rounds until \<^verbatim>\<open>active_\<close> is false; an exception ends the process.\<close>

fun run_rounds :: "run_env \<Rightarrow> nat \<Rightarrow> run_state \<Rightarrow> run_state res" where
  "run_rounds ev 0 s = Inr s"
| "run_rounds ev (Suc n) s = (if u_active (rs_univ s) then res_bind (run_round ev s) (run_rounds ev n) else Inr (upd_univ run_end (s\<lparr>rs_listeners := []\<rparr>)))"

section \<open>Shutting down\<close>

text \<open>
  \<^verbatim>\<open>shutdown\<close>: the listening sockets and the peers are closed (\<open>stop\<close> is \<^verbatim>\<open>PeerBase::shutdown\<close>), the thread ends after
  its last round (\<open>join\<close>), and the garbage is collected once the thread pool is idle.
\<close>

fun shutdown_peers :: "(nat \<Rightarrow> run_state \<Rightarrow> run_state) \<Rightarrow> nat option list \<Rightarrow> run_state \<Rightarrow> run_state" where
  "shutdown_peers stop [] s = s"
| "shutdown_peers stop (x # xs) s = shutdown_peers stop xs (case x of None \<Rightarrow> s | Some p \<Rightarrow> stop p s)"

definition u_shutdown :: "(nat \<Rightarrow> run_state \<Rightarrow> run_state) \<Rightarrow> (run_state \<Rightarrow> run_state) \<Rightarrow> (Universe \<Rightarrow> string list) \<Rightarrow> run_state \<Rightarrow> run_state" where
  "u_shutdown stop join iter s =
     (if \<not> u_active (rs_univ s) then s
      else
        let s1 = s\<lparr>rs_listeners := map (\<lambda>l. l\<lparr>l_listening := False\<rparr>) (rs_listeners s)\<rparr>;
            s2 = shutdown_peers stop (peers (rs_univ s1)) s1;
            s3 = join (upd_univ (\<lambda>u. u\<lparr>u_active := False\<rparr>) s2) in
        upd_univ (\<lambda>u. collect_garbage True (cleanupPeers iter u)) s3)"

section \<open>The table of descriptors\<close>

text \<open>The map leads to an entry for the descriptor, and every entry is in the map.\<close>

definition descriptors_ok :: "NetImplDetail \<Rightarrow> bool" where
  "descriptors_ok d \<longleftrightarrow> (\<forall>fd i. idMap d fd = Some i \<longrightarrow> i < length (pollfds d) \<and> pfd (pollfds d ! i) = fd)
     \<and> dom (idMap d) = pfd ` set (pollfds d)"

lemma descriptors_okD: "descriptors_ok d \<Longrightarrow> idMap d fd = Some i \<Longrightarrow> i < length (pollfds d) \<and> pfd (pollfds d ! i) = fd"
  by (simp add: descriptors_ok_def)

lemma add_fd_ok: "descriptors_ok d \<Longrightarrow> descriptors_ok (add_fd fd d)"
  by (fastforce simp: descriptors_ok_def add_fd_def nth_append split: if_splits)

lemma add_fds:
  assumes "descriptors_ok d"
  shows "descriptors_ok (foldl (\<lambda>d fd. add_fd fd d) d fds)
    \<and> map pfd (pollfds (foldl (\<lambda>d fd. add_fd fd d) d fds)) = map pfd (pollfds d) @ filter (\<lambda>fd. fd \<noteq> INVALID_SOCKET) fds"
  using assms
proof (induction fds arbitrary: d)
  case (Cons fd fds)
  from Cons.IH [OF add_fd_ok [OF Cons.prems], of fd] show ?case by (simp add: add_fd_def)
qed simp

lemma setDescriptors_ok:
  "descriptors_ok (rs_impl (setDescriptors s))"
  "map pfd (pollfds (rs_impl (setDescriptors s))) =
     filter (\<lambda>fd. fd \<noteq> INVALID_SOCKET) (map l_fd (rs_listeners s) @ map (rs_sock s) (polled_peers s))"
  using add_fds [of "\<lparr>pollfds = [], idMap = Map.empty\<rparr>" "map l_fd (rs_listeners s) @ map (rs_sock s) (polled_peers s)"]
  by (simp_all add: setDescriptors_def descriptors_ok_def)

text \<open>
  C13: The table of descriptors that \<^verbatim>\<open>_setDescriptors\<close> builds is well-formed: every position in the map is
  inside the list and belongs to its descriptor, and the descriptors in the map are exactly the listening
  sockets and the sockets of the valid TCP peers that are open.
\<close>

theorem descriptors_well_formed:
  "(\<forall>fd i. idMap (rs_impl (setDescriptors s)) fd = Some i \<longrightarrow>
      i < length (pollfds (rs_impl (setDescriptors s))) \<and> pfd (pollfds (rs_impl (setDescriptors s)) ! i) = fd)
   \<and> dom (idMap (rs_impl (setDescriptors s))) =
      {fd \<in> l_fd ` set (rs_listeners s) \<union> rs_sock s ` set (polled_peers s). fd \<noteq> INVALID_SOCKET}"
proof -
  have "set (map pfd (pollfds (rs_impl (setDescriptors s)))) =
      {fd \<in> l_fd ` set (rs_listeners s) \<union> rs_sock s ` set (polled_peers s). fd \<noteq> INVALID_SOCKET}"
    unfolding setDescriptors_ok(2) by auto
  then show ?thesis using setDescriptors_ok(1) [of s] by (simp add: descriptors_ok_def)
qed

theorem descriptors_well_formed_witness:
  "let s = \<lparr>rs_univ = new_Universe ex_heap, rs_impl = \<lparr>pollfds = [], idMap = Map.empty\<rparr>,
       rs_listeners = [\<lparr>l_fd = 4, l_listening = True, l_port = 9000, l_uri = []\<rparr>], rs_sock = (\<lambda>_. 0), rs_log = []\<rparr> in
   idMap (rs_impl (setDescriptors s)) 4 = Some 0 \<and> pfd (pollfds (rs_impl (setDescriptors s)) ! 0) = 4"
proof -
  let ?s = "\<lparr>rs_univ = new_Universe ex_heap, rs_impl = \<lparr>pollfds = [], idMap = Map.empty\<rparr>,
    rs_listeners = [\<lparr>l_fd = 4, l_listening = True, l_port = 9000, l_uri = []\<rparr>], rs_sock = (\<lambda>_. 0), rs_log = []\<rparr>"
  have "polled_peers ?s = []" by (simp add: polled_peers_def new_Universe_def getPeers_def kDefaultMaxConnections_def numeral_eq_Suc)
  then have "idMap (rs_impl (setDescriptors ?s)) 4 = Some 0" by (simp add: setDescriptors_def add_fd_def INVALID_SOCKET_def)
  moreover from this have "pfd (pollfds (rs_impl (setDescriptors ?s)) ! 0) = 4" using descriptors_well_formed [of ?s] by blast
  ultimately show ?thesis by (simp add: Let_def)
qed

text \<open>What \<^verbatim>\<open>poll(2)\<close> may change: the events of each entry.\<close>

lemma descriptors_poll:
  assumes "descriptors_ok d" "map pfd fds = map pfd (pollfds d)"
  shows "descriptors_ok (d\<lparr>pollfds := fds\<rparr>)"
proof -
  have l: "length fds = length (pollfds d)" using assms(2) map_eq_imp_length_eq by blast
  have "pfd ` set fds = pfd ` set (pollfds d)" using arg_cong [OF assms(2), of set] by simp
  moreover have "pfd (fds ! i) = pfd (pollfds d ! i)" if "i < length fds" for i using that assms(2) l by (metis nth_map)
  ultimately show ?thesis using assms(1) l by (simp add: descriptors_ok_def)
qed

section \<open>Serving the peers\<close>

text \<open>
  What the loop does for a peer, read off the state at the start of the loop; \<open>fails\<close> tells for which peers
  \<^verbatim>\<open>socketError\<close> closes the peer.
\<close>

definition entry_acts :: "(nat \<Rightarrow> bool) \<Rightarrow> nat \<Rightarrow> pollfd \<Rightarrow> run_act list" where
  "entry_acts fails p e =
     (if perr e then [Act_socketError p] else []) @ (if pin e \<and> \<not> (perr e \<and> fails p) then [Act_recv p] else [])"

definition peer_acts :: "(nat \<Rightarrow> bool) \<Rightarrow> run_state \<Rightarrow> nat \<Rightarrow> run_act list" where
  "peer_acts fails s p =
     (if u_tcp (heap (rs_univ s) p) \<and> u_valid (heap (rs_univ s) p) \<and> rs_sock s p \<noteq> INVALID_SOCKET
      then case idMap (rs_impl s) (rs_sock s p) of
        None \<Rightarrow> [] | Some k \<Rightarrow> entry_acts fails p (pollfds (rs_impl s) ! k)
      else [])"

definition slot_acts :: "(nat \<Rightarrow> bool) \<Rightarrow> run_state \<Rightarrow> nat \<Rightarrow> run_act list" where
  "slot_acts fails s i = (case peers (rs_univ s) ! i of None \<Rightarrow> [] | Some p \<Rightarrow> peer_acts fails s p)"

text \<open>
  The calls on a peer concern that peer: they may change its own members, but no other peer, and not the
  tables of the loop.
\<close>

definition keeps_others :: "nat \<Rightarrow> run_state \<Rightarrow> run_state \<Rightarrow> bool" where
  "keeps_others p s s' \<longleftrightarrow> rs_impl s' = rs_impl s \<and> rs_log s' = rs_log s \<and> peers (rs_univ s') = peers (rs_univ s)
     \<and> phase (rs_univ s') = phase (rs_univ s)
     \<and> (\<forall>q. q \<noteq> p \<longrightarrow> heap (rs_univ s') q = heap (rs_univ s) q \<and> rs_sock s' q = rs_sock s q)"

definition local_calls :: "run_env \<Rightarrow> (nat \<Rightarrow> bool) \<Rightarrow> bool" where
  "local_calls ev fails \<longleftrightarrow> (\<forall>p s. keeps_others p s (ev_recv ev p s) \<and> keeps_others p s (snd (ev_socketError ev p s))
     \<and> fst (ev_socketError ev p s) = fails p)"

lemma logged_simps [simp]:
  "rs_univ (logged a s) = rs_univ s" "rs_impl (logged a s) = rs_impl s" "rs_sock (logged a s) = rs_sock s"
  "rs_log (logged a s) = rs_log s @ [a]" "rs_listeners (logged a s) = rs_listeners s"
  by (simp_all add: logged_def)

text \<open>The state after the loop has looked at a slot, as far as the other slots are concerned.\<close>

definition after_slot :: "nat option \<Rightarrow> run_state \<Rightarrow> run_act list \<Rightarrow> run_state \<Rightarrow> bool" where
  "after_slot x s as s' \<longleftrightarrow> rs_impl s' = rs_impl s \<and> rs_log s' = rs_log s @ as \<and> peers (rs_univ s') = peers (rs_univ s)
     \<and> phase (rs_univ s') = phase (rs_univ s)
     \<and> (\<forall>q. x \<noteq> Some q \<longrightarrow> heap (rs_univ s') q = heap (rs_univ s) q \<and> rs_sock s' q = rs_sock s q)"

lemma after_slot_refl: "after_slot x s [] s"
  by (simp add: after_slot_def)

lemma poll_one_acts:
  assumes "local_calls ev fails" "descriptors_ok (rs_impl s)" "i < length (peers (rs_univ s))"
  shows "\<exists>s'. poll_one ev i s = Inr s' \<and> after_slot (peers (rs_univ s) ! i) s (slot_acts fails s i) s'"
proof (cases "peers (rs_univ s) ! i")
  case None
  then show ?thesis using assms(3) after_slot_refl by (simp add: poll_one_def slot_acts_def)
next
  case (Some p)
  show ?thesis
  proof (cases "u_tcp (heap (rs_univ s) p) \<and> u_valid (heap (rs_univ s) p) \<and> rs_sock s p \<noteq> INVALID_SOCKET \<and> idMap (rs_impl s) (rs_sock s p) \<noteq> None")
    case False
    then show ?thesis using assms(3) Some after_slot_refl by (auto simp: poll_one_def slot_acts_def peer_acts_def Let_def)
  next
    case True
    then obtain k where k: "idMap (rs_impl s) (rs_sock s p) = Some k" "k < length (pollfds (rs_impl s))"
      using descriptors_okD [OF assms(2)] by blast
    let ?e = "pollfds (rs_impl s) ! k"
    obtain b s1 where e: "ev_socketError ev p (logged (Act_socketError p) s) = (b, s1)" by (metis surj_pair)
    have s1: "keeps_others p (logged (Act_socketError p) s) s1" "b = fails p"
      using assms(1) e unfolding local_calls_def by (metis fst_conv snd_conv)+
    have r: "keeps_others p s' (ev_recv ev p s')" for s' using assms(1) by (simp add: local_calls_def)
    show ?thesis
      using True Some assms(3) k e s1 r [of "logged (Act_recv p) s"] r [of "logged (Act_recv p) s1"]
      by (cases "perr ?e"; cases "pin ?e"; cases b)
        (simp_all add: poll_one_def slot_acts_def peer_acts_def entry_acts_def Let_def after_slot_def keeps_others_def)
  qed
qed

text \<open>Two peers never share a slot, also after a change of one peer.\<close>

definition slots_distinct :: "Universe \<Rightarrow> bool" where
  "slots_distinct u \<longleftrightarrow> (\<forall>i j p. i < length (peers u) \<longrightarrow> j < length (peers u) \<longrightarrow> peers u ! i = Some p \<longrightarrow> peers u ! j = Some p \<longrightarrow> i = j)"

lemma slot_acts_after:
  assumes "after_slot (peers (rs_univ s) ! i) s as s'" "slots_distinct (rs_univ s)" "i < length (peers (rs_univ s))"
    "j < length (peers (rs_univ s))" "i \<noteq> j"
  shows "slot_acts fails s' j = slot_acts fails s j"
proof (cases "peers (rs_univ s) ! j")
  case (Some q)
  have "peers (rs_univ s) ! i \<noteq> Some q" using assms(2-5) Some unfolding slots_distinct_def by blast
  then have e: "heap (rs_univ s') q = heap (rs_univ s) q" "rs_sock s' q = rs_sock s q" "rs_impl s' = rs_impl s" "peers (rs_univ s') = peers (rs_univ s)"
    using assms(1) by (simp_all add: after_slot_def)
  show ?thesis by (simp only: slot_acts_def peer_acts_def e Some option.case)
qed (use assms(1) in \<open>simp add: slot_acts_def after_slot_def\<close>)

text \<open>The slots in the order of the loop are all slots, each once.\<close>

lemma mod_shift_le:
  assumes "p \<le> q" "q < n" "(p + k) mod n = (q + k) mod (n :: nat)"
  shows "p = q"
proof -
  have "n dvd (q + k) - (p + k)" using assms(1,3) mod_eq_dvd_iff_nat [of "p + k" "q + k" n] by simp
  then show ?thesis using assms(1,2) by (auto dest: dvd_imp_le)
qed

lemma slot_inj: "p < n \<Longrightarrow> q < n \<Longrightarrow> (p + k) mod n = (q + k) mod (n :: nat) \<Longrightarrow> p = q"
  using mod_shift_le [of p q n k] mod_shift_le [of q p n k] by (cases "p \<le> q") auto

lemma poll_order_slots: "distinct (poll_order u)" "set (poll_order u) = {..<length (peers u)}"
proof -
  have i: "inj_on (\<lambda>p. (p + phase u) mod length (peers u)) {..<length (peers u)}" by (auto intro!: inj_onI dest: slot_inj)
  then show "distinct (poll_order u)" by (simp add: poll_order_def distinct_map atLeast0LessThan)
  have "(\<lambda>p. (p + phase u) mod length (peers u)) ` {..<length (peers u)} = {..<length (peers u)}" 
    by (rule endo_inj_surj [OF _ _ i]) (auto intro: mod_less_divisor)
  then show "set (poll_order u) = {..<length (peers u)}" by (simp add: poll_order_def atLeast0LessThan)
qed

lemma poll_from_acts:
  assumes "local_calls ev fails" "descriptors_ok (rs_impl s)" "slots_distinct (rs_univ s)" "length (peers (rs_univ s)) = p + n"
  shows "\<exists>s'. poll_from ev n p s = Inr s' \<and> rs_impl s' = rs_impl s \<and> peers (rs_univ s') = peers (rs_univ s)
    \<and> rs_log s' = rs_log s @ concat (map (\<lambda>q. slot_acts fails s ((q + phase (rs_univ s)) mod (p + n))) [p..<p + n])"
  using assms(2-4)
proof (induction n arbitrary: p s)
  case (Suc n)
  let ?f = "\<lambda>q. (q + phase (rs_univ s)) mod (p + Suc n)"
  have i: "?f p < length (peers (rs_univ s))" using Suc.prems(3) by simp
  obtain s1 where s1: "poll_one ev (?f p) s = Inr s1" "after_slot (peers (rs_univ s) ! ?f p) s (slot_acts fails s (?f p)) s1"
    using poll_one_acts [OF assms(1) Suc.prems(1) i] by blast
  then have k: "rs_impl s1 = rs_impl s" "peers (rs_univ s1) = peers (rs_univ s)" "phase (rs_univ s1) = phase (rs_univ s)"
      "rs_log s1 = rs_log s @ slot_acts fails s (?f p)" by (simp_all add: after_slot_def)
  have d: "slots_distinct (rs_univ s1)" using Suc.prems(2) k(2) by (simp add: slots_distinct_def)
  obtain s' where s': "poll_from ev n (p + 1) s1 = Inr s'" "rs_impl s' = rs_impl s1" "peers (rs_univ s') = peers (rs_univ s1)"
      "rs_log s' = rs_log s1 @ concat (map (\<lambda>q. slot_acts fails s1 ((q + phase (rs_univ s1)) mod (p + 1 + n))) [p + 1..<p + 1 + n])"
    using Suc.IH [of s1 "p + 1"] Suc.prems d k by auto
  have e: "slot_acts fails s1 (?f q) = slot_acts fails s (?f q)" if "q \<in> set [p + 1..<p + 1 + n]" for q
  proof (rule slot_acts_after [OF s1(2) Suc.prems(2) i])
    show "?f q < length (peers (rs_univ s))" using Suc.prems(3) by simp
    show "?f p \<noteq> ?f q" using slot_inj [of p "p + Suc n" q "phase (rs_univ s)"] that by auto
  qed
  have m: "map (\<lambda>q. slot_acts fails s1 (?f q)) [p + 1..<p + 1 + n] = map (\<lambda>q. slot_acts fails s (?f q)) [p + 1..<p + 1 + n]"
    by (rule map_cong [OF HOL.refl e])
  have "p + 1 + n = p + Suc n" by simp
  then have "rs_log s' = rs_log s @ concat (map (\<lambda>q. slot_acts fails s (?f q)) (p # [p + 1..<p + 1 + n]))"
    using s'(4) m unfolding k by (simp del: upt_Suc map_eq_conv)
  also have "p # [p + 1..<p + 1 + n] = [p..<p + Suc n]" by (simp add: upt_conv_Cons)
  finally have l: "rs_log s' = rs_log s @ concat (map (\<lambda>q. slot_acts fails s (?f q)) [p..<p + Suc n])" .
  have "poll_from ev (Suc n) p s = Inr s'" using s1(1) s'(1) Suc.prems(3) by simp
  then show ?case using l s'(2,3) k(1,2) by (intro exI [of _ s']) (simp del: upt_Suc)
qed simp

lemma poll_all_acts:
  assumes "local_calls ev fails" "descriptors_ok (rs_impl s)" "slots_distinct (rs_univ s)"
  shows "\<exists>s'. poll_all ev s = Inr s' \<and> rs_log s' = rs_log s @ concat (map (slot_acts fails s) (poll_order (rs_univ s)))"
  using poll_from_acts [OF assms, of 0 "length (peers (rs_univ s))"] by (auto simp: poll_all_def poll_order_def comp_def)

definition readable :: "(nat \<Rightarrow> bool) \<Rightarrow> run_state \<Rightarrow> nat \<Rightarrow> bool" where
  "readable fails s p \<longleftrightarrow> u_tcp (heap (rs_univ s) p) \<and> u_valid (heap (rs_univ s) p) \<and> rs_sock s p \<noteq> INVALID_SOCKET
     \<and> (case idMap (rs_impl s) (rs_sock s p) of None \<Rightarrow> False
          | Some k \<Rightarrow> pin (pollfds (rs_impl s) ! k) \<and> \<not> (perr (pollfds (rs_impl s) ! k) \<and> fails p))"

lemma polled_cases:
  "idMap (rs_impl s) (rs_sock s q) = None \<Longrightarrow> peer_acts fails s q = [] \<and> \<not> readable fails s q"
  "idMap (rs_impl s) (rs_sock s q) = Some k \<Longrightarrow>
     (if u_tcp (heap (rs_univ s) q) \<and> u_valid (heap (rs_univ s) q) \<and> rs_sock s q \<noteq> INVALID_SOCKET
      then peer_acts fails s q = entry_acts fails q (pollfds (rs_impl s) ! k)
        \<and> readable fails s q = (pin (pollfds (rs_impl s) ! k) \<and> \<not> (perr (pollfds (rs_impl s) ! k) \<and> fails q))
      else peer_acts fails s q = [] \<and> \<not> readable fails s q)"
  by (simp_all add: peer_acts_def readable_def)

lemma count_entry_acts:
  "count_list (entry_acts fails q e) (Act_recv p) = (if q = p \<and> pin e \<and> \<not> (perr e \<and> fails q) then 1 else 0)"
  by (simp add: entry_acts_def)

lemma count_peer_acts: "count_list (peer_acts fails s q) (Act_recv p) = (if q = p \<and> readable fails s q then 1 else 0)"
proof (cases "idMap (rs_impl s) (rs_sock s q)")
  case None
  from polled_cases(1) [OF None, of fails] show ?thesis by simp
next
  case (Some k)
  from polled_cases(2) [OF Some, of fails] show ?thesis
    by (cases "u_tcp (heap (rs_univ s) q) \<and> u_valid (heap (rs_univ s) q) \<and> rs_sock s q \<noteq> INVALID_SOCKET") (simp_all add: count_entry_acts)
qed

lemma count_slot_acts:
  assumes "slots_distinct (rs_univ s)" "distinct xs" "set xs \<subseteq> {..<length (peers (rs_univ s))}"
  shows "count_list (concat (map (slot_acts fails s) xs)) (Act_recv p) =
    (if (\<exists>i\<in>set xs. peers (rs_univ s) ! i = Some p) \<and> readable fails s p then 1 else 0)"
  using assms(2,3)
proof (induction xs)
  case (Cons i xs)
  have "\<not> (\<exists>j\<in>set xs. peers (rs_univ s) ! j = Some p)" if "peers (rs_univ s) ! i = Some p"
    using that assms(1) Cons.prems unfolding slots_distinct_def by (metis distinct.simps(2) insert_subset lessThan_iff list.simps(15) subsetD)
  moreover have "count_list (slot_acts fails s i) (Act_recv p) = (if peers (rs_univ s) ! i = Some p \<and> readable fails s p then 1 else 0)"
    by (auto simp: slot_acts_def count_peer_acts split: option.splits)
  ultimately show ?case using Cons by auto
qed simp

text \<open>Cleaning up only takes peers out of the table.\<close>

lemma removePeer_shape:
  "heap (removePeer it i u) = heap u" "phase (removePeer it i u) = phase u"
  "peers (removePeer it i u) = peers u \<or> peers (removePeer it i u) = (peers u)[i := None]"
  by (auto simp: removePeer_def u_emit_def Let_def split: option.splits)

lemma cleanup_from_shape:
  "heap (cleanup_from iter is u) = heap u \<and> length (peers (cleanup_from iter is u)) = length (peers u)
   \<and> (\<forall>i p. i < length (peers u) \<longrightarrow> peers (cleanup_from iter is u) ! i = Some p \<longrightarrow> peers u ! i = Some p)"
proof (induction "is" arbitrary: u)
  case (Cons i "is")
  have "length (peers (removePeer (iter u) i u)) = length (peers u)" using removePeer_shape(3) [of "iter u" i u] by auto
  moreover have "peers u ! j = Some p" if "peers (removePeer (iter u) i u) ! j = Some p" "j < length (peers u)" for j p
    using that removePeer_shape(3) [of "iter u" i u] by (cases "i = j") auto
  ultimately show ?case using Cons.IH [of "removePeer (iter u) i u"] removePeer_shape(1) [of "iter u" i u] by auto
qed simp

lemma cleanupPeers_shape:
  "heap (cleanupPeers iter u) = heap u" "length (peers (cleanupPeers iter u)) = length (peers u)"
  "\<forall>i p. i < length (peers u) \<longrightarrow> peers (cleanupPeers iter u) ! i = Some p \<longrightarrow> peers u ! i = Some p"
  using cleanup_from_shape [of iter "[0..<length (peers u)]" u] by (auto simp: cleanupPeers_def)

lemma slots_distinct_cleanup:
  assumes "univ_inv u"
  shows "slots_distinct (cleanupPeers iter u)"
  unfolding slots_distinct_def cleanupPeers_shape(2) using cleanupPeers_shape(3) distinct_slots [OF assms] by blast

lemma getPeers_cleanup:
  assumes "p \<in> set (getPeers (cleanupPeers iter u))"
  shows "p \<in> set (getPeers u)"
proof -
  obtain i where "i < length (peers u)" "peers (cleanupPeers iter u) ! i = Some p"
    using assms unfolding in_getPeers by (metis cleanupPeers_shape(2) in_set_conv_nth)
  then have "i < length (peers u)" "peers u ! i = Some p" using cleanupPeers_shape(3) by blast+
  then show ?thesis unfolding in_getPeers by (metis nth_mem)
qed

lemma accept_all_quiet:
  assumes "\<And>l. l \<in> set ls \<Longrightarrow> l_listening l \<Longrightarrow>
    \<exists>i. idMap (rs_impl s) (l_fd l) = Some i \<and> i < length (pollfds (rs_impl s)) \<and> \<not> pin (pollfds (rs_impl s) ! i)"
  shows "accept_all ev ls s = Inr s"
  using assms
proof (induction ls)
  case (Cons l ls)
  have "accept_one ev l s = Inr s"
  proof (cases "l_listening l")
    case True
    then obtain i where i: "idMap (rs_impl s) (l_fd l) = Some i" "i < length (pollfds (rs_impl s))" "\<not> pin (pollfds (rs_impl s) ! i)"
      using Cons.prems by auto
    moreover have "(idMap (rs_impl s))(l_fd l \<mapsto> i) = idMap (rs_impl s)" using i(1) by auto
    ultimately show ?thesis using True by (simp add: accept_one_def Let_def)
  qed (simp add: accept_one_def)
  then show ?case using Cons by simp
qed simp

text \<open>The state of a round after \<^verbatim>\<open>poll\<close>, which reports the events \<open>rd\<close> and \<open>er\<close> of the descriptors.\<close>

definition report :: "(int \<Rightarrow> bool) \<Rightarrow> (int \<Rightarrow> bool) \<Rightarrow> pollfd \<Rightarrow> pollfd" where
  "report rd er e = e\<lparr>pin := rd (pfd e), perr := er (pfd e)\<rparr>"

definition polled_state :: "(Universe \<Rightarrow> string list) \<Rightarrow> (int \<Rightarrow> bool) \<Rightarrow> (int \<Rightarrow> bool) \<Rightarrow> run_state \<Rightarrow> run_state" where
  "polled_state iter rd er s = (upd_univ (cleanupPeers iter) (setDescriptors s))\<lparr>rs_impl :=
     (rs_impl (setDescriptors s))\<lparr>pollfds := map (report rd er) (pollfds (rs_impl (setDescriptors s)))\<rparr>\<rparr>"

lemma polled_state_simps [simp]:
  "rs_univ (polled_state iter rd er s) = cleanupPeers iter (rs_univ s)" "rs_sock (polled_state iter rd er s) = rs_sock s"
  "rs_log (polled_state iter rd er s) = rs_log s" "rs_listeners (polled_state iter rd er s) = rs_listeners s"
  by (simp_all add: polled_state_def upd_univ_def setDescriptors_def)

lemma report_simps [simp]: "pfd (report rd er e) = pfd e" "pin (report rd er e) = rd (pfd e)" "perr (report rd er e) = er (pfd e)"
  by (simp_all add: report_def)

lemma polled_state_ok: "descriptors_ok (rs_impl (polled_state iter rd er s))"
  using descriptors_poll [OF setDescriptors_ok(1) [of s], of "map (report rd er) (pollfds (rs_impl (setDescriptors s)))"]
  by (simp add: polled_state_def)

lemma polled_state_entry:
  assumes "fd \<in> l_fd ` set (rs_listeners s) \<union> rs_sock s ` set (polled_peers s)" "fd \<noteq> INVALID_SOCKET"
  shows "\<exists>k. idMap (rs_impl (polled_state iter rd er s)) fd = Some k \<and> k < length (pollfds (rs_impl (polled_state iter rd er s)))
    \<and> pin (pollfds (rs_impl (polled_state iter rd er s)) ! k) = rd fd \<and> perr (pollfds (rs_impl (polled_state iter rd er s)) ! k) = er fd"
proof -
  let ?d = "rs_impl (setDescriptors s)"
  have "fd \<in> set (map pfd (pollfds ?d))" unfolding setDescriptors_ok(2) using assms by auto
  then have "fd \<in> dom (idMap ?d)" using setDescriptors_ok(1) [of s] by (simp add: descriptors_ok_def)
  then obtain k where k: "idMap ?d fd = Some k" by (auto simp only: dom_def)
  then have "k < length (pollfds ?d)" "pfd (pollfds ?d ! k) = fd" using descriptors_okD [OF setDescriptors_ok(1) [of s]] by simp_all
  then show ?thesis using k by (simp add: polled_state_def)
qed

lemma run_round_polled:
  assumes "pollfds (rs_impl (setDescriptors s)) \<noteq> []" "\<And>s'. \<not> ev_due ev s'" "\<And>fds s'. ev_poll ev fds s' = (n, map (report rd er) fds, s')"
  shows "run_round ev s = after_poll ev n (polled_state (ev_iter ev) rd er s)"
  using assms by (simp add: run_round_def Let_def upd_univ_def polled_state_def)

text \<open>A peer of the table is readable there when its socket is reported.\<close>

lemma polled_state_readable:
  assumes "p \<in> set (getPeers (cleanupPeers iter (rs_univ s)))"
  shows "readable fails (polled_state iter rd er s) p \<longleftrightarrow> u_tcp (heap (rs_univ s) p) \<and> u_valid (heap (rs_univ s) p)
    \<and> rs_sock s p \<noteq> INVALID_SOCKET \<and> rd (rs_sock s p) \<and> \<not> (er (rs_sock s p) \<and> fails p)"
proof (cases "u_tcp (heap (rs_univ s) p) \<and> u_valid (heap (rs_univ s) p) \<and> rs_sock s p \<noteq> INVALID_SOCKET")
  case True
  then have "p \<in> set (polled_peers s)" using getPeers_cleanup [OF assms] by (simp add: polled_peers_def)
  then obtain k where "idMap (rs_impl (polled_state iter rd er s)) (rs_sock s p) = Some k"
      "pin (pollfds (rs_impl (polled_state iter rd er s)) ! k) = rd (rs_sock s p)"
      "perr (pollfds (rs_impl (polled_state iter rd er s)) ! k) = er (rs_sock s p)"
    using polled_state_entry [of "rs_sock s p" s iter rd er] True by auto
  then show ?thesis using True by (simp add: readable_def cleanupPeers_shape(1))
qed (auto simp: readable_def cleanupPeers_shape(1))

text \<open>
  C12: One round of the network thread, in which no listening socket has a request and nothing is due:
  every TCP peer in the table (after cleaning up) whose socket \<^verbatim>\<open>poll\<close> reports as readable is asked to
  receive exactly once, unless its socket has an error that closes it; no other peer is.
\<close>

theorem round_serves_ready_peers:
  assumes s: "univ_inv (rs_univ s)" "pollfds (rs_impl (setDescriptors s)) \<noteq> []"
    and ev: "local_calls ev fails" "\<And>s'. \<not> ev_due ev s'" "\<And>fds s'. ev_poll ev fds s' = (n, map (report rd er) fds, s')" "0 < n"
    and quiet: "\<And>l. l \<in> set (rs_listeners s) \<Longrightarrow> l_listening l \<Longrightarrow> l_fd l \<noteq> INVALID_SOCKET \<and> \<not> rd (l_fd l)"
  shows "\<exists>s' as. run_round ev s = Inr s' \<and> rs_log s' = rs_log s @ as
    \<and> (\<forall>p. count_list as (Act_recv p) =
        (if p \<in> set (getPeers (cleanupPeers (ev_iter ev) (rs_univ s))) \<and> u_tcp (heap (rs_univ s) p) \<and> u_valid (heap (rs_univ s) p)
            \<and> rs_sock s p \<noteq> INVALID_SOCKET \<and> rd (rs_sock s p) \<and> \<not> (er (rs_sock s p) \<and> fails p)
         then 1 else 0))"
proof -
  let ?s = "polled_state (ev_iter ev) rd er s" and ?u = "cleanupPeers (ev_iter ev) (rs_univ s)"
  let ?as = "concat (map (slot_acts fails ?s) (poll_order ?u))"
  have d: "slots_distinct (rs_univ ?s)" using slots_distinct_cleanup [OF s(1)] by simp
  have a: "accept_all ev (rs_listeners s) ?s = Inr ?s"
    by (rule accept_all_quiet) (use polled_state_entry [of _ s "ev_iter ev" rd er] quiet in \<open>force\<close>)
  obtain s2 where s2: "poll_all ev ?s = Inr s2" "rs_log s2 = rs_log s @ ?as"
    using poll_all_acts [OF ev(1) polled_state_ok d] by auto
  have "run_round ev s = Inr (upd_univ (\<lambda>u. u\<lparr>phase := phase u + 1\<rparr>) s2)"
    using run_round_polled [OF s(2) ev(2,3)] a s2(1) ev(4) by (simp add: after_poll_def)
  moreover have "count_list ?as (Act_recv p) = (if (\<exists>i\<in>set (poll_order ?u). peers ?u ! i = Some p) \<and> readable fails ?s p then 1 else 0)" for p
    using count_slot_acts [OF d, of "poll_order ?u" fails p] poll_order_slots [of ?u] by simp
  moreover have "(\<exists>i\<in>set (poll_order ?u). peers ?u ! i = Some p) \<longleftrightarrow> p \<in> set (getPeers ?u)" for p
    unfolding poll_order_slots in_getPeers by (auto simp: in_set_conv_nth)
  ultimately show ?thesis using s2(2) polled_state_readable [of _ "ev_iter ev" s fails rd er]
    by (intro exI [of _ "upd_univ (\<lambda>u. u\<lparr>phase := phase u + 1\<rparr>) s2"] exI [of _ ?as]) (auto simp: upd_univ_def)
qed

section \<open>Where the network thread fails\<close>

text \<open>
  When every slot of the table is taken, an incoming connection ends the process: \<^verbatim>\<open>insertPeer_\<close> throws, and
  nothing in the network thread catches the exception.
\<close>

theorem full_table_ends_thread:
  assumes l: "rs_listeners s = l # ls" "l_listening l" "l_fd l \<noteq> INVALID_SOCKET" "rd (l_fd l)"
    and u: "None \<notin> set (peers (cleanupPeers (ev_iter ev) (rs_univ s)))" "Some p \<notin> set (peers (cleanupPeers (ev_iter ev) (rs_univ s)))"
    and ev: "\<And>s'. ev_accept ev (l_fd l) s' = (Inr p, s')" "\<And>s'. \<not> ev_due ev s'"
      "\<And>fds s'. ev_poll ev fds s' = (n, map (report rd er) fds, s')" "0 < n"
  shows "run_round ev s = Inl (FTL_Error ''Too many connections'')"
proof -
  let ?s = "polled_state (ev_iter ev) rd er s"
  obtain k where k: "idMap (rs_impl ?s) (l_fd l) = Some k" "k < length (pollfds (rs_impl ?s))" "pin (pollfds (rs_impl ?s) ! k)"
    using polled_state_entry [of "l_fd l" s "ev_iter ev" rd er] l by auto
  have "pollfds (rs_impl (setDescriptors s)) \<noteq> []" using k(2) by (auto simp: polled_state_def)
  then have "run_round ev s = after_poll ev n ?s" using run_round_polled ev(2,3) by blast
  moreover have "free_slot (peers (rs_univ ?s)) = None" using u(1) by (simp add: free_slot_None)
  then have "insertPeer p (rs_univ ?s) = Inl (FTL_Error ''Too many connections'')" using u(2) by (simp add: insertPeer_def findPeer_def)
  then have "accept_one ev l ?s = Inl (FTL_Error ''Too many connections'')"
    using k l(2) ev(1) by (simp add: accept_one_def Let_def)
  ultimately show ?thesis using ev(4) by (simp add: after_poll_def l(1))
qed

text \<open>
  A socket that starts to listen while the thread is in \<^verbatim>\<open>poll\<close> has no entry: its look-up inserts position 0,
  and \<^verbatim>\<open>accept\<close>, which blocks, is called on it when the first descriptor of the table is readable.
\<close>

theorem late_listener_accepts:
  assumes "l_listening l" "idMap (rs_impl s) (l_fd l) = None" "pollfds (rs_impl s) = e # es" "pin e"
    "\<And>s'. ev_accept ev (l_fd l) s' = (Inl what, s')"
  shows "\<exists>s'. accept_one ev l s = Inr s' \<and> rs_log s' = rs_log s @ [Act_accept (l_fd l)]"
  using assms by (simp add: accept_one_def Let_def upd_univ_def)

text \<open>Listening on a URI of another scheme calls \<^verbatim>\<open>bind\<close> on a null pointer.\<close>

theorem listen_other_scheme:
  assumes "quic sch = None" "sch \<noteq> SCHEME_TCP" "sch \<noteq> SCHEME_WS"
  shows "u_listen quic mk bind sch host port s = Inl Undefined_behaviour"
  using assms by (simp add: u_listen_def create_listener_def)

section \<open>Example\<close>

definition ex_run_env :: "nat \<Rightarrow> run_env" where
  "ex_run_env p = \<lparr>ev_accept = (\<lambda>_ s. (Inr p, s)), ev_start = (\<lambda>_ s. s), ev_socketError = (\<lambda>_ s. (True, s)), ev_recv = (\<lambda>_ s. s),
     ev_peer_periodic = (\<lambda>_ s. s), ev_reconnect = (\<lambda>_ u. u), ev_address = (\<lambda>_. ([], 0)), ev_idle = (\<lambda>_. True), ev_due = (\<lambda>_. False),
     ev_iter = (\<lambda>_. []), ev_wait = (\<lambda>s. s), ev_poll = (\<lambda>fds s. (1, map (report (\<lambda>fd. True) (\<lambda>fd. False)) fds, s))\<rparr>"

definition ex_run :: "nat option list \<Rightarrow> listener list \<Rightarrow> run_state" where
  "ex_run ps ls = \<lparr>rs_univ = (ex_univ\<lparr>peers := ps\<rparr>), rs_impl = \<lparr>pollfds = [], idMap = Map.empty\<rparr>, rs_listeners = ls,
     rs_sock = (\<lambda>p. int p + 10), rs_log = []\<rparr>"

lemma ex_univ_heap: "u_tcp (heap ex_univ p)" "u_valid (heap ex_univ p)" "u_status (heap ex_univ p) = kConnecting"
  by (simp_all add: ex_univ_def insertPeer_def findPeer_def new_Universe_def kDefaultMaxConnections_def upd_peer_def numeral_eq_Suc ex_heap_def)

lemma ex_cleanup: "cleanupPeers it (ex_univ\<lparr>peers := ps\<rparr>) = ex_univ\<lparr>peers := ps\<rparr>"
proof -
  have "removePeer (it u) i (ex_univ\<lparr>peers := ps\<rparr>) = ex_univ\<lparr>peers := ps\<rparr>" for u i
    by (auto simp: removePeer_def removable_def ex_univ_heap split: option.splits)
  then have "cleanup_from it is (ex_univ\<lparr>peers := ps\<rparr>) = ex_univ\<lparr>peers := ps\<rparr>" for "is" by (induction "is") auto
  then show ?thesis by (simp add: cleanupPeers_def)
qed

theorem round_serves_ready_peers_witness:
  "\<exists>s' as. run_round (ex_run_env 0) (ex_run (peers ex_univ) []) = Inr s' \<and> rs_log s' = as \<and> count_list as (Act_recv 5) = 1"
proof -
  let ?s = "ex_run (peers ex_univ) []" and ?ev = "ex_run_env 0"
  have u: "rs_univ ?s = ex_univ" by (simp add: ex_run_def)
  have g: "getPeers ex_univ = [5]" by (simp add: getPeers_def ex_univ_peers numeral_eq_Suc)
  have "pollfds (rs_impl (setDescriptors ?s)) \<noteq> []"
    by (simp add: setDescriptors_def polled_peers_def u g ex_univ_heap ex_run_def add_fd_def INVALID_SOCKET_def)
  moreover have "local_calls ?ev (\<lambda>_. True)" by (simp add: local_calls_def ex_run_env_def keeps_others_def)
  moreover have "cleanupPeers (ev_iter ?ev) (rs_univ ?s) = ex_univ" using ex_cleanup [of _ "peers ex_univ"] by (simp add: u)
  ultimately show ?thesis
    using round_serves_ready_peers [of ?s ?ev "\<lambda>_. True" 1 "\<lambda>_. True" "\<lambda>_. False"] univ_reach_inv [OF ex_univ_reach]
    by (force simp: u g ex_univ_heap ex_run_def ex_run_env_def INVALID_SOCKET_def)
qed

theorem full_table_ends_thread_witness:
  "run_round (ex_run_env 3) (ex_run [Some 5] [\<lparr>l_fd = 4, l_listening = True, l_port = 9000, l_uri = []\<rparr>]) = Inl (FTL_Error ''Too many connections'')"
  by (rule full_table_ends_thread [where p = 3 and l = "\<lparr>l_fd = 4, l_listening = True, l_port = 9000, l_uri = []\<rparr>" and ls = "[]" and n = 1 and rd = "\<lambda>_. True" and er = "\<lambda>_. False"])
    (simp_all add: ex_run_def ex_run_env_def INVALID_SOCKET_def ex_cleanup)

end
