(* ===== verification/FTL_MsQuic.thy ===== *)
theory FTL_MsQuic
  imports FTL_Events
begin

text \<open>
  The wrapper of a QUIC stream (\<^verbatim>\<open>quic/src/msquic/stream.cpp\<close>, \<^verbatim>\<open>MsQuicOpenable\<close> in \<^verbatim>\<open>quic/src/msquic/quic.cpp\<close>): creating,
  closing and destroying it, and the callback that msquic runs for its events.

  msquic is a parameter: \<open>api\<close> tells whether a call succeeds, given the calls made before. Calls of
  msquic and of the handler (\<^verbatim>\<open>IMsQuicStreamHandler\<close>) are recorded. A \<^verbatim>\<open>CHECK_QUIC\<close> that fails ends the process.
\<close>

section \<open>Promises\<close>

datatype QUIC_STATUS = QUIC_STATUS_SUCCESS | QUIC_STATUS_PENDING | QUIC_STATUS_ABORTED

record promise =
  prom_value :: "QUIC_STATUS option"
  prom_taken :: bool

definition new_promise :: promise where
  "new_promise = \<lparr>prom_value = None, prom_taken = False\<rparr>"

definition set_value :: "QUIC_STATUS \<Rightarrow> promise \<Rightarrow> promise res" where
  "set_value v p = (if prom_value p \<noteq> None then Inl (Std_exception ''promise_already_satisfied'') else Inr (p\<lparr>prom_value := Some v\<rparr>))"

definition get_future :: "promise \<Rightarrow> promise res" where
  "get_future p = (if prom_taken p then Inl (Std_exception ''future_already_retrieved'') else Inr (p\<lparr>prom_taken := True\<rparr>))"

section \<open>State\<close>

record MsQuicOpenable =
  bOpen :: bool
  PromiseOpen :: promise
  PromiseClose :: promise

datatype stream_call = StreamOpen | StreamReceiveSetEnabled bool | SetCallbackHandler | StreamStart | StreamShutdown bool
  | StreamSend "u8 list list" bool nat | StreamReceiveComplete int | StreamClose
  | Set_TotalBufferLength nat | Obs_OnData "u8 list list" | Obs_OnWriteComplete nat bool | Obs_OnShutdownComplete

record MsQuicStream = MsQuicOpenable +
  hStream :: bool
  Observer :: bool
  ms_calls :: "stream_call list"

type_synonym msquic_api = "stream_call list \<Rightarrow> stream_call \<Rightarrow> bool"

definition new_MsQuicStream :: MsQuicStream where
  "new_MsQuicStream = \<lparr>bOpen = False, PromiseOpen = new_promise, PromiseClose = new_promise, hStream = False, Observer = False, ms_calls = []\<rparr>"

definition IsOpen :: "'z MsQuicOpenable_scheme \<Rightarrow> bool" where
  "IsOpen s = bOpen s"

definition SetOpenStatus :: "QUIC_STATUS \<Rightarrow> MsQuicStream \<Rightarrow> MsQuicStream res" where
  "SetOpenStatus r s = res_bind (set_value r (PromiseOpen s)) (\<lambda>p. Inr (s\<lparr>bOpen := True, PromiseOpen := p\<rparr>))"

definition SetCloseStatus :: "QUIC_STATUS \<Rightarrow> MsQuicStream \<Rightarrow> MsQuicStream res" where
  "SetCloseStatus r s = res_bind (set_value r (PromiseClose s)) (\<lambda>p. Inr (s\<lparr>bOpen := False, PromiseClose := p\<rparr>))"

definition Openable_Open :: "MsQuicStream \<Rightarrow> MsQuicStream res" where
  "Openable_Open s = res_bind (get_future (PromiseOpen s)) (\<lambda>p. Inr (s\<lparr>PromiseOpen := p\<rparr>))"

definition Openable_Close :: "MsQuicStream \<Rightarrow> MsQuicStream res" where
  "Openable_Close s = res_bind (get_future (PromiseClose s)) (\<lambda>p. Inr (s\<lparr>PromiseClose := p\<rparr>))"

section \<open>Calls\<close>

definition called :: "stream_call \<Rightarrow> MsQuicStream \<Rightarrow> MsQuicStream" where
  "called c s = s\<lparr>ms_calls := ms_calls s @ [c]\<rparr>"

definition CHECK_QUIC :: "msquic_api \<Rightarrow> stream_call \<Rightarrow> MsQuicStream \<Rightarrow> MsQuicStream res" where
  "CHECK_QUIC api c s = CHECK (api (ms_calls s) c) (called c s)"

definition FromRemotePeer :: "msquic_api \<Rightarrow> MsQuicStream res" where
  "FromRemotePeer api =
     res_bind (CHECK_QUIC api (StreamReceiveSetEnabled False) (new_MsQuicStream\<lparr>hStream := True\<rparr>)) (\<lambda>s.
       Inr ((called SetCallbackHandler s)\<lparr>bOpen := True\<rparr>))"

text \<open>
  \<^verbatim>\<open>Create\<close> up to the last statement, \<^verbatim>\<open>bOpen = true\<close>: once the stream is started, the callback runs on another
  thread and may come in between.
\<close>

definition Create_start :: "msquic_api \<Rightarrow> MsQuicStream res" where
  "Create_start api =
     res_bind (CHECK_QUIC api StreamOpen new_MsQuicStream) (\<lambda>s.
     res_bind (CHECK_QUIC api (StreamReceiveSetEnabled False) (s\<lparr>hStream := True\<rparr>)) (\<lambda>s.
       CHECK_QUIC api StreamStart s))"

definition Create_end :: "MsQuicStream \<Rightarrow> MsQuicStream" where
  "Create_end s = s\<lparr>bOpen := True\<rparr>"

definition stream_Open :: "MsQuicStream \<Rightarrow> MsQuicStream res" where
  "stream_Open s = Openable_Open s"

definition stream_Close :: "msquic_api \<Rightarrow> MsQuicStream \<Rightarrow> MsQuicStream res" where
  "stream_Close api s = (if \<not> hStream s then Inl Check_failed else res_bind (CHECK_QUIC api (StreamShutdown False) s) Openable_Close)"

text \<open>\<^verbatim>\<open>Abort\<close> up to the wait; the wait ends when the promise has a value.\<close>

definition stream_Abort :: "msquic_api \<Rightarrow> MsQuicStream \<Rightarrow> MsQuicStream res" where
  "stream_Abort api s = (if hStream s then res_bind (CHECK_QUIC api (StreamShutdown True) s) Openable_Close else Inr s)"

definition close_ready :: "MsQuicStream \<Rightarrow> bool" where
  "close_ready s \<longleftrightarrow> prom_value (PromiseClose s) \<noteq> None"

text \<open>The destructor, before and after the wait in \<^verbatim>\<open>Abort\<close>.\<close>

definition destroy_start :: "msquic_api \<Rightarrow> MsQuicStream \<Rightarrow> MsQuicStream res" where
  "destroy_start api s = (if IsOpen s then stream_Abort api s else Inr s)"

definition destroy_end :: "MsQuicStream \<Rightarrow> MsQuicStream res" where
  "destroy_end s =
     (let s1 = (if hStream s then (called StreamClose s)\<lparr>hStream := False\<rparr> else s) in
      CHECK (\<not> hStream s1 \<and> \<not> IsOpen s1) s1)"

definition stream_Consume :: "int \<Rightarrow> MsQuicStream \<Rightarrow> MsQuicStream res" where
  "stream_Consume n s = (if \<not> hStream s then Inl Check_failed else Inr (called (StreamReceiveComplete n) s))"

definition EnableRecv :: "msquic_api \<Rightarrow> bool \<Rightarrow> MsQuicStream \<Rightarrow> MsQuicStream res" where
  "EnableRecv api v s = (if \<not> hStream s then Inl Check_failed else CHECK_QUIC api (StreamReceiveSetEnabled v) s)"

definition stream_Write :: "msquic_api \<Rightarrow> u8 list list \<Rightarrow> nat \<Rightarrow> bool \<Rightarrow> MsQuicStream \<Rightarrow> bool \<times> MsQuicStream" where
  "stream_Write api bufs ctx delay s =
     (if \<not> hStream s then (False, s)
      else let c = StreamSend bufs delay ctx in (api (ms_calls s) c, called c s))"

definition SetStreamHandler :: "bool \<Rightarrow> MsQuicStream \<Rightarrow> MsQuicStream" where
  "SetStreamHandler h s = s\<lparr>Observer := h\<rparr>"

section \<open>Events\<close>

datatype stream_event = START_COMPLETE | RECEIVE "u8 list list" | SEND_COMPLETE nat bool | PEER_SEND_SHUTDOWN | PEER_SEND_ABORTED
  | PEER_RECEIVE_ABORTED | SEND_SHUTDOWN_COMPLETE | SHUTDOWN_COMPLETE | IDEAL_SEND_BUFFER_SIZE | PEER_ACCEPTED

text \<open>A call of a method of the handler, through a pointer that may be null.\<close>

definition observe :: "stream_call \<Rightarrow> MsQuicStream \<Rightarrow> MsQuicStream res" where
  "observe c s = (if Observer s then Inr (called c s) else Inl Undefined_behaviour)"

text \<open>The case \<^verbatim>\<open>SHUTDOWN_COMPLETE\<close> up to the call of the handler.\<close>

definition shutdown_status :: "MsQuicStream \<Rightarrow> MsQuicStream res" where
  "shutdown_status s =
     (if \<not> IsOpen s then res_bind (SetOpenStatus QUIC_STATUS_ABORTED s) (SetCloseStatus QUIC_STATUS_ABORTED)
      else SetCloseStatus QUIC_STATUS_SUCCESS s)"

definition EventHandler :: "msquic_api \<Rightarrow> stream_event \<Rightarrow> MsQuicStream \<Rightarrow> (QUIC_STATUS \<times> MsQuicStream) res" where
  "EventHandler api ev s =
     (case ev of
        START_COMPLETE \<Rightarrow> res_bind (SetOpenStatus QUIC_STATUS_SUCCESS s) (\<lambda>s. Inr (QUIC_STATUS_SUCCESS, s))
      | RECEIVE bufs \<Rightarrow>
          if \<not> Observer s then Inr (QUIC_STATUS_SUCCESS, called (Set_TotalBufferLength 0) s)
          else if bufs = [] then Inr (QUIC_STATUS_SUCCESS, s)
          else res_bind (observe (Obs_OnData bufs) s) (\<lambda>s. Inr (QUIC_STATUS_PENDING, s))
      | SEND_COMPLETE ctx cancelled \<Rightarrow> res_bind (observe (Obs_OnWriteComplete ctx cancelled) s) (\<lambda>s. Inr (QUIC_STATUS_SUCCESS, s))
      | PEER_SEND_SHUTDOWN \<Rightarrow> res_bind (CHECK_QUIC api (StreamShutdown False) s) (\<lambda>s. Inr (QUIC_STATUS_SUCCESS, s))
      | SHUTDOWN_COMPLETE \<Rightarrow>
          res_bind (shutdown_status s) (\<lambda>s. res_bind (observe Obs_OnShutdownComplete s) (\<lambda>s. Inr (QUIC_STATUS_SUCCESS, s)))
      | _ \<Rightarrow> Inr (QUIC_STATUS_SUCCESS, s))"

section \<open>The life of a stream\<close>

text \<open>
  What happens to a stream once it is created and has its handler: an event of msquic, which runs the callback, or
  an operation of the code that uses the stream. A callback and an operation are one step each; both
  touch the members that they share (\<^verbatim>\<open>bOpen\<close> and the promises) through atomic operations.
\<close>

datatype msquic_op = Ev stream_event | Op_Open | Op_Close | Op_Write "u8 list list" nat bool | Op_EnableRecv bool | Op_Consume int

definition stream_do :: "msquic_api \<Rightarrow> msquic_op \<Rightarrow> MsQuicStream \<Rightarrow> MsQuicStream res" where
  "stream_do api op s =
     (case op of
        Ev ev \<Rightarrow> res_bind (EventHandler api ev s) (\<lambda>(r, s). Inr s)
      | Op_Open \<Rightarrow> stream_Open s
      | Op_Close \<Rightarrow> stream_Close api s
      | Op_Write bufs ctx delay \<Rightarrow> Inr (snd (stream_Write api bufs ctx delay s))
      | Op_EnableRecv v \<Rightarrow> EnableRecv api v s
      | Op_Consume n \<Rightarrow> stream_Consume n s)"

fun stream_run :: "msquic_api \<Rightarrow> msquic_op list \<Rightarrow> MsQuicStream \<Rightarrow> MsQuicStream res" where
  "stream_run api [] s = Inr s"
| "stream_run api (op # ops) s = res_bind (stream_do api op s) (stream_run api ops)"

text \<open>
  A stream that is ready: accepted from the peer, or created here, in which case \<^verbatim>\<open>START_COMPLETE\<close> may have come
  before \<^verbatim>\<open>Create\<close> was over; then its handler was set.
\<close>

definition ready_stream :: "msquic_api \<Rightarrow> MsQuicStream \<Rightarrow> bool" where
  "ready_stream api s \<longleftrightarrow>
     (\<exists>s0. FromRemotePeer api = Inr s0 \<and> s = SetStreamHandler True s0)
     \<or> (\<exists>s0. Create_start api = Inr s0
          \<and> (s = SetStreamHandler True (Create_end s0) \<or> (\<exists>r s1. EventHandler api START_COMPLETE s0 = Inr (r, s1) \<and> s = SetStreamHandler True (Create_end s1))))"

definition events_of :: "msquic_op list \<Rightarrow> stream_event list" where
  "events_of ops = List.map_filter (\<lambda>op. case op of Ev ev \<Rightarrow> Some ev | _ \<Rightarrow> None) ops"

text \<open>
  What msquic documents of the events of a stream: \<^verbatim>\<open>START_COMPLETE\<close> comes at most once, and nothing comes after
  \<^verbatim>\<open>SHUTDOWN_COMPLETE\<close>. The futures of \<^verbatim>\<open>Open\<close> and \<^verbatim>\<open>Close\<close> can be taken once.
\<close>

definition documented_events :: "MsQuicStream \<Rightarrow> stream_event list \<Rightarrow> bool" where
  "documented_events s evs \<longleftrightarrow>
     count_list evs START_COMPLETE \<le> (if prom_value (PromiseOpen s) = None then 1 else 0) \<and> SHUTDOWN_COMPLETE \<notin> set (butlast evs)"

definition futures_once :: "msquic_op list \<Rightarrow> bool" where
  "futures_once ops \<longleftrightarrow> count_list ops Op_Open \<le> 1 \<and> count_list ops Op_Close \<le> 1"

text \<open>The calls of the handler that an event stands for.\<close>

fun handler_calls :: "stream_event \<Rightarrow> stream_call list" where
  "handler_calls (RECEIVE bufs) = (if bufs = [] then [] else [Obs_OnData bufs])"
| "handler_calls (SEND_COMPLETE ctx cancelled) = [Obs_OnWriteComplete ctx cancelled]"
| "handler_calls SHUTDOWN_COMPLETE = [Obs_OnShutdownComplete]"
| "handler_calls _ = []"

fun is_handler_call :: "stream_call \<Rightarrow> bool" where
  "is_handler_call (Obs_OnData _) = True"
| "is_handler_call (Obs_OnWriteComplete _ _) = True"
| "is_handler_call Obs_OnShutdownComplete = True"
| "is_handler_call _ = False"

text \<open>A call of msquic that is checked and that msquic refuses.\<close>

definition refuses :: "msquic_api \<Rightarrow> bool" where
  "refuses api \<longleftrightarrow> (\<exists>h. \<not> api h (StreamShutdown False)) \<or> (\<exists>h v. \<not> api h (StreamReceiveSetEnabled v))"

definition stream_inv :: "QUIC_STATUS option \<Rightarrow> msquic_op list \<Rightarrow> MsQuicStream \<Rightarrow> bool" where
  "stream_inv po ops s \<longleftrightarrow>
     hStream s \<and> Observer s
     \<and> bOpen s = (SHUTDOWN_COMPLETE \<notin> set (events_of ops))
     \<and> prom_value (PromiseOpen s) = (if START_COMPLETE \<in> set (events_of ops) then Some QUIC_STATUS_SUCCESS else po)
     \<and> prom_value (PromiseClose s) = (if SHUTDOWN_COMPLETE \<in> set (events_of ops) then Some QUIC_STATUS_SUCCESS else None)
     \<and> prom_taken (PromiseOpen s) = (Op_Open \<in> set ops) \<and> prom_taken (PromiseClose s) = (Op_Close \<in> set ops)
     \<and> filter is_handler_call (ms_calls s) = concat (map handler_calls (events_of ops))"

lemma events_of_simps [simp]:
  "events_of [] = []" "events_of (ops @ qs) = events_of ops @ events_of qs" "events_of [Ev ev] = [ev]"
  "events_of (Ev ev # ops) = ev # events_of ops"
  "events_of [Op_Open] = []" "events_of [Op_Close] = []" "events_of [Op_Write b c d] = []" "events_of [Op_EnableRecv v] = []" "events_of [Op_Consume n] = []"
  by (simp_all add: events_of_def List.map_filter_def)

lemmas stream_defs = Create_end_def SetStreamHandler_def shutdown_status_def EventHandler_def observe_def stream_Close_def stream_Open_def
  destroy_start_def destroy_end_def IsOpen_def SetOpenStatus_def SetCloseStatus_def Openable_Close_def Openable_Open_def set_value_def
  get_future_def CHECK_QUIC_def CHECK_def called_def stream_Abort_def close_ready_def EnableRecv_def stream_Consume_def stream_Write_def

lemma ready_stream_inv:
  assumes "ready_stream api s"
  shows "stream_inv (prom_value (PromiseOpen s)) [] s"
  using assms unfolding ready_stream_def
  by (auto simp: FromRemotePeer_def Create_start_def new_MsQuicStream_def new_promise_def stream_inv_def stream_defs split: if_splits)

text \<open>
  One step after the steps \<open>h\<close>: an event is neither a second \<^verbatim>\<open>START_COMPLETE\<close> nor after the end, a future is not taken
  twice. It keeps the invariant, or msquic refused a checked call.
\<close>

definition may_follow :: "QUIC_STATUS option \<Rightarrow> msquic_op list \<Rightarrow> msquic_op \<Rightarrow> bool" where
  "may_follow po h op =
     (case op of
        Ev ev \<Rightarrow> SHUTDOWN_COMPLETE \<notin> set (events_of h) \<and> (ev = START_COMPLETE \<longrightarrow> po = None \<and> START_COMPLETE \<notin> set (events_of h))
      | Op_Open \<Rightarrow> Op_Open \<notin> set h
      | Op_Close \<Rightarrow> Op_Close \<notin> set h
      | _ \<Rightarrow> True)"

lemma stream_event_step:
  assumes "stream_inv po h s" "may_follow po h (Ev ev)"
  shows "(\<exists>t. stream_do api (Ev ev) s = Inr t \<and> stream_inv po (h @ [Ev ev]) t) \<or> stream_do api (Ev ev) s = Inl Check_failed \<and> refuses api"
  using assms by (cases ev) (auto simp: stream_do_def may_follow_def stream_inv_def stream_defs refuses_def)

lemma stream_step:
  assumes "stream_inv po h s" "may_follow po h op"
  shows "(\<exists>t. stream_do api op s = Inr t \<and> stream_inv po (h @ [op]) t) \<or> stream_do api op s = Inl Check_failed \<and> refuses api"
proof (cases op)
  case (Ev ev)
  then show ?thesis using stream_event_step assms by blast
qed (use assms in \<open>auto simp: stream_do_def may_follow_def stream_inv_def stream_defs refuses_def Let_def\<close>)

lemma may_follow_next:
  assumes "documented_events s (events_of (h @ op # ops))" "futures_once (h @ op # ops)" "po = prom_value (PromiseOpen s)"
  shows "may_follow po h op"
  using assms by (cases op) (auto simp: may_follow_def documented_events_def futures_once_def butlast_append count_list_0_iff
    events_of_def List.map_filter_def split: if_splits)

lemma stream_run_inv:
  assumes "stream_inv (prom_value (PromiseOpen s0)) h s" "documented_events s0 (events_of (h @ ops))" "futures_once (h @ ops)"
  shows "(\<exists>t. stream_run api ops s = Inr t \<and> stream_inv (prom_value (PromiseOpen s0)) (h @ ops) t)
    \<or> stream_run api ops s = Inl Check_failed \<and> refuses api"
  using assms
proof (induction ops arbitrary: h s)
  case (Cons op ops)
  have "may_follow (prom_value (PromiseOpen s0)) h op" using may_follow_next Cons.prems(2,3) by blast
  then consider t where "stream_do api op s = Inr t" "stream_inv (prom_value (PromiseOpen s0)) (h @ [op]) t" | "stream_do api op s = Inl Check_failed" "refuses api"
    using stream_step Cons.prems(1) by blast
  then show ?case
  proof cases
    case 1
    then show ?thesis using Cons.IH [of "h @ [op]" t] Cons.prems by simp
  qed simp
qed simp

text \<open>
  C15: From the moment a stream has its handler, for any sequence of events that msquic documents and any operations
  of its user in between (each future taken once): no exception of a promise and no null handler; either msquic
  refused a checked call, or all is done, and then the calls of the handler are those of the events, in order,
  the stream is open and the future of \<^verbatim>\<open>Close\<close> not ready exactly as long as \<^verbatim>\<open>SHUTDOWN_COMPLETE\<close> has not come.
\<close>

theorem stream_events_safe:
  assumes "ready_stream api s" "documented_events s (events_of ops)" "futures_once ops"
  shows "(\<exists>t. stream_run api ops s = Inr t
      \<and> filter is_handler_call (ms_calls t) = concat (map handler_calls (events_of ops))
      \<and> (IsOpen t \<longleftrightarrow> SHUTDOWN_COMPLETE \<notin> set (events_of ops))
      \<and> (close_ready t \<longleftrightarrow> SHUTDOWN_COMPLETE \<in> set (events_of ops)))
    \<or> stream_run api ops s = Inl Check_failed \<and> refuses api"
  using stream_run_inv [of s "[]" s ops api] ready_stream_inv [OF assms(1)] assms(2,3)
  by (auto simp: stream_inv_def IsOpen_def close_ready_def)

text \<open>
  C18: The destructor of such a stream: after the end it gives the handle back, and does nothing else. Before the
  end, when \<^verbatim>\<open>Close\<close> was not called and msquic accepts the abort, it waits, the callback of \<^verbatim>\<open>SHUTDOWN_COMPLETE\<close> ends
  the wait, and then the handle is given back. When \<^verbatim>\<open>Close\<close> was called and the stream has not ended, it throws (which
  ends the process, as destructors may not throw).
\<close>

theorem stream_destroyed:
  assumes "ready_stream api s" "documented_events s (events_of ops)" "futures_once ops" "stream_run api ops s = Inr t"
  shows "if SHUTDOWN_COMPLETE \<in> set (events_of ops)
      then destroy_start api t = Inr t \<and> (\<exists>u. destroy_end t = Inr u \<and> ms_calls u = ms_calls t @ [StreamClose] \<and> \<not> hStream u)
      else api (ms_calls t) (StreamShutdown True) \<longrightarrow>
        (if Op_Close \<in> set ops then destroy_start api t = Inl (Std_exception ''future_already_retrieved'')
         else \<exists>u v w. destroy_start api t = Inr u \<and> \<not> close_ready u \<and> EventHandler api SHUTDOWN_COMPLETE u = Inr (QUIC_STATUS_SUCCESS, v) \<and> close_ready v
           \<and> destroy_end v = Inr w \<and> ms_calls w = ms_calls t @ [StreamShutdown True, Obs_OnShutdownComplete, StreamClose] \<and> \<not> hStream w)"
proof -
  have "stream_inv (prom_value (PromiseOpen s)) ops t"
    using stream_run_inv [of s "[]" s ops api] ready_stream_inv [OF assms(1)] assms(2-4) by auto
  then show ?thesis by (auto simp: stream_inv_def stream_defs Let_def)
qed

text \<open>The end of the stream, or of a write, without a handler is a call through a null pointer.\<close>

theorem no_handler_undefined:
  assumes "\<not> Observer s"
  shows "EventHandler api (SEND_COMPLETE ctx cancelled) s = Inl Undefined_behaviour
    \<and> (shutdown_status s = Inr t \<longrightarrow> EventHandler api SHUTDOWN_COMPLETE s = Inl Undefined_behaviour)"
proof -
  have "Observer t = Observer s" if "shutdown_status s = Inr t" for t
    using that by (auto simp: shutdown_status_def SetOpenStatus_def SetCloseStatus_def IsOpen_def set_value_def split: if_splits)
  then show ?thesis using assms by (auto simp: EventHandler_def observe_def)
qed

definition ex_msquic :: msquic_api where
  "ex_msquic h c = (c \<noteq> StreamReceiveSetEnabled True)"

definition ex_stream :: MsQuicStream where
  "ex_stream = SetStreamHandler True ((called SetCallbackHandler (called (StreamReceiveSetEnabled False) (new_MsQuicStream\<lparr>hStream := True\<rparr>)))\<lparr>bOpen := True\<rparr>)"

definition ex_stream_ops :: "msquic_op list" where
  "ex_stream_ops = [Op_Write [[1, 2]] 7 False, Ev (RECEIVE [[3]]), Op_Consume 1, Op_Close, Ev (SEND_COMPLETE 7 False), Ev SHUTDOWN_COMPLETE]"

lemma ex_stream_ready: "ready_stream ex_msquic ex_stream"
  by (simp add: ready_stream_def FromRemotePeer_def ex_msquic_def ex_stream_def CHECK_QUIC_def CHECK_def)

lemma ex_stream_legal: "documented_events ex_stream (events_of ex_stream_ops) \<and> futures_once ex_stream_ops"
  by (simp add: documented_events_def futures_once_def ex_stream_ops_def ex_stream_def SetStreamHandler_def called_def new_MsQuicStream_def new_promise_def
    events_of_def List.map_filter_def)

lemma ex_stream_runs: "\<exists>t. stream_run ex_msquic ex_stream_ops ex_stream = Inr t"
  by (simp add: ex_stream_ops_def ex_stream_def stream_do_def stream_defs ex_msquic_def new_MsQuicStream_def new_promise_def Let_def)

theorem stream_events_safe_witness:
  "\<exists>t. stream_run ex_msquic ex_stream_ops ex_stream = Inr t \<and> close_ready t
    \<and> filter is_handler_call (ms_calls t) = [Obs_OnData [[3]], Obs_OnWriteComplete 7 False, Obs_OnShutdownComplete]"
proof -
  obtain t where "stream_run ex_msquic ex_stream_ops ex_stream = Inr t" using ex_stream_runs by blast
  then show ?thesis using stream_events_safe [OF ex_stream_ready, of ex_stream_ops] ex_stream_legal
    by (auto simp: ex_stream_ops_def events_of_def List.map_filter_def)
qed

theorem stream_destroyed_witness:
  "\<exists>t u. stream_run ex_msquic ex_stream_ops ex_stream = Inr t \<and> destroy_start ex_msquic t = Inr t \<and> destroy_end t = Inr u \<and> \<not> hStream u"
proof -
  obtain t where "stream_run ex_msquic ex_stream_ops ex_stream = Inr t" using ex_stream_runs by blast
  then show ?thesis using stream_destroyed [OF ex_stream_ready, of ex_stream_ops t] ex_stream_legal
    by (auto simp: ex_stream_ops_def events_of_def List.map_filter_def)
qed

end
