(* ===== verification/FTL_QuicUniverse.thy ===== *)
theory FTL_QuicUniverse
  imports FTL_MsQuic FTL_URI "HOL-Library.Signed_Division"
begin

text \<open>
  QUIC connections and their owner (\<^verbatim>\<open>quic/src/msquic/connection.cpp\<close>, \<^verbatim>\<open>quic/src/quic_universe.cpp\<close>, \<^verbatim>\<open>quic/src/proxy.cpp\<close>):
  accepting and opening connections, the callback for their events, the list of connections and its end
  in the destructor, and the writes of the proxy client.

  A connection is reached by its handle, a number; \<open>cn_self\<close> is the reference the object holds to itself.
  Calls of msquic and the creation of peers are recorded. The values of the statistics of a connection are left out.
\<close>

section \<open>Connections\<close>

datatype conn_observer = No_observer | Observer_universe | Observer_proxy

record MsQuicConnection =
  cn_closed :: bool
  cn_observer :: conn_observer
  cn_self :: bool

datatype conn_event = CONNECTED | SHUTDOWN_INITIATED_BY_TRANSPORT | SHUTDOWN_INITIATED_BY_PEER | CONNECTION_SHUTDOWN_COMPLETE
  | PEER_STREAM_STARTED bool | PEER_CERTIFICATE_RECEIVED | OTHER_CONNECTION_EVENT

datatype quic_act = ConnectionOpen nat | ConnectionShutdown nat bool | ConnectionClose nat | New_peer nat | RefreshStatistics nat

record QuicUniverseImpl =
  Connections :: "nat list"
  conn_heap :: "nat \<rightharpoonup> MsQuicConnection"
  IsClosing :: bool
  MsQuicCtr :: int
  MsQuic_valid :: bool
  quic_acts :: "quic_act list"

definition act :: "quic_act \<Rightarrow> QuicUniverseImpl \<Rightarrow> QuicUniverseImpl" where
  "act a u = u\<lparr>quic_acts := quic_acts u @ [a]\<rparr>"

text \<open>Access through the pointer to a connection, which has no meaning once the connection is destroyed.\<close>

definition with_conn :: "nat \<Rightarrow> QuicUniverseImpl \<Rightarrow> (MsQuicConnection \<Rightarrow> 'r res) \<Rightarrow> 'r res" where
  "with_conn c u f = (case conn_heap u c of None \<Rightarrow> Inl Undefined_behaviour | Some k \<Rightarrow> f k)"

definition set_conn :: "nat \<Rightarrow> MsQuicConnection \<Rightarrow> QuicUniverseImpl \<Rightarrow> QuicUniverseImpl" where
  "set_conn c k u = u\<lparr>conn_heap := (conn_heap u)(c \<mapsto> k)\<rparr>"

text \<open>\<open>ok\<close>: the calls of msquic that are checked by \<^verbatim>\<open>CHECK_QUIC\<close> succeed.\<close>

definition Conn_Accept :: "bool \<Rightarrow> nat \<Rightarrow> QuicUniverseImpl \<Rightarrow> QuicUniverseImpl res" where
  "Conn_Accept ok c u = CHECK ok (set_conn c \<lparr>cn_closed = False, cn_observer = No_observer, cn_self = True\<rparr> u)"

definition Conn_Connect :: "bool \<Rightarrow> conn_observer \<Rightarrow> nat \<Rightarrow> QuicUniverseImpl \<Rightarrow> QuicUniverseImpl res" where
  "Conn_Connect ok obs c u = CHECK ok (act (ConnectionOpen c) (set_conn c \<lparr>cn_closed = False, cn_observer = obs, cn_self = True\<rparr> u))"

text \<open>\<^verbatim>\<open>EnableStatistics\<close> asks for the address of the peer, with a check; the names for the profiler are left out.\<close>

definition EnableStatistics :: "bool \<Rightarrow> QuicUniverseImpl \<Rightarrow> QuicUniverseImpl res" where
  "EnableStatistics ok u = CHECK ok u"

definition SetConnectionObserver :: "conn_observer \<Rightarrow> nat \<Rightarrow> QuicUniverseImpl \<Rightarrow> QuicUniverseImpl res" where
  "SetConnectionObserver obs c u =
     with_conn c u (\<lambda>k. CHECK (cn_observer k = No_observer) (set_conn c (k\<lparr>cn_observer := obs\<rparr>) u))"

definition Conn_shutdown :: "bool \<Rightarrow> nat \<Rightarrow> QuicUniverseImpl \<Rightarrow> QuicUniverseImpl res" where
  "Conn_shutdown silent c u =
     with_conn c u (\<lambda>k. if cn_closed k then Inr u else Inr (act (ConnectionShutdown c silent) (set_conn c (k\<lparr>cn_closed := True\<rparr>) u)))"

definition Conn_Close :: "nat \<Rightarrow> QuicUniverseImpl \<Rightarrow> QuicUniverseImpl res" where
  "Conn_Close c u = Conn_shutdown False c u"

section \<open>The owner\<close>

text \<open>The server passes a new connection on, which it has accepted.\<close>

definition OnConnection :: "nat \<Rightarrow> QuicUniverseImpl \<Rightarrow> QuicUniverseImpl res" where
  "OnConnection c u =
     (if IsClosing u then Inr u
      else res_bind (SetConnectionObserver Observer_universe c u) (\<lambda>u1. Inr (u1\<lparr>Connections := Connections u1 @ [c]\<rparr>)))"

definition Server_new_connection :: "bool \<Rightarrow> nat \<Rightarrow> QuicUniverseImpl \<Rightarrow> QuicUniverseImpl res" where
  "Server_new_connection ok c u = res_bind (Conn_Accept ok c u) (OnConnection c)"

text \<open>\<^verbatim>\<open>erase(remove_if(...))\<close> with one iterator: for a connection that is not in the list it is the end of the list.\<close>

definition OnDisconnect :: "nat \<Rightarrow> QuicUniverseImpl \<Rightarrow> QuicUniverseImpl res" where
  "OnDisconnect c u = (if c \<in> set (Connections u) then Inr (u\<lparr>Connections := remove1 c (Connections u)\<rparr>) else Inl Undefined_behaviour)"

text \<open>\<open>room\<close>: the table of peers has a free slot; otherwise \<^verbatim>\<open>insertPeer_\<close> throws.\<close>

definition OnStreamCreate :: "bool \<Rightarrow> nat \<Rightarrow> QuicUniverseImpl \<Rightarrow> QuicUniverseImpl res" where
  "OnStreamCreate room c u = (if room then Inr (act (New_peer c) u) else Inl (FTL_Error ''Too many connections''))"

definition CanOpenUri :: "URI \<Rightarrow> bool" where
  "CanOpenUri uri \<longleftrightarrow> m_proto uri = SCHEME_FTL_QUIC \<or> m_proto uri = SCHEME_PROXY"

text \<open>
  \<^verbatim>\<open>Connect\<close>: the result is the connection of the new peer (\<open>No_peer\<close>: a null pointer instead of a peer; a peer opened
  through the proxy has no connection). The stream of the peer is made by \<open>Create_start\<close> and \<open>Create_end\<close>. \<open>proxy\<close>: whether there is a proxy and it opens a stream.
\<close>

datatype quic_peer_ptr = No_peer | Peer_on nat | Peer_via_proxy

definition quic_Connect :: "bool \<Rightarrow> bool option \<Rightarrow> nat \<Rightarrow> URI \<Rightarrow> QuicUniverseImpl \<Rightarrow> (quic_peer_ptr \<times> QuicUniverseImpl) res" where
  "quic_Connect ok proxy c uri u =
     (if IsClosing u then Inr (No_peer, u)
      else if m_proto uri = SCHEME_PROXY then Inr (if proxy = Some True then Peer_via_proxy else No_peer, u)
      else if m_proto uri = SCHEME_FTL_QUIC then
        res_bind (Conn_Connect ok Observer_universe c u) (\<lambda>u1. Inr (Peer_on c, u1\<lparr>Connections := Connections u1 @ [c]\<rparr>))
      else Inr (No_peer, u))"

text \<open>The constructor and the destructor; \<open>MsQuicCtr\<close> and \<open>MsQuic_valid\<close> are shared by all objects of the class.\<close>

definition quic_Unload :: "bool \<Rightarrow> QuicUniverseImpl \<Rightarrow> QuicUniverseImpl" where
  "quic_Unload force u = (if MsQuic_valid u \<and> (force \<or> MsQuicCtr u = 0) then u\<lparr>MsQuic_valid := False\<rparr> else u)"

definition new_QuicUniverse :: "bool \<Rightarrow> int \<Rightarrow> bool \<Rightarrow> QuicUniverseImpl res" where
  "new_QuicUniverse opens ctr valid =
     (let u = \<lparr>Connections = [], conn_heap = Map.empty, IsClosing = False, MsQuicCtr = ctr + 1, MsQuic_valid = valid, quic_acts = []\<rparr> in
      if ctr = 0 then CHECK opens (u\<lparr>MsQuic_valid := True\<rparr>) else Inr u)"

fun close_all :: "nat list \<Rightarrow> QuicUniverseImpl \<Rightarrow> QuicUniverseImpl res" where
  "close_all [] u = Inr u"
| "close_all (c # cs) u = res_bind (Conn_Close c u) (close_all cs)"

definition quic_destroy_start :: "QuicUniverseImpl \<Rightarrow> QuicUniverseImpl res" where
  "quic_destroy_start u = close_all (Connections u) (u\<lparr>IsClosing := True\<rparr>)"

definition quic_destroy_end :: "QuicUniverseImpl \<Rightarrow> QuicUniverseImpl" where
  "quic_destroy_end u = quic_Unload False (u\<lparr>MsQuicCtr := MsQuicCtr u - 1\<rparr>)"

section \<open>Events of a connection\<close>

text \<open>The observer is called through a pointer that may be null; that of the proxy does nothing at the end.\<close>

definition observer_OnDisconnect :: "nat \<Rightarrow> QuicUniverseImpl \<Rightarrow> QuicUniverseImpl res" where
  "observer_OnDisconnect c u =
     with_conn c u (\<lambda>k. case cn_observer k of
        No_observer \<Rightarrow> Inl Undefined_behaviour | Observer_universe \<Rightarrow> OnDisconnect c u | Observer_proxy \<Rightarrow> Inr u)"

text \<open>\<^verbatim>\<open>Self.reset()\<close>: the last reference, unless the connection is still in the list; its destructor closes the handle.\<close>

definition reset_self :: "nat \<Rightarrow> QuicUniverseImpl \<Rightarrow> QuicUniverseImpl res" where
  "reset_self c u =
     with_conn c u (\<lambda>k.
       if c \<in> set (Connections u) then Inr (set_conn c (k\<lparr>cn_self := False\<rparr>) u)
       else Inr (act (ConnectionClose c) (u\<lparr>conn_heap := (conn_heap u)(c := None)\<rparr>)))"

text \<open>\<open>ok\<close>: for \<^verbatim>\<open>CONNECTED\<close> the checked call succeeds, for a new stream the table of peers has room.\<close>

definition Conn_EventHandler :: "bool \<Rightarrow> nat \<Rightarrow> conn_event \<Rightarrow> QuicUniverseImpl \<Rightarrow> QuicUniverseImpl res" where
  "Conn_EventHandler ok c ev u =
     with_conn c u (\<lambda>k.
       case ev of
         CONNECTED \<Rightarrow> res_bind (EnableStatistics ok u) (\<lambda>u. let u1 = act (RefreshStatistics c) u in
           if cn_observer k \<noteq> No_observer then Inr u1 else Conn_shutdown True c u1)
       | CONNECTION_SHUTDOWN_COMPLETE \<Rightarrow> res_bind (observer_OnDisconnect c u) (reset_self c)
       | PEER_STREAM_STARTED unidirectional \<Rightarrow>
           if unidirectional then Inl Check_failed
           else if cn_observer k = No_observer then Inl Undefined_behaviour
           else OnStreamCreate ok c u
       | PEER_CERTIFICATE_RECEIVED \<Rightarrow> if cn_observer k = No_observer then Inl Undefined_behaviour else Inr u
       | _ \<Rightarrow> Inr u)"

section \<open>A peer and its connection\<close>

text \<open>
  The operations of \<^verbatim>\<open>QuicPeerStream\<close> that use the wrappers directly. The peer has a plain pointer to its connection,
  null for a peer through the proxy; \<open>rtt\<close> is the value of \<^verbatim>\<open>GetRtt\<close>. \<^verbatim>\<open>set_stream\<close>, after its wait for the receive worker,
  gives the old stream, of which the assignment starts the destructor, and the new one.
\<close>

definition quic_peer_start :: "msquic_api \<Rightarrow> MsQuicStream \<Rightarrow> MsQuicStream res" where
  "quic_peer_start api s = EnableRecv api True s"

definition quic_peer_getRtt :: "(nat \<Rightarrow> int) \<Rightarrow> nat option \<Rightarrow> QuicUniverseImpl \<Rightarrow> int res" where
  "quic_peer_getRtt rtt conn u = (case conn of None \<Rightarrow> Inl Undefined_behaviour | Some c \<Rightarrow> with_conn c u (\<lambda>k. Inr (rtt c sdiv 1000)))"

definition quic_peer_periodic :: "nat option \<Rightarrow> QuicUniverseImpl \<Rightarrow> QuicUniverseImpl res" where
  "quic_peer_periodic conn u = (case conn of None \<Rightarrow> Inl Undefined_behaviour | Some c \<Rightarrow> with_conn c u (\<lambda>k. Inr (act (RefreshStatistics c) u)))"

definition quic_peer_set_stream :: "msquic_api \<Rightarrow> MsQuicStream option \<Rightarrow> MsQuicStream option \<Rightarrow> (MsQuicStream option \<times> MsQuicStream) res" where
  "quic_peer_set_stream api old new =
     res_bind (case old of None \<Rightarrow> Inr None
         | Some s \<Rightarrow> res_bind (EnableRecv api False s) (\<lambda>s. res_bind (destroy_start api s) (\<lambda>s. Inr (Some s)))) (\<lambda>old'.
       case new of
         None \<Rightarrow> Inl Undefined_behaviour
       | Some s \<Rightarrow> res_bind (EnableRecv api True (SetStreamHandler True s)) (\<lambda>s'. Inr (old', s')))"

section \<open>Writes of the proxy client\<close>

text \<open>
  \<^verbatim>\<open>Writer\<close>: \<open>pw_buffers\<close> are the identities (addresses) of the elements of \<^verbatim>\<open>mBuffers\<close> with their promises. \<^verbatim>\<open>Write\<close> up to
  the call of msquic, and its last statement, which reads the promise through the reference to the element;
  the callback may come in between.
\<close>

record proxy_writer =
  pw_buffers :: "(nat \<times> promise) list"
  pw_next :: nat

definition Writer_Write_start :: "proxy_writer \<Rightarrow> nat \<times> proxy_writer" where
  "Writer_Write_start w = (pw_next w, w\<lparr>pw_buffers := pw_buffers w @ [(pw_next w, new_promise)], pw_next := pw_next w + 1\<rparr>)"

definition Writer_Write_end :: "nat \<Rightarrow> proxy_writer \<Rightarrow> proxy_writer res" where
  "Writer_Write_end a w =
     (case map_of (pw_buffers w) a of
        None \<Rightarrow> Inl Undefined_behaviour
      | Some p \<Rightarrow> res_bind (get_future p) (\<lambda>p'. Inr (w\<lparr>pw_buffers := map (\<lambda>(b, q). if b = a then (b, p') else (b, q)) (pw_buffers w)\<rparr>)))"

definition Writer_OnWriteComplete :: "nat \<Rightarrow> proxy_writer \<Rightarrow> proxy_writer res" where
  "Writer_OnWriteComplete a w =
     (case pw_buffers w of
        [] \<Rightarrow> Inl Undefined_behaviour
      | (b, p) # bs \<Rightarrow> if b \<noteq> a then Inl Check_failed else res_bind (set_value QUIC_STATUS_SUCCESS p) (\<lambda>_. Inr (w\<lparr>pw_buffers := bs\<rparr>)))"

section \<open>The connections of an owner\<close>

text \<open>
  The callbacks of msquic, calls of \<^verbatim>\<open>Connect\<close> and the destructor (before and after its wait), each under
  \<^verbatim>\<open>ConnectionMtx\<close>. What msquic documents: a handle is new, \<^verbatim>\<open>SHUTDOWN_COMPLETE\<close> is the last event of a connection, and
  there are no unidirectional streams, as the settings do not allow them. No connection is accepted once
  the destructor has closed the listeners.
\<close>

datatype own_event = Q_accept nat bool | Q_connect nat bool | Q_event nat conn_event bool | Q_destroy | Q_destroyed

record owner =
  qu :: QuicUniverseImpl
  opened :: "nat list"
  ended :: "nat list"
  own_over :: bool

definition owner_of :: "QuicUniverseImpl \<Rightarrow> owner" where
  "owner_of u = \<lparr>qu = u, opened = [], ended = [], own_over = False\<rparr>"

definition quic_uri :: URI where
  "quic_uri = empty_URI\<lparr>m_proto := SCHEME_FTL_QUIC\<rparr>"

definition own_do :: "own_event \<Rightarrow> owner \<Rightarrow> owner res option" where
  "own_do e s =
     (case e of
        Q_accept c ok \<Rightarrow>
          if c \<in> set (opened s) \<or> IsClosing (qu s) then None
          else Some (res_bind (Server_new_connection ok c (qu s)) (\<lambda>u. Inr (s\<lparr>qu := u, opened := opened s @ [c]\<rparr>)))
      | Q_connect c ok \<Rightarrow>
          if c \<in> set (opened s) then None
          else Some (res_bind (quic_Connect ok None c quic_uri (qu s)) (\<lambda>(p, u).
            Inr (case p of Peer_on d \<Rightarrow> s\<lparr>qu := u, opened := opened s @ [d]\<rparr> | _ \<Rightarrow> s\<lparr>qu := u\<rparr>)))
      | Q_event c ev ok \<Rightarrow>
          if c \<notin> set (opened s) \<or> c \<in> set (ended s) \<or> ev = PEER_STREAM_STARTED True then None
          else Some (res_bind (Conn_EventHandler ok c ev (qu s)) (\<lambda>u.
            Inr (s\<lparr>qu := u, ended := (if ev = CONNECTION_SHUTDOWN_COMPLETE then ended s @ [c] else ended s)\<rparr>)))
      | Q_destroy \<Rightarrow> if IsClosing (qu s) then None else Some (res_bind (quic_destroy_start (qu s)) (\<lambda>u. Inr (s\<lparr>qu := u\<rparr>)))
      | Q_destroyed \<Rightarrow>
          if \<not> IsClosing (qu s) \<or> Connections (qu s) \<noteq> [] \<or> own_over s then None
          else Some (Inr (s\<lparr>qu := quic_destroy_end (qu s), own_over := True\<rparr>)))"

fun own_exec :: "own_event list \<Rightarrow> owner \<Rightarrow> owner res option" where
  "own_exec [] s = Some (Inr s)"
| "own_exec (e # es) s = (case own_do e s of None \<Rightarrow> None | Some (Inl x) \<Rightarrow> Some (Inl x) | Some (Inr t) \<Rightarrow> own_exec es t)"

interpretation owner: event_system own_do own_exec
  by unfold_locales simp_all

text \<open>The table of peers has room for the peer of a stream, and msquic does not refuse a call that the code checks.\<close>

definition has_room :: "own_event \<Rightarrow> bool" where
  "has_room e = (case e of Q_accept c ok \<Rightarrow> ok | Q_connect c ok \<Rightarrow> ok | Q_event c ev ok \<Rightarrow> ev \<noteq> CONNECTED \<and> (\<forall>b. ev \<noteq> PEER_STREAM_STARTED b) \<or> ok | _ \<Rightarrow> True)"

definition shutdowns :: "nat \<Rightarrow> QuicUniverseImpl \<Rightarrow> nat" where
  "shutdowns c u = count_list (quic_acts u) (ConnectionShutdown c False) + count_list (quic_acts u) (ConnectionShutdown c True)"

definition owned :: "MsQuicConnection \<Rightarrow> bool" where
  "owned k \<longleftrightarrow> cn_observer k = Observer_universe \<and> cn_self k"

definition owner_inv :: "owner \<Rightarrow> bool" where
  "owner_inv s \<longleftrightarrow> distinct (Connections (qu s)) \<and> set (Connections (qu s)) = set (opened s) - set (ended s)
     \<and> set (ended s) \<subseteq> set (opened s)
     \<and> (\<forall>c. c \<in> set (Connections (qu s)) \<longrightarrow> (\<exists>k. conn_heap (qu s) c = Some k \<and> owned k \<and> shutdowns c (qu s) = (if cn_closed k then 1 else 0)
           \<and> (IsClosing (qu s) \<longrightarrow> cn_closed k)))
     \<and> (\<forall>c. count_list (quic_acts (qu s)) (ConnectionClose c) = (if c \<in> set (ended s) then 1 else 0))
     \<and> (\<forall>c. c \<notin> set (opened s) \<longrightarrow> shutdowns c (qu s) = 0)"

lemma shutdowns_act [simp]:
  "shutdowns c (act a u) = shutdowns c u + (case a of ConnectionShutdown d b \<Rightarrow> if d = c then 1 else 0 | _ \<Rightarrow> 0)"
  by (cases a) (auto simp: shutdowns_def act_def)

lemma shutdowns_simps [simp]:
  "shutdowns c (set_conn d k u) = shutdowns c u" "shutdowns c (u\<lparr>Connections := cs\<rparr>) = shutdowns c u"
  "shutdowns c (u\<lparr>IsClosing := b\<rparr>) = shutdowns c u" "shutdowns c (u\<lparr>conn_heap := h\<rparr>) = shutdowns c u"
  by (simp_all add: shutdowns_def set_conn_def)

lemma act_simps [simp]:
  "Connections (act a u) = Connections u" "conn_heap (act a u) = conn_heap u" "IsClosing (act a u) = IsClosing u"
  "quic_acts (act a u) = quic_acts u @ [a]"
  "Connections (set_conn c k u) = Connections u" "conn_heap (set_conn c k u) = (conn_heap u)(c \<mapsto> k)" "IsClosing (set_conn c k u) = IsClosing u"
  "quic_acts (set_conn c k u) = quic_acts u"
  by (simp_all add: act_def set_conn_def)

text \<open>A new connection joins the list.\<close>

lemma owner_inv_new:
  assumes "owner_inv s" "c \<notin> set (opened s)" "\<not> IsClosing (qu s)"
    "Connections u = Connections (qu s) @ [c]" "conn_heap u = (conn_heap (qu s))(c \<mapsto> k)" "owned k" "\<not> cn_closed k" "IsClosing u = IsClosing (qu s)"
    "\<And>d. shutdowns d u = shutdowns d (qu s)" "\<And>d. count_list (quic_acts u) (ConnectionClose d) = count_list (quic_acts (qu s)) (ConnectionClose d)"
  shows "owner_inv (s\<lparr>qu := u, opened := opened s @ [c]\<rparr>)"
  using assms unfolding owner_inv_def by auto

text \<open>Closing every connection of the list.\<close>

lemma close_all_closes:
  assumes "distinct cs" "\<And>c. c \<in> set cs \<Longrightarrow> \<exists>k. conn_heap u c = Some k \<and> owned k \<and> shutdowns c u = (if cn_closed k then 1 else 0)"
  shows "\<exists>v. close_all cs u = Inr v \<and> Connections v = Connections u \<and> IsClosing v = IsClosing u
    \<and> (\<forall>c. c \<notin> set cs \<longrightarrow> conn_heap v c = conn_heap u c \<and> shutdowns c v = shutdowns c u)
    \<and> (\<forall>c. c \<in> set cs \<longrightarrow> (\<exists>k. conn_heap v c = Some k \<and> owned k \<and> cn_closed k \<and> shutdowns c v = 1))
    \<and> (\<forall>c. count_list (quic_acts v) (ConnectionClose c) = count_list (quic_acts u) (ConnectionClose c))"
  using assms
proof (induction cs arbitrary: u)
  case (Cons c cs)
  obtain k where k: "conn_heap u c = Some k" "owned k" "shutdowns c u = (if cn_closed k then 1 else 0)" using Cons.prems(2) [of c] by auto
  define w where "w = (if cn_closed k then u else act (ConnectionShutdown c False) (set_conn c (k\<lparr>cn_closed := True\<rparr>) u))"
  have w: "Conn_Close c u = Inr w" using k(1) by (simp add: Conn_Close_def Conn_shutdown_def with_conn_def w_def)
  have wc: "\<exists>k. conn_heap w c = Some k \<and> owned k \<and> cn_closed k \<and> shutdowns c w = 1" using k by (auto simp: w_def owned_def)
  have wd: "conn_heap w d = conn_heap u d \<and> shutdowns d w = shutdowns d u" if "d \<noteq> c" for d using that by (simp add: w_def)
  have ws: "Connections w = Connections u" "IsClosing w = IsClosing u"
      "\<And>d. count_list (quic_acts w) (ConnectionClose d) = count_list (quic_acts u) (ConnectionClose d)" by (simp_all add: w_def)
  have "distinct cs" "c \<notin> set cs" using Cons.prems(1) by simp_all
  then have "\<exists>k. conn_heap w d = Some k \<and> owned k \<and> shutdowns d w = (if cn_closed k then 1 else 0)" if "d \<in> set cs" for d
    using Cons.prems(2) [of d] wd [of d] that by (metis list.set_intros(2))
  from Cons.IH [OF \<open>distinct cs\<close> this] obtain v where "close_all cs w = Inr v" "Connections v = Connections w" "IsClosing v = IsClosing w"
      "\<forall>d. d \<notin> set cs \<longrightarrow> conn_heap v d = conn_heap w d \<and> shutdowns d v = shutdowns d w"
      "\<forall>d. d \<in> set cs \<longrightarrow> (\<exists>k. conn_heap v d = Some k \<and> owned k \<and> cn_closed k \<and> shutdowns d v = 1)"
      "\<forall>d. count_list (quic_acts v) (ConnectionClose d) = count_list (quic_acts w) (ConnectionClose d)" by blast
  then show ?case using w wc wd ws \<open>c \<notin> set cs\<close> by (intro exI [of _ v]) auto
qed simp

lemma owner_inv_listed:
  assumes "owner_inv s"
  shows "\<forall>c. c \<in> set (Connections (qu s)) \<longrightarrow> (\<exists>k. conn_heap (qu s) c = Some k \<and> owned k
    \<and> shutdowns c (qu s) = (if cn_closed k then 1 else 0) \<and> (IsClosing (qu s) \<longrightarrow> cn_closed k))"
  using assms unfolding owner_inv_def by (elim conjE)

lemma owner_inv_conn:
  assumes "owner_inv s" "c \<in> set (opened s)" "c \<notin> set (ended s)"
  shows "c \<in> set (Connections (qu s))" "\<exists>k. conn_heap (qu s) c = Some k \<and> owned k \<and> shutdowns c (qu s) = (if cn_closed k then 1 else 0)
    \<and> (IsClosing (qu s) \<longrightarrow> cn_closed k)"
  using assms unfolding owner_inv_def by auto

lemma owner_inv_act:
  assumes "owner_inv s" "\<And>c b. a \<noteq> ConnectionShutdown c b" "\<And>c. a \<noteq> ConnectionClose c"
  shows "owner_inv (s\<lparr>qu := act a (qu s)\<rparr>)"
proof -
  have "shutdowns c (act a (qu s)) = shutdowns c (qu s)" for c using assms(2) by (cases a) auto
  moreover have "count_list (quic_acts (act a (qu s))) (ConnectionClose c) = count_list (quic_acts (qu s)) (ConnectionClose c)" for c
    using assms(3) by simp
  ultimately show ?thesis using assms(1) by (simp add: owner_inv_def)
qed

text \<open>The end of a connection: it leaves the list and is destroyed.\<close>

lemma owner_inv_end:
  assumes inv: "owner_inv s" and c: "c \<in> set (opened s)" "c \<notin> set (ended s)"
  shows "\<exists>u. Conn_EventHandler room c CONNECTION_SHUTDOWN_COMPLETE (qu s) = Inr u \<and> owner_inv (s\<lparr>qu := u, ended := ended s @ [c]\<rparr>)"
proof -
  let ?cs = "remove1 c (Connections (qu s))"
  let ?u = "act (ConnectionClose c) ((qu s)\<lparr>Connections := ?cs, conn_heap := (conn_heap (qu s))(c := None)\<rparr>)"
  obtain k where k: "conn_heap (qu s) c = Some k" "owned k" using owner_inv_conn(2) [OF inv c] by blast
  have m: "c \<in> set (Connections (qu s))" "distinct (Connections (qu s))" using owner_inv_conn(1) [OF inv c] inv by (simp_all add: owner_inv_def)
  then have r: "set ?cs = set (Connections (qu s)) - {c}" "distinct ?cs" by simp_all
  then have "Conn_EventHandler room c CONNECTION_SHUTDOWN_COMPLETE (qu s) = Inr ?u"
    using k m(1) by (simp add: Conn_EventHandler_def observer_OnDisconnect_def with_conn_def OnDisconnect_def reset_self_def owned_def)
  moreover have "owner_inv (s\<lparr>qu := ?u, ended := ended s @ [c]\<rparr>)"
    using inv r c unfolding owner_inv_def by auto
  ultimately show ?thesis by blast
qed

lemma owner_accept:
  assumes inv: "owner_inv s" and x: "own_do (Q_accept c True) s = Some x"
  shows "\<exists>t. x = Inr t \<and> owner_inv t"
proof -
  have c: "c \<notin> set (opened s)" "\<not> IsClosing (qu s)" using x by (auto simp: own_do_def split: if_splits)
  let ?k = "\<lparr>cn_closed = False, cn_observer = Observer_universe, cn_self = True\<rparr>"
  let ?acc = "\<lparr>cn_closed = False, cn_observer = No_observer, cn_self = True\<rparr>"
  let ?u = "(set_conn c ?k (set_conn c ?acc (qu s)))\<lparr>Connections := Connections (qu s) @ [c]\<rparr>"
  have "Server_new_connection True c (qu s) = Inr ?u"
    using c by (simp add: Server_new_connection_def OnConnection_def SetConnectionObserver_def with_conn_def Conn_Accept_def CHECK_def)
  then have "x = Inr (s\<lparr>qu := ?u, opened := opened s @ [c]\<rparr>)" using x c by (simp add: own_do_def)
  moreover have "owner_inv (s\<lparr>qu := ?u, opened := opened s @ [c]\<rparr>)"
    by (rule owner_inv_new [OF inv c, where k = ?k]) (simp_all add: owned_def)
  ultimately show ?thesis by blast
qed

lemma owner_connect:
  assumes inv: "owner_inv s" and x: "own_do (Q_connect c True) s = Some x"
  shows "\<exists>t. x = Inr t \<and> owner_inv t"
proof -
  have c: "c \<notin> set (opened s)" using x by (auto simp: own_do_def split: if_splits)
  show ?thesis
  proof (cases "IsClosing (qu s)")
    case True
    then show ?thesis using x c inv by (auto simp: own_do_def quic_Connect_def)
  next
    case False
    let ?k = "\<lparr>cn_closed = False, cn_observer = Observer_universe, cn_self = True\<rparr>"
    let ?u = "(act (ConnectionOpen c) (set_conn c ?k (qu s)))\<lparr>Connections := Connections (qu s) @ [c]\<rparr>"
    have "x = Inr (s\<lparr>qu := ?u, opened := opened s @ [c]\<rparr>)" using x c False by (simp add: own_do_def quic_Connect_def Conn_Connect_def CHECK_def quic_uri_def empty_URI_def)
    moreover have "owner_inv (s\<lparr>qu := ?u, opened := opened s @ [c]\<rparr>)"
      by (rule owner_inv_new [OF inv c False, where k = ?k]) (simp_all add: owned_def)
    ultimately show ?thesis by blast
  qed
qed

lemma owner_event:
  assumes inv: "owner_inv s" and ok: "has_room (Q_event c ev room)" and x: "own_do (Q_event c ev room) s = Some x"
  shows "\<exists>t. x = Inr t \<and> owner_inv t"
proof -
  have c: "c \<in> set (opened s)" "c \<notin> set (ended s)" "ev \<noteq> PEER_STREAM_STARTED True" using x by (auto simp: own_do_def split: if_splits)
  obtain k where k: "conn_heap (qu s) c = Some k" "owned k" using owner_inv_conn(2) [OF inv c(1,2)] by blast
  show ?thesis
  proof (cases "ev = CONNECTION_SHUTDOWN_COMPLETE")
    case True
    then show ?thesis using x c owner_inv_end [OF inv c(1,2), of room] by (auto simp: own_do_def)
  next
    case False
    then have "Conn_EventHandler room c ev (qu s) \<in> {Inr (qu s), Inr (act (New_peer c) (qu s)), Inr (act (RefreshStatistics c) (qu s))}"
      using k c(3) ok by (cases ev) (auto simp: Conn_EventHandler_def with_conn_def owned_def OnStreamCreate_def has_room_def EnableStatistics_def CHECK_def)
    then have "x \<in> {Inr s, Inr (s\<lparr>qu := act (New_peer c) (qu s)\<rparr>), Inr (s\<lparr>qu := act (RefreshStatistics c) (qu s)\<rparr>)}" using x c False by (auto simp: own_do_def)
    then show ?thesis using inv owner_inv_act [OF inv, of "New_peer c"] owner_inv_act [OF inv, of "RefreshStatistics c"] by auto
  qed
qed

lemma owner_destroy:
  assumes inv: "owner_inv s" and x: "own_do (Q_destroy) s = Some x"
  shows "\<exists>t. x = Inr t \<and> owner_inv t"
proof -
  let ?u = "(qu s)\<lparr>IsClosing := True\<rparr>"
  have c: "\<not> IsClosing (qu s)" using x by (auto simp: own_do_def split: if_splits)
  have d: "distinct (Connections (qu s))" using inv by (simp add: owner_inv_def)
  have h: "\<exists>k. conn_heap ?u c = Some k \<and> owned k \<and> shutdowns c ?u = (if cn_closed k then 1 else 0)" if m: "c \<in> set (Connections (qu s))" for c
  proof -
    obtain k where "conn_heap (qu s) c = Some k" "owned k" "shutdowns c (qu s) = (if cn_closed k then 1 else 0)"
      using owner_inv_listed [OF inv, rule_format, OF m] by blast
    then show ?thesis by (intro exI [of _ k]) simp
  qed
  from close_all_closes [OF d h] obtain v where v: "close_all (Connections (qu s)) ?u = Inr v" "Connections v = Connections (qu s)" "IsClosing v"
      "\<forall>c. c \<notin> set (Connections (qu s)) \<longrightarrow> conn_heap v c = conn_heap (qu s) c \<and> shutdowns c v = shutdowns c (qu s)"
      "\<forall>c. c \<in> set (Connections (qu s)) \<longrightarrow> (\<exists>k. conn_heap v c = Some k \<and> owned k \<and> cn_closed k \<and> shutdowns c v = 1)"
      "\<forall>c. count_list (quic_acts v) (ConnectionClose c) = count_list (quic_acts (qu s)) (ConnectionClose c)" by auto
  have "x = Inr (s\<lparr>qu := v\<rparr>)" using x c v(1) by (simp add: own_do_def quic_destroy_start_def)
  moreover have "owner_inv (s\<lparr>qu := v\<rparr>)" using inv v(2-6) unfolding owner_inv_def by auto
  ultimately show ?thesis by blast
qed

lemma owner_step:
  assumes inv: "owner_inv s" and ok: "has_room e" and x: "own_do e s = Some x"
  shows "\<exists>t. x = Inr t \<and> owner_inv t"
proof (cases e)
  case Q_destroyed
  then have "x = Inr (s\<lparr>qu := quic_destroy_end (qu s), own_over := True\<rparr>)" using x by (auto simp: own_do_def split: if_splits)
  then show ?thesis using inv by (simp add: owner_inv_def quic_destroy_end_def quic_Unload_def shutdowns_def)
next
  case (Q_accept c b)
  then show ?thesis using assms owner_accept by (auto simp: has_room_def)
next
  case (Q_connect c b)
  then show ?thesis using assms owner_connect by (auto simp: has_room_def)
qed (use assms owner_event owner_destroy in blast)+

text \<open>
  C14: Under every interleaving, while the table of peers has room and msquic accepts the calls that the code checks, the callbacks of the connections do
  not fail; the list has exactly the connections that have not ended; a connection is destroyed, and its
  handle closed, once, when it ends. The destructor shuts down every connection once, and its wait is over
  exactly when all connections have ended.
\<close>

theorem quic_connections_owned:
  assumes "new_QuicUniverse True ctr valid = Inr u" "list_all has_room es" "own_exec es (owner_of u) = Some x"
  shows "\<exists>s. x = Inr s \<and> distinct (Connections (qu s)) \<and> set (Connections (qu s)) = set (opened s) - set (ended s)
    \<and> (\<forall>c. count_list (quic_acts (qu s)) (ConnectionClose c) = (if c \<in> set (ended s) then 1 else 0))
    \<and> (IsClosing (qu s) \<longrightarrow> (\<forall>c\<in>set (Connections (qu s)). shutdowns c (qu s) = 1)
         \<and> (\<not> own_over s \<longrightarrow> (own_do Q_destroyed s \<noteq> None \<longleftrightarrow> set (opened s) \<subseteq> set (ended s))))"
proof -
  have "owner_inv (owner_of u)"
    using assms(1) by (auto simp: new_QuicUniverse_def Let_def CHECK_def owner_of_def owner_inv_def shutdowns_def split: if_splits)
  then obtain s where s: "x = Inr s" "owner_inv s"
    using owner.exec_invariant [of owner_inv has_room] owner_step assms(2,3) by blast
  have cs: "set (Connections (qu s)) = set (opened s) - set (ended s)" and sh: "\<forall>c\<in>set (Connections (qu s)). IsClosing (qu s) \<longrightarrow> shutdowns c (qu s) = 1"
    using s(2) unfolding owner_inv_def by auto
  have "Connections (qu s) = [] \<longleftrightarrow> set (opened s) \<subseteq> set (ended s)" using cs by (metis Diff_eq_empty_iff set_empty)
  then have "IsClosing (qu s) \<Longrightarrow> \<not> own_over s \<Longrightarrow> own_do Q_destroyed s \<noteq> None \<longleftrightarrow> set (opened s) \<subseteq> set (ended s)" by (simp add: own_do_def)
  then show ?thesis using s cs sh by (auto simp: owner_inv_def)
qed

theorem quic_connections_owned_witness:
  "\<exists>u s. new_QuicUniverse True 0 False = Inr u
    \<and> own_exec [Q_accept 1 True, Q_connect 2 True, Q_event 1 CONNECTED True, Q_destroy, Q_event 2 CONNECTION_SHUTDOWN_COMPLETE True] (owner_of u) = Some (Inr s)
    \<and> Connections (qu s) = [1] \<and> shutdowns 1 (qu s) = 1"
proof -
  let ?es = "[Q_accept 1 True, Q_connect 2 True, Q_event 1 CONNECTED True, Q_destroy, Q_event 2 CONNECTION_SHUTDOWN_COMPLETE True]"
  let ?u = "\<lparr>Connections = [], conn_heap = Map.empty, IsClosing = False, MsQuicCtr = 1, MsQuic_valid = True, quic_acts = []\<rparr>"
  have u: "new_QuicUniverse True 0 False = Inr ?u" by (simp add: new_QuicUniverse_def CHECK_def)
  have "\<exists>s. own_exec ?es (owner_of ?u) = Some (Inr s) \<and> Connections (qu s) = [1] \<and> IsClosing (qu s)"
    by (simp add: own_do_def owner_of_def Server_new_connection_def Conn_Accept_def OnConnection_def SetConnectionObserver_def with_conn_def
      CHECK_def quic_Connect_def quic_uri_def empty_URI_def Conn_Connect_def Conn_EventHandler_def quic_destroy_start_def Conn_Close_def
      Conn_shutdown_def observer_OnDisconnect_def OnDisconnect_def reset_self_def EnableStatistics_def act_def set_conn_def)
  then obtain s where s: "own_exec ?es (owner_of ?u) = Some (Inr s)" "Connections (qu s) = [1]" "IsClosing (qu s)" by blast
  have "shutdowns 1 (qu s) = 1" using quic_connections_owned [OF u _ s(1)] s(2,3) by (simp add: has_room_def)
  then show ?thesis using u s by blast
qed

text \<open>Once a connection has ended, asking its peer for the round trip time, or its periodic call, uses the destroyed connection.\<close>

theorem rtt_after_end:
  assumes "owner_inv s" "c \<in> set (opened s)" "c \<notin> set (ended s)" "Conn_EventHandler room c CONNECTION_SHUTDOWN_COMPLETE (qu s) = Inr u"
  shows "quic_peer_getRtt rtt (Some c) u = Inl Undefined_behaviour \<and> quic_peer_periodic (Some c) u = Inl Undefined_behaviour"
proof -
  obtain k where k: "conn_heap (qu s) c = Some k" "owned k" using owner_inv_conn(2) [OF assms(1-3)] by blast
  have "c \<in> set (Connections (qu s))" "distinct (Connections (qu s))" using owner_inv_conn(1) [OF assms(1-3)] assms(1) by (simp_all add: owner_inv_def)
  then show ?thesis using assms(4) k
    by (auto simp: Conn_EventHandler_def observer_OnDisconnect_def with_conn_def OnDisconnect_def reset_self_def owned_def quic_peer_getRtt_def quic_peer_periodic_def)
qed

text \<open>
  A stream that the other side opens when the table of peers is full throws out of the callback of msquic.
\<close>

theorem quic_stream_no_room:
  assumes "conn_heap u c = Some k" "cn_observer k \<noteq> No_observer"
  shows "Conn_EventHandler False c (PEER_STREAM_STARTED False) u = Inl (FTL_Error ''Too many connections'')"
  using assms by (simp add: Conn_EventHandler_def with_conn_def OnStreamCreate_def)

text \<open>
  A write of the proxy client that completes before \<^verbatim>\<open>Write\<close> takes the future: the element with the promise is gone.
\<close>

theorem proxy_write_race:
  assumes "pw_buffers w = []" "Writer_Write_start w = (a, w1)" "Writer_OnWriteComplete a w1 = Inr w2"
  shows "Writer_Write_end a w2 = Inl Undefined_behaviour"
  using assms by (auto simp: Writer_Write_start_def Writer_OnWriteComplete_def Writer_Write_end_def set_value_def new_promise_def)

end
