(* ===== verification/FTL_PacketManager.thy ===== *)
theory FTL_PacketManager
  imports FTL_Packet "HOL-Library.Multiset"
begin

text \<open>
  The packet manager (\<^verbatim>\<open>streams/packetmanager.cpp\<close>), which hands the packets of a frame to a callback and holds back
  those of later frames, in a ring of 100 packets, until the frame is complete.

  One caller at a time: the tests that \<^verbatim>\<open>submit\<close> repeats under the lock have the same outcome as before. The
  argument of \<^verbatim>\<open>submit\<close> is a reference, to a packet of the caller or to an element of the ring; a packet that is
  moved from keeps its header and loses its data, as does an element that is moved onto itself. The recursion
  carries fuel, and that it ends is a theorem. The calls of the callback are recorded in \<open>handed\<close>.
\<close>

section \<open>State\<close>

definition kMaxBuffer :: nat where "kMaxBuffer = 100"

definition default_PacketPair :: PacketPair where
  "default_PacketPair = (\<lparr>version = 5, timestamp = 0, streamID = 0, frame_number = 0, channel = 0, flags = 0, localTimestamp = 0,
     hint_capability = 0, hint_source_total = 0, retry_count = 0, hint_peerid = 0\<rparr>, default_DataPacket)"

record StreamState =
  ring :: "PacketPair list"
  st_timestamp :: int
  expected :: int
  processed :: int
  readPos :: nat
  writePos :: nat
  bufferedEndFrames :: int
  handed :: "PacketPair list"

definition new_StreamState :: StreamState where
  "new_StreamState = \<lparr>ring = replicate kMaxBuffer default_PacketPair, st_timestamp = -1, expected = -1, processed = 0,
     readPos = 0, writePos = 0, bufferedEndFrames = 0, handed = []\<rparr>"

definition ring_slot :: "nat \<Rightarrow> nat" where
  "ring_slot i = i mod kMaxBuffer"

definition at_pos :: "StreamState \<Rightarrow> nat \<Rightarrow> PacketPair" where
  "at_pos s i = ring s ! ring_slot i"

datatype packet_ref = Given PacketPair | In_ring nat

fun load :: "packet_ref \<Rightarrow> StreamState \<Rightarrow> PacketPair" where
  "load (Given p) s = p"
| "load (In_ring i) s = at_pos s i"

definition moved :: "PacketPair \<Rightarrow> PacketPair" where
  "moved p = (fst p, snd p\<lparr>data := []\<rparr>)"

abbreviation is_end_frame :: "PacketPair \<Rightarrow> bool" where
  "is_end_frame p \<equiv> channel (fst p) = kEndFrame"

abbreviation pkt_time :: "PacketPair \<Rightarrow> int" where
  "pkt_time p \<equiv> timestamp (fst p)"

section \<open>Operations\<close>

definition hand_over :: "PacketPair \<Rightarrow> StreamState \<Rightarrow> StreamState" where
  "hand_over p s = s\<lparr>handed := handed s @ [p]\<rparr>"

text \<open>\<^verbatim>\<open>buffer[wpos % kMaxBuffer] = std::move(packets)\<close>, and the count of buffered ends of frames.\<close>

fun move_out :: "packet_ref \<Rightarrow> StreamState \<Rightarrow> StreamState" where
  "move_out (Given p) s = s"
| "move_out (In_ring i) s = s\<lparr>ring := (ring s)[ring_slot i := moved (at_pos s i)]\<rparr>"

definition add_to_buffer :: "packet_ref \<Rightarrow> StreamState \<Rightarrow> StreamState" where
  "add_to_buffer r s =
     (let p = load r s;
          s1 = s\<lparr>ring := (ring s)[ring_slot (writePos s) := p], writePos := writePos s + 1\<rparr>;
          s2 = move_out r s1 in
      if is_end_frame p then s2\<lparr>bufferedEndFrames := bufferedEndFrames s2 + 1\<rparr> else s2)"

text \<open>The start of the next frame: everything buffered is taken, and the oldest time becomes the current one.\<close>

definition oldest :: "nat \<Rightarrow> nat \<Rightarrow> StreamState \<Rightarrow> int" where
  "oldest a b s = foldl (\<lambda>t i. min t (pkt_time (at_pos s i))) (2 ^ 63 - 1) [a..<b]"

definition next_frame :: "StreamState \<Rightarrow> StreamState" where
  "next_frame s = s\<lparr>readPos := writePos s, st_timestamp := oldest (readPos s) (writePos s) s\<rparr>"

definition note_taken :: "nat \<Rightarrow> StreamState \<Rightarrow> StreamState" where
  "note_taken i s = (if is_end_frame (at_pos s i) then s\<lparr>bufferedEndFrames := bufferedEndFrames s - 1\<rparr> else s)"

text \<open>The loops over the packets taken; the one that discards a frame also frees their data.\<close>

definition free_data :: "nat \<Rightarrow> StreamState \<Rightarrow> StreamState" where
  "free_data i s = s\<lparr>ring := (ring s)[ring_slot i := moved (at_pos s i)]\<rparr>"

primrec resubmit :: "(packet_ref \<Rightarrow> StreamState \<Rightarrow> StreamState option) \<Rightarrow> bool \<Rightarrow> nat list \<Rightarrow> StreamState \<Rightarrow> StreamState option" where
  "resubmit sub free [] s = Some s"
| "resubmit sub free (i # is) s =
     (case sub (In_ring i) (note_taken i s) of
        None \<Rightarrow> None
      | Some s' \<Rightarrow> resubmit sub free is (if free then free_data i s' else s'))"

definition reset_frame :: "StreamState \<Rightarrow> StreamState" where
  "reset_frame s = s\<lparr>processed := 0, expected := -1\<rparr>"

definition take_buffer :: "(packet_ref \<Rightarrow> StreamState \<Rightarrow> StreamState option) \<Rightarrow> bool \<Rightarrow> StreamState \<Rightarrow> StreamState option" where
  "take_buffer sub free s = resubmit sub free [readPos s..<writePos s] (next_frame (reset_frame s))"

definition process_current :: "PacketPair \<Rightarrow> StreamState \<Rightarrow> StreamState" where
  "process_current p s =
     (let s1 = (if is_end_frame p then s\<lparr>expected := uint (packet_count (snd p))\<rparr> else s);
          s2 = hand_over p s1 in
      s2\<lparr>processed := processed s2 + 1\<rparr>)"

primrec submit :: "nat \<Rightarrow> packet_ref \<Rightarrow> StreamState \<Rightarrow> StreamState option" where
  "submit 0 r s = None"
| "submit (Suc n) r s =
     (let p = load r s in
      if st_timestamp s = pkt_time p then
        (let s1 = process_current p s in
         if processed s1 = expected s1 then
           (if writePos s1 > readPos s1 then take_buffer (submit n) False s1
            else Some ((reset_frame s1)\<lparr>st_timestamp := -1\<rparr>))
         else Some s1)
      else if st_timestamp s > pkt_time p then Some (hand_over p s)
      else if st_timestamp s = -1 then submit n r (s\<lparr>st_timestamp := pkt_time p\<rparr>)
      else
        (let s1 = add_to_buffer r s in
         if bufferedEndFrames s1 > 4 then take_buffer (submit n) True s1 else Some s1))"

text \<open>The manager keeps a state for every frame id; a new one is made when it is first asked for.\<close>

type_synonym PacketManager = "FrameID \<rightharpoonup> StreamState"

definition manager_state :: "FrameID \<Rightarrow> PacketManager \<Rightarrow> StreamState" where
  "manager_state i m = (case m i of Some s \<Rightarrow> s | None \<Rightarrow> new_StreamState)"

definition manager_id :: "PacketPair \<Rightarrow> FrameID" where
  "manager_id p = mk_FrameID (ucast (frameSetID (fst p))) (word_of_int (frameNumber (fst p)))"

definition manager_submit :: "nat \<Rightarrow> PacketPair \<Rightarrow> PacketManager \<Rightarrow> PacketManager option" where
  "manager_submit n p m =
     (case submit n (Given p) (manager_state (manager_id p) m) of None \<Rightarrow> None | Some s \<Rightarrow> Some (m(manager_id p \<mapsto> s)))"

section \<open>The ring as a list\<close>

definition ring_ok :: "StreamState \<Rightarrow> bool" where
  "ring_ok s \<longleftrightarrow> length (ring s) = kMaxBuffer \<and> readPos s \<le> writePos s"

definition ring_waiting :: "StreamState \<Rightarrow> PacketPair list" where
  "ring_waiting s = map (at_pos s) [readPos s..<writePos s]"

abbreviation held :: "StreamState \<Rightarrow> nat" where
  "held s \<equiv> writePos s - readPos s"

lemma ring_slot_less [simp]: "ring_slot i < kMaxBuffer"
  by (simp add: ring_slot_def kMaxBuffer_def)

lemma ring_slot_neq:
  assumes "i < j" "j < i + kMaxBuffer"
  shows "ring_slot i \<noteq> ring_slot j"
proof
  assume "ring_slot i = ring_slot j"
  then have "kMaxBuffer dvd j - i" using assms(1) unfolding ring_slot_def by (metis mod_eq_dvd_iff_nat less_imp_le)
  then show False using assms by (auto dest: dvd_imp_le)
qed

lemma ring_slot_eq_iff: "lo \<le> i \<Longrightarrow> lo \<le> j \<Longrightarrow> i < lo + kMaxBuffer \<Longrightarrow> j < lo + kMaxBuffer \<Longrightarrow> ring_slot i = ring_slot j \<longleftrightarrow> i = j"
  using ring_slot_neq [of i j] ring_slot_neq [of j i] by (cases i j rule: linorder_cases) auto

lemma at_pos_update: "length (ring s) = kMaxBuffer \<Longrightarrow> at_pos (s\<lparr>ring := (ring s)[ring_slot j := p]\<rparr>) i = (if ring_slot i = ring_slot j then p else at_pos s i)"
  by (simp add: at_pos_def nth_list_update)

lemma at_pos_cong [simp]:
  "at_pos (s\<lparr>st_timestamp := t\<rparr>) = at_pos s" "at_pos (s\<lparr>expected := x\<rparr>) = at_pos s" "at_pos (s\<lparr>processed := x\<rparr>) = at_pos s"
  "at_pos (s\<lparr>readPos := n\<rparr>) = at_pos s" "at_pos (s\<lparr>writePos := n\<rparr>) = at_pos s" "at_pos (s\<lparr>bufferedEndFrames := x\<rparr>) = at_pos s"
  "at_pos (s\<lparr>handed := ps\<rparr>) = at_pos s"
  by (simp_all add: at_pos_def fun_eq_iff)

lemmas step_defs = process_current_def hand_over_def reset_frame_def next_frame_def note_taken_def Let_def

lemma step_simps [simp]:
  "at_pos (process_current p s) = at_pos s" "at_pos (hand_over p s) = at_pos s" "at_pos (reset_frame s) = at_pos s"
  "at_pos (next_frame s) = at_pos s" "at_pos (note_taken i s) = at_pos s"
  "ring (process_current p s) = ring s" "ring (hand_over p s) = ring s" "ring (reset_frame s) = ring s" "ring (next_frame s) = ring s"
  "ring (note_taken i s) = ring s"
  "readPos (process_current p s) = readPos s" "readPos (hand_over p s) = readPos s" "readPos (reset_frame s) = readPos s"
  "readPos (next_frame s) = writePos s" "readPos (note_taken i s) = readPos s"
  "writePos (process_current p s) = writePos s" "writePos (hand_over p s) = writePos s" "writePos (reset_frame s) = writePos s"
  "writePos (next_frame s) = writePos s" "writePos (note_taken i s) = writePos s"
  "handed (process_current p s) = handed s @ [p]" "handed (hand_over p s) = handed s @ [p]" "handed (reset_frame s) = handed s"
  "handed (next_frame s) = handed s" "handed (note_taken i s) = handed s"
  "st_timestamp (process_current p s) = st_timestamp s" "st_timestamp (hand_over p s) = st_timestamp s" "st_timestamp (note_taken i s) = st_timestamp s"
  by (simp_all add: step_defs)

lemma ring_waiting_empty: "writePos s \<le> readPos s \<Longrightarrow> ring_waiting s = []"
  by (simp add: ring_waiting_def)

lemma ring_waiting_cong: "at_pos s = at_pos t \<Longrightarrow> readPos s = readPos t \<Longrightarrow> writePos s = writePos t \<Longrightarrow> ring_waiting s = ring_waiting t"
  by (simp add: ring_waiting_def)

lemma ring_ok_cong: "ring s = ring t \<Longrightarrow> readPos s = readPos t \<Longrightarrow> writePos s = writePos t \<Longrightarrow> ring_ok s = ring_ok t"
  by (simp add: ring_ok_def)

lemma ring_ok_step [simp]:
  "ring_ok (process_current p s) = ring_ok s" "ring_ok (hand_over p s) = ring_ok s" "ring_ok (reset_frame s) = ring_ok s"
  "ring_ok (note_taken i s) = ring_ok s" "ring_ok (s\<lparr>st_timestamp := t\<rparr>) = ring_ok s"
  "ring_ok s \<Longrightarrow> ring_ok (next_frame s)"
  by (simp_all add: ring_ok_def)

lemma add_to_buffer_pos [simp]:
  "readPos (add_to_buffer r s) = readPos s" "writePos (add_to_buffer r s) = writePos s + 1"
  "length (ring (add_to_buffer r s)) = length (ring s)" "handed (add_to_buffer r s) = handed s"
  "st_timestamp (add_to_buffer r s) = st_timestamp s"
  by (cases r; simp add: add_to_buffer_def Let_def)+

lemma free_data_pos [simp]:
  "readPos (free_data i s) = readPos s" "writePos (free_data i s) = writePos s"
  "length (ring (free_data i s)) = length (ring s)" "handed (free_data i s) = handed s" "st_timestamp (free_data i s) = st_timestamp s"
  by (simp_all add: free_data_def)

section \<open>Positions only grow\<close>

definition grows :: "StreamState \<Rightarrow> StreamState \<Rightarrow> bool" where
  "grows s s' \<longleftrightarrow> ring_ok s' \<and> readPos s \<le> readPos s' \<and> writePos s \<le> writePos s'"

lemma resubmit_grows:
  assumes sub: "\<And>r s s'. sub r s = Some s' \<Longrightarrow> ring_ok s \<Longrightarrow> grows s s'"
    and "resubmit sub free is s = Some s'" "ring_ok s"
  shows "grows s s'"
  using assms(2,3)
proof (induction "is" arbitrary: s)
  case (Cons i "is")
  then obtain s1 where s1: "sub (In_ring i) (note_taken i s) = Some s1" "resubmit sub free is (if free then free_data i s1 else s1) = Some s'"
    by (auto split: option.splits)
  then have g: "grows s s1" using sub [OF s1(1)] Cons.prems(2) by (simp add: grows_def)
  then have "ring_ok (if free then free_data i s1 else s1)" by (simp add: grows_def ring_ok_def)
  from Cons.IH [OF s1(2) this] g show ?case by (auto simp: grows_def split: if_splits)
qed (simp add: grows_def)

lemma take_buffer_grows_if:
  assumes sub: "\<And>r s s'. sub r s = Some s' \<Longrightarrow> ring_ok s \<Longrightarrow> grows s s'"
    and "take_buffer sub free s = Some s'" "ring_ok s"
  shows "grows s s'"
proof -
  have "grows (next_frame (reset_frame s)) s'"
    by (rule resubmit_grows [of sub free "[readPos s..<writePos s]", OF sub]) (use assms in \<open>simp_all add: take_buffer_def\<close>)
  then show ?thesis using assms(3) by (simp add: grows_def ring_ok_def)
qed

lemma submit_grows: "submit n r s = Some s' \<Longrightarrow> ring_ok s \<Longrightarrow> grows s s'"
proof (induction n arbitrary: r s s')
  case (Suc n)
  have take: "grows t t'" if "take_buffer (submit n) free t = Some t'" "ring_ok t" for free t t'
    using that Suc.IH by (rule take_buffer_grows_if [of "submit n", rotated])
  have ok: "ring_ok (add_to_buffer r s)" using Suc.prems(2) by (simp add: ring_ok_def)
  show ?case
    using Suc.prems Suc.IH [of r "s\<lparr>st_timestamp := pkt_time (load r s)\<rparr>" s'] take [of False "process_current (load r s) s" s']
      take [of True "add_to_buffer r s" s'] ok
    by (auto simp: Let_def grows_def split: if_splits)
qed simp

lemma take_buffer_grows: "take_buffer (submit n) free s = Some s' \<Longrightarrow> ring_ok s \<Longrightarrow> grows s s'"
  by (rule take_buffer_grows_if [of "submit n"]) (auto intro: submit_grows)

section \<open>No packet is lost or repeated\<close>

text \<open>
  \<open>lo\<close>: the oldest position that a loop further out still has to read; \<open>X\<close>: the positions read meanwhile. \<open>ps\<close> is
  what is submitted.
\<close>

definition accounts :: "nat \<Rightarrow> nat set \<Rightarrow> PacketPair list \<Rightarrow> StreamState \<Rightarrow> StreamState \<Rightarrow> bool" where
  "accounts lo X ps s s' \<longleftrightarrow>
     (\<forall>i. lo \<le> i \<and> i < readPos s \<and> i \<notin> X \<longrightarrow> at_pos s' i = at_pos s i)
     \<and> (\<exists>ds. handed s' = handed s @ ds \<and> mset ds + mset (ring_waiting s') = mset (ring_waiting s) + mset ps)"

fun own_pos :: "packet_ref \<Rightarrow> nat set" where
  "own_pos (Given p) = {}"
| "own_pos (In_ring i) = {i}"

definition ref_ok :: "nat \<Rightarrow> packet_ref \<Rightarrow> StreamState \<Rightarrow> bool" where
  "ref_ok lo r s \<longleftrightarrow> (\<forall>i\<in>own_pos r. lo \<le> i \<and> i < readPos s)"

lemma accounts_trans:
  assumes "accounts lo X ps s s1" "accounts lo Y qs s1 s2" "readPos s \<le> readPos s1"
  shows "accounts lo (X \<union> Y) (ps @ qs) s s2"
proof -
  from assms(1,2) obtain ds es where "handed s1 = handed s @ ds" "mset ds + mset (ring_waiting s1) = mset (ring_waiting s) + mset ps"
      "handed s2 = handed s1 @ es" "mset es + mset (ring_waiting s2) = mset (ring_waiting s1) + mset qs" unfolding accounts_def by blast
  then have "handed s2 = handed s @ ds @ es" "mset (ds @ es) + mset (ring_waiting s2) = mset (ring_waiting s) + mset (ps @ qs)"
    by (simp_all add: ac_simps)
  then show ?thesis using assms unfolding accounts_def by (metis UnI1 UnI2 order_less_le_trans)
qed

lemma add_to_buffer_at:
  assumes "ring_ok s" "lo \<le> readPos s" "writePos s < lo + kMaxBuffer" "ref_ok lo r s" "lo \<le> i" "i \<le> writePos s" "i \<notin> own_pos r"
  shows "at_pos (add_to_buffer r s) i = (if i = writePos s then load r s else at_pos s i)"
proof -
  have len: "length (ring s) = kMaxBuffer" and w: "readPos s \<le> writePos s" using assms(1) by (simp_all add: ring_ok_def)
  note eq = ring_slot_eq_iff [of lo]
  show ?thesis
  proof (cases r)
    case (Given p)
    then show ?thesis using assms len w eq [of i "writePos s"] by (auto simp: add_to_buffer_def Let_def at_pos_def nth_list_update)
  next
    case (In_ring j)
    then have j: "lo \<le> j" "j < readPos s" "i \<noteq> j" using assms(4,7) by (simp_all add: ref_ok_def)
    then show ?thesis using In_ring assms len w eq [of i "writePos s"] eq [of i j] eq [of j "writePos s"]
      by (auto simp: add_to_buffer_def Let_def at_pos_def nth_list_update)
  qed
qed

lemma add_to_buffer_accounts:
  assumes "ring_ok s" "lo \<le> readPos s" "writePos s < lo + kMaxBuffer" "ref_ok lo r s"
  shows "accounts lo (own_pos r) [load r s] s (add_to_buffer r s)" "ring_waiting (add_to_buffer r s) = ring_waiting s @ [load r s]"
proof -
  have w: "readPos s \<le> writePos s" using assms(1) by (simp add: ring_ok_def)
  note at = add_to_buffer_at [OF assms]
  have "i \<notin> own_pos r" if "readPos s \<le> i" for i using that assms(4) by (auto simp: ref_ok_def)
  then show wt: "ring_waiting (add_to_buffer r s) = ring_waiting s @ [load r s]"
    using at assms(2) w by (simp add: ring_waiting_def)
  show "accounts lo (own_pos r) [load r s] s (add_to_buffer r s)"
    using at w by (auto simp: accounts_def wt)
qed

lemma free_data_at:
  assumes "ring_ok s" "lo \<le> i" "i < readPos s" "writePos s \<le> lo + kMaxBuffer" "lo \<le> j" "j < writePos s" "i \<noteq> j"
  shows "at_pos (free_data i s) j = at_pos s j"
  using assms ring_slot_eq_iff [of lo i j] by (auto simp: free_data_def at_pos_update ring_ok_def)

lemma free_data_accounts:
  assumes "ring_ok s" "lo \<le> i" "i < readPos s" "writePos s \<le> lo + kMaxBuffer"
  shows "accounts lo {i} [] s (free_data i s)"
proof -
  have "ring_waiting (free_data i s) = ring_waiting s" using assms free_data_at [OF assms] by (simp add: ring_waiting_def)
  then show ?thesis using assms free_data_at [OF assms] by (simp add: accounts_def ring_ok_def)
qed

lemma item_accounts:
  assumes "accounts lo {k} [at_pos s k] (note_taken k s) s1" "grows s s1" "lo \<le> k" "k < readPos s" "writePos s1 \<le> lo + kMaxBuffer"
    and s2: "s2 = (if free then free_data k s1 else s1)"
  shows "accounts lo {k} [at_pos s k] s s2" "ring_ok s2" "readPos s \<le> readPos s2"
proof -
  have "accounts lo {k} [] s1 s2"
    using free_data_accounts [of s1 lo k] assms by (auto simp: grows_def accounts_def)
  moreover have "accounts lo {k} [at_pos s k] s s1" using assms(1) ring_waiting_cong [of "note_taken k s" s] by (simp add: accounts_def)
  ultimately show "accounts lo {k} [at_pos s k] s s2" using accounts_trans [of lo "{k}" _ s s1 "{k}" "[]"] assms(2) by (simp add: grows_def)
  show "ring_ok s2" "readPos s \<le> readPos s2" using assms(2) by (auto simp: s2 grows_def ring_ok_def)
qed

lemma resubmit_accounts:
  assumes sub: "\<And>r s s'. sub r s = Some s' \<Longrightarrow> ring_ok s \<Longrightarrow> lo \<le> readPos s \<Longrightarrow> writePos s' \<le> lo + kMaxBuffer \<Longrightarrow> ref_ok lo r s
      \<Longrightarrow> accounts lo (own_pos r) [load r s] s s'"
    and grow: "\<And>r s s'. sub r s = Some s' \<Longrightarrow> ring_ok s \<Longrightarrow> grows s s'"
    and "resubmit sub free [k..<e] s = Some s'" "ring_ok s" "lo \<le> k" "k \<le> e" "e \<le> readPos s" "writePos s' \<le> lo + kMaxBuffer"
  shows "accounts lo {k..<e} (map (at_pos s) [k..<e]) s s'"
  using assms(3-)
proof (induction "e - k" arbitrary: k s)
  case (Suc n)
  then have ke: "k < e" "[k..<e] = k # [Suc k..<e]" by (simp_all add: upt_conv_Cons)
  with Suc.prems obtain s1 where s1: "sub (In_ring k) (note_taken k s) = Some s1"
      "resubmit sub free [Suc k..<e] (if free then free_data k s1 else s1) = Some s'" by (auto split: option.splits)
  let ?s2 = "if free then free_data k s1 else s1"
  have g1: "grows s s1" using grow [OF s1(1)] Suc.prems by (simp add: grows_def)
  then have "ring_ok ?s2" by (auto simp: grows_def ring_ok_def)
  from resubmit_grows [OF grow s1(2) this] have "grows ?s2 s'" .
  then have w: "writePos s1 \<le> lo + kMaxBuffer" using Suc.prems(6) by (auto simp: grows_def split: if_splits)
  have "accounts lo {k} [at_pos s k] (note_taken k s) s1" using sub [OF s1(1)] Suc.prems ke w by (simp add: ref_ok_def)
  note item = item_accounts [OF this g1 _ _ w refl, of free]
  have a: "accounts lo {k} [at_pos s k] s ?s2" and ok2: "ring_ok ?s2" and g2: "readPos s \<le> readPos ?s2" using item Suc.prems ke by simp_all
  have "accounts lo {Suc k..<e} (map (at_pos ?s2) [Suc k..<e]) ?s2 s'"
    using Suc.hyps(2) Suc.prems ke g2 by (intro Suc.hyps(1) [OF _ s1(2) ok2]) auto
  moreover have "map (at_pos ?s2) [Suc k..<e] = map (at_pos s) [Suc k..<e]"
    using a Suc.prems ke by (auto simp: accounts_def)
  moreover have "{k} \<union> {Suc k..<e} = {k..<e}" using ke by auto
  ultimately show ?case using accounts_trans [OF a, of "{Suc k..<e}" "map (at_pos s) [Suc k..<e]" s'] g2 ke by simp
qed (simp add: accounts_def)

lemma accounts_hand_over:
  assumes "handed s' = handed s @ [p]" "at_pos s' = at_pos s" "readPos s' = readPos s" "writePos s' = writePos s"
  shows "accounts lo X [p] s s'"
  using assms ring_waiting_cong [of s' s] by (simp add: accounts_def)

lemma take_buffer_accounts:
  assumes sub: "\<And>r s s'. submit n r s = Some s' \<Longrightarrow> ring_ok s \<Longrightarrow> lo \<le> readPos s \<Longrightarrow> writePos s' \<le> lo + kMaxBuffer \<Longrightarrow> ref_ok lo r s
      \<Longrightarrow> accounts lo (own_pos r) [load r s] s s'"
    and t: "take_buffer (submit n) free s = Some s'" "ring_ok s" "lo \<le> readPos s" "writePos s' \<le> lo + kMaxBuffer"
  shows "accounts lo {} [] s s'"
proof -
  let ?s = "next_frame (reset_frame s)"
  have "accounts lo {readPos s..<writePos s} (map (at_pos ?s) [readPos s..<writePos s]) ?s s'"
    using t by (intro resubmit_accounts [OF sub submit_grows]) (auto simp: take_buffer_def ring_ok_def)
  moreover have "ring_waiting ?s = []" by (simp add: ring_waiting_def)
  ultimately show ?thesis using t(2) by (simp add: accounts_def ring_ok_def) (simp add: ring_waiting_def)
qed

lemma submit_accounts:
  "submit n r s = Some s' \<Longrightarrow> ring_ok s \<Longrightarrow> lo \<le> readPos s \<Longrightarrow> writePos s' \<le> lo + kMaxBuffer \<Longrightarrow> ref_ok lo r s
    \<Longrightarrow> accounts lo (own_pos r) [load r s] s s'"
proof (induction n arbitrary: r s s')
  case (Suc n)
  let ?p = "load r s" and ?s1 = "process_current (load r s) s" and ?b = "add_to_buffer r s"
  have take: "accounts lo {} [] t t'" if "take_buffer (submit n) free t = Some t'" "ring_ok t" "lo \<le> readPos t" "writePos t' \<le> lo + kMaxBuffer" for free t t'
    using that Suc.IH by (intro take_buffer_accounts [of n lo free t t'])
  note prems = Suc.prems
  consider (current) "st_timestamp s = pkt_time ?p" | (old) "st_timestamp s > pkt_time ?p"
    | (first) "st_timestamp s < pkt_time ?p" "st_timestamp s = -1" | (later) "st_timestamp s < pkt_time ?p" "st_timestamp s \<noteq> -1" by linarith
  then show ?case
  proof cases
    case current
    have a: "accounts lo (own_pos r) [?p] s ?s1" by (rule accounts_hand_over) simp_all
    have "accounts lo {} [] ?s1 s'" if "take_buffer (submit n) False ?s1 = Some s'" using take [OF that] prems by simp
    then have "accounts lo (own_pos r) [?p] s s'" if "take_buffer (submit n) False ?s1 = Some s'"
      using accounts_trans [OF a, of "{}" "[]" s'] that by simp
    moreover have "accounts lo (own_pos r) [?p] s ((reset_frame ?s1)\<lparr>st_timestamp := - 1\<rparr>)" by (rule accounts_hand_over) simp_all
    ultimately show ?thesis using current prems(1) a by (auto simp: Let_def split: if_splits)
  next
    case old
    then show ?thesis using prems(1) by (auto simp: Let_def intro!: accounts_hand_over)
  next
    case first
    let ?t = "s\<lparr>st_timestamp := pkt_time ?p\<rparr>"
    have "load r ?t = ?p" by (cases r) simp_all
    then have "accounts lo (own_pos r) [?p] ?t s'" using first prems Suc.IH [of r ?t s'] by (simp add: Let_def ref_ok_def)
    moreover have "ring_waiting ?t = ring_waiting s" by (rule ring_waiting_cong) simp_all
    ultimately show ?thesis by (simp add: accounts_def)
  next
    case later
    have ok: "ring_ok ?b" using prems(2) by (simp add: ring_ok_def)
    have g: "take_buffer (submit n) True ?b = Some s' \<or> s' = ?b" using prems(1) later by (auto simp: Let_def split: if_splits)
    have "writePos s + 1 \<le> writePos s'"
      using g take_buffer_grows [of n True ?b s'] ok by (auto simp: grows_def)
    then have a: "accounts lo (own_pos r) [?p] s ?b" using prems add_to_buffer_accounts by simp
    show ?thesis using g
    proof
      assume "take_buffer (submit n) True ?b = Some s'"
      then have "accounts lo {} [] ?b s'" using take ok prems by simp
      then show ?thesis using accounts_trans [OF a, of "{}" "[]" s'] by simp
    qed (simp add: a)
  qed
qed simp

text \<open>
  As long as the write position does not overtake the oldest waiting packet by a whole round of the ring, a
  packet submitted, and those waiting, are handed over or waiting afterwards, each once, with their data.
\<close>

theorem submit_conserves:
  assumes "submit n (Given p) s = Some s'" "ring_ok s" "writePos s' \<le> readPos s + kMaxBuffer"
  shows "ring_ok s' \<and> (\<exists>ds. handed s' = handed s @ ds \<and> mset ds + mset (ring_waiting s') = mset (ring_waiting s) + {#p#})"
  using submit_accounts [OF assms(1,2) order_refl assms(3)] submit_grows [OF assms(1,2)]
  by (simp add: ref_ok_def accounts_def grows_def)

section \<open>Submitting ends\<close>

text \<open>
  Taking the buffer can buffer packets again and can be nested. The time that the loop starts with is that of
  a packet in it, which is handed over when the loop gets there; so a nested loop has fewer packets. The
  number of times that packets are buffered again is bounded by the triangular number of the packets.
\<close>

primrec tri :: "nat \<Rightarrow> nat" where
  "tri 0 = 0"
| "tri (Suc n) = Suc n + tri n"

lemma tri_add: "tri (a + b) = tri a + tri b + a * b"
  by (induction a) (simp_all add: algebra_simps)

lemma tri_mono: "a \<le> b \<Longrightarrow> tri a \<le> tri b"
  using tri_add [of a "b - a"] by simp

lemma potential_delivered:
  assumes "P' + tri w' \<le> P + tri w" "w' \<le> w"
  shows "P' + R + tri (R + w') + (R + w + 2) \<le> P + Suc R + tri (Suc R + w)"
proof -
  have "R * w' \<le> R * w" using assms(2) by simp
  then have "P' + (tri w' + R * w') \<le> P + (tri w + R * w)" using assms(1) by linarith
  then show ?thesis by (simp add: tri_add)
qed

lemma potential_pushed:
  assumes "P' + tri w' \<le> P + 1 + tri (w + 1)" "w' \<le> w + 1"
  shows "P' + R + tri (R + w') + R * (w + 1 - w') \<le> P + Suc R + tri (Suc R + w)"
proof -
  have "R * w' + R * (w + 1 - w') = R * (w + 1)" using assms(2) by (simp flip: distrib_left)
  moreover have "tri (Suc R + w) = tri R + tri (w + 1) + R * (w + 1)" using tri_add [of R "w + 1"] by simp
  ultimately show ?thesis using assms(1) by (simp only: tri_add)
qed

lemma foldl_min: "foldl (\<lambda>t i. min t (f i)) x xs = Min (insert x (f ` set xs))" for x :: int
proof (induction xs arbitrary: x)
  case (Cons a xs)
  have "Min (insert (min x (f a)) (f ` set xs)) = Min (insert x (insert (f a) (f ` set xs)))"
    by (cases "f ` set xs = {}") (simp_all add: min.assoc)
  then show ?case using Cons by simp
qed simp

lemma oldest_le: "a \<le> i \<Longrightarrow> i < b \<Longrightarrow> oldest a b s \<le> pkt_time (at_pos s i)"
  unfolding oldest_def foldl_min by (rule Min_le) auto

lemma oldest_in:
  assumes "a < b" "\<forall>i\<in>{a..<b}. pkt_time (at_pos s i) < 2 ^ 63"
  shows "\<exists>i\<in>{a..<b}. pkt_time (at_pos s i) = oldest a b s"
proof -
  let ?T = "(\<lambda>i. pkt_time (at_pos s i)) ` {a..<b}"
  have "Min ?T \<in> ?T" using assms(1) by (intro Min_in) auto
  moreover from this have "Min ?T \<le> 2 ^ 63 - 1" using assms(2) by fastforce
  then have "oldest a b s = Min ?T" using assms(1) by (simp add: oldest_def foldl_min)
  ultimately show ?thesis by auto
qed

definition at_least :: "int \<Rightarrow> StreamState \<Rightarrow> bool" where
  "at_least mn s \<longleftrightarrow> st_timestamp s = -1 \<or> mn \<le> st_timestamp s"

definition in_range :: "int \<Rightarrow> PacketPair \<Rightarrow> bool" where
  "in_range mn p \<longleftrightarrow> mn \<le> pkt_time p \<and> pkt_time p < 2 ^ 63"

definition settles :: "nat \<Rightarrow> bool" where
  "settles n \<longleftrightarrow> (\<forall>f free s lo mn. 2 * n \<le> f \<and> ring_ok s \<and> held s = n \<and> lo \<le> readPos s \<and> writePos s + tri n \<le> lo + kMaxBuffer
       \<and> list_all (in_range mn) (ring_waiting s) \<longrightarrow>
     (\<exists>s'. take_buffer (submit f) free s = Some s' \<and> at_least mn s' \<and> writePos s' + tri (held s') \<le> writePos s + tri n \<and> held s' < n))"

lemma settlesD:
  assumes "settles (held s)" "2 * held s \<le> f" "ring_ok s" "lo \<le> readPos s" "writePos s + tri (held s) \<le> lo + kMaxBuffer" "list_all (in_range mn) (ring_waiting s)"
  shows "\<exists>s'. take_buffer (submit f) free s = Some s' \<and> at_least mn s' \<and> writePos s' + tri (held s') \<le> writePos s + tri (held s) \<and> held s' < held s"
  using assms unfolding settles_def by blast

lemma submit_current:
  assumes "st_timestamp s = pkt_time (load r s)" "0 < held s \<Longrightarrow> settles (held s)" "2 * held s \<le> g"
    and "ring_ok s" "lo \<le> readPos s" "writePos s + tri (held s) \<le> lo + kMaxBuffer" "list_all (in_range mn) (ring_waiting s)" "mn \<le> pkt_time (load r s)"
  shows "\<exists>s'. submit (Suc g) r s = Some s' \<and> at_least mn s' \<and> writePos s' + tri (held s') \<le> writePos s + tri (held s) \<and> held s' \<le> held s"
proof -
  let ?s = "process_current (load r s) s"
  have "ring_waiting ?s = ring_waiting s" by (rule ring_waiting_cong) simp_all
  then have "\<exists>s'. take_buffer (submit g) False ?s = Some s' \<and> at_least mn s' \<and> writePos s' + tri (held s') \<le> writePos s + tri (held s) \<and> held s' < held s"
    if "readPos s < writePos s" using settlesD [of ?s g lo mn False] assms that by simp
  then show ?thesis using assms(1,8) by (auto simp: Let_def at_least_def intro: less_imp_le)
qed

text \<open>One submission: the packet is handed over, or it is later than \<open>mn\<close> and is buffered first.\<close>

definition step_bound :: "int \<Rightarrow> int \<Rightarrow> StreamState \<Rightarrow> StreamState \<Rightarrow> bool" where
  "step_bound mn t s s' \<longleftrightarrow>
     writePos s' + tri (held s') \<le> writePos s + tri (held s) \<and> held s' \<le> held s
     \<or> mn < t \<and> writePos s' + tri (held s') \<le> writePos s + 1 + tri (held s + 1) \<and> held s' \<le> held s + 1"

lemma submit_step:
  assumes s: "ring_ok s" "lo \<le> readPos s" "ref_ok lo r s" "at_least mn s" "list_all (in_range mn) (load r s # ring_waiting s)"
    and now: "0 < held s \<Longrightarrow> settles (held s)" "2 * held s + 2 \<le> f" "writePos s + tri (held s) \<le> lo + kMaxBuffer"
    and later: "mn < pkt_time (load r s) \<Longrightarrow> settles (held s + 1) \<and> 2 * held s + 3 \<le> f \<and> writePos s + 1 + tri (held s + 1) \<le> lo + kMaxBuffer"
  shows "\<exists>s'. submit f r s = Some s' \<and> at_least mn s' \<and> step_bound mn (pkt_time (load r s)) s s'"
proof -
  let ?p = "load r s" and ?b = "add_to_buffer r s" and ?t = "s\<lparr>st_timestamp := pkt_time (load r s)\<rparr>"
  obtain g where f: "f = Suc (Suc g)" "2 * held s \<le> g" using now(2) by (intro that [of "f - 2"]) auto
  have p: "mn \<le> pkt_time ?p" "list_all (in_range mn) (ring_waiting s)" using s(5) by (simp_all add: in_range_def)
  consider (current) "st_timestamp s = pkt_time ?p" | (old) "st_timestamp s > pkt_time ?p"
    | (first) "st_timestamp s < pkt_time ?p" "st_timestamp s = -1" | (later) "st_timestamp s < pkt_time ?p" "st_timestamp s \<noteq> -1" by linarith
  then show ?thesis
  proof cases
    case current
    then show ?thesis using submit_current [of s r "Suc g" lo mn] now s p f by (auto simp: step_bound_def)
  next
    case old
    then show ?thesis using s(4) by (simp add: f step_bound_def at_least_def Let_def)
  next
    case first
    have "load r ?t = ?p" "ring_waiting ?t = ring_waiting s" by (cases r) (simp_all add: ring_waiting_def)
    then have "\<exists>s'. submit (Suc g) r ?t = Some s' \<and> at_least mn s' \<and> writePos s' + tri (held s') \<le> writePos s + tri (held s) \<and> held s' \<le> held s"
      using submit_current [of ?t r g lo mn] now s p f by simp
    moreover have "submit f r s = submit (Suc g) r ?t" unfolding f submit.simps(2) [of "Suc g"] Let_def using first by (simp del: submit.simps)
    ultimately show ?thesis by (auto simp: step_bound_def)
  next
    case later
    then have mn: "mn < pkt_time ?p" using s(4) by (auto simp: at_least_def)
    from assms(9) [OF this] have l: "settles (held s + 1)" "2 * (held s + 1) \<le> Suc g" "writePos s + 1 + tri (held s + 1) \<le> lo + kMaxBuffer" using f by auto
    have w: "ring_waiting ?b = ring_waiting s @ [?p]" using add_to_buffer_accounts(2) [OF s(1,2) _ s(3)] l(3) by simp
    have h: "held ?b = held s + 1" "ring_ok ?b" using s(1) by (auto simp: ring_ok_def)
    have "\<exists>s'. take_buffer (submit (Suc g)) True ?b = Some s' \<and> at_least mn s' \<and> writePos s' + tri (held s') \<le> writePos ?b + tri (held s + 1) \<and> held s' < held s + 1"
      using settlesD [of ?b "Suc g" lo mn True] l h s(2,5) w by simp
    moreover have "submit f r s = (if bufferedEndFrames ?b > 4 then take_buffer (submit (Suc g)) True ?b else Some ?b)"
      unfolding f submit.simps(2) [of "Suc g"] Let_def using later by (simp del: submit.simps)
    ultimately show ?thesis using h(1) s(4) mn by (auto simp: step_bound_def at_least_def)
  qed
qed

text \<open>
  The state of a loop over \<open>n\<close> packets, of which those at \<open>k\<close> to \<open>e - 1\<close> are still to be submitted: either the oldest
  is among them, or there are fewer than \<open>n\<close> packets left.
\<close>

definition resubmit_ok :: "nat \<Rightarrow> nat \<Rightarrow> int \<Rightarrow> nat \<Rightarrow> nat \<Rightarrow> StreamState \<Rightarrow> bool" where
  "resubmit_ok n B mn k e s \<longleftrightarrow>
     (let T = (e - k) + held s; c = writePos s + (e - k) + tri T in
      (\<exists>i\<in>{k..<e}. pkt_time (at_pos s i) = mn) \<and> T \<le> n \<and> c \<le> B + T \<or> T < n \<and> c \<le> B)"

lemma resubmit_ok_room:
  assumes "resubmit_ok n B mn k e s" "k < e"
  shows "held s < n" "writePos s + tri (held s) \<le> B"
    "mn < pkt_time (at_pos s k) \<Longrightarrow> held s + 1 < n \<and> writePos s + 1 + tri (held s + 1) \<le> B"
proof -
  obtain R where R: "e - k = Suc R" using assms(2) by (metis Suc_diff_Suc)
  have t: "tri (Suc R + held s) = Suc R + held s + tri (R + held s)" by simp
  have m: "tri (held s) \<le> tri (R + held s)" "0 < R \<Longrightarrow> tri (held s + 1) \<le> tri (R + held s)" "tri (held s + 1) \<le> tri (Suc R + held s)"
    by (auto intro!: tri_mono simp del: tri.simps)
  have l: "(\<exists>i\<in>{k..<e}. pkt_time (at_pos s i) = mn) \<and> Suc R + held s \<le> n \<and> writePos s + Suc R + tri (Suc R + held s) \<le> B + (Suc R + held s)
      \<or> Suc R + held s < n \<and> writePos s + Suc R + tri (Suc R + held s) \<le> B"
    using assms(1) by (simp only: resubmit_ok_def Let_def R)
  show "held s < n" using l by linarith
  show "writePos s + tri (held s) \<le> B" using l t m(1) by linarith
  assume mn: "mn < pkt_time (at_pos s k)"
  have "0 < R" if "i \<in> {k..<e}" "pkt_time (at_pos s i) = mn" for i using that mn R by (cases "i = k") auto
  with l t m(2,3) show "held s + 1 < n \<and> writePos s + 1 + tri (held s + 1) \<le> B" by (elim disjE) force+
qed

lemma resubmit_ok_step:
  assumes "resubmit_ok n B mn k e s" "k < e" "step_bound mn (pkt_time (at_pos s k)) s s'"
    and at: "\<forall>i\<in>{Suc k..<e}. at_pos s' i = at_pos s i"
  shows "resubmit_ok n B mn (Suc k) e s'"
proof -
  obtain R where R: "e - k = Suc R" "e - Suc k = R" using assms(2) by (metis Suc_diff_Suc diff_Suc_Suc)
  have l: "(\<exists>i\<in>{k..<e}. pkt_time (at_pos s i) = mn) \<and> Suc R + held s \<le> n \<and> writePos s + Suc R + tri (Suc R + held s) \<le> B + (Suc R + held s)
      \<or> Suc R + held s < n \<and> writePos s + Suc R + tri (Suc R + held s) \<le> B"
    using assms(1) by (simp only: resubmit_ok_def Let_def R)
  from assms(3) consider (now) "writePos s' + tri (held s') \<le> writePos s + tri (held s)" "held s' \<le> held s"
    | (pushed) "mn < pkt_time (at_pos s k)" "writePos s' + tri (held s') \<le> writePos s + 1 + tri (held s + 1)" "held s' \<le> held s + 1"
    unfolding step_bound_def by blast
  then have "(\<exists>i\<in>{Suc k..<e}. pkt_time (at_pos s' i) = mn) \<and> R + held s' \<le> n \<and> writePos s' + R + tri (R + held s') \<le> B + (R + held s')
      \<or> R + held s' < n \<and> writePos s' + R + tri (R + held s') \<le> B"
  proof cases
    case now
    from potential_delivered [OF this, of R] l now(2) show ?thesis by linarith
  next
    case pushed
    note pot = potential_pushed [OF pushed(2,3), of R]
    show ?thesis using l
    proof
      assume a: "(\<exists>i\<in>{k..<e}. pkt_time (at_pos s i) = mn) \<and> Suc R + held s \<le> n \<and> writePos s + Suc R + tri (Suc R + held s) \<le> B + (Suc R + held s)"
      then obtain i where i: "i \<in> {Suc k..<e}" "pkt_time (at_pos s i) = mn" using pushed(1) by (metis atLeastLessThan_iff le_neq_implies_less less_irrefl Suc_leI)
      then have "0 < R" using R by auto
      then have "held s + 1 - held s' \<le> R * (held s + 1 - held s')" by simp
      then have "writePos s' + R + tri (R + held s') \<le> B + (R + held s')" "R + held s' \<le> n" using a pot pushed(3) by linarith+
      then show ?thesis using i at by auto
    next
      assume "Suc R + held s < n \<and> writePos s + Suc R + tri (Suc R + held s) \<le> B"
      then show ?thesis using pot pushed(3) by linarith
    qed
  qed
  then show ?thesis by (simp only: resubmit_ok_def Let_def R)
qed

lemma accounts_waiting:
  assumes "accounts lo X ps s s'" "list_all Q (ps @ ring_waiting s)"
  shows "list_all Q (ring_waiting s')"
proof -
  from assms(1) obtain ds where "mset ds + mset (ring_waiting s') = mset (ring_waiting s) + mset ps" unfolding accounts_def by blast
  then have "set (ring_waiting s') \<subseteq> set (ring_waiting s) \<union> set ps" by (metis set_mset_mset set_mset_union Un_upper2)
  then show ?thesis using assms(2) by (auto simp: list_all_iff)
qed

lemma resubmit_settles:
  assumes IH: "\<And>m. 0 < m \<Longrightarrow> m < n \<Longrightarrow> settles m" and f: "2 * n \<le> f" and B: "B \<le> lo + kMaxBuffer"
    and "ring_ok s" "lo \<le> k" "k \<le> e" "e \<le> readPos s" "at_least mn s" "\<forall>i\<in>{k..<e}. in_range mn (at_pos s i)"
      "list_all (in_range mn) (ring_waiting s)" "resubmit_ok n B mn k e s"
  shows "\<exists>s'. resubmit (submit f) free [k..<e] s = Some s' \<and> at_least mn s' \<and> writePos s' + tri (held s') \<le> B \<and> held s' < n"
  using assms(4-)
proof (induction "e - k" arbitrary: k s)
  case 0
  then show ?case by (auto simp: resubmit_ok_def Let_def)
next
  case (Suc m)
  let ?s0 = "note_taken k s" and ?p = "at_pos s k"
  have ke: "k < e" "[k..<e] = k # [Suc k..<e]" using Suc.hyps(2) by (simp_all add: upt_conv_Cons)
  note room = resubmit_ok_room [OF Suc.prems(8) ke(1)]
  have "ring_waiting ?s0 = ring_waiting s" by (rule ring_waiting_cong) simp_all
  moreover have "in_range mn ?p" using Suc.prems(6) ke(1) by simp
  moreover have "settles (held s + 1) \<and> 2 * held s + 3 \<le> f \<and> writePos s + 1 + tri (held s + 1) \<le> lo + kMaxBuffer" if "mn < pkt_time ?p"
    using room(3) [OF that] IH [of "held s + 1"] f B by linarith
  moreover have "0 < held s \<Longrightarrow> settles (held s)" "2 * held s + 2 \<le> f" "writePos s + tri (held s) \<le> lo + kMaxBuffer" using room(1,2) IH f B by auto
  ultimately have "\<exists>s1. submit f (In_ring k) ?s0 = Some s1 \<and> at_least mn s1 \<and> step_bound mn (pkt_time (load (In_ring k) ?s0)) ?s0 s1"
    using Suc.prems ke by (intro submit_step [of ?s0 lo]) (auto simp: ref_ok_def at_least_def simp del: tri.simps)
  then obtain s1 where s1: "submit f (In_ring k) ?s0 = Some s1" "at_least mn s1" "step_bound mn (pkt_time ?p) ?s0 s1" by auto
  have b: "step_bound mn (pkt_time ?p) s s1" using s1(3) by (simp add: step_bound_def)
  have w: "writePos s1 \<le> lo + kMaxBuffer" using b room B by (auto simp: step_bound_def)
  define s2 where "s2 = (if free then free_data k s1 else s1)"
  have "accounts lo {k} [?p] ?s0 s1" using submit_accounts [OF s1(1), of lo] Suc.prems ke w by (simp add: ref_ok_def)
  moreover have "grows s s1" using submit_grows [OF s1(1)] Suc.prems(1) by (simp add: grows_def)
  ultimately have a: "accounts lo {k} [?p] s s2" "ring_ok s2" "readPos s \<le> readPos s2"
    using item_accounts [of lo k s s1 s2 free] w s2_def Suc.prems ke by simp_all
  have at: "\<forall>i\<in>{Suc k..<e}. at_pos s2 i = at_pos s i" using a(1) Suc.prems by (auto simp: accounts_def)
  have "step_bound mn (pkt_time ?p) s s2" "at_least mn s2" using b s1(2) by (simp_all add: s2_def step_bound_def at_least_def)
  moreover have "list_all (in_range mn) (ring_waiting s2)" using accounts_waiting [OF a(1)] Suc.prems(6,7) ke by simp
  ultimately have "\<exists>s'. resubmit (submit f) free [Suc k..<e] s2 = Some s' \<and> at_least mn s' \<and> writePos s' + tri (held s') \<le> B \<and> held s' < n"
    using Suc.hyps(2) Suc.prems ke(1) a(2,3) at resubmit_ok_step [OF Suc.prems(8) ke(1)] by (intro Suc.hyps(1)) auto
  then show ?case using s1(1) by (simp add: ke(2) s2_def [symmetric])
qed

lemma settles_all: "0 < n \<Longrightarrow> settles n"
proof (induction n rule: less_induct)
  case (less n)
  show ?case unfolding settles_def
  proof (intro allI impI, elim conjE)
    fix f free s lo mn
    assume f: "2 * n \<le> f" and s: "ring_ok s" "held s = n" "lo \<le> readPos s" "writePos s + tri n \<le> lo + kMaxBuffer" "list_all (in_range mn) (ring_waiting s)"
    let ?s = "next_frame (reset_frame s)" and ?a = "readPos s" and ?b = "writePos s"
    let ?mn = "oldest ?a ?b s"
    have ab: "?a < ?b" using less.prems s(2) by simp
    have r: "\<forall>i\<in>{?a..<?b}. in_range mn (at_pos s i)" using s(5) by (auto simp: ring_waiting_def list_all_iff)
    then obtain i where i: "i \<in> {?a..<?b}" "pkt_time (at_pos s i) = ?mn" using oldest_in [OF ab] by (force simp: in_range_def)
    have t: "st_timestamp ?s = ?mn" by (simp add: next_frame_def oldest_def)
    have "\<forall>i\<in>{?a..<?b}. in_range ?mn (at_pos s i)" using r oldest_le by (auto simp: in_range_def)
    moreover have "resubmit_ok n (?b + tri n) ?mn ?a ?b ?s" using i s(2) by (auto simp: resubmit_ok_def Let_def)
    ultimately obtain s' where "resubmit (submit f) free [?a..<?b] ?s = Some s'" "at_least ?mn s'" "writePos s' + tri (held s') \<le> ?b + tri n" "held s' < n"
      using resubmit_settles [of n f "?b + tri n" lo ?s ?a ?b ?mn free] less.IH f s t by (auto simp: at_least_def ring_waiting_def ring_ok_def)
    moreover have "mn \<le> ?mn" using bspec [OF r i(1)] i(2) by (simp add: in_range_def)
    ultimately show "\<exists>s'. take_buffer (submit f) free s = Some s' \<and> at_least mn s' \<and> writePos s' + tri (held s') \<le> writePos s + tri n \<and> held s' < n"
      by (auto simp: take_buffer_def at_least_def)
  qed
qed

text \<open>
  C17: With at most eleven packets waiting, \<^verbatim>\<open>submit\<close> returns (its calls of itself are nested at most twice as
  deep as there are packets, and four levels), and the packet submitted and those waiting are handed over
  or waiting afterwards, each exactly once and with its data. The times are 64 bit numbers.
\<close>

theorem submit_exactly_once:
  assumes "ring_ok s" "length (ring_waiting s) \<le> 11" "\<forall>q\<in>set (p # ring_waiting s). pkt_time q < 2 ^ 63" "2 * length (ring_waiting s) + 4 \<le> fuel"
  shows "\<exists>s' ds. submit fuel (Given p) s = Some s' \<and> ring_ok s' \<and> handed s' = handed s @ ds
    \<and> mset ds + mset (ring_waiting s') = mset (ring_waiting s) + {#p#}"
proof -
  have h: "length (ring_waiting s) = held s" by (simp add: ring_waiting_def)
  define mn where "mn = Min (insert (st_timestamp s) (pkt_time ` set (p # ring_waiting s)))"
  have "mn \<le> x" if "x \<in> insert (st_timestamp s) (pkt_time ` set (p # ring_waiting s))" for x unfolding mn_def using that by (intro Min_le) simp_all
  then have "\<forall>q\<in>set (p # ring_waiting s). mn \<le> pkt_time q" "mn \<le> st_timestamp s" by auto
  then have r: "list_all (in_range mn) (p # ring_waiting s)" "at_least mn s" using assms(3) by (auto simp: in_range_def at_least_def list_all_iff)
  have "tri (held s + 1) \<le> tri 12" using assms(2) h by (intro tri_mono) simp
  then have t: "tri (held s + 1) \<le> 78" "tri (held s) \<le> 78" using tri_mono [of "held s" "held s + 1"] by (simp_all add: eval_nat_numeral)
  have w: "writePos s + 1 + tri (held s + 1) \<le> readPos s + kMaxBuffer" "writePos s + tri (held s) \<le> readPos s + kMaxBuffer"
    using t assms(1,2) h by (auto simp: kMaxBuffer_def ring_ok_def)
  obtain s' where s': "submit fuel (Given p) s = Some s'" "step_bound mn (pkt_time p) s s'"
    using submit_step [of s "readPos s" "Given p" mn fuel] assms(1,4) h r w settles_all by (auto simp: ref_ok_def)
  then have "writePos s' \<le> readPos s + kMaxBuffer" using w by (auto simp: step_bound_def)
  with submit_conserves [OF s'(1) assms(1)] s'(1) show ?thesis by blast
qed

section \<open>Packets held back, and the end of the ring\<close>

primrec submit_all :: "nat \<Rightarrow> PacketPair list \<Rightarrow> StreamState \<Rightarrow> StreamState option" where
  "submit_all n [] s = Some s"
| "submit_all n (p # ps) s = (case submit n (Given p) s of None \<Rightarrow> None | Some s' \<Rightarrow> submit_all n ps s')"

lemma submit_all_append: "submit_all n (ps @ qs) s = (case submit_all n ps s of None \<Rightarrow> None | Some s' \<Rightarrow> submit_all n qs s')"
  by (induction ps arbitrary: s) (auto split: option.splits)

definition ends :: "PacketPair list \<Rightarrow> nat" where
  "ends ps = length (filter (\<lambda>p. is_end_frame p) ps)"

text \<open>While frame \<open>t\<close> is open: what was handed over of it so far is counted, and nothing completes it.\<close>

definition frame_open :: "int \<Rightarrow> nat \<Rightarrow> StreamState \<Rightarrow> bool" where
  "frame_open t n s \<longleftrightarrow> ring_ok s \<and> st_timestamp s = t \<and> processed s = int n \<and> (expected s = -1 \<or> int n < expected s)
     \<and> bufferedEndFrames s = int (ends (ring_waiting s))"

lemma submit_current_open:
  assumes "frame_open t n s" "pkt_time p = t" "is_end_frame p \<Longrightarrow> int (Suc n) < uint (packet_count (snd p))" "expected s = -1 \<or> int (Suc n) < expected s"
  shows "\<exists>s'. submit (Suc f) (Given p) s = Some s' \<and> frame_open t (Suc n) s' \<and> handed s' = handed s @ [p] \<and> ring_waiting s' = ring_waiting s
    \<and> readPos s' = readPos s \<and> writePos s' = writePos s \<and> expected s' = (if is_end_frame p then uint (packet_count (snd p)) else expected s)"
proof -
  let ?s = "process_current p s"
  have "processed ?s = int (Suc n)" "expected ?s = (if is_end_frame p then uint (packet_count (snd p)) else expected s)" "bufferedEndFrames ?s = bufferedEndFrames s"
    using assms(1) by (simp_all add: frame_open_def process_current_def hand_over_def Let_def)
  moreover have "ring_waiting ?s = ring_waiting s" by (rule ring_waiting_cong) simp_all
  ultimately show ?thesis using assms by (auto simp: frame_open_def Let_def)
qed

lemma add_to_buffer_fields [simp]:
  "processed (add_to_buffer r s) = processed s" "expected (add_to_buffer r s) = expected s"
  "bufferedEndFrames (add_to_buffer r s) = bufferedEndFrames s + (if is_end_frame (load r s) then 1 else 0)"
  by (cases r; simp add: add_to_buffer_def Let_def)+

lemma submit_later_open:
  assumes "frame_open t n s" "t \<noteq> -1" "t < pkt_time p" "held s < kMaxBuffer" "ends (ring_waiting s @ [p]) \<le> 4"
  shows "\<exists>s'. submit (Suc f) (Given p) s = Some s' \<and> frame_open t n s' \<and> handed s' = handed s \<and> ring_waiting s' = ring_waiting s @ [p]
    \<and> readPos s' = readPos s \<and> writePos s' = Suc (writePos s) \<and> expected s' = expected s"
proof -
  let ?b = "add_to_buffer (Given p) s"
  have ok: "ring_ok s" using assms(1) by (simp add: frame_open_def)
  then have w: "ring_waiting ?b = ring_waiting s @ [p]"
    using add_to_buffer_accounts(2) [of s "readPos s" "Given p"] assms(4) by (simp add: ref_ok_def ring_ok_def)
  then have "bufferedEndFrames ?b = int (ends (ring_waiting ?b))" using assms(1) by (simp add: frame_open_def ends_def)
  then show ?thesis using assms ok w by (auto simp: frame_open_def Let_def ring_ok_def)
qed

lemma submit_all_open:
  assumes "frame_open t n s" "t \<noteq> -1" "\<forall>p\<in>set ps. t \<le> pkt_time p" "held s + length (filter (\<lambda>p. t < pkt_time p) ps) \<le> kMaxBuffer"
    "ends (ring_waiting s @ filter (\<lambda>p. t < pkt_time p) ps) \<le> 4"
    "\<forall>p\<in>set ps. pkt_time p = t \<and> is_end_frame p \<longrightarrow> int (n + length (filter (\<lambda>p. pkt_time p = t) ps)) < uint (packet_count (snd p))"
    "expected s = -1 \<or> int (n + length (filter (\<lambda>p. pkt_time p = t) ps)) < expected s"
  shows "\<exists>s' n'. submit_all (Suc f) ps s = Some s' \<and> frame_open t n' s' \<and> handed s' = handed s @ filter (\<lambda>p. pkt_time p = t) ps
    \<and> ring_waiting s' = ring_waiting s @ filter (\<lambda>p. t < pkt_time p) ps"
  using assms
proof (induction ps arbitrary: n s)
  case (Cons p ps)
  consider (now) "pkt_time p = t" | (late) "t < pkt_time p" using Cons.prems(3) by force
  then show ?case
  proof cases
    case now
    have "\<exists>s'. submit (Suc f) (Given p) s = Some s' \<and> frame_open t (Suc n) s' \<and> handed s' = handed s @ [p] \<and> ring_waiting s' = ring_waiting s
        \<and> readPos s' = readPos s \<and> writePos s' = writePos s \<and> expected s' = (if is_end_frame p then uint (packet_count (snd p)) else expected s)"
      using Cons.prems now by (intro submit_current_open) auto
    then obtain s1 where s1: "submit (Suc f) (Given p) s = Some s1" "frame_open t (Suc n) s1" "handed s1 = handed s @ [p]" "ring_waiting s1 = ring_waiting s"
        "held s1 = held s" "expected s1 = (if is_end_frame p then uint (packet_count (snd p)) else expected s)" by metis
    from Cons.IH [OF s1(2)] Cons.prems now s1 show ?thesis by (auto simp del: submit.simps)
  next
    case late
    have "\<exists>s'. submit (Suc f) (Given p) s = Some s' \<and> frame_open t n s' \<and> handed s' = handed s \<and> ring_waiting s' = ring_waiting s @ [p]
        \<and> readPos s' = readPos s \<and> writePos s' = Suc (writePos s) \<and> expected s' = expected s"
      using Cons.prems late by (intro submit_later_open) (auto simp: ends_def)
    then obtain s1 where s1: "submit (Suc f) (Given p) s = Some s1" "frame_open t n s1" "handed s1 = handed s" "ring_waiting s1 = ring_waiting s @ [p]"
        "readPos s1 = readPos s" "writePos s1 = Suc (writePos s)" "expected s1 = expected s" by metis
    have "held s1 = held s + 1" using s1 Cons.prems(1) by (simp add: frame_open_def ring_ok_def Suc_diff_le)
    then show ?thesis using Cons.IH [OF s1(2)] Cons.prems late s1 by (auto simp del: submit.simps)
  qed
qed auto

lemma held_ring_waiting: "held s = length (ring_waiting s)"
  by (simp add: ring_waiting_def)

text \<open>
  C37: While a frame is open and incomplete, its packets are handed over in the order they arrive, and those
  of later frames, up to a hundred and with at most four ends of frames, wait in the order they arrive.
\<close>

theorem later_frames_held_back:
  assumes "frame_open t n s" "t \<noteq> -1" "ring_waiting s = []" "\<forall>p\<in>set ps. t \<le> pkt_time p"
    and "length (filter (\<lambda>p. t < pkt_time p) ps) \<le> kMaxBuffer" "ends (filter (\<lambda>p. t < pkt_time p) ps) \<le> 4"
    and "\<forall>p\<in>set ps. pkt_time p = t \<and> is_end_frame p \<longrightarrow> int (n + length (filter (\<lambda>p. pkt_time p = t) ps)) < uint (packet_count (snd p))"
      "expected s = -1 \<or> int (n + length (filter (\<lambda>p. pkt_time p = t) ps)) < expected s"
  shows "\<exists>s'. submit_all (Suc f) ps s = Some s' \<and> handed s' = handed s @ filter (\<lambda>p. pkt_time p = t) ps
    \<and> ring_waiting s' = filter (\<lambda>p. t < pkt_time p) ps"
  using submit_all_open [of t n s ps f] assms by (auto simp: held_ring_waiting)

text \<open>
  C36: The hundred and first packet that waits takes the place of the first one: the first is lost, and the
  last is in the list of those waiting twice, so that it will be handed over twice.
\<close>

theorem ring_overrun:
  assumes "frame_open t n s" "t \<noteq> -1" "ring_waiting s = []" "length ps = kMaxBuffer + 1" "\<forall>p\<in>set ps. t < pkt_time p \<and> \<not> is_end_frame p"
  shows "\<exists>s'. submit_all (Suc f) ps s = Some s' \<and> handed s' = handed s \<and> ring_waiting s' = last ps # tl ps"
proof -
  obtain qs p where ps: "ps = qs @ [p]" "length qs = kMaxBuffer" using assms(4) by (cases ps rule: rev_cases) auto
  have q: "filter (\<lambda>p. t < pkt_time p) qs = qs" "filter (\<lambda>p. pkt_time p = t) qs = []" "ends qs = 0" "\<forall>p\<in>set qs. t \<le> pkt_time p"
    using assms(5) ps(1) by (auto simp: filter_id_conv filter_empty_conv ends_def)
  have "\<exists>s1 n'. submit_all (Suc f) qs s = Some s1 \<and> frame_open t n' s1 \<and> handed s1 = handed s \<and> ring_waiting s1 = qs"
    using submit_all_open [of t n s qs f] assms(1-3,5) q ps by (auto simp: held_ring_waiting frame_open_def)
  then obtain s1 n' where s1: "submit_all (Suc f) qs s = Some s1" "frame_open t n' s1" "handed s1 = handed s" "ring_waiting s1 = qs" by blast
  let ?b = "add_to_buffer (Given p) s1" and ?r = "readPos s1"
  have w: "writePos s1 = ?r + kMaxBuffer" using held_ring_waiting [of s1] s1(2,4) ps(2) by (auto simp: frame_open_def ring_ok_def)
  have at: "at_pos ?b i = (if ring_slot i = ring_slot ?r then p else at_pos s1 i)" for i
    using s1(2) w ring_slot_less [of ?r] by (auto simp: add_to_buffer_def Let_def at_pos_def nth_list_update frame_open_def ring_ok_def ring_slot_def)
  have "\<forall>i\<in>{Suc ?r..<?r + kMaxBuffer}. at_pos ?b i = at_pos s1 i" using at ring_slot_neq [of ?r] by (metis atLeastLessThan_iff Suc_le_eq)
  moreover have "ring_slot (?r + kMaxBuffer) = ring_slot ?r" by (simp add: ring_slot_def)
  moreover have "[?r..<?r + kMaxBuffer] = ?r # [Suc ?r..<?r + kMaxBuffer]" by (simp add: upt_conv_Cons kMaxBuffer_def del: upt_Suc)
  ultimately have "ring_waiting ?b = p # tl qs @ [p]" using s1(4) w at by (simp add: ring_waiting_def) auto
  moreover have "submit (Suc f) (Given p) s1 = Some ?b"
    using s1(2,4) q(3) assms(2,5) ps(1) by (auto simp: frame_open_def Let_def)
  moreover have "tl ps = tl qs @ [p]" "last ps = p" using ps by (cases qs; simp add: kMaxBuffer_def)+
  ultimately show ?thesis using s1(1,3) by (simp add: ps(1) submit_all_append del: submit.simps)
qed

section \<open>Instances\<close>

definition ex_pair :: "int \<Rightarrow> Channel \<Rightarrow> u8 \<Rightarrow> PacketPair" where
  "ex_pair t c n = ((fst default_PacketPair)\<lparr>timestamp := t, channel := c\<rparr>, (snd default_PacketPair)\<lparr>dataFlags := n, data := [n]\<rparr>)"

lemma ex_pair_simps: "pkt_time (ex_pair t c n) = t" "channel (fst (ex_pair t c n)) = c" "packet_count (snd (ex_pair t c n)) = n"
  by (simp_all add: ex_pair_def)

definition ex_state :: StreamState where
  "ex_state = (new_StreamState\<lparr>ring := (ring new_StreamState)[0 := ex_pair 301 1 0, 1 := ex_pair 302 1 0, 2 := ex_pair 301 3 0],
     writePos := 3, st_timestamp := 300, processed := 1, handed := [ex_pair 300 0 0]\<rparr>)"

lemma ex_state_ok: "ring_ok ex_state" "ring_waiting ex_state = [ex_pair 301 1 0, ex_pair 302 1 0, ex_pair 301 3 0]"
  by (simp_all add: ring_ok_def ex_state_def new_StreamState_def kMaxBuffer_def ring_waiting_def at_pos_def ring_slot_def upt_rec numeral_2_eq_2)

theorem submit_exactly_once_witness:
  "\<exists>s' ds. submit 10 (Given (ex_pair 300 kEndFrame 2)) ex_state = Some s' \<and> handed s' = handed ex_state @ ds
    \<and> mset ds + mset (ring_waiting s') = {#ex_pair 301 1 0, ex_pair 302 1 0, ex_pair 301 3 0, ex_pair 300 kEndFrame 2#}"
proof -
  have "\<forall>q\<in>set (ex_pair 300 kEndFrame 2 # ring_waiting ex_state). pkt_time q < 2 ^ 63" by (simp add: ex_state_ok ex_pair_def)
  from submit_exactly_once [OF ex_state_ok(1) _ this, of 10] show ?thesis by (auto simp: ex_state_ok(2) ac_simps)
qed

definition ex_open :: StreamState where
  "ex_open = new_StreamState\<lparr>st_timestamp := 300\<rparr>"

lemma ex_open_ok: "frame_open 300 0 ex_open" "ring_waiting ex_open = []" "handed ex_open = []" "expected ex_open = -1"
  by (simp_all add: ex_open_def new_StreamState_def frame_open_def ring_ok_def ring_waiting_def ends_def)

theorem later_frames_held_back_witness:
  "\<exists>s'. submit_all 1 [ex_pair 300 0 0, ex_pair 302 kEndFrame 1, ex_pair 301 1 0, ex_pair 300 kEndFrame 3] ex_open = Some s'
    \<and> handed s' = [ex_pair 300 0 0, ex_pair 300 kEndFrame 3] \<and> ring_waiting s' = [ex_pair 302 kEndFrame 1, ex_pair 301 1 0]"
  using later_frames_held_back [OF ex_open_ok(1) _ ex_open_ok(2),
      of "[ex_pair 300 0 0, ex_pair 302 kEndFrame 1, ex_pair 301 1 0, ex_pair 300 kEndFrame 3]" 0]
  by (simp add: ex_open_ok ex_pair_simps kMaxBuffer_def ends_def kEndFrame_def del: submit.simps submit_all.simps)

theorem ring_overrun_witness:
  "\<exists>s'. submit_all 1 (ex_pair 301 0 1 # replicate 99 (ex_pair 301 0 2) @ [ex_pair 301 0 3]) ex_open = Some s'
    \<and> ex_pair 301 0 1 \<notin> set (ring_waiting s') \<and> ring_waiting s' = ex_pair 301 0 3 # replicate 99 (ex_pair 301 0 2) @ [ex_pair 301 0 3]"
proof -
  let ?ps = "ex_pair 301 0 1 # replicate 99 (ex_pair 301 0 2) @ [ex_pair 301 0 3]"
  have "length ?ps = kMaxBuffer + 1" "\<forall>p\<in>set ?ps. 300 < pkt_time p \<and> \<not> is_end_frame p" by (auto simp: kMaxBuffer_def ex_pair_def kEndFrame_def)
  moreover have "ex_pair 301 0 3 \<noteq> ex_pair 301 0 1" "ex_pair 301 0 2 \<noteq> ex_pair 301 0 1" by (simp_all add: ex_pair_def default_PacketPair_def default_DataPacket_def)
  ultimately show ?thesis using ring_overrun [OF ex_open_ok(1) _ ex_open_ok(2), of ?ps 0] by (auto simp del: submit.simps submit_all.simps)
qed

end
