(* ===== verification/FTL_Self.thy ===== *)
theory FTL_Self
  imports FTL_UniverseRun
begin

text \<open>
  The public interface: \<^verbatim>\<open>Self\<close> (\<^verbatim>\<open>self.cpp\<close>), \<^verbatim>\<open>Node\<close> (\<^verbatim>\<open>node.cpp\<close>) and the functions of \<^verbatim>\<open>protocol.cpp\<close>, over the
  universe, the dispatcher and the peers.

  A node is a pointer to a peer that may be null. Requests to another node are the name and the packed arguments
  handed to \<^verbatim>\<open>Peer::send\<close> or \<^verbatim>\<open>Peer::call\<close>; what answers them is the function that \<^verbatim>\<open>Self\<close> binds on the other side.
  msgpack and the JSON library are parameters. Methods that only pass their arguments on to the operation of
  the universe with the same name (\<^verbatim>\<open>listen\<close>, \<^verbatim>\<open>shutdown\<close>, the buffer sizes) are that operation.
\<close>

section \<open>Nodes\<close>

record Node =
  node_peer :: "nat option"

definition with_peer :: "Node \<Rightarrow> (nat \<Rightarrow> 'r res) \<Rightarrow> 'r res" where
  "with_peer n f = (case node_peer n of None \<Rightarrow> Inl Undefined_behaviour | Some p \<Rightarrow> f p)"

definition node_status :: "Node \<Rightarrow> Universe \<Rightarrow> NodeStatus res" where
  "node_status n u = with_peer n (\<lambda>p. Inr (u_status (heap u p)))"

definition node_isConnected :: "Node \<Rightarrow> Universe \<Rightarrow> bool res" where
  "node_isConnected n u = with_peer n (\<lambda>p. Inr (u_status (heap u p) = kConnected))"

definition node_isValid :: "Node \<Rightarrow> Universe \<Rightarrow> bool res" where
  "node_isValid n u = with_peer n (\<lambda>p. Inr (u_valid (heap u p)))"

definition node_getURI :: "Node \<Rightarrow> Universe \<Rightarrow> string res" where
  "node_getURI n u = with_peer n (\<lambda>p. Inr (u_uri (heap u p)))"

definition node_id :: "Node \<Rightarrow> Universe \<Rightarrow> UUID res" where
  "node_id n u = with_peer n (\<lambda>p. Inr (u_id (heap u p)))"

definition node_localID :: "Node \<Rightarrow> Universe \<Rightarrow> int res" where
  "node_localID n u = with_peer n (\<lambda>p. Inr (u_local_id (heap u p)))"

definition node_close :: "(bool \<Rightarrow> nat \<Rightarrow> Universe \<Rightarrow> Universe res) \<Rightarrow> bool \<Rightarrow> Node \<Rightarrow> Universe \<Rightarrow> Universe res" where
  "node_close peer_close retry n u = with_peer n (\<lambda>p. peer_close retry p u)"

definition node_reconnect :: "Node \<Rightarrow> bool" where
  "node_reconnect n = False"

definition node_connectionCount :: "Node \<Rightarrow> int" where
  "node_connectionCount n = 0"

section \<open>Requests of a node\<close>

text \<open>
  The packing of arguments and results that the requests use, and JSON: \<open>dump\<close> gives the text, \<open>json_parse\<close> throws
  on other text.
\<close>

record ('o, 'j) node_codec =
  pack_none :: 'o
  pack_str :: "string \<Rightarrow> 'o"
  pack_str2 :: "string \<Rightarrow> string \<Rightarrow> 'o"
  pack_str_ints :: "string \<Rightarrow> int \<Rightarrow> int \<Rightarrow> 'o"
  unpack_str :: "'o \<Rightarrow> string option"
  unpack_str2 :: "'o \<Rightarrow> (string \<times> string) option"
  unpack_str_ints :: "'o \<Rightarrow> (string \<times> int \<times> int) option"
  obj_of_string :: "string \<Rightarrow> 'o"
  string_of_obj :: "'o \<Rightarrow> string option"
  obj_of_strings :: "string list \<Rightarrow> 'o"
  strings_of_obj :: "'o \<Rightarrow> string list option"
  dump :: "'j \<Rightarrow> string"
  json_parse :: "string \<Rightarrow> 'j option"
  json_null :: 'j

type_synonym 'o request = "nat \<times> string \<times> 'o"

definition parse_json :: "('o, 'j) node_codec \<Rightarrow> string \<Rightarrow> rpc_exn + 'j" where
  "parse_json c s = (case json_parse c s of None \<Rightarrow> Inl (Exn_std ''parse_error'') | Some j \<Rightarrow> Inr j)"

definition node_restart :: "('o, 'j) node_codec \<Rightarrow> Node \<Rightarrow> 'o request res" where
  "node_restart c n = with_peer n (\<lambda>p. Inr (p, ''restart'', pack_none c))"

definition node_shutdown :: "('o, 'j) node_codec \<Rightarrow> Node \<Rightarrow> 'o request res" where
  "node_shutdown c n = with_peer n (\<lambda>p. Inr (p, ''shutdown'', pack_none c))"

definition node_createStream :: "('o, 'j) node_codec \<Rightarrow> string \<Rightarrow> FrameID \<Rightarrow> Node \<Rightarrow> 'o request res" where
  "node_createStream c uri i n = with_peer n (\<lambda>p. Inr (p, ''create_stream'', pack_str_ints c uri (uint (frameset i)) (uint (source i))))"

definition node_setConfig :: "('o, 'j) node_codec \<Rightarrow> string \<Rightarrow> 'j \<Rightarrow> Node \<Rightarrow> 'o request res" where
  "node_setConfig c path v n = with_peer n (\<lambda>p. Inr (p, ''update_cfg'', pack_str2 c path (dump c v)))"

text \<open>A call has a request and a reading of the result; a result of another type throws.\<close>

definition node_details :: "('o, 'j) node_codec \<Rightarrow> Node \<Rightarrow> ('o request \<times> ('o \<Rightarrow> rpc_exn + 'j)) res" where
  "node_details c n = with_peer n (\<lambda>p. Inr ((p, ''node_details'', pack_none c), \<lambda>r.
     case strings_of_obj c r of
       None \<Rightarrow> Inl type_error
     | Some [] \<Rightarrow> Inr (json_null c)
     | Some (s # _) \<Rightarrow> parse_json c s))"

definition node_getConfig :: "('o, 'j) node_codec \<Rightarrow> string \<Rightarrow> Node \<Rightarrow> ('o request \<times> ('o \<Rightarrow> rpc_exn + 'j)) res" where
  "node_getConfig c path n = with_peer n (\<lambda>p. Inr ((p, ''get_cfg'', pack_str c path), \<lambda>r.
     case string_of_obj c r of None \<Rightarrow> Inl type_error | Some s \<Rightarrow> parse_json c s))"

definition node_listConfigs :: "('o, 'j) node_codec \<Rightarrow> Node \<Rightarrow> ('o request \<times> ('o \<Rightarrow> rpc_exn + string list)) res" where
  "node_listConfigs c n = with_peer n (\<lambda>p. Inr ((p, ''list_configurables'', pack_none c), \<lambda>r.
     case strings_of_obj c r of None \<Rightarrow> Inl type_error | Some ss \<Rightarrow> Inr ss))"

definition node_hasStream :: "('o, 'j) node_codec \<Rightarrow> ('o \<Rightarrow> string option option) \<Rightarrow> string \<Rightarrow> Node \<Rightarrow> ('o request \<times> ('o \<Rightarrow> rpc_exn + bool)) res" where
  "node_hasStream c conv uri n = with_peer n (\<lambda>p. Inr ((p, ''find_stream'', pack_str c uri), \<lambda>r.
     case conv r of None \<Rightarrow> Inl type_error | Some x \<Rightarrow> Inr (x \<noteq> None)))"

section \<open>Handlers of requests\<close>

definition onRestart :: "'o msgpack \<Rightarrow> (unit, 'w) io \<Rightarrow> ('p, 'o, 'w) Dispatcher \<Rightarrow> rpc_exn + ('p, 'o, 'w) Dispatcher" where
  "onRestart m cb = bind_void_zero m ''restart'' cb"

definition onShutdown :: "'o msgpack \<Rightarrow> (unit, 'w) io \<Rightarrow> ('p, 'o, 'w) Dispatcher \<Rightarrow> rpc_exn + ('p, 'o, 'w) Dispatcher" where
  "onShutdown m cb = bind_void_zero m ''shutdown'' cb"

definition onCreateStream :: "'o msgpack \<Rightarrow> ('o, 'j) node_codec \<Rightarrow> (string \<Rightarrow> FrameID \<Rightarrow> (unit, 'w) io)
    \<Rightarrow> ('p, 'o, 'w) Dispatcher \<Rightarrow> rpc_exn + ('p, 'o, 'w) Dispatcher" where
  "onCreateStream m c cb = bind_void_args m ''create_stream'' 3 (unpack_str_ints c)
     (\<lambda>(uri, fsid, fid). cb uri (mk_FrameID (word_of_int fsid) (word_of_int fid)))"

definition onNodeDetails :: "'o msgpack \<Rightarrow> ('o, 'j) node_codec \<Rightarrow> ('j, 'w) io
    \<Rightarrow> ('p, 'o, 'w) Dispatcher \<Rightarrow> rpc_exn + ('p, 'o, 'w) Dispatcher" where
  "onNodeDetails m c cb = bind_result_zero m ''node_details'' (obj_of_strings c) (io_bind cb (\<lambda>j. io_return [dump c j]))"

definition onGetConfig :: "'o msgpack \<Rightarrow> ('o, 'j) node_codec \<Rightarrow> (string \<Rightarrow> ('j, 'w) io)
    \<Rightarrow> ('p, 'o, 'w) Dispatcher \<Rightarrow> rpc_exn + ('p, 'o, 'w) Dispatcher" where
  "onGetConfig m c cb = bind_result_args m ''get_cfg'' 1 (unpack_str c) (obj_of_string c) (\<lambda>path. io_bind (cb path) (\<lambda>j. io_return (dump c j)))"

definition onSetConfig :: "'o msgpack \<Rightarrow> ('o, 'j) node_codec \<Rightarrow> (string \<Rightarrow> 'j \<Rightarrow> (unit, 'w) io)
    \<Rightarrow> ('p, 'o, 'w) Dispatcher \<Rightarrow> rpc_exn + ('p, 'o, 'w) Dispatcher" where
  "onSetConfig m c cb = bind_void_args m ''update_cfg'' 2 (unpack_str2 c)
     (\<lambda>(path, value). case parse_json c value of Inl e \<Rightarrow> io_throw e | Inr j \<Rightarrow> cb path j)"

definition onListConfig :: "'o msgpack \<Rightarrow> ('o, 'j) node_codec \<Rightarrow> (string list, 'w) io
    \<Rightarrow> ('p, 'o, 'w) Dispatcher \<Rightarrow> rpc_exn + ('p, 'o, 'w) Dispatcher" where
  "onListConfig m c cb = bind_result_zero m ''list_configurables'' (obj_of_strings c) cb"

section \<open>Self\<close>

datatype stream_made = Made_net string bool | Made_file string bool | Made_broadcast | Made_muxer

definition createStream :: "uri_env \<Rightarrow> string \<Rightarrow> stream_made res" where
  "createStream env uri =
     res_bind (uri_parse env uri) (\<lambda>u.
       if \<not> m_valid u then Inl (FTL_Error (''Invalid Stream URI: '' @ uri))
       else if m_proto u = SCHEME_FTL \<or> m_proto u = SCHEME_FTL_QUIC then Inr (Made_net uri True)
       else if m_proto u = SCHEME_FILE \<or> m_proto u = SCHEME_NONE then Inr (Made_file uri True)
       else if m_proto u = SCHEME_CAST then Inr Made_broadcast
       else if m_proto u = SCHEME_MUX then Inr Made_muxer
       else Inl (FTL_Error (''Invalid Stream URI: '' @ uri)))"

definition getStream :: "uri_env \<Rightarrow> string \<Rightarrow> stream_made res" where
  "getStream env uri =
     res_bind (uri_parse env uri) (\<lambda>u.
       if \<not> m_valid u then Inl (FTL_Error ''Invalid Stream URI'')
       else if m_proto u = SCHEME_FTL \<or> m_proto u = SCHEME_FTL_QUIC then Inr (Made_net uri False)
       else if m_proto u = SCHEME_FILE \<or> m_proto u = SCHEME_NONE then Inr (Made_file uri False)
       else Inl (FTL_Error (''Invalid Stream URI: '' @ uri)))"

text \<open>\<^verbatim>\<open>connectNode\<close> and \<^verbatim>\<open>connectService\<close> wrap the result of the universe, whatever it is.\<close>

definition connectNode :: "(nat option \<times> Universe) res \<Rightarrow> (Node \<times> Universe) res" where
  "connectNode r = res_bind r (\<lambda>(p, u). Inr (\<lparr>node_peer = p\<rparr>, u))"

definition getNode :: "UUID \<Rightarrow> Universe \<Rightarrow> Node res" where
  "getNode i u = res_bind (getPeer i u) (\<lambda>p. Inr \<lparr>node_peer = p\<rparr>)"

definition self_getWebService :: "Universe \<Rightarrow> Node" where
  "self_getWebService u = \<lparr>node_peer = getWebService u\<rparr>"

definition getNodes :: "Universe \<Rightarrow> Node list" where
  "getNodes u = map (\<lambda>p. \<lparr>node_peer = Some p\<rparr>) (getPeers u)"

text \<open>The futures are those of the calls to the peers in turn, as for \<open>findOne\<close> and \<open>findAll\<close>.\<close>

definition locateStream :: "(UUID option) future list \<Rightarrow> Universe \<Rightarrow> (rpc_exn + (Node option) res)" where
  "locateStream fs u =
     (case findOne ''find_stream'' fs of
        Inl e \<Rightarrow> Inl e
      | Inr None \<Rightarrow> Inr (Inr None)
      | Inr (Some i) \<Rightarrow> Inr (res_bind (getPeer i u) (\<lambda>p. Inr (case p of None \<Rightarrow> None | Some q \<Rightarrow> Some \<lparr>node_peer = Some q\<rparr>))))"

definition getStreams :: "(string list) future list \<Rightarrow> rpc_exn + string list" where
  "getStreams fs = findAll ''list_streams'' fs"

fun push_parsed :: "('o, 'j) node_codec \<Rightarrow> string list \<Rightarrow> 'j list \<Rightarrow> rpc_exn + 'j list" where
  "push_parsed c [] js = Inr js"
| "push_parsed c (r # rs) js = (case parse_json c r of Inl e \<Rightarrow> Inl e | Inr j \<Rightarrow> push_parsed c rs (js @ [j]))"

definition getAllNodeDetails :: "('o, 'j) node_codec \<Rightarrow> (string list) future list \<Rightarrow> rpc_exn + 'j list" where
  "getAllNodeDetails c fs =
     (case findAll ''node_details'' fs of
        Inl e \<Rightarrow> Inl e
      | Inr response \<Rightarrow> push_parsed c response (replicate (length response) (json_null c)))"

text \<open>Callbacks of the universe are given a new node for the peer, which may be null for an error.\<close>

definition self_callback :: "(Node \<Rightarrow> 'r) \<Rightarrow> nat option \<Rightarrow> 'r" where
  "self_callback cb p = cb \<lparr>node_peer = p\<rparr>"

text \<open>\<^verbatim>\<open>getSelf\<close> makes the universe of the process once, \<^verbatim>\<open>reset\<close> drops it; \<open>inst\<close> installs the remote calls.\<close>

definition getSelf :: "'u \<Rightarrow> ('u \<Rightarrow> 'u) \<Rightarrow> 'u option \<Rightarrow> 'u \<times> 'u option" where
  "getSelf fresh inst g = (case g of Some u \<Rightarrow> (u, g) | None \<Rightarrow> (inst fresh, Some (inst fresh)))"

definition protocol_reset :: "'u option \<Rightarrow> 'u option" where
  "protocol_reset g = None"

definition createDummySelf :: "'u \<Rightarrow> ('u \<Rightarrow> 'u) \<Rightarrow> ('u \<Rightarrow> 'u) \<Rightarrow> 'u" where
  "createDummySelf fresh set_id inst = inst (set_id fresh)"

section \<open>Requests reach the callbacks of the other node\<close>

text \<open>What the code relies on of msgpack: values are unpacked as they were packed. Nothing is assumed of JSON.\<close>

definition node_codec_laws :: "'o msgpack \<Rightarrow> ('o, 'j) node_codec \<Rightarrow> bool" where
  "node_codec_laws m c \<longleftrightarrow>
     array_size m (pack_none c) = 0
     \<and> (\<forall>a. array_size m (pack_str c a) = 1 \<and> unpack_str c (pack_str c a) = Some a)
     \<and> (\<forall>a b. array_size m (pack_str2 c a b) = 2 \<and> unpack_str2 c (pack_str2 c a b) = Some (a, b))
     \<and> (\<forall>a k l. array_size m (pack_str_ints c a k l) = 3 \<and> unpack_str_ints c (pack_str_ints c a k l) = Some (a, k, l))
     \<and> (\<forall>a. string_of_obj c (obj_of_string c a) = Some a) \<and> (\<forall>as. strings_of_obj c (obj_of_strings c as) = Some as)"

text \<open>The messages that \<^verbatim>\<open>Peer::send\<close> and \<^verbatim>\<open>Peer::call\<close> make of a request, as the dispatcher of the other side sees them.\<close>

definition notification_of :: "'o msgpack \<Rightarrow> 'o \<Rightarrow> string \<times> 'o \<Rightarrow> bool" where
  "notification_of m msg req \<longleftrightarrow> array_size m msg = 3 \<and> (\<exists>typ. to_notification m msg = Some (typ, fst req, snd req))"

definition call_of :: "'o msgpack \<Rightarrow> 'o \<Rightarrow> u32 \<Rightarrow> string \<times> 'o \<Rightarrow> bool" where
  "call_of m msg k req \<longleftrightarrow> array_size m msg = 4 \<and> first_i64 m msg = 0 \<and> to_call m msg = Some (0, k, fst req, snd req)"

text \<open>Dispatching a notification runs \<open>cb\<close> and nothing else; dispatching a call sends what \<open>reply\<close> makes of the result.\<close>

definition runs :: "'o msgpack \<Rightarrow> ('p, 'o, 'w) peer_ops \<Rightarrow> ('p, 'o, 'w) Dispatcher \<Rightarrow> 'p \<Rightarrow> string \<times> 'o \<Rightarrow> (unit, 'w) io \<Rightarrow> bool" where
  "runs m ops d s req cb \<longleftrightarrow> (\<forall>msg w w'. notification_of m msg req \<and> cb w = (Inr (), w') \<longrightarrow> dispatch m ops d s msg w = (Inr (), w'))"

definition replies :: "'o msgpack \<Rightarrow> ('p, 'o, 'w) peer_ops \<Rightarrow> ('p, 'o, 'w) Dispatcher \<Rightarrow> 'p \<Rightarrow> string \<times> 'o \<Rightarrow> ('j, 'w) io \<Rightarrow> ('j \<Rightarrow> 'o) \<Rightarrow> bool" where
  "replies m ops d s req cb reply \<longleftrightarrow> (\<forall>msg k w j w1 w2. call_of m msg k req \<and> cb w = (Inr j, w1) \<and> p_sendResponse ops s k (reply j) w1 = (Inr (), w2)
     \<longrightarrow> dispatch m ops d s msg w = (Inr (), w2))"

lemmas handler_defs = onCreateStream_def onSetConfig_def onGetConfig_def onNodeDetails_def bind_void_args_def bind_result_zero_def
  bind_result_args_def

lemma runs_bound:
  assumes "locateHandler d (fst req) = Some f" "f s (snd req) = io_bind cb (\<lambda>_. io_return v)"
  shows "runs m ops d s req cb"
  using assms by (cases req) (auto simp: runs_def notification_of_def dispatch_def dispatch_notification_def convert_def io_bind_def io_catch_def io_return_def)

lemma replies_bound:
  assumes "locateHandler d (fst req) = Some f" "f s (snd req) = io_bind cb (\<lambda>j. io_return (reply j))"
  shows "replies m ops d s req cb reply"
  using assms by (cases req) (auto simp: replies_def call_of_def dispatch_def dispatch_call_def io_bind_def io_catch_def io_return_def)

lemma io_bind_return: "io_bind (io_bind a (\<lambda>x. io_return (g x))) (\<lambda>r. io_return (h r)) = io_bind a (\<lambda>x. io_return (h (g x)))"
  by (auto simp: io_bind_def fun_eq_iff split: prod.splits sum.splits)

text \<open>
  What one node asks of another reaches the callbacks registered there, through the dispatcher: \<^verbatim>\<open>createStream\<close> runs the
  callback with the same URI and frame id, \<^verbatim>\<open>setConfig\<close> with the same path and the value that JSON reads from the
  text of the value, and the reply to \<^verbatim>\<open>getConfig\<close> and \<^verbatim>\<open>details\<close> is read as the value that JSON reads from the text
  of what the callback returned.
\<close>

theorem node_requests_served:
  assumes laws: "node_codec_laws m c" and n: "node_peer n = Some p"
    and bound: "onCreateStream m c cb_create d = Inr d1" "onSetConfig m c cb_set d1 = Inr d2" "onGetConfig m c cb_get d2 = Inr d3"
      "onNodeDetails m c cb_details d3 = Inr d4"
  shows "(\<exists>req. node_createStream c uri i n = Inr (p, req) \<and> runs m ops d4 s req (cb_create uri i))
    \<and> (\<exists>req. node_setConfig c path v n = Inr (p, req) \<and> (\<forall>v'. parse_json c (dump c v) = Inr v' \<longrightarrow> runs m ops d4 s req (cb_set path v')))
    \<and> (\<exists>req read reply. node_getConfig c path n = Inr ((p, req), read) \<and> replies m ops d4 s req (cb_get path) reply
        \<and> (\<forall>j. read (reply j) = parse_json c (dump c j)))
    \<and> (\<exists>req read reply. node_details c n = Inr ((p, req), read) \<and> replies m ops d4 s req cb_details reply
        \<and> (\<forall>j. read (reply j) = parse_json c (dump c j)))"
proof -
  note b = bound [unfolded handler_defs]
  have neq: "''update_cfg'' \<noteq> ''create_stream''" "''get_cfg'' \<noteq> ''create_stream''" "''node_details'' \<noteq> ''create_stream''"
    "''get_cfg'' \<noteq> ''update_cfg''" "''node_details'' \<noteq> ''update_cfg''" "''node_details'' \<noteq> ''get_cfg''" by simp_all
  note at = table.lookup_last [OF b(1)] table.lookup_last [OF b(2)] table.lookup_last [OF b(3)] table.lookup_last [OF b(4)]
    table.lookup_before [OF b(2)] table.lookup_before [OF b(3)] table.lookup_before [OF b(4)] neq
  have "runs m ops d4 s (''create_stream'', pack_str_ints c uri (uint (frameset i)) (uint (source i))) (cb_create uri i)"
    by (rule runs_bound, simp add: at) (use laws in \<open>simp add: enforce_arg_count_def convert_def node_codec_laws_def mk_frameset_source\<close>)
  moreover have "runs m ops d4 s (''update_cfg'', pack_str2 c path (dump c v)) (cb_set path v')" if "parse_json c (dump c v) = Inr v'" for v'
    by (rule runs_bound, simp add: at) (use laws that in \<open>simp add: enforce_arg_count_def convert_def node_codec_laws_def\<close>)
  moreover have "replies m ops d4 s (''get_cfg'', pack_str c path) (cb_get path) (\<lambda>j. obj_of_string c (dump c j))"
    by (rule replies_bound, simp add: at) (use laws in \<open>simp add: enforce_arg_count_def convert_def node_codec_laws_def io_bind_return\<close>)
  moreover have "replies m ops d4 s (''node_details'', pack_none c) cb_details (\<lambda>j. obj_of_strings c [dump c j])"
    by (rule replies_bound, simp add: at) (use laws in \<open>simp add: enforce_arg_count_def convert_def node_codec_laws_def io_bind_return\<close>)
  moreover have "string_of_obj c (obj_of_string c a) = Some a" "strings_of_obj c (obj_of_strings c [a]) = Some [a]" for a
    using laws by (simp_all add: node_codec_laws_def)
  ultimately show ?thesis using n
    by (auto simp: node_createStream_def node_setConfig_def node_getConfig_def node_details_def with_peer_def)
qed

section \<open>Null nodes and padded lists\<close>

text \<open>
  For an identifier that no peer has, \<^verbatim>\<open>getNode\<close> gives a node and not a null pointer, and every use of it is a
  call through a null pointer.
\<close>

theorem missing_node:
  assumes "getPeer i u = Inr None"
  shows "\<exists>n. getNode i u = Inr n \<and> node_isConnected n u = Inl Undefined_behaviour \<and> node_status n u = Inl Undefined_behaviour
    \<and> node_isValid n u = Inl Undefined_behaviour \<and> node_id n u = Inl Undefined_behaviour"
  using assms by (simp add: getNode_def with_peer_def node_isConnected_def node_status_def node_isValid_def node_id_def)

lemma push_parsed_all: "list_all2 (\<lambda>r j. json_parse c r = Some j) rs js \<Longrightarrow> push_parsed c rs ks = Inr (ks @ js)"
  by (induction arbitrary: ks rule: list_all2_induct) (simp_all add: parse_json_def)

text \<open>The details of all nodes are preceded by as many null values as there are answers.\<close>

theorem details_padded:
  assumes "findAll ''node_details'' fs = Inr rs" "list_all2 (\<lambda>r j. json_parse c r = Some j) rs js"
  shows "getAllNodeDetails c fs = Inr (replicate (length js) (json_null c) @ js)"
  using assms push_parsed_all list_all2_lengthD by (fastforce simp: getAllNodeDetails_def)

text \<open>A stream that \<^verbatim>\<open>getStream\<close> opens, \<^verbatim>\<open>createStream\<close> makes of the same kind.\<close>

theorem getStream_createStream:
  assumes "getStream env uri = Inr x"
  shows "(x = Made_net uri False \<and> createStream env uri = Inr (Made_net uri True))
    \<or> (x = Made_file uri False \<and> createStream env uri = Inr (Made_file uri True))"
  using assms by (cases "uri_parse env uri") (auto simp: getStream_def createStream_def split: if_splits)

section \<open>An instance\<close>

datatype ex_node_obj = Ex_args "string list" "int list" | Ex_notify string ex_node_obj

primrec ex_array_size :: "ex_node_obj \<Rightarrow> nat" where
  "ex_array_size (Ex_args as ks) = length as + length ks"
| "ex_array_size (Ex_notify name args) = 3"

primrec ex_to_notification :: "ex_node_obj \<Rightarrow> (int \<times> string \<times> ex_node_obj) option" where
  "ex_to_notification (Ex_args as ks) = None"
| "ex_to_notification (Ex_notify name args) = Some (2, name, args)"

primrec ex_strings :: "ex_node_obj \<Rightarrow> string list" where
  "ex_strings (Ex_args as ks) = as"
| "ex_strings (Ex_notify name args) = []"

primrec ex_ints :: "ex_node_obj \<Rightarrow> int list" where
  "ex_ints (Ex_args as ks) = ks"
| "ex_ints (Ex_notify name args) = []"

definition ex_node_msgpack :: "ex_node_obj msgpack" where
  "ex_node_msgpack = \<lparr>array_size = ex_array_size, first_i64 = \<lambda>_. 0, elem_types = \<lambda>_. [], to_call = \<lambda>_. None,
     to_notification = ex_to_notification, to_response = \<lambda>_. None, to_string_obj = \<lambda>_. None, of_string_obj = \<lambda>s. Ex_args [s] [], nil_obj = Ex_args [] [],
     is_nil = \<lambda>x. x = Ex_args [] []\<rparr>"

definition ex_codec :: "(ex_node_obj, string) node_codec" where
  "ex_codec = \<lparr>pack_none = Ex_args [] [], pack_str = \<lambda>a. Ex_args [a] [], pack_str2 = \<lambda>a b. Ex_args [a, b] [], pack_str_ints = \<lambda>a k l. Ex_args [a] [k, l],
     unpack_str = \<lambda>x. (case ex_strings x of [a] \<Rightarrow> Some a | _ \<Rightarrow> None), unpack_str2 = \<lambda>x. (case ex_strings x of [a, b] \<Rightarrow> Some (a, b) | _ \<Rightarrow> None),
     unpack_str_ints = \<lambda>x. (case (ex_strings x, ex_ints x) of ([a], [k, l]) \<Rightarrow> Some (a, k, l) | _ \<Rightarrow> None), obj_of_string = \<lambda>a. Ex_args [a] [],
     string_of_obj = \<lambda>x. (case ex_strings x of [a] \<Rightarrow> Some a | _ \<Rightarrow> None), obj_of_strings = \<lambda>as. Ex_args as [], strings_of_obj = \<lambda>x. Some (ex_strings x),
     dump = \<lambda>j. j, json_parse = Some, json_null = ''null''\<rparr>"

lemma ex_codec_laws: "node_codec_laws ex_node_msgpack ex_codec"
  by (simp add: node_codec_laws_def ex_codec_def ex_node_msgpack_def)

theorem node_requests_served_witness:
  "\<exists>d1 d2 d3 d4 :: (nat, ex_node_obj, (string \<times> FrameID) list) Dispatcher.
     onCreateStream ex_node_msgpack ex_codec (\<lambda>uri i w. (Inr (), w @ [(uri, i)])) (new_Dispatcher None) = Inr d1
     \<and> onSetConfig ex_node_msgpack ex_codec (\<lambda>path v w. (Inr (), w)) d1 = Inr d2
     \<and> onGetConfig ex_node_msgpack ex_codec (\<lambda>path w. (Inr (path @ ''!''), w)) d2 = Inr d3
     \<and> onNodeDetails ex_node_msgpack ex_codec (\<lambda>w. (Inr ''me'', w)) d3 = Inr d4
     \<and> dispatch ex_node_msgpack \<lparr>p_dispatchResponse = \<lambda>_ _ _ _. io_return (), p_sendResponse = \<lambda>_ _ _. io_return (), p_sendErrorResponse = \<lambda>_ _ _. io_return ()\<rparr> d4 0
         (Ex_notify ''create_stream'' (Ex_args [''ftl://a''] [2, 1])) [] = (Inr (), [(''ftl://a'', 513)])"
proof -
  let ?cr = "\<lambda>uri i w. (Inr (), w @ [(uri, i)])" and ?set = "\<lambda>path v w. (Inr (), w)"
  let ?get = "\<lambda>path w. (Inr (path @ ''!''), w)" and ?det = "\<lambda>w. (Inr ''me'', w)"
  let ?ops = "\<lparr>p_dispatchResponse = \<lambda>_ _ _ _. io_return (), p_sendResponse = \<lambda>_ _ _. io_return (), p_sendErrorResponse = \<lambda>_ _ _. io_return ()\<rparr>"
  obtain d1 :: "(nat, ex_node_obj, (string \<times> FrameID) list) Dispatcher" where d1: "onCreateStream ex_node_msgpack ex_codec ?cr (new_Dispatcher None) = Inr d1"
      "funcs d1 ''update_cfg'' = None" "funcs d1 ''get_cfg'' = None" "funcs d1 ''node_details'' = None"
    by (simp add: handler_defs bind_adaptor_cases isBound_def new_Dispatcher_def)
  obtain d2 where d2: "onSetConfig ex_node_msgpack ex_codec ?set d1 = Inr d2" "funcs d2 ''get_cfg'' = None" "funcs d2 ''node_details'' = None"
    using d1 by (simp add: handler_defs bind_adaptor_cases isBound_def)
  obtain d3 where d3: "onGetConfig ex_node_msgpack ex_codec ?get d2 = Inr d3" "funcs d3 ''node_details'' = None"
    using d2 by (simp add: handler_defs bind_adaptor_cases isBound_def)
  obtain d4 where d4: "onNodeDetails ex_node_msgpack ex_codec ?det d3 = Inr d4"
    using d3 by (simp add: handler_defs bind_adaptor_cases isBound_def)
  have "node_createStream ex_codec ''ftl://a'' 513 \<lparr>node_peer = Some 4\<rparr> = Inr (4, ''create_stream'', Ex_args [''ftl://a''] [2, 1])"
    by (simp add: node_createStream_def with_peer_def ex_codec_def frameset_def source_def)
  with node_requests_served [OF ex_codec_laws _ d1(1) d2(1) d3(1) d4, of "\<lparr>node_peer = Some 4\<rparr>" 4 "''ftl://a''" 513 ?ops 0 "[]" "[]"]
  have "runs ex_node_msgpack ?ops d4 0 (''create_stream'', Ex_args [''ftl://a''] [2, 1]) (?cr ''ftl://a'' 513)" by auto
  moreover have "notification_of ex_node_msgpack (Ex_notify ''create_stream'' (Ex_args [''ftl://a''] [2, 1])) (''create_stream'', Ex_args [''ftl://a''] [2, 1])"
    by (simp add: notification_of_def ex_node_msgpack_def)
  ultimately show ?thesis using d1(1) d2(1) d3(1) d4 unfolding runs_def by auto
qed

end
